(* ===== verification/Prelude.thy ===== *)
theory Prelude
  imports Main "HOL-Library.Word"
begin

text \<open>
  What the components share: the machine types of the C++ sources, the ways a C++ routine can end
  other than by returning (\<open>cxx_exit\<close>), checked reads from a vector, little-endian byte strings,
  and the lemmas on lists, words and maps that several components use.
\<close>

unbundle bit_operations_syntax

subsection \<open>Machine types\<close>

type_synonym byte = "8 word"
type_synonym bytes = "8 word list"
type_synonym u32 = "32 word"
type_synonym u64 = "64 word"

text \<open>
  A C++ \<open>int\<close>, \<open>int64_t\<close> or \<open>size_t\<close> whose arithmetic the code keeps in range is an \<open>int\<close> or a
  \<open>nat\<close>, and the range is a predicate, so that a theorem can say that no signed overflow (which
  is undefined behaviour) happens. Values that are meant to wrap are words.
\<close>

definition int64_max :: int where "int64_max = 9223372036854775807"
definition int64_min :: int where "int64_min = -9223372036854775808"
definition int32_max :: int where "int32_max = 2147483647"
definition int32_min :: int where "int32_min = -2147483648"

definition in_int64 :: "int \<Rightarrow> bool" where
  "in_int64 n \<longleftrightarrow> int64_min \<le> n \<and> n \<le> int64_max"

lemmas int_ranges = int64_max_def int64_min_def int32_max_def int32_min_def in_int64_def

text \<open>Division of C++ integers truncates towards zero.\<close>

definition cdiv :: "int \<Rightarrow> int \<Rightarrow> int" where
  "cdiv a b = sgn a * sgn b * (\<bar>a\<bar> div \<bar>b\<bar>)"

definition cmod :: "int \<Rightarrow> int \<Rightarrow> int" where
  "cmod a b = a - b * cdiv a b"

lemma cdiv_nonneg: "0 \<le> a \<Longrightarrow> 0 < b \<Longrightarrow> cdiv a b = a div b"
  by (cases "a = 0") (simp_all add: cdiv_def)

lemma cmod_nonneg: "0 \<le> a \<Longrightarrow> 0 < b \<Longrightarrow> cmod a b = a mod b"
  by (simp add: cmod_def cdiv_nonneg minus_mult_div_eq_mod)

subsection \<open>Lists\<close>

text \<open>\<open>vget\<close> is the unchecked \<open>v[i]\<close> of a vector: out of range it is \<open>None\<close>, undefined behaviour.\<close>

definition vget :: "'a list \<Rightarrow> nat \<Rightarrow> 'a option" where
  "vget xs i = (if i < length xs then Some (xs ! i) else None)"

lemma vget_Some_iff: "vget xs i = Some x \<longleftrightarrow> i < length xs \<and> xs ! i = x"
  by (auto simp: vget_def)

lemma vget_in_range [simp]: "i < length xs \<Longrightarrow> vget xs i = Some (xs ! i)"
  by (simp add: vget_def)

lemma vget_out_of_range [simp]: "length xs \<le> i \<Longrightarrow> vget xs i = None"
  by (simp add: vget_def)

lemma Suc_0_le_length [simp]: "Suc 0 \<le> length xs \<longleftrightarrow> xs \<noteq> []"
  by (cases xs) auto

text \<open>Erasing and inserting at an index, as \<open>vector::erase\<close> and \<open>vector::insert\<close> do.\<close>

definition erase_at :: "nat \<Rightarrow> 'a list \<Rightarrow> 'a list" where
  "erase_at i xs = take i xs @ drop (Suc i) xs"

definition insert_at :: "nat \<Rightarrow> 'a \<Rightarrow> 'a list \<Rightarrow> 'a list" where
  "insert_at i x xs = take i xs @ x # drop i xs"

lemma length_erase_at [simp]: "i < length xs \<Longrightarrow> length (erase_at i xs) = length xs - 1"
  by (simp add: erase_at_def)

lemma length_insert_at [simp]: "length (insert_at i x xs) = Suc (length xs)"
  by (simp add: insert_at_def)

lemma set_erase_at: "set (erase_at i xs) \<subseteq> set xs"
  by (auto simp: erase_at_def dest: in_set_takeD in_set_dropD)

lemma set_insert_at: "set (insert_at i x xs) = insert x (set xs)"
  by (metis insert_at_def append_take_drop_id set_append list.set(2) Un_insert_right)

subsection \<open>Little-endian byte strings\<close>

text \<open>
  \<open>le_val\<close> is the number a little-endian byte string stands for; \<open>le_bytes k n\<close> writes \<open>n\<close> in
  \<open>k\<close> bytes, low byte first, as \<open>WriteLE16\<close>, \<open>WriteLE32\<close> and \<open>WriteLE64\<close> do.
\<close>

fun le_val :: "bytes \<Rightarrow> nat" where
  "le_val [] = 0"
| "le_val (b # bs) = unat b + 256 * le_val bs"

fun le_bytes :: "nat \<Rightarrow> nat \<Rightarrow> bytes" where
  "le_bytes 0 n = []"
| "le_bytes (Suc k) n = word_of_nat n # le_bytes k (n div 256)"

lemma unat_byte_less [simp]: "unat (b :: byte) < 256"
  using unsigned_less [of b] by simp

lemma length_le_bytes [simp]: "length (le_bytes k n) = k"
  by (induction k arbitrary: n) auto

lemma unat_word_of_nat_byte [simp]: "unat (word_of_nat n :: byte) = n mod 256"
  by (simp add: unat_of_nat)

lemma le_val_le_bytes: "le_val (le_bytes k n) = n mod 256 ^ k"
proof (induction k arbitrary: n)
  case 0
  show ?case by simp
next
  case (Suc k)
  have "n mod 256 ^ Suc k = n mod 256 + 256 * (n div 256 mod 256 ^ k)"
    by (simp add: mod_mult2_eq)
  with Suc show ?case by simp
qed

lemma le_val_less: "le_val bs < 256 ^ length bs"
proof (induction bs)
  case Nil
  show ?case by simp
next
  case (Cons b bs)
  have "unat b \<le> 255" using unat_byte_less [of b] by linarith
  moreover have "256 * Suc (le_val bs) \<le> 256 * 256 ^ length bs"
    using Cons.IH by (simp only: mult_le_mono2 Suc_leI)
  ultimately show ?case by simp
qed

lemma le_val_append: "le_val (xs @ ys) = le_val xs + 256 ^ length xs * le_val ys"
  by (induction xs) (auto simp: algebra_simps)

lemma le_bytes_le_val: "le_bytes (length bs) (le_val bs) = bs"
proof (induction bs)
  case Nil
  show ?case by simp
next
  case (Cons b bs)
  have "(unat b + 256 * le_val bs) div 256 = le_val bs" by simp
  moreover have "(word_of_nat (unat b + 256 * le_val bs) :: byte) = b"
    using unat_byte_less [of b] by (simp only: word_unat_eq_iff unat_word_of_nat_byte) simp
  ultimately show ?case using Cons.IH by simp
qed

subsection \<open>Single bits of a byte\<close>

lemma odd_div_128: "n < 256 \<Longrightarrow> odd (n div 128) \<longleftrightarrow> 128 \<le> (n :: nat)"
proof -
  assume "n < 256"
  then have "n div 128 < 2" by (simp add: less_mult_imp_div_less)
  then have "n div 128 = 0 \<or> n div 128 = 1" by linarith
  then show ?thesis by (auto simp: div_eq_0_iff)
qed

lemma split_at_128: "n < 256 \<Longrightarrow> n = n mod 128 \<or> n = n mod 128 + (128 :: nat)"
proof -
  assume "n < 256"
  then have "n div 128 < 2" by (simp add: less_mult_imp_div_less)
  then have "n div 128 = 0 \<or> n div 128 = 1" by linarith
  then show ?thesis using div_mult_mod_eq [of n 128] by linarith
qed

lemma byte_and_128: "(b :: byte) AND 0x80 \<noteq> 0 \<longleftrightarrow> 128 \<le> unat b"
proof -
  have "b AND 0x80 \<noteq> 0 \<longleftrightarrow> bit b 7"
    by (simp add: bit_iff_and_push_bit_not_eq_0)
  also have "\<dots> \<longleftrightarrow> bit (unat b) 7"
    by (simp add: bit_unsigned_iff)
  also have "\<dots> \<longleftrightarrow> odd (unat b div 2 ^ 7)"
    by (rule bit_iff_odd)
  also have "unat b div 2 ^ 7 = unat b div 128"
    by simp
  also have "odd (unat b div 128) \<longleftrightarrow> 128 \<le> unat b"
    by (rule odd_div_128) simp
  finally show ?thesis .
qed

lemma byte_and_128_zero: "(b :: byte) AND 0x80 = 0 \<longleftrightarrow> unat b < 128"
  using byte_and_128 [of b] by linarith

lemma byte_and_127: "(b :: byte) AND 0x7f = 0 \<longleftrightarrow> unat b mod 128 = 0"
proof -
  have "b AND 0x7f = take_bit 7 b"
    by (simp add: take_bit_eq_mask mask_eq_exp_minus_1)
  then have "unat (b AND 0x7f) = take_bit 7 (unat b)"
    by (simp only: unsigned_take_bit_eq)
  then show ?thesis
    by (simp add: take_bit_eq_mod flip: unat_eq_zero)
qed

lemma byte_or_128: "unat (b :: byte) < 128 \<Longrightarrow> unat (b OR 0x80) = unat b + 128"
proof -
  assume less: "unat b < 128"
  have "b AND 0x80 = 0"
    using byte_and_128 [of b] less by auto
  then have "unat (b + 0x80) = unat (b OR 0x80)"
    by (simp add: disjunctive_add_eq_or)
  then show ?thesis
    using less by (simp add: unat_word_ariths)
qed

subsection \<open>Bits of integers\<close>

lemma or_disjoint_add_int:
  assumes "0 \<le> r" and "r < 2 ^ k"
  shows "r OR push_bit k c = r + 2 ^ k * (c :: int)"
proof -
  have "r OR push_bit k c = take_bit k r OR push_bit k c"
    using assms by (simp add: take_bit_int_eq_self)
  also have "\<dots> = r + 2 ^ k * c"
    using assms concat_bit_eq [of k r c]
    by (simp add: concat_bit_def take_bit_int_eq_self push_bit_eq_mult mult.commute)
  finally show ?thesis .
qed

lemma clear_top_bit_int:
  assumes "2 ^ k \<le> r" and "r < 2 ^ Suc k"
  shows "r AND NOT (2 ^ k) = r - (2 ^ k :: int)"
proof -
  have "r div 2 ^ k = 1"
    using assms by (intro int_div_pos_eq [where r = "r - 2 ^ k"]) simp_all
  then have "odd (r div 2 ^ k)"
    by simp
  then have "bit r k"
    by (rule bit_iff_odd [THEN iffD2])
  then have "NOT r AND 2 ^ k = 0"
    by (simp add: and_exp_eq_0_iff_not_bit bit_not_iff)
  then show ?thesis
    by (rule disjunctive_diff_eq_and_not [symmetric])
qed

lemma or_disjoint_add_nat:
  assumes "r < 2 ^ k"
  shows "r OR push_bit k c = r + 2 ^ k * (c :: nat)"
proof -
  have "int (r OR push_bit k c) = int r OR push_bit k (int c)"
    by (simp add: of_nat_or_eq of_nat_push_bit)
  also have "\<dots> = int r + 2 ^ k * int c"
    using assms by (intro or_disjoint_add_int) (simp_all flip: of_nat_less_iff)
  finally have "int (r OR push_bit k c) = int (r + 2 ^ k * c)" by simp
  then show ?thesis by (simp only: of_nat_eq_iff)
qed

lemma and_127_nat: "(n :: nat) AND 0x7F = n mod 128"
proof -
  have "n AND 0x7F = n AND mask 7" by (simp add: mask_eq_exp_minus_1)
  also have "\<dots> = take_bit 7 n" by (rule take_bit_eq_mask [symmetric])
  finally show ?thesis by (simp add: take_bit_eq_mod)
qed

lemma and_128_nat: "n < 256 \<Longrightarrow> (n :: nat) AND 0x80 \<noteq> 0 \<longleftrightarrow> 128 \<le> n"
proof -
  assume n: "n < 256"
  have "n AND 0x80 = 0 \<longleftrightarrow> \<not> bit n 7"
    using and_exp_eq_0_iff_not_bit [of n 7] by simp
  moreover have "bit n 7 \<longleftrightarrow> odd (n div 2 ^ 7)" by (rule bit_iff_odd)
  ultimately show ?thesis using odd_div_128 [OF n] by simp
qed

end
