(* ===== verification/Opcodes.thy ===== *)
theory Opcodes
  imports Prelude
begin

text \<open>
  The vocabulary of the script language: the enumeration \<open>opcodetype\<close> of script/script.h with the
  names \<open>GetOpName\<close> prints, the limits of script.h, the error codes of script/script_error.h with
  their texts, and the ways an evaluation can end.

  An \<open>opcodetype\<close> of the C++ is an integer: any byte read from a script is cast to it and compared
  with \<open><\<close> and \<open>\<le>\<close>, whether or not the enumeration names it. It is a \<open>nat\<close> here, and the
  enumerators are abbreviations of their values.
\<close>

type_synonym opcodetype = nat

abbreviation (input) OP_0 :: opcodetype where "OP_0 \<equiv> 0"
abbreviation (input) OP_FALSE :: opcodetype where "OP_FALSE \<equiv> OP_0"
abbreviation (input) OP_PUSHDATA1 :: opcodetype where "OP_PUSHDATA1 \<equiv> 76"
abbreviation (input) OP_PUSHDATA2 :: opcodetype where "OP_PUSHDATA2 \<equiv> 77"
abbreviation (input) OP_PUSHDATA4 :: opcodetype where "OP_PUSHDATA4 \<equiv> 78"
abbreviation (input) OP_1NEGATE :: opcodetype where "OP_1NEGATE \<equiv> 79"
abbreviation (input) OP_RESERVED :: opcodetype where "OP_RESERVED \<equiv> 80"
abbreviation (input) OP_1 :: opcodetype where "OP_1 \<equiv> 81"
abbreviation (input) OP_TRUE :: opcodetype where "OP_TRUE \<equiv> OP_1"
abbreviation (input) OP_2 :: opcodetype where "OP_2 \<equiv> 82"
abbreviation (input) OP_3 :: opcodetype where "OP_3 \<equiv> 83"
abbreviation (input) OP_4 :: opcodetype where "OP_4 \<equiv> 84"
abbreviation (input) OP_5 :: opcodetype where "OP_5 \<equiv> 85"
abbreviation (input) OP_6 :: opcodetype where "OP_6 \<equiv> 86"
abbreviation (input) OP_7 :: opcodetype where "OP_7 \<equiv> 87"
abbreviation (input) OP_8 :: opcodetype where "OP_8 \<equiv> 88"
abbreviation (input) OP_9 :: opcodetype where "OP_9 \<equiv> 89"
abbreviation (input) OP_10 :: opcodetype where "OP_10 \<equiv> 90"
abbreviation (input) OP_11 :: opcodetype where "OP_11 \<equiv> 91"
abbreviation (input) OP_12 :: opcodetype where "OP_12 \<equiv> 92"
abbreviation (input) OP_13 :: opcodetype where "OP_13 \<equiv> 93"
abbreviation (input) OP_14 :: opcodetype where "OP_14 \<equiv> 94"
abbreviation (input) OP_15 :: opcodetype where "OP_15 \<equiv> 95"
abbreviation (input) OP_16 :: opcodetype where "OP_16 \<equiv> 96"
abbreviation (input) OP_NOP :: opcodetype where "OP_NOP \<equiv> 97"
abbreviation (input) OP_VER :: opcodetype where "OP_VER \<equiv> 98"
abbreviation (input) OP_IF :: opcodetype where "OP_IF \<equiv> 99"
abbreviation (input) OP_NOTIF :: opcodetype where "OP_NOTIF \<equiv> 100"
abbreviation (input) OP_VERIF :: opcodetype where "OP_VERIF \<equiv> 101"
abbreviation (input) OP_VERNOTIF :: opcodetype where "OP_VERNOTIF \<equiv> 102"
abbreviation (input) OP_ELSE :: opcodetype where "OP_ELSE \<equiv> 103"
abbreviation (input) OP_ENDIF :: opcodetype where "OP_ENDIF \<equiv> 104"
abbreviation (input) OP_VERIFY :: opcodetype where "OP_VERIFY \<equiv> 105"
abbreviation (input) OP_RETURN :: opcodetype where "OP_RETURN \<equiv> 106"
abbreviation (input) OP_TOALTSTACK :: opcodetype where "OP_TOALTSTACK \<equiv> 107"
abbreviation (input) OP_FROMALTSTACK :: opcodetype where "OP_FROMALTSTACK \<equiv> 108"
abbreviation (input) OP_2DROP :: opcodetype where "OP_2DROP \<equiv> 109"
abbreviation (input) OP_2DUP :: opcodetype where "OP_2DUP \<equiv> 110"
abbreviation (input) OP_3DUP :: opcodetype where "OP_3DUP \<equiv> 111"
abbreviation (input) OP_2OVER :: opcodetype where "OP_2OVER \<equiv> 112"
abbreviation (input) OP_2ROT :: opcodetype where "OP_2ROT \<equiv> 113"
abbreviation (input) OP_2SWAP :: opcodetype where "OP_2SWAP \<equiv> 114"
abbreviation (input) OP_IFDUP :: opcodetype where "OP_IFDUP \<equiv> 115"
abbreviation (input) OP_DEPTH :: opcodetype where "OP_DEPTH \<equiv> 116"
abbreviation (input) OP_DROP :: opcodetype where "OP_DROP \<equiv> 117"
abbreviation (input) OP_DUP :: opcodetype where "OP_DUP \<equiv> 118"
abbreviation (input) OP_NIP :: opcodetype where "OP_NIP \<equiv> 119"
abbreviation (input) OP_OVER :: opcodetype where "OP_OVER \<equiv> 120"
abbreviation (input) OP_PICK :: opcodetype where "OP_PICK \<equiv> 121"
abbreviation (input) OP_ROLL :: opcodetype where "OP_ROLL \<equiv> 122"
abbreviation (input) OP_ROT :: opcodetype where "OP_ROT \<equiv> 123"
abbreviation (input) OP_SWAP :: opcodetype where "OP_SWAP \<equiv> 124"
abbreviation (input) OP_TUCK :: opcodetype where "OP_TUCK \<equiv> 125"
abbreviation (input) OP_CAT :: opcodetype where "OP_CAT \<equiv> 126"
abbreviation (input) OP_SUBSTR :: opcodetype where "OP_SUBSTR \<equiv> 127"
abbreviation (input) OP_LEFT :: opcodetype where "OP_LEFT \<equiv> 128"
abbreviation (input) OP_RIGHT :: opcodetype where "OP_RIGHT \<equiv> 129"
abbreviation (input) OP_SIZE :: opcodetype where "OP_SIZE \<equiv> 130"
abbreviation (input) OP_INVERT :: opcodetype where "OP_INVERT \<equiv> 131"
abbreviation (input) OP_AND :: opcodetype where "OP_AND \<equiv> 132"
abbreviation (input) OP_OR :: opcodetype where "OP_OR \<equiv> 133"
abbreviation (input) OP_XOR :: opcodetype where "OP_XOR \<equiv> 134"
abbreviation (input) OP_EQUAL :: opcodetype where "OP_EQUAL \<equiv> 135"
abbreviation (input) OP_EQUALVERIFY :: opcodetype where "OP_EQUALVERIFY \<equiv> 136"
abbreviation (input) OP_RESERVED1 :: opcodetype where "OP_RESERVED1 \<equiv> 137"
abbreviation (input) OP_RESERVED2 :: opcodetype where "OP_RESERVED2 \<equiv> 138"
abbreviation (input) OP_1ADD :: opcodetype where "OP_1ADD \<equiv> 139"
abbreviation (input) OP_1SUB :: opcodetype where "OP_1SUB \<equiv> 140"
abbreviation (input) OP_2MUL :: opcodetype where "OP_2MUL \<equiv> 141"
abbreviation (input) OP_2DIV :: opcodetype where "OP_2DIV \<equiv> 142"
abbreviation (input) OP_NEGATE :: opcodetype where "OP_NEGATE \<equiv> 143"
abbreviation (input) OP_ABS :: opcodetype where "OP_ABS \<equiv> 144"
abbreviation (input) OP_NOT :: opcodetype where "OP_NOT \<equiv> 145"
abbreviation (input) OP_0NOTEQUAL :: opcodetype where "OP_0NOTEQUAL \<equiv> 146"
abbreviation (input) OP_ADD :: opcodetype where "OP_ADD \<equiv> 147"
abbreviation (input) OP_SUB :: opcodetype where "OP_SUB \<equiv> 148"
abbreviation (input) OP_MUL :: opcodetype where "OP_MUL \<equiv> 149"
abbreviation (input) OP_DIV :: opcodetype where "OP_DIV \<equiv> 150"
abbreviation (input) OP_MOD :: opcodetype where "OP_MOD \<equiv> 151"
abbreviation (input) OP_LSHIFT :: opcodetype where "OP_LSHIFT \<equiv> 152"
abbreviation (input) OP_RSHIFT :: opcodetype where "OP_RSHIFT \<equiv> 153"
abbreviation (input) OP_BOOLAND :: opcodetype where "OP_BOOLAND \<equiv> 154"
abbreviation (input) OP_BOOLOR :: opcodetype where "OP_BOOLOR \<equiv> 155"
abbreviation (input) OP_NUMEQUAL :: opcodetype where "OP_NUMEQUAL \<equiv> 156"
abbreviation (input) OP_NUMEQUALVERIFY :: opcodetype where "OP_NUMEQUALVERIFY \<equiv> 157"
abbreviation (input) OP_NUMNOTEQUAL :: opcodetype where "OP_NUMNOTEQUAL \<equiv> 158"
abbreviation (input) OP_LESSTHAN :: opcodetype where "OP_LESSTHAN \<equiv> 159"
abbreviation (input) OP_GREATERTHAN :: opcodetype where "OP_GREATERTHAN \<equiv> 160"
abbreviation (input) OP_LESSTHANOREQUAL :: opcodetype where "OP_LESSTHANOREQUAL \<equiv> 161"
abbreviation (input) OP_GREATERTHANOREQUAL :: opcodetype where "OP_GREATERTHANOREQUAL \<equiv> 162"
abbreviation (input) OP_MIN :: opcodetype where "OP_MIN \<equiv> 163"
abbreviation (input) OP_MAX :: opcodetype where "OP_MAX \<equiv> 164"
abbreviation (input) OP_WITHIN :: opcodetype where "OP_WITHIN \<equiv> 165"
abbreviation (input) OP_RIPEMD160 :: opcodetype where "OP_RIPEMD160 \<equiv> 166"
abbreviation (input) OP_SHA1 :: opcodetype where "OP_SHA1 \<equiv> 167"
abbreviation (input) OP_SHA256 :: opcodetype where "OP_SHA256 \<equiv> 168"
abbreviation (input) OP_HASH160 :: opcodetype where "OP_HASH160 \<equiv> 169"
abbreviation (input) OP_HASH256 :: opcodetype where "OP_HASH256 \<equiv> 170"
abbreviation (input) OP_CODESEPARATOR :: opcodetype where "OP_CODESEPARATOR \<equiv> 171"
abbreviation (input) OP_CHECKSIG :: opcodetype where "OP_CHECKSIG \<equiv> 172"
abbreviation (input) OP_CHECKSIGVERIFY :: opcodetype where "OP_CHECKSIGVERIFY \<equiv> 173"
abbreviation (input) OP_CHECKMULTISIG :: opcodetype where "OP_CHECKMULTISIG \<equiv> 174"
abbreviation (input) OP_CHECKMULTISIGVERIFY :: opcodetype where "OP_CHECKMULTISIGVERIFY \<equiv> 175"
abbreviation (input) OP_NOP1 :: opcodetype where "OP_NOP1 \<equiv> 176"
abbreviation (input) OP_CHECKLOCKTIMEVERIFY :: opcodetype where "OP_CHECKLOCKTIMEVERIFY \<equiv> 177"
abbreviation (input) OP_NOP2 :: opcodetype where "OP_NOP2 \<equiv> OP_CHECKLOCKTIMEVERIFY"
abbreviation (input) OP_CHECKSEQUENCEVERIFY :: opcodetype where "OP_CHECKSEQUENCEVERIFY \<equiv> 178"
abbreviation (input) OP_NOP3 :: opcodetype where "OP_NOP3 \<equiv> OP_CHECKSEQUENCEVERIFY"
abbreviation (input) OP_NOP4 :: opcodetype where "OP_NOP4 \<equiv> 179"
abbreviation (input) OP_NOP5 :: opcodetype where "OP_NOP5 \<equiv> 180"
abbreviation (input) OP_NOP6 :: opcodetype where "OP_NOP6 \<equiv> 181"
abbreviation (input) OP_NOP7 :: opcodetype where "OP_NOP7 \<equiv> 182"
abbreviation (input) OP_NOP8 :: opcodetype where "OP_NOP8 \<equiv> 183"
abbreviation (input) OP_NOP9 :: opcodetype where "OP_NOP9 \<equiv> 184"
abbreviation (input) OP_NOP10 :: opcodetype where "OP_NOP10 \<equiv> 185"
abbreviation (input) OP_SMALLINTEGER :: opcodetype where "OP_SMALLINTEGER \<equiv> 250"
abbreviation (input) OP_PUBKEYS :: opcodetype where "OP_PUBKEYS \<equiv> 251"
abbreviation (input) OP_PUBKEYHASH :: opcodetype where "OP_PUBKEYHASH \<equiv> 253"
abbreviation (input) OP_PUBKEY :: opcodetype where "OP_PUBKEY \<equiv> 254"
abbreviation (input) OP_INVALIDOPCODE :: opcodetype where "OP_INVALIDOPCODE \<equiv> 255"

abbreviation (input) MAX_SCRIPT_ELEMENT_SIZE :: nat where "MAX_SCRIPT_ELEMENT_SIZE \<equiv> 520"
abbreviation (input) MAX_OPS_PER_SCRIPT :: int where "MAX_OPS_PER_SCRIPT \<equiv> 201"
abbreviation (input) MAX_PUBKEYS_PER_MULTISIG :: int where "MAX_PUBKEYS_PER_MULTISIG \<equiv> 20"
abbreviation (input) LOCKTIME_THRESHOLD :: int where "LOCKTIME_THRESHOLD \<equiv> 500000000"

subsection \<open>Names\<close>

definition opcode_names :: "(opcodetype \<times> string) list" where
  "opcode_names = [
    (OP_0, ''0''),
    (OP_PUSHDATA1, ''OP_PUSHDATA1''),
    (OP_PUSHDATA2, ''OP_PUSHDATA2''),
    (OP_PUSHDATA4, ''OP_PUSHDATA4''),
    (OP_1NEGATE, ''-1''),
    (OP_RESERVED, ''OP_RESERVED''),
    (OP_1, ''1''),
    (OP_2, ''2''),
    (OP_3, ''3''),
    (OP_4, ''4''),
    (OP_5, ''5''),
    (OP_6, ''6''),
    (OP_7, ''7''),
    (OP_8, ''8''),
    (OP_9, ''9''),
    (OP_10, ''10''),
    (OP_11, ''11''),
    (OP_12, ''12''),
    (OP_13, ''13''),
    (OP_14, ''14''),
    (OP_15, ''15''),
    (OP_16, ''16''),
    (OP_NOP, ''OP_NOP''),
    (OP_VER, ''OP_VER''),
    (OP_IF, ''OP_IF''),
    (OP_NOTIF, ''OP_NOTIF''),
    (OP_VERIF, ''OP_VERIF''),
    (OP_VERNOTIF, ''OP_VERNOTIF''),
    (OP_ELSE, ''OP_ELSE''),
    (OP_ENDIF, ''OP_ENDIF''),
    (OP_VERIFY, ''OP_VERIFY''),
    (OP_RETURN, ''OP_RETURN''),
    (OP_TOALTSTACK, ''OP_TOALTSTACK''),
    (OP_FROMALTSTACK, ''OP_FROMALTSTACK''),
    (OP_2DROP, ''OP_2DROP''),
    (OP_2DUP, ''OP_2DUP''),
    (OP_3DUP, ''OP_3DUP''),
    (OP_2OVER, ''OP_2OVER''),
    (OP_2ROT, ''OP_2ROT''),
    (OP_2SWAP, ''OP_2SWAP''),
    (OP_IFDUP, ''OP_IFDUP''),
    (OP_DEPTH, ''OP_DEPTH''),
    (OP_DROP, ''OP_DROP''),
    (OP_DUP, ''OP_DUP''),
    (OP_NIP, ''OP_NIP''),
    (OP_OVER, ''OP_OVER''),
    (OP_PICK, ''OP_PICK''),
    (OP_ROLL, ''OP_ROLL''),
    (OP_ROT, ''OP_ROT''),
    (OP_SWAP, ''OP_SWAP''),
    (OP_TUCK, ''OP_TUCK''),
    (OP_CAT, ''OP_CAT''),
    (OP_SUBSTR, ''OP_SUBSTR''),
    (OP_LEFT, ''OP_LEFT''),
    (OP_RIGHT, ''OP_RIGHT''),
    (OP_SIZE, ''OP_SIZE''),
    (OP_INVERT, ''OP_INVERT''),
    (OP_AND, ''OP_AND''),
    (OP_OR, ''OP_OR''),
    (OP_XOR, ''OP_XOR''),
    (OP_EQUAL, ''OP_EQUAL''),
    (OP_EQUALVERIFY, ''OP_EQUALVERIFY''),
    (OP_RESERVED1, ''OP_RESERVED1''),
    (OP_RESERVED2, ''OP_RESERVED2''),
    (OP_1ADD, ''OP_1ADD''),
    (OP_1SUB, ''OP_1SUB''),
    (OP_2MUL, ''OP_2MUL''),
    (OP_2DIV, ''OP_2DIV''),
    (OP_NEGATE, ''OP_NEGATE''),
    (OP_ABS, ''OP_ABS''),
    (OP_NOT, ''OP_NOT''),
    (OP_0NOTEQUAL, ''OP_0NOTEQUAL''),
    (OP_ADD, ''OP_ADD''),
    (OP_SUB, ''OP_SUB''),
    (OP_MUL, ''OP_MUL''),
    (OP_DIV, ''OP_DIV''),
    (OP_MOD, ''OP_MOD''),
    (OP_LSHIFT, ''OP_LSHIFT''),
    (OP_RSHIFT, ''OP_RSHIFT''),
    (OP_BOOLAND, ''OP_BOOLAND''),
    (OP_BOOLOR, ''OP_BOOLOR''),
    (OP_NUMEQUAL, ''OP_NUMEQUAL''),
    (OP_NUMEQUALVERIFY, ''OP_NUMEQUALVERIFY''),
    (OP_NUMNOTEQUAL, ''OP_NUMNOTEQUAL''),
    (OP_LESSTHAN, ''OP_LESSTHAN''),
    (OP_GREATERTHAN, ''OP_GREATERTHAN''),
    (OP_LESSTHANOREQUAL, ''OP_LESSTHANOREQUAL''),
    (OP_GREATERTHANOREQUAL, ''OP_GREATERTHANOREQUAL''),
    (OP_MIN, ''OP_MIN''),
    (OP_MAX, ''OP_MAX''),
    (OP_WITHIN, ''OP_WITHIN''),
    (OP_RIPEMD160, ''OP_RIPEMD160''),
    (OP_SHA1, ''OP_SHA1''),
    (OP_SHA256, ''OP_SHA256''),
    (OP_HASH160, ''OP_HASH160''),
    (OP_HASH256, ''OP_HASH256''),
    (OP_CODESEPARATOR, ''OP_CODESEPARATOR''),
    (OP_CHECKSIG, ''OP_CHECKSIG''),
    (OP_CHECKSIGVERIFY, ''OP_CHECKSIGVERIFY''),
    (OP_CHECKMULTISIG, ''OP_CHECKMULTISIG''),
    (OP_CHECKMULTISIGVERIFY, ''OP_CHECKMULTISIGVERIFY''),
    (OP_NOP1, ''OP_NOP1''),
    (OP_CHECKLOCKTIMEVERIFY, ''OP_CHECKLOCKTIMEVERIFY''),
    (OP_CHECKSEQUENCEVERIFY, ''OP_CHECKSEQUENCEVERIFY''),
    (OP_NOP4, ''OP_NOP4''),
    (OP_NOP5, ''OP_NOP5''),
    (OP_NOP6, ''OP_NOP6''),
    (OP_NOP7, ''OP_NOP7''),
    (OP_NOP8, ''OP_NOP8''),
    (OP_NOP9, ''OP_NOP9''),
    (OP_NOP10, ''OP_NOP10''),
    (OP_INVALIDOPCODE, ''OP_INVALIDOPCODE'')]"

definition GetOpName :: "opcodetype \<Rightarrow> string" where
  "GetOpName opcode = (case map_of opcode_names opcode of Some s \<Rightarrow> s | None \<Rightarrow> ''OP_UNKNOWN'')"

subsection \<open>Errors and exits\<close>

datatype ScriptError =
    SCRIPT_ERR_OK
  | SCRIPT_ERR_UNKNOWN_ERROR
  | SCRIPT_ERR_EVAL_FALSE
  | SCRIPT_ERR_OP_RETURN
  | SCRIPT_ERR_SCRIPT_SIZE
  | SCRIPT_ERR_PUSH_SIZE
  | SCRIPT_ERR_OP_COUNT
  | SCRIPT_ERR_STACK_SIZE
  | SCRIPT_ERR_SIG_COUNT
  | SCRIPT_ERR_PUBKEY_COUNT
  | SCRIPT_ERR_VERIFY
  | SCRIPT_ERR_EQUALVERIFY
  | SCRIPT_ERR_CHECKMULTISIGVERIFY
  | SCRIPT_ERR_CHECKSIGVERIFY
  | SCRIPT_ERR_NUMEQUALVERIFY
  | SCRIPT_ERR_BAD_OPCODE
  | SCRIPT_ERR_DISABLED_OPCODE
  | SCRIPT_ERR_INVALID_STACK_OPERATION
  | SCRIPT_ERR_INVALID_ALTSTACK_OPERATION
  | SCRIPT_ERR_UNBALANCED_CONDITIONAL
  | SCRIPT_ERR_NEGATIVE_LOCKTIME
  | SCRIPT_ERR_UNSATISFIED_LOCKTIME
  | SCRIPT_ERR_SIG_HASHTYPE
  | SCRIPT_ERR_SIG_DER
  | SCRIPT_ERR_MINIMALDATA
  | SCRIPT_ERR_SIG_PUSHONLY
  | SCRIPT_ERR_SIG_HIGH_S
  | SCRIPT_ERR_SIG_NULLDUMMY
  | SCRIPT_ERR_PUBKEYTYPE
  | SCRIPT_ERR_CLEANSTACK
  | SCRIPT_ERR_DISCOURAGE_UPGRADABLE_NOPS
  | SCRIPT_ERR_ERROR_COUNT

fun ScriptErrorString :: "ScriptError \<Rightarrow> string" where
  "ScriptErrorString SCRIPT_ERR_OK = ''No error''"
| "ScriptErrorString SCRIPT_ERR_EVAL_FALSE = ''Script evaluated without error but finished with a false/empty top stack element''"
| "ScriptErrorString SCRIPT_ERR_VERIFY = ''Script failed an OP_VERIFY operation''"
| "ScriptErrorString SCRIPT_ERR_EQUALVERIFY = ''Script failed an OP_EQUALVERIFY operation''"
| "ScriptErrorString SCRIPT_ERR_CHECKMULTISIGVERIFY = ''Script failed an OP_CHECKMULTISIGVERIFY operation''"
| "ScriptErrorString SCRIPT_ERR_CHECKSIGVERIFY = ''Script failed an OP_CHECKSIGVERIFY operation''"
| "ScriptErrorString SCRIPT_ERR_NUMEQUALVERIFY = ''Script failed an OP_NUMEQUALVERIFY operation''"
| "ScriptErrorString SCRIPT_ERR_SCRIPT_SIZE = ''Script is too big''"
| "ScriptErrorString SCRIPT_ERR_PUSH_SIZE = ''Push value size limit exceeded''"
| "ScriptErrorString SCRIPT_ERR_OP_COUNT = ''Operation limit exceeded''"
| "ScriptErrorString SCRIPT_ERR_STACK_SIZE = ''Stack size limit exceeded''"
| "ScriptErrorString SCRIPT_ERR_SIG_COUNT = ''Signature count negative or greater than pubkey count''"
| "ScriptErrorString SCRIPT_ERR_PUBKEY_COUNT = ''Pubkey count negative or limit exceeded''"
| "ScriptErrorString SCRIPT_ERR_BAD_OPCODE = ''Opcode missing or not understood''"
| "ScriptErrorString SCRIPT_ERR_DISABLED_OPCODE = ''Attempted to use a disabled opcode''"
| "ScriptErrorString SCRIPT_ERR_INVALID_STACK_OPERATION = ''Operation not valid with the current stack size''"
| "ScriptErrorString SCRIPT_ERR_INVALID_ALTSTACK_OPERATION = ''Operation not valid with the current altstack size''"
| "ScriptErrorString SCRIPT_ERR_OP_RETURN = ''OP_RETURN was encountered''"
| "ScriptErrorString SCRIPT_ERR_UNBALANCED_CONDITIONAL = ''Invalid OP_IF construction''"
| "ScriptErrorString SCRIPT_ERR_NEGATIVE_LOCKTIME = ''Negative locktime''"
| "ScriptErrorString SCRIPT_ERR_UNSATISFIED_LOCKTIME = ''Locktime requirement not satisfied''"
| "ScriptErrorString SCRIPT_ERR_SIG_HASHTYPE = ''Signature hash type missing or not understood''"
| "ScriptErrorString SCRIPT_ERR_SIG_DER = ''Non-canonical DER signature''"
| "ScriptErrorString SCRIPT_ERR_MINIMALDATA = ''Data push larger than necessary''"
| "ScriptErrorString SCRIPT_ERR_SIG_PUSHONLY = ''Only non-push operators allowed in signatures''"
| "ScriptErrorString SCRIPT_ERR_SIG_HIGH_S = ''Non-canonical signature: S value is unnecessarily high''"
| "ScriptErrorString SCRIPT_ERR_SIG_NULLDUMMY = ''Dummy CHECKMULTISIG argument must be zero''"
| "ScriptErrorString SCRIPT_ERR_DISCOURAGE_UPGRADABLE_NOPS = ''NOPx reserved for soft-fork upgrades''"
| "ScriptErrorString SCRIPT_ERR_PUBKEYTYPE = ''Public key is neither compressed or uncompressed''"
| "ScriptErrorString serror = ''unknown error''"

text \<open>
  The ways a step of an evaluation ends other than by going on: an error code with \<open>return false\<close>,
  a C++ exception (the evaluator's \<open>catch (...)\<close> turns it into \<open>SCRIPT_ERR_UNKNOWN_ERROR\<close>), a
  failed \<open>assert\<close> (the process aborts), or undefined behaviour (a bad iterator).
\<close>

datatype cxx_exn =
  scriptnum_overflow | scriptnum_nonminimal | out_of_range | popstack_empty | invalid_opcode

datatype cxx_exit = Err ScriptError | Throw cxx_exn | AssertFail | Undefined

text \<open>Sequencing: the rest of the routine runs only when the first part returned.\<close>

definition ebind :: "'e + 'a \<Rightarrow> ('a \<Rightarrow> 'e + 'b) \<Rightarrow> 'e + 'b" where
  "ebind m f = (case m of Inl e \<Rightarrow> Inl e | Inr x \<Rightarrow> f x)"

lemma ebind_simps [simp]: "ebind (Inl e) f = Inl e" "ebind (Inr x) f = f x"
  by (simp_all add: ebind_def)

lemma ebind_eq_Inr: "ebind m f = Inr y \<longleftrightarrow> (\<exists>x. m = Inr x \<and> f x = Inr y)"
  by (auto simp: ebind_def split: sum.splits)

lemma ebind_eq_Inl: "ebind m f = Inl e \<longleftrightarrow> m = Inl e \<or> (\<exists>x. m = Inr x \<and> f x = Inl e)"
  by (auto simp: ebind_def split: sum.splits)

end
