(* ===== verification/ScriptNum.thy ===== *)
theory ScriptNum
  imports Opcodes
begin

text \<open>
  \<open>CScriptNum\<close> of script/script.h: the numbers of the script language, stored in an \<open>int64_t\<close> and
  exchanged with the stack as little-endian byte strings whose top bit is the sign.

  \<open>m_value\<close> is an \<open>int\<close>; the operations that assert a range return \<open>AssertFail\<close> out of it.
\<close>

subsection \<open>Operations\<close>

text \<open>\<open>set_vch\<close>: the loop ORs the bytes into the result, then the sign bit is taken off.\<close>

fun set_vch_loop :: "nat \<Rightarrow> bytes \<Rightarrow> int \<Rightarrow> int" where
  "set_vch_loop i [] result = result"
| "set_vch_loop i (b # bs) result = set_vch_loop (Suc i) bs (result OR push_bit (8 * i) (uint b))"

definition set_vch :: "bytes \<Rightarrow> int" where
  "set_vch vch =
     (if vch = [] then 0
      else let result = set_vch_loop 0 vch 0 in
        if last vch AND 0x80 \<noteq> 0
        then - (result AND NOT (push_bit (8 * (length vch - 1)) 0x80))
        else result)"

text \<open>The constructor from bytes, with its two exceptions.\<close>

definition CScriptNum :: "bytes \<Rightarrow> bool \<Rightarrow> nat \<Rightarrow> cxx_exit + int" where
  "CScriptNum vch fRequireMinimal nMaxNumSize =
     (if length vch > nMaxNumSize then Inl (Throw scriptnum_overflow)
      else if fRequireMinimal \<and> length vch > 0 \<and> last vch AND 0x7f = 0 \<and>
              (length vch \<le> 1 \<or> vch ! (length vch - 2) AND 0x80 = 0)
      then Inl (Throw scriptnum_nonminimal)
      else Inr (set_vch vch))"

abbreviation (input) nDefaultMaxNumSize :: nat where "nDefaultMaxNumSize \<equiv> 4"

text \<open>\<open>serialize\<close>: the absolute value, low byte first, then the sign.\<close>

fun absvalue_bytes :: "nat \<Rightarrow> bytes" where
  "absvalue_bytes absvalue =
     (if absvalue = 0 then [] else word_of_nat absvalue # absvalue_bytes (absvalue div 256))"

definition scriptnum_serialize :: "int \<Rightarrow> bytes" where
  "scriptnum_serialize value =
     (if value = 0 then []
      else let neg = value < 0; result = absvalue_bytes (nat \<bar>value\<bar>) in
        if last result AND 0x80 \<noteq> 0 then result @ [if neg then 0x80 else 0]
        else if neg then butlast result @ [last result OR 0x80]
        else result)"

definition getvch :: "int \<Rightarrow> bytes" where
  "getvch m_value = scriptnum_serialize m_value"

definition getint :: "int \<Rightarrow> int" where
  "getint m_value =
     (if m_value > int32_max then int32_max
      else if m_value < int32_min then int32_min
      else m_value)"

text \<open>\<open>operator+=\<close>, \<open>operator-=\<close> and unary minus assert that the result fits.\<close>

definition scriptnum_plus_assign :: "int \<Rightarrow> int \<Rightarrow> cxx_exit + int" where
  "scriptnum_plus_assign m_value rhs =
     (if rhs = 0 \<or> (rhs > 0 \<and> m_value \<le> int64_max - rhs) \<or> (rhs < 0 \<and> m_value \<ge> int64_min - rhs)
      then Inr (m_value + rhs) else Inl AssertFail)"

definition scriptnum_minus_assign :: "int \<Rightarrow> int \<Rightarrow> cxx_exit + int" where
  "scriptnum_minus_assign m_value rhs =
     (if rhs = 0 \<or> (rhs > 0 \<and> m_value \<ge> int64_min + rhs) \<or> (rhs < 0 \<and> m_value \<le> int64_max + rhs)
      then Inr (m_value - rhs) else Inl AssertFail)"

definition scriptnum_uminus :: "int \<Rightarrow> cxx_exit + int" where
  "scriptnum_uminus m_value = (if m_value \<noteq> int64_min then Inr (- m_value) else Inl AssertFail)"

text \<open>The two-operand \<open>+\<close> and \<open>-\<close> have no assertion: an overflow is undefined.\<close>

definition scriptnum_add :: "int \<Rightarrow> int \<Rightarrow> cxx_exit + int" where
  "scriptnum_add a b = (if in_int64 (a + b) then Inr (a + b) else Inl Undefined)"

definition scriptnum_sub :: "int \<Rightarrow> int \<Rightarrow> cxx_exit + int" where
  "scriptnum_sub a b = (if in_int64 (a - b) then Inr (a - b) else Inl Undefined)"

subsection \<open>The value of a byte string\<close>

lemma set_vch_loop_eq:
  "0 \<le> r \<Longrightarrow> r < 2 ^ (8 * i) \<Longrightarrow> set_vch_loop i bs r = r + 2 ^ (8 * i) * int (le_val bs)"
proof (induction bs arbitrary: i r)
  case Nil
  then show ?case by simp
next
  case (Cons b bs)
  have b: "0 \<le> uint b" "uint b \<le> 255"
    using uint_bounded [of b] by simp_all
  let ?r = "r + 2 ^ (8 * i) * uint b"
  have or: "r OR push_bit (8 * i) (uint b) = ?r"
    using Cons.prems by (rule or_disjoint_add_int)
  have "2 ^ (8 * i) * uint b \<le> 2 ^ (8 * i) * 255"
    by (rule mult_left_mono) (use b in simp_all)
  moreover have "(2 :: int) ^ (8 * Suc i) = 2 ^ (8 * i) * 256"
    by (simp add: power_add)
  ultimately have less: "?r < 2 ^ (8 * Suc i)"
    using Cons.prems by linarith
  have "set_vch_loop (Suc i) bs ?r = ?r + 2 ^ (8 * Suc i) * int (le_val bs)"
    using Cons.IH [OF _ less] Cons.prems b by simp
  then have "set_vch_loop (Suc i) bs (r OR push_bit (8 * i) (uint b))
      = r + 2 ^ (8 * i) * (uint b + 256 * int (le_val bs))"
    unfolding or by (simp add: power_add algebra_simps)
  then show ?case
    by simp
qed

lemma le_val_snoc: "le_val (xs @ [b]) = le_val xs + 256 ^ length xs * unat b"
  by (simp add: le_val_append)

lemma set_vch_eq:
  "set_vch vch =
     (if vch = [] then 0
      else if 128 \<le> unat (last vch) then - (int (le_val vch) - 2 ^ (8 * length vch - 1))
      else int (le_val vch))"
proof (cases "vch = [] \<or> \<not> 128 \<le> unat (last vch)")
  case True
  then have "vch = [] \<or> \<not> last vch AND 0x80 \<noteq> 0"
    by (simp only: byte_and_128)
  with True show ?thesis
    by (auto simp: set_vch_def set_vch_loop_eq Let_def)
next
  case False
  then obtain xs b where vch: "vch = xs @ [b]" and b: "128 \<le> unat b"
    by (metis append_butlast_last_id)
  define k where "k = 8 * length xs + 7"
  have le: "256 ^ length xs * 128 \<le> le_val vch"
    using b by (simp add: vch le_val_snoc mult_le_mono2 trans_le_add2)
  have less: "le_val vch < 256 ^ length xs * 256"
    using le_val_less [of vch] by (simp add: vch)
  have k: "(2 ^ k :: int) = int (256 ^ length xs * 128)"
    by (simp add: k_def power_add power_mult)
  have "int (le_val vch) AND NOT (2 ^ k) = int (le_val vch) - 2 ^ k"
  proof (rule clear_top_bit_int)
    show "2 ^ k \<le> int (le_val vch)"
      unfolding k using le by (simp only: of_nat_le_iff)
    show "int (le_val vch) < 2 ^ Suc k"
      unfolding power_Suc k using less by linarith
  qed
  moreover have "push_bit (8 * length xs) (0x80 :: int) = 2 ^ k"
    by (simp add: push_bit_eq_mult k_def power_add)
  moreover have "last vch AND 0x80 \<noteq> 0"
    using b by (simp only: vch last_snoc byte_and_128)
  ultimately show ?thesis
    using b by (simp add: set_vch_def set_vch_loop_eq Let_def vch k_def add.commute)
qed

subsection \<open>The bytes of an absolute value\<close>

declare absvalue_bytes.simps [simp del]

lemma absvalue_bytes_0 [simp]: "absvalue_bytes 0 = []"
  by (subst absvalue_bytes.simps) simp

lemma absvalue_bytes_pos: "0 < n \<Longrightarrow> absvalue_bytes n = word_of_nat n # absvalue_bytes (n div 256)"
  by (subst absvalue_bytes.simps) simp

lemma absvalue_bytes_eq_Nil [simp]: "absvalue_bytes n = [] \<longleftrightarrow> n = 0"
  by (subst absvalue_bytes.simps) simp

lemma le_val_absvalue_bytes [simp]: "le_val (absvalue_bytes n) = n"
proof (induction n rule: absvalue_bytes.induct)
  case (1 n)
  then show ?case
    by (cases "n = 0") (simp_all add: absvalue_bytes_pos)
qed

lemma last_absvalue_bytes: "0 < n \<Longrightarrow> last (absvalue_bytes n) \<noteq> 0"
proof (induction n rule: absvalue_bytes.induct)
  case (1 n)
  show ?case
  proof (cases "n div 256 = 0")
    case True
    then have "n mod 256 = n" by (simp add: div_eq_0_iff)
    then have "unat (word_of_nat n :: byte) \<noteq> 0"
      using "1.prems" by simp
    then have "(word_of_nat n :: byte) \<noteq> 0" by (metis unat_0)
    with True "1.prems" show ?thesis by (simp add: absvalue_bytes_pos)
  next
    case False
    then show ?thesis using "1.IH" "1.prems" by (simp add: absvalue_bytes_pos)
  qed
qed

lemma absvalue_bytes_le_val:
  "bs = [] \<or> last bs \<noteq> 0 \<Longrightarrow> absvalue_bytes (le_val bs) = bs"
proof (induction bs)
  case Nil
  then show ?case by simp
next
  case (Cons b bs)
  have "0 < le_val (b # bs)"
  proof (cases "bs = []")
    case True
    with Cons.prems have "b \<noteq> 0" by simp
    with True show ?thesis by (simp add: unat_gt_0)
  next
    case False
    with Cons have "absvalue_bytes (le_val bs) \<noteq> []" by simp
    then show ?thesis by simp
  qed
  then have "absvalue_bytes (le_val (b # bs))
      = word_of_nat (le_val (b # bs)) # absvalue_bytes (le_val (b # bs) div 256)"
    by (rule absvalue_bytes_pos)
  moreover have "(word_of_nat (le_val (b # bs)) :: byte) = b"
    using unat_byte_less [of b] by (simp only: word_unat_eq_iff unat_word_of_nat_byte le_val.simps) simp
  moreover have "le_val (b # bs) div 256 = le_val bs"
    by simp
  ultimately show ?case
    using Cons by (cases "bs = []") auto
qed

lemma length_absvalue_bytes: "n < 256 ^ k \<Longrightarrow> length (absvalue_bytes n) \<le> k"
proof (induction k arbitrary: n)
  case 0
  then show ?case by simp
next
  case (Suc k)
  then show ?case
    by (cases "n = 0") (simp_all add: absvalue_bytes_pos less_mult_imp_div_less mult.commute)
qed

subsection \<open>Encoding and decoding are inverse\<close>

text \<open>
  The number a byte string stands for, split into magnitude and sign: \<open>xs @ [b]\<close> has the
  magnitude of \<open>xs\<close> followed by the low seven bits of \<open>b\<close>.
\<close>

lemma set_vch_snoc_neg:
  assumes "unat b = c + 128"
  shows "set_vch (xs @ [b]) = - int (le_val xs + 256 ^ length xs * c)"
proof -
  have "(2 :: int) ^ (8 * length (xs @ [b]) - 1) = 256 ^ length xs * 128"
    by (simp add: power_add power_mult)
  moreover have "int (le_val (xs @ [b])) = int (le_val xs) + 256 ^ length xs * int (c + 128)"
    unfolding le_val_snoc assms by simp
  ultimately show ?thesis
    using assms by (simp add: set_vch_eq algebra_simps)
qed

lemma set_vch_snoc_pos:
  assumes "unat b < 128"
  shows "set_vch (xs @ [b]) = int (le_val xs + 256 ^ length xs * unat b)"
  using assms by (simp add: set_vch_eq le_val_snoc)

lemma scriptnum_serialize_cases:
  assumes "v \<noteq> 0"
  obtains (pad) "128 \<le> unat (last (absvalue_bytes (nat \<bar>v\<bar>)))"
      "scriptnum_serialize v = absvalue_bytes (nat \<bar>v\<bar>) @ [if v < 0 then 0x80 else 0]"
    | (fit) xs b where "absvalue_bytes (nat \<bar>v\<bar>) = xs @ [b]" "0 < unat b" "unat b < 128"
      "scriptnum_serialize v = xs @ [if v < 0 then b OR 0x80 else b]"
proof -
  let ?bs = "absvalue_bytes (nat \<bar>v\<bar>)"
  have ne: "?bs \<noteq> []" using assms by simp
  then obtain xs b where bs: "?bs = xs @ [b]" by (metis append_butlast_last_id)
  have "b \<noteq> 0" using last_absvalue_bytes [of "nat \<bar>v\<bar>"] assms by (simp add: bs)
  show thesis
  proof (cases "128 \<le> unat b")
    case True
    then have "last ?bs AND 0x80 \<noteq> 0" by (simp only: bs last_snoc byte_and_128)
    with True show thesis
      using assms by (intro pad) (simp_all add: bs scriptnum_serialize_def Let_def)
  next
    case False
    then have "last ?bs AND 0x80 = 0" by (simp add: bs byte_and_128_zero)
    with False show thesis
      using assms \<open>b \<noteq> 0\<close>
      by (intro fit [of xs b]) (simp_all add: bs scriptnum_serialize_def Let_def unat_gt_0)
  qed
qed

lemma set_vch_serialize [simp]: "set_vch (scriptnum_serialize v) = v"
proof (cases "v = 0")
  case True
  then show ?thesis by (simp add: scriptnum_serialize_def set_vch_def)
next
  case False
  then show ?thesis
  proof (cases rule: scriptnum_serialize_cases)
    case pad
    then show ?thesis
      by (simp add: set_vch_snoc_neg [where c = 0] set_vch_snoc_pos del: of_nat_add)
  next
    case (fit xs b)
    have "le_val (absvalue_bytes (nat \<bar>v\<bar>)) = le_val xs + 256 ^ length xs * unat b"
      unfolding fit(1) by (rule le_val_snoc)
    then have n: "le_val xs + 256 ^ length xs * unat b = nat \<bar>v\<bar>" by simp
    show ?thesis
    proof (cases "v < 0")
      case True
      then show ?thesis
        using n fit(3,4) set_vch_snoc_neg [of "b OR 0x80" "unat b" xs] by (simp only: byte_or_128) simp
    next
      case False
      then show ?thesis
        using n fit(3,4) set_vch_snoc_pos [of b xs] by simp
    qed
  qed
qed

lemma length_scriptnum_serialize:
  assumes "\<bar>v\<bar> < 2 ^ (8 * k + 7)"
  shows "length (scriptnum_serialize v) \<le> Suc k"
proof (cases "v = 0")
  case True
  then show ?thesis by (simp add: scriptnum_serialize_def)
next
  case False
  have "(2 :: int) ^ (8 * k + 7) = int (256 ^ k * 128)"
    by (simp add: power_add power_mult)
  then have n: "nat \<bar>v\<bar> < 256 ^ k * 128"
    using assms by linarith
  from False show ?thesis
  proof (cases rule: scriptnum_serialize_cases)
    case pad
    let ?bs = "absvalue_bytes (nat \<bar>v\<bar>)"
    obtain xs b where bs: "?bs = xs @ [b]"
      using False by (metis append_butlast_last_id absvalue_bytes_eq_Nil nat_0_iff abs_le_zero_iff)
    have "le_val ?bs = le_val xs + 256 ^ length xs * unat b"
      unfolding bs by (rule le_val_snoc)
    moreover have "256 ^ length xs * 128 \<le> 256 ^ length xs * unat b"
      using pad(1) bs by simp
    ultimately have "256 ^ length xs * 128 < 256 ^ k * (128 :: nat)"
      using n by (simp only: le_val_absvalue_bytes)
    then have "length xs < k"
      by (simp add: power_strict_increasing_iff)
    then show ?thesis using pad(2) bs by simp
  next
    case (fit xs b)
    have "length (absvalue_bytes (nat \<bar>v\<bar>)) \<le> Suc k"
      by (rule length_absvalue_bytes) (use n in simp)
    then show ?thesis using fit by simp
  qed
qed

lemma scriptnum_serialize_minimal:
  assumes v: "v \<noteq> 0" and low: "last (scriptnum_serialize v) AND 0x7f = 0"
  shows "1 < length (scriptnum_serialize v) \<and>
    scriptnum_serialize v ! (length (scriptnum_serialize v) - 2) AND 0x80 \<noteq> 0"
  using v
proof (cases rule: scriptnum_serialize_cases)
  case pad
  let ?bs = "absvalue_bytes (nat \<bar>v\<bar>)"
  have ne: "?bs \<noteq> []" using v by simp
  then have "?bs ! (length ?bs - 1) AND 0x80 \<noteq> 0"
    using pad(1) by (simp only: byte_and_128 last_conv_nth [OF ne])
  then show ?thesis
    using ne unfolding pad(2) by (simp add: nth_append Suc_le_eq)
next
  case (fit xs b)
  have "unat (last (scriptnum_serialize v)) mod 128 = unat b"
    using fit by (auto simp: byte_or_128)
  then have False
    using low fit(2) by (simp add: byte_and_127)
  then show ?thesis ..
qed

lemma CScriptNum_getvch:
  assumes "\<bar>v\<bar> < 2 ^ (8 * k + 7)"
  shows "CScriptNum (getvch v) fRequireMinimal (Suc k) = Inr v"
proof (cases "v = 0")
  case True
  then show ?thesis
    by (simp add: CScriptNum_def getvch_def scriptnum_serialize_def set_vch_def)
next
  case False
  then show ?thesis
    using length_scriptnum_serialize [OF assms] scriptnum_serialize_minimal [OF False]
    by (auto simp: CScriptNum_def getvch_def)
qed

lemma CScriptNum_bound:
  assumes "CScriptNum vch fRequireMinimal (Suc k) = Inr v"
  shows "\<bar>v\<bar> < 2 ^ (8 * k + 7)"
proof (cases vch rule: rev_cases)
  case Nil
  with assms show ?thesis by (auto simp: CScriptNum_def set_vch_def)
next
  case (snoc xs b)
  with assms have len: "length xs \<le> k" and v: "v = set_vch (xs @ [b])"
    by (auto simp: CScriptNum_def split: if_splits)
  obtain c where c: "c < 128" "\<bar>v\<bar> = int (le_val xs + 256 ^ length xs * c)"
  proof (cases "unat b < 128")
    case True
    then show thesis using that set_vch_snoc_pos [of b xs] v by simp
  next
    case False
    then obtain c where c: "unat b = c + 128" by (metis add.commute le_Suc_ex not_less)
    moreover have "c < 128" using c unat_byte_less [of b] by linarith
    ultimately show thesis
      using that [of c] set_vch_snoc_neg [OF c, of xs] v by (simp del: of_nat_add of_nat_mult)
  qed
  have "256 ^ length xs * c \<le> 256 ^ length xs * 127" using c(1) by simp
  then have "le_val xs + 256 ^ length xs * c < 256 ^ length xs * 128"
    using le_val_less [of xs] by linarith
  also have "\<dots> \<le> 256 ^ k * 128"
    using len by (simp add: power_increasing)
  finally have "int (le_val xs + 256 ^ length xs * c) < int (256 ^ k * 128)"
    by (simp only: of_nat_less_iff)
  then show ?thesis
    unfolding c(2) by (simp add: power_add power_mult)
qed

lemma scriptnum_serialize_pos:
  assumes "0 < n"
  shows "scriptnum_serialize (int n) =
     (if 128 \<le> unat (last (absvalue_bytes n)) then absvalue_bytes n @ [0] else absvalue_bytes n)"
  using assms by (simp add: scriptnum_serialize_def Let_def byte_and_128)

lemma scriptnum_serialize_neg:
  assumes "0 < n"
  shows "scriptnum_serialize (- int n) =
     (if 128 \<le> unat (last (absvalue_bytes n)) then absvalue_bytes n @ [0x80]
      else butlast (absvalue_bytes n) @ [last (absvalue_bytes n) OR 0x80])"
  using assms by (simp add: scriptnum_serialize_def Let_def byte_and_128)

lemma getvch_CScriptNum:
  assumes "CScriptNum vch True k = Inr v"
  shows "getvch v = vch"
proof (cases vch rule: rev_cases)
  case Nil
  with assms show ?thesis
    by (auto simp: CScriptNum_def set_vch_def getvch_def scriptnum_serialize_def split: if_splits)
next
  case (snoc xs b)
  define c where "c = unat b mod 128"
  define n where "n = le_val xs + 256 ^ length xs * c"
  have v: "v = set_vch (xs @ [b])" and
    minimal': "unat b mod 128 = 0 \<longrightarrow> xs \<noteq> [] \<and> 128 \<le> unat (last xs)"
    using assms snoc
    by (auto simp: CScriptNum_def byte_and_127 byte_and_128_zero nth_append last_conv_nth
        split: if_splits)
  from minimal' have minimal: "c = 0 \<Longrightarrow> xs \<noteq> [] \<and> 128 \<le> unat (last xs)"
    by (simp add: c_def)
  have bc: "unat b = c \<or> unat b = c + 128"
    unfolding c_def by (rule split_at_128) simp
  have c_less: "c < 128" by (simp add: c_def)
  have abs: "absvalue_bytes n = (if c = 0 then xs else xs @ [word_of_nat c])"
  proof (cases "c = 0")
    case True
    then have "last xs \<noteq> 0" using minimal by auto
    then show ?thesis using True absvalue_bytes_le_val [of xs] by (simp add: n_def)
  next
    case False
    have "unat (word_of_nat c :: byte) = c" using c_less by simp
    moreover from this False have "(word_of_nat c :: byte) \<noteq> 0" by (metis unat_0)
    ultimately show ?thesis
      using False absvalue_bytes_le_val [of "xs @ [word_of_nat c]"] by (simp add: n_def le_val_snoc)
  qed
  have n: "0 < n"
    using abs minimal by (cases "c = 0") (auto intro!: gr0I)
  show ?thesis
  proof (cases "unat b < 128")
    case True
    then have b: "unat b = c" using bc by simp
    then have bw: "word_of_nat c = b" by (simp flip: b)
    have v_n: "v = int n" using v set_vch_snoc_pos [OF True, of xs] b by (simp add: n_def)
    show ?thesis
    proof (cases "c = 0")
      case True
      then have "absvalue_bytes n = xs" using abs by simp
      moreover have "b = 0" using bw True by simp
      ultimately show ?thesis
        using scriptnum_serialize_pos [OF n] minimal [OF True] snoc by (simp add: v_n getvch_def)
    next
      case False
      then have "absvalue_bytes n = xs @ [b]" using abs bw by simp
      then show ?thesis
        using scriptnum_serialize_pos [OF n] \<open>unat b < 128\<close> snoc by (simp add: v_n getvch_def)
    qed
  next
    case False
    then have b: "unat b = c + 128" using bc c_less by simp
    have c_unat: "unat (word_of_nat c :: byte) = c" using c_less by simp
    then have "unat (word_of_nat c OR 0x80 :: byte) = c + 128"
      using c_less byte_or_128 [of "word_of_nat c"] by simp
    then have bw: "word_of_nat c OR 0x80 = b" by (simp add: word_unat_eq_iff b)
    have v_n: "v = - int n" using v set_vch_snoc_neg [OF b, of xs] by (simp add: n_def)
    show ?thesis
    proof (cases "c = 0")
      case True
      then have "absvalue_bytes n = xs" using abs by simp
      moreover have "b = 0x80" using bw True by simp
      ultimately show ?thesis
        using scriptnum_serialize_neg [OF n] minimal [OF True] snoc by (simp add: v_n getvch_def)
    next
      case False
      then have "absvalue_bytes n = xs @ [word_of_nat c]" using abs by simp
      then show ?thesis
        using scriptnum_serialize_neg [OF n] c_unat c_less bw snoc by (simp add: v_n getvch_def)
    qed
  qed
qed


end
