(* ===== verification/Script.thy ===== *)
theory Script
  imports ScriptNum "HOL-Library.Sublist"
begin

text \<open>
  \<open>CScript\<close> of script/script.h and script/script.cpp: a script is its bytes. An iterator into a
  script is the suffix of the script it points at, so \<open>pc < end()\<close> is \<open>pc \<noteq> []\<close>, \<open>end() - pc\<close> is
  \<open>length pc\<close>, and the range \<open>[pc2, pc)\<close> is \<open>take (length pc2 - length pc) pc2\<close>. Scripts are shorter
  than \<open>2 ^ 32\<close> bytes, as the casts to \<open>unsigned int\<close> in \<open>GetOp2\<close> suppose.
\<close>

type_synonym CScript = bytes
type_synonym iterator = bytes

subsection \<open>Building scripts\<close>

definition push_opcode :: "CScript \<Rightarrow> opcodetype \<Rightarrow> cxx_exit + CScript" where
  "push_opcode script opcode =
     (if opcode > 0xff then Inl (Throw invalid_opcode) else Inr (script @ [word_of_nat opcode]))"

definition push_data :: "CScript \<Rightarrow> bytes \<Rightarrow> CScript" where
  "push_data script b =
     (if length b < OP_PUSHDATA1 then script @ [word_of_nat (length b)]
      else if length b \<le> 0xff then script @ [word_of_nat OP_PUSHDATA1, word_of_nat (length b)]
      else if length b \<le> 0xffff then script @ word_of_nat OP_PUSHDATA2 # le_bytes 2 (length b)
      else script @ word_of_nat OP_PUSHDATA4 # le_bytes 4 (length b)) @ b"

definition push_int64 :: "CScript \<Rightarrow> int \<Rightarrow> CScript" where
  "push_int64 script n =
     (if n = -1 \<or> (n \<ge> 1 \<and> n \<le> 16) then script @ [word_of_int (n + (int OP_1 - 1))]
      else if n = 0 then script @ [word_of_nat OP_0]
      else push_data script (scriptnum_serialize n))"

definition push_scriptnum :: "CScript \<Rightarrow> int \<Rightarrow> CScript" where
  "push_scriptnum script b = push_data script (getvch b)"

definition DecodeOP_N :: "opcodetype \<Rightarrow> cxx_exit + nat" where
  "DecodeOP_N opcode =
     (if opcode = OP_0 then Inr 0
      else if opcode \<ge> OP_1 \<and> opcode \<le> OP_16 then Inr (opcode - (OP_1 - 1))
      else Inl AssertFail)"

definition EncodeOP_N :: "int \<Rightarrow> cxx_exit + opcodetype" where
  "EncodeOP_N n =
     (if \<not> (n \<ge> 0 \<and> n \<le> 16) then Inl AssertFail
      else if n = 0 then Inr OP_0
      else Inr (nat (int OP_1 + n - 1)))"

subsection \<open>Reading scripts\<close>

text \<open>The size of the immediate operand, and the iterator after the size bytes.\<close>

definition push_size :: "opcodetype \<Rightarrow> iterator \<Rightarrow> (nat \<times> iterator) option" where
  "push_size opcode pc =
     (if opcode < OP_PUSHDATA1 then Some (opcode, pc)
      else if opcode = OP_PUSHDATA1 then
        (if length pc < 1 then None else Some (le_val (take 1 pc), drop 1 pc))
      else if opcode = OP_PUSHDATA2 then
        (if length pc < 2 then None else Some (le_val (take 2 pc), drop 2 pc))
      else if opcode = OP_PUSHDATA4 then
        (if length pc < 4 then None else Some (le_val (take 4 pc), drop 4 pc))
      else Some (0, pc))"

text \<open>
  \<open>GetOp2 pc = (fRet, opcodeRet, vchRet, pc')\<close>. On a failure the opcode is \<open>OP_INVALIDOPCODE\<close>, the
  data is empty, and the iterator stays past the bytes that were read.
\<close>

definition GetOp2 :: "iterator \<Rightarrow> bool \<times> opcodetype \<times> bytes \<times> iterator" where
  "GetOp2 pc =
     (case pc of
        [] \<Rightarrow> (False, OP_INVALIDOPCODE, [], pc)
      | b # pc1 \<Rightarrow>
          let opcode = unat b in
          if opcode \<le> OP_PUSHDATA4 then
            (case push_size opcode pc1 of
               None \<Rightarrow> (False, OP_INVALIDOPCODE, [], pc1)
             | Some (nSize, pc2) \<Rightarrow>
                 if length pc2 < nSize then (False, OP_INVALIDOPCODE, [], pc2)
                 else (True, opcode, take nSize pc2, drop nSize pc2))
          else (True, opcode, [], pc1))"

lemma push_size_suffix: "push_size opcode pc = Some (n, pc') \<Longrightarrow> suffix pc' pc"
  by (auto simp: push_size_def suffix_drop split: if_splits)

lemma GetOp2_Nil [simp]: "GetOp2 [] = (False, OP_INVALIDOPCODE, [], [])"
  by (simp add: GetOp2_def)

lemma GetOp2_Cons_suffix: "GetOp2 (b # pc) = (ok, opcode, vch, pc') \<Longrightarrow> suffix pc' pc"
  by (auto simp: GetOp2_def Let_def suffix_drop
      dest!: push_size_suffix intro: suffix_order.trans [OF suffix_drop]
      split: if_splits option.splits)

lemma GetOp2_suffix: "GetOp2 pc = (ok, opcode, vch, pc') \<Longrightarrow> suffix pc' pc"
  by (cases pc) (auto dest: GetOp2_Cons_suffix suffix_ConsI)

text \<open>Every read of a script that is not at its end moves the iterator on, even a failing one.\<close>

lemma GetOp2_progress: "pc \<noteq> [] \<Longrightarrow> GetOp2 pc = (ok, opcode, vch, pc') \<Longrightarrow> length pc' < length pc"
  by (cases pc) (auto dest!: GetOp2_Cons_suffix suffix_length_le)

lemma GetOp2_ok_progress: "GetOp2 pc = (True, opcode, vch, pc') \<Longrightarrow> length pc' < length pc"
  by (cases "pc = []") (auto intro: GetOp2_progress)

text \<open>The loops over a script.\<close>

function IsPushOnly :: "iterator \<Rightarrow> bool" where
  "IsPushOnly pc =
     (if pc = [] then True
      else case GetOp2 pc of (ok, opcode, vch, pc') \<Rightarrow>
        if \<not> ok then False
        else if opcode > OP_16 then False
        else IsPushOnly pc')"
  by pat_completeness auto
termination
  by (relation "measure length") (auto dest: GetOp2_progress [OF _ sym])

function Find_loop :: "opcodetype \<Rightarrow> iterator \<Rightarrow> nat \<Rightarrow> nat" where
  "Find_loop op pc nFound =
     (if pc = [] then nFound
      else case GetOp2 pc of (ok, opcode, vch, pc') \<Rightarrow>
        if \<not> ok then nFound
        else Find_loop op pc' (if opcode = op then nFound + 1 else nFound))"
  by pat_completeness auto
termination
  by (relation "measure (\<lambda>(op, pc, n). length pc)") (auto dest: GetOp2_progress [OF _ sym])

definition Find :: "CScript \<Rightarrow> opcodetype \<Rightarrow> nat" where
  "Find script op = Find_loop op script 0"

text \<open>\<open>GetSigOpCount(fAccurate)\<close>.\<close>

function sigop_loop :: "bool \<Rightarrow> iterator \<Rightarrow> opcodetype \<Rightarrow> nat \<Rightarrow> cxx_exit + nat" where
  "sigop_loop fAccurate pc lastOpcode n =
     (if pc = [] then Inr n
      else case GetOp2 pc of (ok, opcode, vch, pc') \<Rightarrow>
        if \<not> ok then Inr n
        else if opcode = OP_CHECKSIG \<or> opcode = OP_CHECKSIGVERIFY then
          sigop_loop fAccurate pc' opcode (n + 1)
        else if opcode = OP_CHECKMULTISIG \<or> opcode = OP_CHECKMULTISIGVERIFY then
          (if fAccurate \<and> lastOpcode \<ge> OP_1 \<and> lastOpcode \<le> OP_16
           then ebind (DecodeOP_N lastOpcode) (\<lambda>k. sigop_loop fAccurate pc' opcode (n + k))
           else sigop_loop fAccurate pc' opcode (n + nat MAX_PUBKEYS_PER_MULTISIG))
        else sigop_loop fAccurate pc' opcode n)"
  by pat_completeness auto
termination
  by (relation "measure (\<lambda>(f, pc, l, n). length pc)") (auto dest: GetOp2_progress [OF _ sym])

definition GetSigOpCount :: "CScript \<Rightarrow> bool \<Rightarrow> cxx_exit + nat" where
  "GetSigOpCount script fAccurate = sigop_loop fAccurate script OP_INVALIDOPCODE 0"

text \<open>
  \<open>GetSigOpCount(scriptSig)\<close>: for a pay-to-script-hash output, the count of the script that the
  last push of the spending \<open>scriptSig\<close> holds. \<open>last_push\<close> is its loop: \<open>None\<close> is \<open>return 0\<close>.
\<close>

definition IsPayToPublicKeyHash :: "CScript \<Rightarrow> bool" where
  "IsPayToPublicKeyHash script \<longleftrightarrow>
     length script = 25 \<and>
     unat (script ! 0) = OP_DUP \<and>
     unat (script ! 1) = OP_HASH160 \<and>
     script ! 2 = 0x14 \<and>
     unat (script ! 23) = OP_EQUALVERIFY \<and>
     unat (script ! 24) = OP_CHECKSIG"

definition IsPayToScriptHash :: "CScript \<Rightarrow> bool" where
  "IsPayToScriptHash script \<longleftrightarrow>
     length script = 23 \<and>
     unat (script ! 0) = OP_HASH160 \<and>
     script ! 1 = 0x14 \<and>
     unat (script ! 22) = OP_EQUAL"

definition IsUnspendable :: "CScript \<Rightarrow> bool" where
  "IsUnspendable script \<longleftrightarrow> length script > 0 \<and> unat (hd script) = OP_RETURN"

function last_push :: "iterator \<Rightarrow> bytes \<Rightarrow> bytes option" where
  "last_push pc data =
     (if pc = [] then Some data
      else case GetOp2 pc of (ok, opcode, vch, pc') \<Rightarrow>
        if \<not> ok then None
        else if opcode > OP_16 then None
        else last_push pc' vch)"
  by pat_completeness auto
termination
  by (relation "measure (\<lambda>(pc, data). length pc)") (auto dest: GetOp2_progress [OF _ sym])

definition GetSigOpCount_P2SH :: "CScript \<Rightarrow> CScript \<Rightarrow> cxx_exit + nat" where
  "GetSigOpCount_P2SH script scriptSig =
     (if \<not> IsPayToScriptHash script then GetSigOpCount script True
      else case last_push scriptSig [] of
          None \<Rightarrow> Inr 0
        | Some subscript \<Rightarrow> GetSigOpCount subscript True)"

text \<open>The loop of \<open>IsNormalPaymentScript\<close> does not look at the result of \<open>GetOp\<close>.\<close>

function normal_payment_loop :: "nat \<Rightarrow> iterator \<Rightarrow> bool" where
  "normal_payment_loop i pc =
     (if pc = [] then True
      else case GetOp2 pc of (ok, opcode, vch, pc') \<Rightarrow>
        if i = 0 \<and> opcode \<noteq> OP_DUP then False
        else if i = 1 \<and> opcode \<noteq> OP_HASH160 then False
        else if i = 3 \<and> opcode \<noteq> OP_EQUALVERIFY then False
        else if i = 4 \<and> opcode \<noteq> OP_CHECKSIG then False
        else if i = 5 then False
        else normal_payment_loop (i + 1) pc')"
  by pat_completeness auto
termination
  by (relation "measure (\<lambda>(i, pc). length pc)") (auto dest: GetOp2_progress [OF _ sym])

definition IsNormalPaymentScript :: "CScript \<Rightarrow> bool" where
  "IsNormalPaymentScript script = (if length script \<noteq> 25 then False else normal_payment_loop 0 script)"

text \<open>
  \<open>FindAndDelete\<close>: the inner loop steps over every copy of the pattern at the iterator; the outer
  loop copies the operation between two tests. The result is the number of copies found and the
  script afterwards.
\<close>

function skip_matches :: "CScript \<Rightarrow> iterator \<Rightarrow> nat \<Rightarrow> iterator \<times> nat" where
  "skip_matches b pc nFound =
     (if b \<noteq> [] \<and> length pc \<ge> length b \<and> take (length b) pc = b
      then skip_matches b (drop (length b) pc) (nFound + 1)
      else (pc, nFound))"
  by pat_completeness auto
termination
  by (relation "measure (\<lambda>(b, pc, n). length pc)") (auto simp flip: length_greater_0_conv)

lemma skip_matches_length: "skip_matches b pc n = (pc', n') \<Longrightarrow> length pc' \<le> length pc"
proof (induction b pc n rule: skip_matches.induct)
  case (1 b pc n)
  then show ?case
    by (subst (asm) (2) skip_matches.simps) (force split: if_splits)
qed

function find_delete_loop :: "CScript \<Rightarrow> iterator \<Rightarrow> iterator \<Rightarrow> CScript \<Rightarrow> nat \<Rightarrow> iterator \<times> CScript \<times> nat" where
  "find_delete_loop b pc2 pc result nFound =
     (let result' = result @ take (length pc2 - length pc) pc2 in
      case skip_matches b pc nFound of (pc1, nFound') \<Rightarrow>
        case GetOp2 pc1 of (ok, opcode, vch, pc') \<Rightarrow>
          if ok then find_delete_loop b pc1 pc' result' nFound'
          else (pc1, result', nFound'))"
  by pat_completeness auto
termination
  by (relation "measure (\<lambda>(b, pc2, pc, r, n). length pc)")
    (auto simp del: skip_matches.simps dest!: GetOp2_ok_progress [OF sym] skip_matches_length [OF sym])

definition FindAndDelete :: "CScript \<Rightarrow> CScript \<Rightarrow> nat \<times> CScript" where
  "FindAndDelete script b =
     (if b = [] then (0, script)
      else case find_delete_loop b script script [] 0 of (pc2, result, nFound) \<Rightarrow>
        if nFound > 0 then (nFound, result @ pc2) else (nFound, script))"

declare IsPushOnly.simps [simp del] Find_loop.simps [simp del] sigop_loop.simps [simp del]
  last_push.simps [simp del] normal_payment_loop.simps [simp del] skip_matches.simps [simp del]
  find_delete_loop.simps [simp del]

subsection \<open>Pushing and reading back\<close>

text \<open>The opcode that \<open>operator<<\<close> chooses for a byte string.\<close>

definition push_op :: "bytes \<Rightarrow> opcodetype" where
  "push_op b =
     (if length b < OP_PUSHDATA1 then length b
      else if length b \<le> 0xff then OP_PUSHDATA1
      else if length b \<le> 0xffff then OP_PUSHDATA2
      else OP_PUSHDATA4)"

lemma push_op_le: "push_op b \<le> OP_PUSHDATA4"
  by (simp add: push_op_def)

lemma push_data_append: "push_data script b = script @ push_data [] b"
  by (simp add: push_data_def)

lemma push_data_not_Nil [simp]: "push_data script b \<noteq> []"
  by (simp add: push_data_def)

lemma le_val_le_bytes_less: "n < 256 ^ k \<Longrightarrow> le_val (le_bytes k n) = n"
  by (simp add: le_val_le_bytes)

lemma GetOp2_push_data [simp]:
  assumes "length b < 2 ^ 32"
  shows "GetOp2 (push_data [] b @ rest) = (True, push_op b, b, rest)"
proof -
  consider "length b < 76" | "76 \<le> length b" "length b \<le> 0xff"
    | "0xff < length b" "length b \<le> 0xffff" | "0xffff < length b"
    by linarith
  then show ?thesis
  proof cases
    case 1
    then show ?thesis by (simp add: push_data_def GetOp2_def push_size_def push_op_def Let_def)
  next
    case 2
    then show ?thesis by (simp add: push_data_def GetOp2_def push_size_def push_op_def Let_def)
  next
    case 3
    then show ?thesis
      by (simp add: push_data_def GetOp2_def push_size_def push_op_def Let_def le_val_le_bytes_less)
  next
    case 4
    then show ?thesis
      using assms
      by (simp add: push_data_def GetOp2_def push_size_def push_op_def Let_def le_val_le_bytes_less)
  qed
qed

text \<open>Reading depends only on the bytes read.\<close>

lemma push_size_extend:
  "push_size opcode pc = Some (n, pc') \<Longrightarrow> push_size opcode (pc @ rest) = Some (n, pc' @ rest)"
  by (cases pc; cases "tl pc") (auto simp: push_size_def split: if_splits)

lemma GetOp2_append:
  assumes "GetOp2 pc = (True, opcode, vch, pc')"
  shows "GetOp2 (pc @ rest) = (True, opcode, vch, pc' @ rest)"
proof (cases pc)
  case Nil
  with assms show ?thesis by simp
next
  case (Cons b pc1)
  with assms show ?thesis
    by (auto simp: GetOp2_def Let_def push_size_extend split: option.splits if_splits)
qed

lemma GetOp2_opcode_le: "GetOp2 pc = (ok, opcode, vch, pc') \<Longrightarrow> opcode < 256"
  by (auto simp: GetOp2_def Let_def split: list.splits if_splits option.splits)

text \<open>One unfolding of a loop at a script whose first operation is known.\<close>

lemma IsPushOnly_step:
  assumes "GetOp2 pc = (True, opcode, vch, pc')"
  shows "IsPushOnly pc = (opcode \<le> OP_16 \<and> IsPushOnly pc')"
proof -
  have "pc \<noteq> []" using assms by auto
  then show ?thesis using assms by (subst IsPushOnly.simps) auto
qed

lemma IsPushOnly_Nil [simp]: "IsPushOnly []"
  by (subst IsPushOnly.simps) simp

lemma IsPushOnly_append: "IsPushOnly xs \<Longrightarrow> IsPushOnly (xs @ ys) = IsPushOnly ys"
proof (induction xs rule: IsPushOnly.induct)
  case (1 pc)
  show ?case
  proof (cases "pc = []")
    case True
    then show ?thesis by simp
  next
    case False
    obtain ok opcode vch pc' where op: "GetOp2 pc = (ok, opcode, vch, pc')"
      by (cases "GetOp2 pc") auto
    with False "1.prems" have ok: "ok" "opcode \<le> OP_16" "IsPushOnly pc'"
      by (simp_all add: IsPushOnly.simps [of pc] split: if_splits)
    then have "IsPushOnly (pc' @ ys) = IsPushOnly ys"
      using "1.IH" [OF False op [symmetric] refl refl] by simp
    then show ?thesis
      using op ok GetOp2_append [of pc opcode vch pc' ys] by (simp add: IsPushOnly_step)
  qed
qed

lemma IsPushOnly_push_data [simp]:
  assumes "length b < 2 ^ 32"
  shows "IsPushOnly (push_data [] b @ rest) = IsPushOnly rest"
  using IsPushOnly_step [OF GetOp2_push_data [OF assms]] push_op_le [of b] by simp

subsection \<open>Signature operation counts\<close>

lemma sigop_loop_Nil [simp]: "sigop_loop f [] l n = Inr n"
  by (subst sigop_loop.simps) simp

text \<open>
  Counting never fails (the assertion of \<open>DecodeOP_N\<close> is guarded), and a count is at most 20 for
  each byte read.
\<close>

lemma sigop_loop_total:
  "\<exists>m. sigop_loop fAccurate pc lastOpcode n = Inr m \<and> n \<le> m \<and> m \<le> n + 20 * length pc"
proof (induction fAccurate pc lastOpcode n rule: sigop_loop.induct)
  case (1 fAccurate pc lastOpcode n)
  obtain ok opcode vch pc' where op: "GetOp2 pc = (ok, opcode, vch, pc')"
    by (cases "GetOp2 pc") auto
  show ?case
  proof (cases "pc = [] \<or> \<not> ok")
    case True
    then show ?thesis using op by (subst sigop_loop.simps) auto
  next
    case False
    then have len: "length pc' < length pc" using op GetOp2_progress by blast
    then have len': "20 * length pc' + 20 \<le> 20 * length pc" by simp
    from False have ne: "pc \<noteq> []" and ok: "\<not> \<not> ok" by auto
    note IH = "1.IH" [OF ne op [symmetric] refl refl ok]
    note loop = sigop_loop.simps [of fAccurate pc lastOpcode n]
    consider (sig) "opcode = OP_CHECKSIG \<or> opcode = OP_CHECKSIGVERIFY"
      | (multi_n) "opcode = OP_CHECKMULTISIG \<or> opcode = OP_CHECKMULTISIGVERIFY"
          "fAccurate \<and> lastOpcode \<ge> OP_1 \<and> lastOpcode \<le> OP_16"
      | (multi) "opcode = OP_CHECKMULTISIG \<or> opcode = OP_CHECKMULTISIGVERIFY"
          "\<not> (fAccurate \<and> lastOpcode \<ge> OP_1 \<and> lastOpcode \<le> OP_16)"
      | (other) "\<not> (opcode = OP_CHECKSIG \<or> opcode = OP_CHECKSIGVERIFY)"
          "\<not> (opcode = OP_CHECKMULTISIG \<or> opcode = OP_CHECKMULTISIGVERIFY)"
      by blast
    then show ?thesis
    proof cases
      case sig
      then show ?thesis using IH(1) [OF sig] op False len' by (auto simp: loop)
    next
      case multi_n
      then have k: "DecodeOP_N lastOpcode = Inr (lastOpcode - 80)" "lastOpcode - 80 \<le> 20"
        by (auto simp: DecodeOP_N_def)
      define k where "k = lastOpcode - 80"
      note k = k [folded k_def]
      from IH(2) [OF _ multi_n, of k] multi_n(1)
      obtain m where m: "sigop_loop fAccurate pc' opcode (n + k) = Inr m"
          "n + k \<le> m" "m \<le> n + k + 20 * length pc'"
        by auto
      have "sigop_loop fAccurate pc lastOpcode n = sigop_loop fAccurate pc' opcode (n + k)"
        using multi_n k op ne ok by (subst loop) auto
      then show ?thesis using m k len' by auto
    next
      case multi
      then show ?thesis using IH(3) [OF _ multi] op False len' by (auto simp: loop)
    next
      case other
      then show ?thesis using IH(4) [OF other] op False len' by (auto simp: loop)
    qed
  qed
qed

lemma GetSigOpCount_total:
  "\<exists>m. GetSigOpCount script fAccurate = Inr m \<and> m \<le> 20 * length script"
  using sigop_loop_total [of fAccurate script OP_INVALIDOPCODE 0] by (auto simp: GetSigOpCount_def)

lemma sigop_loop_step:
  assumes "GetOp2 pc = (ok, opcode, vch, pc')" and "pc \<noteq> []"
  shows "sigop_loop fAccurate pc lastOpcode n =
    (if \<not> ok then Inr n
     else if opcode = OP_CHECKSIG \<or> opcode = OP_CHECKSIGVERIFY then
       sigop_loop fAccurate pc' opcode (n + 1)
     else if opcode = OP_CHECKMULTISIG \<or> opcode = OP_CHECKMULTISIGVERIFY then
       sigop_loop fAccurate pc' opcode
         (n + (if fAccurate \<and> lastOpcode \<ge> OP_1 \<and> lastOpcode \<le> OP_16 then lastOpcode - 80 else 20))
     else sigop_loop fAccurate pc' opcode n)"
  using assms by (subst sigop_loop.simps) (simp add: DecodeOP_N_def)

text \<open>The accurate count never exceeds the other one.\<close>

lemma sigop_loop_mono:
  "n \<le> n' \<Longrightarrow> sigop_loop True pc l n = Inr a \<Longrightarrow> sigop_loop False pc l n' = Inr b \<Longrightarrow> a \<le> b"
proof (induction "length pc" arbitrary: pc l n n' rule: less_induct)
  case less
  obtain ok opcode vch pc' where op: "GetOp2 pc = (ok, opcode, vch, pc')"
    by (cases "GetOp2 pc") auto
  show ?case
  proof (cases "pc = [] \<or> \<not> ok")
    case True
    then show ?thesis
      using less.prems op by (cases "pc = []") (auto simp: sigop_loop_step)
  next
    case False
    then have len: "length pc' < length pc" using op GetOp2_progress by blast
    from False show ?thesis
      using less.prems
      by (auto simp: sigop_loop_step [OF op] elim!: less.hyps [OF len, rotated] split: if_splits)
  qed
qed

lemma GetSigOpCount_accurate_le:
  "GetSigOpCount script True = Inr a \<Longrightarrow> GetSigOpCount script False = Inr b \<Longrightarrow> a \<le> b"
  unfolding GetSigOpCount_def by (rule sigop_loop_mono [OF order_refl])

subsection \<open>FindAndDelete\<close>

text \<open>
  What is found is taken out and nothing else: the matches of \<open>skip_matches\<close> are copies of the
  pattern in front of the new iterator.
\<close>

lemma skip_matches_replicate:
  "skip_matches b pc n = (pc', n') \<Longrightarrow> \<exists>k. n' = n + k \<and> pc = concat (replicate k b) @ pc'"
proof (induction b pc n rule: skip_matches.induct)
  case (1 b pc n)
  show ?case
  proof (cases "b \<noteq> [] \<and> length pc \<ge> length b \<and> take (length b) pc = b")
    case True
    then have "skip_matches b (drop (length b) pc) (n + 1) = (pc', n')"
      using "1.prems" by (subst (asm) skip_matches.simps) simp
    from "1.IH" [OF True this] obtain k
      where "n' = n + 1 + k" "drop (length b) pc = concat (replicate k b) @ pc'" by blast
    moreover have "pc = b @ drop (length b) pc"
      using True by (metis append_take_drop_id)
    ultimately show ?thesis
      by (intro exI [of _ "Suc k"]) simp
  next
    case False
    then have "skip_matches b pc n = (pc, n)"
      by (subst skip_matches.simps) auto
    then show ?thesis using "1.prems" by auto
  qed
qed

text \<open>
  \<open>deletion b n s s'\<close>: \<open>s'\<close> is \<open>s\<close> with \<open>n\<close> disjoint copies of \<open>b\<close> taken out.
\<close>

inductive deletion :: "'a list \<Rightarrow> nat \<Rightarrow> 'a list \<Rightarrow> 'a list \<Rightarrow> bool" where
  keep: "deletion b 0 s s"
| cut: "deletion b n s t \<Longrightarrow> deletion b (Suc n) (p @ b @ s) (p @ t)"

lemma deletion_length: "deletion b n s t \<Longrightarrow> length s = length t + n * length b"
  by (induction rule: deletion.induct) auto

lemma deletion_subseq: "deletion b n s t \<Longrightarrow> subseq t s"
  by (induction rule: deletion.induct) (auto intro: list_emb_append_mono subseq_drop_many)

lemma deletion_prefix:
  assumes "deletion b n s t"
  shows "deletion b n (p @ s) (p @ t)"
  using assms
proof (cases rule: deletion.cases)
  case keep
  then show ?thesis by (simp add: deletion.keep)
next
  case (cut n s t q)
  then show ?thesis using deletion.cut [of b n s t "p @ q"] by simp
qed

lemma deletion_replicate: "deletion b n s t \<Longrightarrow> deletion b (k + n) (concat (replicate k b) @ s) t"
proof (induction k)
  case (Suc k)
  then show ?case using deletion.cut [of b "k + n" "concat (replicate k b) @ s" t "[]"] by simp
qed simp

lemma find_delete_loop_deletion:
  assumes "find_delete_loop b pc2 pc result n = (pc2', result', n')" and "suffix pc pc2"
  shows "\<exists>k t. n' = n + k \<and> result' @ pc2' = result @ t \<and> deletion b k pc2 t"
  using assms
proof (induction b pc2 pc result n rule: find_delete_loop.induct)
  case (1 b pc2 pc result n)
  define copied where "copied = take (length pc2 - length pc) pc2"
  from "1.prems"(2) have pc2: "pc2 = copied @ pc"
    by (auto simp: copied_def suffix_def)
  obtain pc1 n1 where skip: "skip_matches b pc n = (pc1, n1)" by fastforce
  obtain k1 where k1: "n1 = n + k1" "pc = concat (replicate k1 b) @ pc1"
    using skip_matches_replicate [OF skip] by blast
  obtain ok opcode vch pc' where op: "GetOp2 pc1 = (ok, opcode, vch, pc')"
    by (cases "GetOp2 pc1") auto
  have cut: "deletion b k pc1 t \<Longrightarrow> deletion b (k1 + k) pc2 (copied @ t)" for k t
    unfolding pc2 k1(2) by (intro deletion_prefix deletion_replicate)
  show ?case
  proof (cases ok)
    case True
    then have rec: "find_delete_loop b pc1 pc' (result @ copied) n1 = (pc2', result', n')"
      using "1.prems"(1) skip op by (simp add: find_delete_loop.simps [of b pc2 pc] copied_def Let_def)
    have "suffix pc' pc1" using op by (rule GetOp2_suffix)
    from "1.IH" [OF refl skip [symmetric] op [symmetric] refl refl True, folded copied_def, OF rec this]
    obtain k t where "n' = n1 + k" "result' @ pc2' = (result @ copied) @ t" "deletion b k pc1 t"
      by blast
    then show ?thesis
      using k1(1) cut by (intro exI [of _ "k1 + k"] exI [of _ "copied @ t"]) simp
  next
    case False
    then have "(pc2', result', n') = (pc1, result @ copied, n1)"
      using "1.prems"(1) skip op by (simp add: find_delete_loop.simps [of b pc2 pc] copied_def Let_def)
    then show ?thesis
      using k1(1) cut [OF deletion.keep]
      by (intro exI [of _ k1] exI [of _ "copied @ pc1"]) simp
  qed
qed

lemma FindAndDelete_deletion:
  assumes "FindAndDelete script b = (n, script')"
  shows "deletion b n script script'"
proof (cases "b = []")
  case True
  with assms show ?thesis by (auto simp: FindAndDelete_def intro: deletion.keep)
next
  case False
  obtain pc2 result m where loop: "find_delete_loop b script script [] 0 = (pc2, result, m)"
    by (cases "find_delete_loop b script script [] 0") auto
  obtain t where "result @ pc2 = t" "deletion b m script t"
    using find_delete_loop_deletion [OF loop] by auto
  with assms False loop show ?thesis
    by (auto simp: FindAndDelete_def intro: deletion.keep split: if_splits)
qed

subsection \<open>Payment templates\<close>

lemma list_split_at:
  assumes "length xs = k + n + m"
  obtains as bs cs where "xs = as @ bs @ cs" "length as = k" "length bs = n" "length cs = m"
proof (rule that [of "take k xs" "take n (drop k xs)" "drop (n + k) xs"])
  show "xs = take k xs @ take n (drop k xs) @ drop (n + k) xs"
    by (metis append_take_drop_id drop_drop)
qed (use assms in simp_all)

lemma length_1E: "length xs = 1 \<Longrightarrow> \<exists>a. xs = [a]"
  by (cases xs) auto

lemma length_2E: "length xs = 2 \<Longrightarrow> \<exists>a b. xs = [a, b]"
  by (auto simp: numeral_2_eq_2 length_Suc_conv)

lemma length_3E: "length xs = 3 \<Longrightarrow> \<exists>a b c. xs = [a, b, c]"
  by (auto simp: numeral_3_eq_3 length_Suc_conv)

lemma IsPayToPublicKeyHash_iff:
  "IsPayToPublicKeyHash script \<longleftrightarrow>
     (\<exists>h. length h = 20 \<and> script = [0x76, 0xa9, 0x14] @ h @ [0x88, 0xac])"
proof
  assume p2pkh: "IsPayToPublicKeyHash script"
  then have "length script = 3 + 20 + 2" by (simp add: IsPayToPublicKeyHash_def)
  then obtain as h cs where split: "script = as @ h @ cs" "length as = 3" "length h = 20" "length cs = 2"
    by (rule list_split_at)
  then obtain a b c d e where script: "script = [a, b, c] @ h @ [d, e]" and h: "length h = 20"
    using length_2E length_3E by blast
  from p2pkh h have "unat a = 0x76" "unat b = 0xa9" "c = 0x14" "unat d = 0x88" "unat e = 0xac"
    by (simp_all add: IsPayToPublicKeyHash_def script nth_append)
  then have "a = 0x76" "b = 0xa9" "d = 0x88" "e = 0xac"
    by (simp_all add: word_unat_eq_iff)
  then show "\<exists>h. length h = 20 \<and> script = [0x76, 0xa9, 0x14] @ h @ [0x88, 0xac]"
    using script h \<open>c = 0x14\<close> by auto
next
  assume "\<exists>h. length h = 20 \<and> script = [0x76, 0xa9, 0x14] @ h @ [0x88, 0xac]"
  then show "IsPayToPublicKeyHash script"
    by (auto simp: IsPayToPublicKeyHash_def nth_append)
qed

lemma IsPayToScriptHash_iff:
  "IsPayToScriptHash script \<longleftrightarrow> (\<exists>h. length h = 20 \<and> script = [0xa9, 0x14] @ h @ [0x87])"
proof
  assume p2sh: "IsPayToScriptHash script"
  then have "length script = 2 + 20 + 1" by (simp add: IsPayToScriptHash_def)
  then obtain as h cs where split: "script = as @ h @ cs" "length as = 2" "length h = 20" "length cs = 1"
    by (rule list_split_at)
  then obtain a b d where script: "script = [a, b] @ h @ [d]" and h: "length h = 20"
    using length_2E length_1E by blast
  from p2sh h have "unat a = 0xa9" "b = 0x14" "unat d = 0x87"
    by (simp_all add: IsPayToScriptHash_def script nth_append)
  then have "a = 0xa9" "d = 0x87"
    by (simp_all add: word_unat_eq_iff)
  then show "\<exists>h. length h = 20 \<and> script = [0xa9, 0x14] @ h @ [0x87]"
    using script h \<open>b = 0x14\<close> by auto
next
  assume "\<exists>h. length h = 20 \<and> script = [0xa9, 0x14] @ h @ [0x87]"
  then show "IsPayToScriptHash script"
    by (auto simp: IsPayToScriptHash_def nth_append)
qed

lemma GetOp2_opcode:
  assumes "OP_PUSHDATA4 < unat b"
  shows "GetOp2 (b # rest) = (True, unat b, [], rest)"
  using assms by (simp add: GetOp2_def Let_def)

lemma GetOp2_direct_push:
  assumes "unat b = length d" and "length d < OP_PUSHDATA1"
  shows "GetOp2 (b # d @ rest) = (True, length d, d, rest)"
  using assms by (simp add: GetOp2_def push_size_def Let_def)

lemma normal_payment_loop_step:
  assumes "GetOp2 pc = (ok, opcode, vch, pc')" and "pc \<noteq> []"
  shows "normal_payment_loop i pc =
    ((i = 0 \<longrightarrow> opcode = OP_DUP) \<and> (i = 1 \<longrightarrow> opcode = OP_HASH160) \<and>
     (i = 3 \<longrightarrow> opcode = OP_EQUALVERIFY) \<and> (i = 4 \<longrightarrow> opcode = OP_CHECKSIG) \<and>
     i \<noteq> 5 \<and> normal_payment_loop (i + 1) pc')"
  using assms by (subst normal_payment_loop.simps) auto

lemma normal_payment_loop_Nil [simp]: "normal_payment_loop i []"
  by (subst normal_payment_loop.simps) simp

lemma IsPayToPublicKeyHash_normal:
  assumes "IsPayToPublicKeyHash script"
  shows "IsNormalPaymentScript script"
proof -
  from assms obtain h where h: "length h = 20" and script: "script = 0x76 # 0xa9 # 0x14 # h @ [0x88, 0xac]"
    by (auto simp: IsPayToPublicKeyHash_iff)
  show ?thesis
    using h GetOp2_direct_push [of "0x14" h "[0x88, 0xac]"]
    by (simp add: IsNormalPaymentScript_def script normal_payment_loop_step [OF GetOp2_opcode]
        normal_payment_loop_step [OF GetOp2_direct_push])
qed

subsection \<open>Properties\<close>



text \<open>A script with the form of pay-to-public-key-hash, which is exactly
  \<open>DUP HASH160 <20 bytes> EQUALVERIFY CHECKSIG\<close>, is a normal payment script, costs one signature
  operation and is neither pay-to-script-hash, nor unspendable, nor push-only.\<close>

theorem P2PKH_classification:
  assumes "IsPayToPublicKeyHash script"
  shows "IsNormalPaymentScript script \<and> GetSigOpCount script True = Inr 1 \<and>
    \<not> IsPayToScriptHash script \<and> \<not> IsUnspendable script \<and> \<not> IsPushOnly script"
proof -
  from assms obtain h where h: "length h = 20" and script: "script = 0x76 # 0xa9 # 0x14 # h @ [0x88, 0xac]"
    by (auto simp: IsPayToPublicKeyHash_iff)
  have "GetSigOpCount script True = Inr 1"
    using h GetOp2_direct_push [of "0x14" h "[0x88, 0xac]"]
    by (simp add: GetSigOpCount_def script sigop_loop_step [OF GetOp2_opcode]
        sigop_loop_step [OF GetOp2_direct_push])
  moreover have "\<not> IsPushOnly script"
    by (simp add: script IsPushOnly_step [OF GetOp2_opcode])
  ultimately show ?thesis
    using IsPayToPublicKeyHash_normal [OF assms] h
    by (simp add: script IsPayToScriptHash_def IsUnspendable_def)
qed

theorem P2PKH_classification_witness:
  "IsNormalPaymentScript ([0x76, 0xa9, 0x14] @ replicate 20 7 @ [0x88, 0xac])"
  using P2PKH_classification [of "[0x76, 0xa9, 0x14] @ replicate 20 7 @ [0x88, 0xac]"]
  by (auto simp: IsPayToPublicKeyHash_iff)

end
