(* ===== verification/SigEncoding.thy ===== *)
theory SigEncoding
  imports Script
begin

text \<open>
  The checks of script/interpreter.cpp on the form of what a script pushes: the verification flags of
  script/interpreter.h, \<open>CastToBool\<close>, the public key and signature encodings, and minimal pushes.

  Reads of a byte vector at a computed index go through \<open>vget\<close>: a read out of range would be
  undefined behaviour, and the lemmas show that none happens.
\<close>

subsection \<open>Verification flags\<close>

abbreviation (input) SCRIPT_VERIFY_P2SH :: u32 where "SCRIPT_VERIFY_P2SH \<equiv> 1"
abbreviation (input) SCRIPT_VERIFY_STRICTENC :: u32 where "SCRIPT_VERIFY_STRICTENC \<equiv> 2"
abbreviation (input) SCRIPT_VERIFY_DERSIG :: u32 where "SCRIPT_VERIFY_DERSIG \<equiv> 4"
abbreviation (input) SCRIPT_VERIFY_LOW_S :: u32 where "SCRIPT_VERIFY_LOW_S \<equiv> 8"
abbreviation (input) SCRIPT_VERIFY_NULLDUMMY :: u32 where "SCRIPT_VERIFY_NULLDUMMY \<equiv> 16"
abbreviation (input) SCRIPT_VERIFY_SIGPUSHONLY :: u32 where "SCRIPT_VERIFY_SIGPUSHONLY \<equiv> 32"
abbreviation (input) SCRIPT_VERIFY_MINIMALDATA :: u32 where "SCRIPT_VERIFY_MINIMALDATA \<equiv> 64"
abbreviation (input) SCRIPT_VERIFY_DISCOURAGE_UPGRADABLE_NOPS :: u32
  where "SCRIPT_VERIFY_DISCOURAGE_UPGRADABLE_NOPS \<equiv> 128"
abbreviation (input) SCRIPT_VERIFY_CLEANSTACK :: u32 where "SCRIPT_VERIFY_CLEANSTACK \<equiv> 256"
abbreviation (input) SCRIPT_VERIFY_CHECKLOCKTIMEVERIFY :: u32
  where "SCRIPT_VERIFY_CHECKLOCKTIMEVERIFY \<equiv> 512"
abbreviation (input) SCRIPT_VERIFY_CHECKSEQUENCEVERIFY :: u32
  where "SCRIPT_VERIFY_CHECKSEQUENCEVERIFY \<equiv> 1024"

definition has_flag :: "u32 \<Rightarrow> u32 \<Rightarrow> bool" where
  "has_flag flags f \<longleftrightarrow> flags AND f \<noteq> 0"

abbreviation (input) SIGHASH_ALL :: nat where "SIGHASH_ALL \<equiv> 1"
abbreviation (input) SIGHASH_NONE :: nat where "SIGHASH_NONE \<equiv> 2"
abbreviation (input) SIGHASH_SINGLE :: nat where "SIGHASH_SINGLE \<equiv> 3"
abbreviation (input) SIGHASH_ANYONECANPAY :: byte where "SIGHASH_ANYONECANPAY \<equiv> 0x80"

subsection \<open>The checks\<close>

fun CastToBool :: "bytes \<Rightarrow> bool" where
  "CastToBool [] = False"
| "CastToBool (b # vch) =
     (if b \<noteq> 0 then (if vch = [] \<and> b = 0x80 then False else True) else CastToBool vch)"

definition IsCompressedOrUncompressedPubKey :: "bytes \<Rightarrow> bool" where
  "IsCompressedOrUncompressedPubKey vchPubKey =
     (if length vchPubKey < 33 then False
      else if vchPubKey ! 0 = 0x04 then length vchPubKey = 65
      else if vchPubKey ! 0 = 0x02 \<or> vchPubKey ! 0 = 0x03 then length vchPubKey = 33
      else False)"

text \<open>\<open>None\<close> is a read out of range; \<open>check\<close> is \<open>if (!c) return false\<close>.\<close>

definition read_at :: "bytes \<Rightarrow> nat \<Rightarrow> (byte \<Rightarrow> bool option) \<Rightarrow> bool option" where
  "read_at sig i k = Option.bind (vget sig i) k"

definition check :: "bool \<Rightarrow> bool option \<Rightarrow> bool option" where
  "check c k = (if c then k else Some False)"

definition check_read :: "bool \<Rightarrow> bytes \<Rightarrow> nat \<Rightarrow> (byte \<Rightarrow> bool) \<Rightarrow> bool option \<Rightarrow> bool option" where
  "check_read c sig i p k = (if c then read_at sig i (\<lambda>b. check (p b) k) else k)"

definition IsValidSignatureEncoding :: "bytes \<Rightarrow> bool option" where
  "IsValidSignatureEncoding sig =
     check (\<not> length sig < 9) (
     check (\<not> length sig > 73) (
     read_at sig 0 (\<lambda>s0. check (s0 = 0x30) (
     read_at sig 1 (\<lambda>s1. check (unat s1 = length sig - 3) (
     read_at sig 3 (\<lambda>s3. let lenR = unat s3 in
     check (\<not> 5 + lenR \<ge> length sig) (
     read_at sig (5 + lenR) (\<lambda>sR. let lenS = unat sR in
     check (lenR + lenS + 7 = length sig) (
     read_at sig 2 (\<lambda>s2. check (s2 = 0x02) (
     check (lenR \<noteq> 0) (
     read_at sig 4 (\<lambda>s4. check (\<not> s4 AND 0x80 \<noteq> 0) (
     check_read (lenR > 1 \<and> s4 = 0x00) sig 5 (\<lambda>s5. s5 AND 0x80 \<noteq> 0) (
     read_at sig (lenR + 4) (\<lambda>sS. check (sS = 0x02) (
     check (lenS \<noteq> 0) (
     read_at sig (lenR + 6) (\<lambda>s6. check (\<not> s6 AND 0x80 \<noteq> 0) (
     check_read (lenS > 1 \<and> s6 = 0x00) sig (lenR + 7) (\<lambda>s7. s7 AND 0x80 \<noteq> 0) (
     Some True))))))))))))))))))))))"

text \<open>
  What the source leaves to the elliptic curve library and the hash functions of crypto/: any
  functions of these types. \<open>PubKey_Verify\<close> is \<open>CPubKey::Verify\<close>: the bytes of the key, the hash and
  the signature.
\<close>

record crypto =
  CRIPEMD160 :: "bytes \<Rightarrow> bytes"
  CSHA1 :: "bytes \<Rightarrow> bytes"
  CSHA256 :: "bytes \<Rightarrow> bytes"
  CheckLowS :: "bytes \<Rightarrow> bool"
  PubKey_Verify :: "bytes \<Rightarrow> bytes \<Rightarrow> bytes \<Rightarrow> bool"

text \<open>\<open>CHash160\<close> and \<open>CHash256\<close> of hash.h.\<close>

definition CHash160 :: "crypto \<Rightarrow> bytes \<Rightarrow> bytes" where
  "CHash160 C m = CRIPEMD160 C (CSHA256 C m)"

definition CHash256 :: "crypto \<Rightarrow> bytes \<Rightarrow> bytes" where
  "CHash256 C m = CSHA256 C (CSHA256 C m)"

definition require_valid_encoding :: "bytes \<Rightarrow> cxx_exit + unit" where
  "require_valid_encoding vchSig =
     (case IsValidSignatureEncoding vchSig of
        None \<Rightarrow> Inl Undefined
      | Some v \<Rightarrow> if \<not> v then Inl (Err SCRIPT_ERR_SIG_DER) else Inr ())"

definition IsLowDERSignature :: "crypto \<Rightarrow> bytes \<Rightarrow> cxx_exit + unit" where
  "IsLowDERSignature C vchSig =
     ebind (require_valid_encoding vchSig) (\<lambda>_.
       if \<not> CheckLowS C (butlast vchSig) then Inl (Err SCRIPT_ERR_SIG_HIGH_S) else Inr ())"

definition IsDefinedHashtypeSignature :: "bytes \<Rightarrow> bool" where
  "IsDefinedHashtypeSignature vchSig =
     (if length vchSig = 0 then False
      else let nHashType = unat (last vchSig AND NOT SIGHASH_ANYONECANPAY) in
        \<not> (nHashType < SIGHASH_ALL \<or> nHashType > SIGHASH_SINGLE))"

definition CheckSignatureEncoding :: "crypto \<Rightarrow> bytes \<Rightarrow> u32 \<Rightarrow> cxx_exit + unit" where
  "CheckSignatureEncoding C vchSig flags =
     (if length vchSig = 0 then Inr ()
      else ebind
        (if has_flag flags (SCRIPT_VERIFY_DERSIG OR SCRIPT_VERIFY_LOW_S OR SCRIPT_VERIFY_STRICTENC)
         then require_valid_encoding vchSig else Inr ()) (\<lambda>_.
        ebind (if has_flag flags SCRIPT_VERIFY_LOW_S then IsLowDERSignature C vchSig else Inr ()) (\<lambda>_.
          if has_flag flags SCRIPT_VERIFY_STRICTENC \<and> \<not> IsDefinedHashtypeSignature vchSig
          then Inl (Err SCRIPT_ERR_SIG_HASHTYPE) else Inr ())))"

definition CheckPubKeyEncoding :: "bytes \<Rightarrow> u32 \<Rightarrow> cxx_exit + unit" where
  "CheckPubKeyEncoding vchPubKey flags =
     (if has_flag flags SCRIPT_VERIFY_STRICTENC \<and> \<not> IsCompressedOrUncompressedPubKey vchPubKey
      then Inl (Err SCRIPT_ERR_PUBKEYTYPE) else Inr ())"

definition CheckMinimalPush :: "bytes \<Rightarrow> opcodetype \<Rightarrow> bool" where
  "CheckMinimalPush data opcode =
     (if length data = 0 then opcode = OP_0
      else if length data = 1 \<and> data ! 0 \<ge> 1 \<and> data ! 0 \<le> 16 then
        opcode = OP_1 + (unat (data ! 0) - 1)
      else if length data = 1 \<and> data ! 0 = 0x81 then opcode = OP_1NEGATE
      else if length data \<le> 75 then opcode = length data
      else if length data \<le> 255 then opcode = OP_PUSHDATA1
      else if length data \<le> 65535 then opcode = OP_PUSHDATA2
      else True)"

subsection \<open>Signatures: the check is DER\<close>

text \<open>
  The contract: a signature is the DER encoding of two positive integers in their shortest form,
  followed by one byte of hash type, with one-byte lengths.
\<close>

definition der_int :: "bytes \<Rightarrow> bool" where
  "der_int n \<longleftrightarrow> n \<noteq> [] \<and> unat (n ! 0) < 128 \<and> (length n > 1 \<longrightarrow> n ! 0 = 0 \<longrightarrow> 128 \<le> unat (n ! 1))"

definition der_encode :: "bytes \<Rightarrow> bytes \<Rightarrow> byte \<Rightarrow> bytes" where
  "der_encode R S hashtype =
     [0x30, word_of_nat (length R + length S + 4), 0x02, word_of_nat (length R)] @ R @
     [0x02, word_of_nat (length S)] @ S @ [hashtype]"

text \<open>One rule for each combinator: when it is defined, and when it accepts.\<close>

lemma check_defined: "(c \<Longrightarrow> k \<noteq> None) \<Longrightarrow> check c k \<noteq> None"
  by (cases c) (simp_all add: check_def)

lemma read_at_defined: "i < length sig \<Longrightarrow> k (sig ! i) \<noteq> None \<Longrightarrow> read_at sig i k \<noteq> None"
  by (simp add: read_at_def)

lemma check_read_defined:
  "(c \<Longrightarrow> i < length sig) \<Longrightarrow> k \<noteq> None \<Longrightarrow> check_read c sig i p k \<noteq> None"
  by (cases c; cases "p (sig ! i)") (simp_all add: check_read_def read_at_def check_def)

lemma check_accepts: "check c k = Some True \<longleftrightarrow> c \<and> k = Some True"
  by (simp add: check_def)

lemma read_at_accepts: "read_at sig i k = Some True \<longleftrightarrow> i < length sig \<and> k (sig ! i) = Some True"
  by (cases "i < length sig") (simp_all add: read_at_def)

lemma check_read_accepts:
  "check_read c sig i p k = Some True \<longleftrightarrow> (c \<longrightarrow> i < length sig \<and> p (sig ! i)) \<and> k = Some True"
  by (simp add: check_read_def read_at_accepts check_accepts)

lemmas check_accept_simps = check_accepts read_at_accepts check_read_accepts

lemma IsValidSignatureEncoding_defined: "IsValidSignatureEncoding sig \<noteq> None"
  unfolding IsValidSignatureEncoding_def Let_def
  by (intro check_defined read_at_defined check_read_defined) auto

lemma IsValidSignatureEncoding_fields:
  "IsValidSignatureEncoding sig = Some True \<longleftrightarrow>
     9 \<le> length sig \<and> length sig \<le> 73 \<and> sig ! 0 = 0x30 \<and> unat (sig ! 1) = length sig - 3 \<and>
     (let lenR = unat (sig ! 3); lenS = unat (sig ! (5 + lenR)) in
       5 + lenR < length sig \<and> lenR + lenS + 7 = length sig \<and> sig ! 2 = 0x02 \<and>
       lenR \<noteq> 0 \<and> unat (sig ! 4) < 128 \<and>
       (lenR > 1 \<and> sig ! 4 = 0 \<longrightarrow> 128 \<le> unat (sig ! 5)) \<and>
       sig ! (lenR + 4) = 0x02 \<and> lenS \<noteq> 0 \<and> unat (sig ! (lenR + 6)) < 128 \<and>
       (lenS > 1 \<and> sig ! (lenR + 6) = 0 \<longrightarrow> 128 \<le> unat (sig ! (lenR + 7))))"
  unfolding IsValidSignatureEncoding_def Let_def check_accept_simps byte_and_128 not_le [symmetric]
  by (auto simp: not_le)

lemma length_der_encode [simp]: "length (der_encode R S ht) = length R + length S + 7"
  by (simp add: der_encode_def)

lemma nth_der_encode:
  "der_encode R S ht ! 0 = 0x30"
  "der_encode R S ht ! 1 = word_of_nat (length R + length S + 4)"
  "der_encode R S ht ! 2 = 0x02"
  "der_encode R S ht ! 3 = word_of_nat (length R)"
  "i < length R \<Longrightarrow> der_encode R S ht ! (4 + i) = R ! i"
  "der_encode R S ht ! (length R + 4) = 0x02"
  "der_encode R S ht ! (5 + length R) = word_of_nat (length S)"
  "i < length S \<Longrightarrow> der_encode R S ht ! (length R + 6 + i) = S ! i"
  "der_encode R S ht ! (length R + 6 + length S) = ht"
  by (simp_all add: der_encode_def nth_append numeral_eq_Suc del: of_nat_add)

lemma der_encode_valid:
  assumes len: "9 \<le> length (der_encode R S ht)" "length (der_encode R S ht) \<le> 73"
    and ints: "der_int R" "der_int S"
  shows "IsValidSignatureEncoding (der_encode R S ht) = Some True"
proof -
  let ?sig = "der_encode R S ht"
  have lens: "length R + length S + 7 \<le> 73" using len by simp
  have lenR: "unat (?sig ! 3) = length R" using lens by (simp add: nth_der_encode)
  have lenS: "unat (?sig ! (5 + length R)) = length S" using lens by (simp add: nth_der_encode)
  have "unat (?sig ! 1) = (length R + length S + 4) mod 256"
    by (simp only: nth_der_encode unat_word_of_nat_byte)
  then have one: "unat (?sig ! 1) = length ?sig - 3" using lens by simp
  have R: "?sig ! 4 = R ! 0" "length R > 1 \<Longrightarrow> ?sig ! 5 = R ! 1"
    using nth_der_encode(5) [of 0 R S ht] nth_der_encode(5) [of 1 R S ht] ints
    by (auto simp: der_int_def)
  have S: "?sig ! (length R + 6) = S ! 0" "length S > 1 \<Longrightarrow> ?sig ! (length R + 7) = S ! 1"
    using nth_der_encode(8) [of 0 S R ht] nth_der_encode(8) [of 1 S R ht] ints
    by (auto simp: der_int_def add.commute)
  show ?thesis
    unfolding IsValidSignatureEncoding_fields Let_def lenR lenS
    using ints len one R S by (simp add: nth_der_encode der_int_def)
qed

text \<open>The other direction: an accepted signature is cut into its two integers.\<close>

lemma valid_signature_der_encode:
  assumes "IsValidSignatureEncoding sig = Some True"
  shows "\<exists>R S ht. sig = der_encode R S ht \<and> der_int R \<and> der_int S"
proof -
  define lenR where "lenR = unat (sig ! 3)"
  define lenS where "lenS = unat (sig ! (5 + lenR))"
  define R where "R = take lenR (drop 4 sig)"
  define S where "S = take lenS (drop (lenR + 6) sig)"
  have fields: "9 \<le> length sig" "length sig \<le> 73" "sig ! 0 = 0x30" "unat (sig ! 1) = length sig - 3"
    "5 + lenR < length sig" "lenR + lenS + 7 = length sig" "sig ! 2 = 0x02" "lenR \<noteq> 0"
    "unat (sig ! 4) < 128" "lenR > 1 \<and> sig ! 4 = 0 \<longrightarrow> 128 \<le> unat (sig ! 5)"
    "sig ! (lenR + 4) = 0x02" "lenS \<noteq> 0" "unat (sig ! (lenR + 6)) < 128"
    "lenS > 1 \<and> sig ! (lenR + 6) = 0 \<longrightarrow> 128 \<le> unat (sig ! (lenR + 7))"
    using assms unfolding IsValidSignatureEncoding_fields Let_def lenR_def lenS_def by auto
  have len: "length R = lenR" "length S = lenS"
    using fields by (auto simp: R_def S_def)
  have R: "der_int R"
  proof -
    have nth: "R ! 0 = sig ! 4" "R \<noteq> []" "lenR > 1 \<Longrightarrow> R ! 1 = sig ! 5"
      using fields(5,6,8) by (simp_all add: R_def)
    then show ?thesis
      unfolding der_int_def len using fields(9,10) by simp
  qed
  have S: "der_int S"
  proof -
    have one: "S ! 1 = sig ! (lenR + 7)" if "lenS > 1"
      using that fields(5,6) by (simp add: S_def add.commute [of 7 lenR])
    have "S ! 0 = sig ! (lenR + 6)" "S \<noteq> []"
      using fields(5,6,12) by (simp_all add: S_def)
    then show ?thesis
      unfolding der_int_def len using fields(13,14) one by (cases "lenS > 1") simp_all
  qed
  have "sig = der_encode R S (last sig)"
  proof (rule nth_equalityI)
    show "length sig = length (der_encode R S (last sig))"
      using fields len by simp
  next
    fix i
    assume "i < length sig"
    then have "i < lenR + lenS + 7" using fields(6) by simp
    then consider "i = 0" | "i = 1" | "i = 2" | "i = 3" | "4 \<le> i" "i < 4 + lenR" | "i = lenR + 4"
      | "i = 5 + lenR" | "lenR + 6 \<le> i" "i < lenR + 6 + lenS" | "i = length sig - 1"
      using fields(6) by linarith
    then show "sig ! i = der_encode R S (last sig) ! i"
    proof cases
      case 1
      show ?thesis using fields 1 by (simp only: nth_der_encode)
    next
      case 2
      have "sig ! 1 = word_of_nat (unat (sig ! 1))" by simp
      also have "unat (sig ! 1) = length R + length S + 4" using fields len by simp
      finally show ?thesis unfolding 2 by (simp only: nth_der_encode)
    next
      case 3
      show ?thesis using fields 3 by (simp only: nth_der_encode)
    next
      case 4
      show ?thesis unfolding 4 by (simp add: nth_der_encode len lenR_def)
    next
      case 5
      then show ?thesis
        using nth_der_encode(5) [of "i - 4" R S "last sig"] len fields by (simp add: R_def)
    next
      case 6
      show ?thesis using fields(11) nth_der_encode(6) [of R S "last sig"] len 6 by simp
    next
      case 7
      show ?thesis using nth_der_encode(7) [of R S "last sig"] len 7 by (simp add: lenS_def)
    next
      case 8
      then show ?thesis
        using nth_der_encode(8) [of "i - (lenR + 6)" S R "last sig"] len fields by (simp add: S_def)
    next
      case 9
      have "sig \<noteq> []" using fields(1) by auto
      with 9 have "i = length R + 6 + length S" and "last sig = sig ! i"
        using fields(6) len by (simp_all add: last_conv_nth)
      then show ?thesis
        by (simp only: nth_der_encode)
    qed
  qed
  with R S show ?thesis by blast
qed

text \<open>C15: The checks of \<open>IsValidSignatureEncoding\<close> accept exactly the strict DER encodings of two
  integers followed by a hash type, of 9 to 73 bytes, and no index they read is out of range.\<close>

theorem IsValidSignatureEncoding_der:
  "IsValidSignatureEncoding sig = Some (9 \<le> length sig \<and> length sig \<le> 73 \<and>
     (\<exists>R S hashtype. sig = der_encode R S hashtype \<and> der_int R \<and> der_int S))"
proof -
  have "IsValidSignatureEncoding sig = Some True \<longleftrightarrow> 9 \<le> length sig \<and> length sig \<le> 73 \<and>
      (\<exists>R S hashtype. sig = der_encode R S hashtype \<and> der_int R \<and> der_int S)"
    using der_encode_valid valid_signature_der_encode IsValidSignatureEncoding_fields by blast
  then show ?thesis
    using IsValidSignatureEncoding_defined [of sig] by (cases "IsValidSignatureEncoding sig") auto
qed

text \<open>Concrete cryptographic functions, to evaluate the model on examples.\<close>

definition example_crypto :: crypto where
  "example_crypto = \<lparr>CRIPEMD160 = \<lambda>m. replicate 20 0, CSHA1 = \<lambda>m. replicate 20 0,
     CSHA256 = \<lambda>m. replicate 32 0, CheckLowS = \<lambda>sig. True, PubKey_Verify = \<lambda>key hash sig. True\<rparr>"

end
