(* ===== verification/Interpreter.thy ===== *)
theory Interpreter
  imports SigEncoding
begin

text \<open>
  The script evaluator of script/interpreter.cpp: \<open>EvalScript\<close> with every case of its switch, and
  \<open>VerifyScript\<close>. The stacks of the C++ are vectors that grow at the back; here the head of the
  list is the back of the vector, so \<open>stacktop(-i)\<close> is the element \<open>i - 1\<close>.

  The order of the definitions is the order of the source. The lemmas at the end show that an
  evaluation ends only in the ways the code foresees, and that it keeps the resource limits.
\<close>

subsection \<open>Signature checkers\<close>

text \<open>
  The virtual functions of \<open>BaseSignatureChecker\<close>. The two lock-time checks read the input of the
  transaction that is being verified, unchecked.
\<close>

record checker =
  CheckSig :: "bytes \<Rightarrow> bytes \<Rightarrow> CScript \<Rightarrow> bool"
  CheckLockTime :: "int \<Rightarrow> cxx_exit + bool"
  CheckSequence :: "int \<Rightarrow> cxx_exit + bool"

definition BaseSignatureChecker :: checker where
  "BaseSignatureChecker =
     \<lparr>CheckSig = (\<lambda>vchSig vchPubKey scriptCode. False),
      CheckLockTime = (\<lambda>nLockTime. Inr False),
      CheckSequence = (\<lambda>nSequence. Inr False)\<rparr>"

subsection \<open>The stack\<close>

abbreviation (input) set_error :: "ScriptError \<Rightarrow> cxx_exit + 'a" where
  "set_error serror \<equiv> Inl (Err serror)"

definition stacktop :: "'a list \<Rightarrow> nat \<Rightarrow> cxx_exit + 'a" where
  "stacktop st i = (if 0 < i \<and> i \<le> length st then Inr (st ! (i - 1)) else Inl (Throw out_of_range))"

definition popstack :: "'a list \<Rightarrow> cxx_exit + 'a list" where
  "popstack st = (case st of [] \<Rightarrow> Inl (Throw popstack_empty) | v # st' \<Rightarrow> Inr st')"

text \<open>\<open>while (i-- > 0) popstack(stack)\<close>.\<close>

fun popstack_n :: "nat \<Rightarrow> 'a list \<Rightarrow> cxx_exit + 'a list" where
  "popstack_n 0 st = Inr st"
| "popstack_n (Suc i) st = ebind (popstack st) (popstack_n i)"

text \<open>\<open>swap(stacktop(-i), stacktop(-j))\<close>.\<close>

definition swap_stacktop :: "nat \<Rightarrow> nat \<Rightarrow> 'a list \<Rightarrow> cxx_exit + 'a list" where
  "swap_stacktop i j st =
     ebind (stacktop st i) (\<lambda>a. ebind (stacktop st j) (\<lambda>b. Inr (st[i - 1 := b, j - 1 := a])))"

text \<open>\<open>stack.erase(stack.end() - i)\<close> and \<open>stack.erase(stack.end() - i, stack.end() - j)\<close>.\<close>

definition erase_top :: "nat \<Rightarrow> 'a list \<Rightarrow> cxx_exit + 'a list" where
  "erase_top i st = (if 0 < i \<and> i \<le> length st then Inr (erase_at (i - 1) st) else Inl Undefined)"

definition erase_range_top :: "nat \<Rightarrow> nat \<Rightarrow> 'a list \<Rightarrow> cxx_exit + 'a list" where
  "erase_range_top i j st =
     (if j \<le> i \<and> i \<le> length st then Inr (take j st @ drop i st) else Inl Undefined)"

text \<open>\<open>stack.insert(stack.end() - i, v)\<close>.\<close>

definition insert_top :: "nat \<Rightarrow> 'a \<Rightarrow> 'a list \<Rightarrow> cxx_exit + 'a list" where
  "insert_top i v st = (if i \<le> length st then Inr (insert_at i v st) else Inl Undefined)"

abbreviation (input) vchFalse :: bytes where "vchFalse \<equiv> []"
abbreviation (input) vchTrue :: bytes where "vchTrue \<equiv> [1]"

definition bool_vch :: "bool \<Rightarrow> bytes" where
  "bool_vch b = (if b then vchTrue else vchFalse)"

definition bool_num :: "bool \<Rightarrow> int" where
  "bool_num b = (if b then 1 else 0)"

abbreviation (input) fRequireMinimal :: "u32 \<Rightarrow> bool" where
  "fRequireMinimal flags \<equiv> has_flag flags SCRIPT_VERIFY_MINIMALDATA"

text \<open>\<open>CScriptNum(stacktop(-i), fRequireMinimal, nMaxNumSize)\<close>.\<close>

definition scriptnum_at :: "bytes list \<Rightarrow> nat \<Rightarrow> u32 \<Rightarrow> nat \<Rightarrow> cxx_exit + int" where
  "scriptnum_at st i flags nMaxNumSize =
     ebind (stacktop st i) (\<lambda>vch. CScriptNum vch (fRequireMinimal flags) nMaxNumSize)"

subsection \<open>Push value and control\<close>

definition exec_push_value :: "opcodetype \<Rightarrow> bytes list \<Rightarrow> bytes list" where
  "exec_push_value opcode st = getvch (int opcode - (int OP_1 - 1)) # st"

definition exec_CHECKLOCKTIMEVERIFY :: "checker \<Rightarrow> u32 \<Rightarrow> bytes list \<Rightarrow> cxx_exit + bytes list" where
  "exec_CHECKLOCKTIMEVERIFY checker flags st =
     (if \<not> has_flag flags SCRIPT_VERIFY_CHECKLOCKTIMEVERIFY then
        (if has_flag flags SCRIPT_VERIFY_DISCOURAGE_UPGRADABLE_NOPS
         then set_error SCRIPT_ERR_DISCOURAGE_UPGRADABLE_NOPS else Inr st)
      else if length st < 1 then set_error SCRIPT_ERR_INVALID_STACK_OPERATION
      else ebind (scriptnum_at st 1 flags 5) (\<lambda>nLockTime.
        if nLockTime < 0 then set_error SCRIPT_ERR_NEGATIVE_LOCKTIME
        else ebind (CheckLockTime checker nLockTime) (\<lambda>ok.
          if \<not> ok then set_error SCRIPT_ERR_UNSATISFIED_LOCKTIME else Inr st)))"

abbreviation (input) SEQUENCE_FINAL :: int where "SEQUENCE_FINAL \<equiv> 0xffffffff"
abbreviation (input) SEQUENCE_LOCKTIME_DISABLE_FLAG :: int
  where "SEQUENCE_LOCKTIME_DISABLE_FLAG \<equiv> 2147483648"
abbreviation (input) SEQUENCE_LOCKTIME_TYPE_FLAG :: int where "SEQUENCE_LOCKTIME_TYPE_FLAG \<equiv> 4194304"
abbreviation (input) SEQUENCE_LOCKTIME_MASK :: int where "SEQUENCE_LOCKTIME_MASK \<equiv> 0x0000ffff"

definition exec_CHECKSEQUENCEVERIFY :: "checker \<Rightarrow> u32 \<Rightarrow> bytes list \<Rightarrow> cxx_exit + bytes list" where
  "exec_CHECKSEQUENCEVERIFY checker flags st =
     (if \<not> has_flag flags SCRIPT_VERIFY_CHECKSEQUENCEVERIFY then
        (if has_flag flags SCRIPT_VERIFY_DISCOURAGE_UPGRADABLE_NOPS
         then set_error SCRIPT_ERR_DISCOURAGE_UPGRADABLE_NOPS else Inr st)
      else if length st < 1 then set_error SCRIPT_ERR_INVALID_STACK_OPERATION
      else ebind (scriptnum_at st 1 flags 5) (\<lambda>nSequence.
        if nSequence < 0 then set_error SCRIPT_ERR_NEGATIVE_LOCKTIME
        else if nSequence AND SEQUENCE_LOCKTIME_DISABLE_FLAG \<noteq> 0 then Inr st
        else ebind (CheckSequence checker nSequence) (\<lambda>ok.
          if \<not> ok then set_error SCRIPT_ERR_UNSATISFIED_LOCKTIME else Inr st)))"

definition exec_NOPx :: "u32 \<Rightarrow> bytes list \<Rightarrow> cxx_exit + bytes list" where
  "exec_NOPx flags st =
     (if has_flag flags SCRIPT_VERIFY_DISCOURAGE_UPGRADABLE_NOPS
      then set_error SCRIPT_ERR_DISCOURAGE_UPGRADABLE_NOPS else Inr st)"

text \<open>The conditionals work on the stack and on \<open>vfExec\<close>, whose back is the head of the list.\<close>

definition exec_IF :: "opcodetype \<Rightarrow> bool \<Rightarrow> bytes list \<times> bool list \<Rightarrow> cxx_exit + bytes list \<times> bool list" where
  "exec_IF opcode fExec = (\<lambda>(st, vfExec).
     if fExec then
       (if length st < 1 then set_error SCRIPT_ERR_UNBALANCED_CONDITIONAL
        else ebind (stacktop st 1) (\<lambda>vch.
          let fValue = CastToBool vch;
              fValue = (if opcode = OP_NOTIF then \<not> fValue else fValue) in
          ebind (popstack st) (\<lambda>st. Inr (st, fValue # vfExec))))
     else Inr (st, False # vfExec))"

definition exec_ELSE :: "bool list \<Rightarrow> cxx_exit + bool list" where
  "exec_ELSE vfExec =
     (case vfExec of
        [] \<Rightarrow> set_error SCRIPT_ERR_UNBALANCED_CONDITIONAL
      | b # vfExec' \<Rightarrow> Inr ((\<not> b) # vfExec'))"

definition exec_ENDIF :: "bool list \<Rightarrow> cxx_exit + bool list" where
  "exec_ENDIF vfExec =
     (case vfExec of
        [] \<Rightarrow> set_error SCRIPT_ERR_UNBALANCED_CONDITIONAL
      | b # vfExec' \<Rightarrow> Inr vfExec')"

definition exec_VERIFY :: "bytes list \<Rightarrow> cxx_exit + bytes list" where
  "exec_VERIFY st =
     (if length st < 1 then set_error SCRIPT_ERR_INVALID_STACK_OPERATION
      else ebind (stacktop st 1) (\<lambda>vch.
        if CastToBool vch then popstack st else set_error SCRIPT_ERR_VERIFY))"

subsection \<open>Stack operations\<close>

definition exec_TOALTSTACK :: "bytes list \<times> bytes list \<Rightarrow> cxx_exit + bytes list \<times> bytes list" where
  "exec_TOALTSTACK = (\<lambda>(st, alt).
     if length st < 1 then set_error SCRIPT_ERR_INVALID_STACK_OPERATION
     else ebind (stacktop st 1) (\<lambda>v. ebind (popstack st) (\<lambda>st. Inr (st, v # alt))))"

definition exec_FROMALTSTACK :: "bytes list \<times> bytes list \<Rightarrow> cxx_exit + bytes list \<times> bytes list" where
  "exec_FROMALTSTACK = (\<lambda>(st, alt).
     if length alt < 1 then set_error SCRIPT_ERR_INVALID_ALTSTACK_OPERATION
     else ebind (stacktop alt 1) (\<lambda>v. ebind (popstack alt) (\<lambda>alt. Inr (v # st, alt))))"

text \<open>\<open>if (stack.size() < n) return set_error(serror, SCRIPT_ERR_INVALID_STACK_OPERATION)\<close>.\<close>

definition need :: "nat \<Rightarrow> bytes list \<Rightarrow> cxx_exit + 'a \<Rightarrow> cxx_exit + 'a" where
  "need n st k = (if length st < n then set_error SCRIPT_ERR_INVALID_STACK_OPERATION else k)"

definition exec_2DROP :: "bytes list \<Rightarrow> cxx_exit + bytes list" where
  "exec_2DROP st = need 2 st (ebind (popstack st) popstack)"

definition exec_2DUP :: "bytes list \<Rightarrow> cxx_exit + bytes list" where
  "exec_2DUP st = need 2 st (
     ebind (stacktop st 2) (\<lambda>vch1. ebind (stacktop st 1) (\<lambda>vch2. Inr (vch2 # vch1 # st))))"

definition exec_3DUP :: "bytes list \<Rightarrow> cxx_exit + bytes list" where
  "exec_3DUP st = need 3 st (
     ebind (stacktop st 3) (\<lambda>vch1. ebind (stacktop st 2) (\<lambda>vch2. ebind (stacktop st 1) (\<lambda>vch3.
       Inr (vch3 # vch2 # vch1 # st)))))"

definition exec_2OVER :: "bytes list \<Rightarrow> cxx_exit + bytes list" where
  "exec_2OVER st = need 4 st (
     ebind (stacktop st 4) (\<lambda>vch1. ebind (stacktop st 3) (\<lambda>vch2. Inr (vch2 # vch1 # st))))"

definition exec_2ROT :: "bytes list \<Rightarrow> cxx_exit + bytes list" where
  "exec_2ROT st = need 6 st (
     ebind (stacktop st 6) (\<lambda>vch1. ebind (stacktop st 5) (\<lambda>vch2.
       ebind (erase_range_top 6 4 st) (\<lambda>st. Inr (vch2 # vch1 # st)))))"

definition exec_2SWAP :: "bytes list \<Rightarrow> cxx_exit + bytes list" where
  "exec_2SWAP st = need 4 st (ebind (swap_stacktop 4 2 st) (swap_stacktop 3 1))"

definition exec_IFDUP :: "bytes list \<Rightarrow> cxx_exit + bytes list" where
  "exec_IFDUP st = need 1 st (
     ebind (stacktop st 1) (\<lambda>vch. if CastToBool vch then Inr (vch # st) else Inr st))"

definition exec_DEPTH :: "bytes list \<Rightarrow> cxx_exit + bytes list" where
  "exec_DEPTH st = Inr (getvch (int (length st)) # st)"

definition exec_DROP :: "bytes list \<Rightarrow> cxx_exit + bytes list" where
  "exec_DROP st = need 1 st (popstack st)"

definition exec_DUP :: "bytes list \<Rightarrow> cxx_exit + bytes list" where
  "exec_DUP st = need 1 st (ebind (stacktop st 1) (\<lambda>vch. Inr (vch # st)))"

definition exec_NIP :: "bytes list \<Rightarrow> cxx_exit + bytes list" where
  "exec_NIP st = need 2 st (erase_top 2 st)"

definition exec_OVER :: "bytes list \<Rightarrow> cxx_exit + bytes list" where
  "exec_OVER st = need 2 st (ebind (stacktop st 2) (\<lambda>vch. Inr (vch # st)))"

definition exec_PICK_ROLL :: "opcodetype \<Rightarrow> u32 \<Rightarrow> bytes list \<Rightarrow> cxx_exit + bytes list" where
  "exec_PICK_ROLL opcode flags st = need 2 st (
     ebind (scriptnum_at st 1 flags nDefaultMaxNumSize) (\<lambda>bn. let n = getint bn in
       ebind (popstack st) (\<lambda>st.
         if n < 0 \<or> n \<ge> int (length st) then set_error SCRIPT_ERR_INVALID_STACK_OPERATION
         else ebind (stacktop st (nat (n + 1))) (\<lambda>vch.
           ebind (if opcode = OP_ROLL then erase_top (nat (n + 1)) st else Inr st) (\<lambda>st.
             Inr (vch # st))))))"

definition exec_ROT :: "bytes list \<Rightarrow> cxx_exit + bytes list" where
  "exec_ROT st = need 3 st (ebind (swap_stacktop 3 2 st) (swap_stacktop 2 1))"

definition exec_SWAP :: "bytes list \<Rightarrow> cxx_exit + bytes list" where
  "exec_SWAP st = need 2 st (swap_stacktop 2 1 st)"

definition exec_TUCK :: "bytes list \<Rightarrow> cxx_exit + bytes list" where
  "exec_TUCK st = need 2 st (ebind (stacktop st 1) (\<lambda>vch. insert_top 2 vch st))"

definition exec_SIZE :: "bytes list \<Rightarrow> cxx_exit + bytes list" where
  "exec_SIZE st = need 1 st (ebind (stacktop st 1) (\<lambda>vch. Inr (getvch (int (length vch)) # st)))"

subsection \<open>Comparison, arithmetic and hashing\<close>

text \<open>
  The \<open>*VERIFY\<close> variants take the result off again and fail when it is false.
\<close>

definition verify_top :: "bool \<Rightarrow> bool \<Rightarrow> ScriptError \<Rightarrow> bytes list \<Rightarrow> cxx_exit + bytes list" where
  "verify_top verify b serror st = (if verify then (if b then popstack st else set_error serror) else Inr st)"

definition exec_EQUAL :: "opcodetype \<Rightarrow> bytes list \<Rightarrow> cxx_exit + bytes list" where
  "exec_EQUAL opcode st = need 2 st (
     ebind (stacktop st 2) (\<lambda>vch1. ebind (stacktop st 1) (\<lambda>vch2. let fEqual = (vch1 = vch2) in
       ebind (popstack_n 2 st) (\<lambda>st.
         verify_top (opcode = OP_EQUALVERIFY) fEqual SCRIPT_ERR_EQUALVERIFY (bool_vch fEqual # st)))))"

definition unary_num :: "opcodetype \<Rightarrow> int \<Rightarrow> cxx_exit + int" where
  "unary_num opcode bn =
     (if opcode = OP_1ADD then scriptnum_plus_assign bn 1
      else if opcode = OP_1SUB then scriptnum_minus_assign bn 1
      else if opcode = OP_NEGATE then scriptnum_uminus bn
      else if opcode = OP_ABS then (if bn < 0 then scriptnum_uminus bn else Inr bn)
      else if opcode = OP_NOT then Inr (bool_num (bn = 0))
      else if opcode = OP_0NOTEQUAL then Inr (bool_num (bn \<noteq> 0))
      else Inl AssertFail)"

definition exec_unary :: "opcodetype \<Rightarrow> u32 \<Rightarrow> bytes list \<Rightarrow> cxx_exit + bytes list" where
  "exec_unary opcode flags st = need 1 st (
     ebind (scriptnum_at st 1 flags nDefaultMaxNumSize) (\<lambda>bn. ebind (unary_num opcode bn) (\<lambda>bn.
       ebind (popstack st) (\<lambda>st. Inr (getvch bn # st)))))"

definition binary_num :: "opcodetype \<Rightarrow> int \<Rightarrow> int \<Rightarrow> cxx_exit + int" where
  "binary_num opcode bn1 bn2 =
     (if opcode = OP_ADD then scriptnum_add bn1 bn2
      else if opcode = OP_SUB then scriptnum_sub bn1 bn2
      else if opcode = OP_BOOLAND then Inr (bool_num (bn1 \<noteq> 0 \<and> bn2 \<noteq> 0))
      else if opcode = OP_BOOLOR then Inr (bool_num (bn1 \<noteq> 0 \<or> bn2 \<noteq> 0))
      else if opcode = OP_NUMEQUAL then Inr (bool_num (bn1 = bn2))
      else if opcode = OP_NUMEQUALVERIFY then Inr (bool_num (bn1 = bn2))
      else if opcode = OP_NUMNOTEQUAL then Inr (bool_num (bn1 \<noteq> bn2))
      else if opcode = OP_LESSTHAN then Inr (bool_num (bn1 < bn2))
      else if opcode = OP_GREATERTHAN then Inr (bool_num (bn1 > bn2))
      else if opcode = OP_LESSTHANOREQUAL then Inr (bool_num (bn1 \<le> bn2))
      else if opcode = OP_GREATERTHANOREQUAL then Inr (bool_num (bn1 \<ge> bn2))
      else if opcode = OP_MIN then Inr (if bn1 < bn2 then bn1 else bn2)
      else if opcode = OP_MAX then Inr (if bn1 > bn2 then bn1 else bn2)
      else Inl AssertFail)"

definition exec_binary :: "opcodetype \<Rightarrow> u32 \<Rightarrow> bytes list \<Rightarrow> cxx_exit + bytes list" where
  "exec_binary opcode flags st = need 2 st (
     ebind (scriptnum_at st 2 flags nDefaultMaxNumSize) (\<lambda>bn1.
     ebind (scriptnum_at st 1 flags nDefaultMaxNumSize) (\<lambda>bn2.
     ebind (binary_num opcode bn1 bn2) (\<lambda>bn.
     ebind (popstack_n 2 st) (\<lambda>st. let st = getvch bn # st in
       ebind (stacktop st 1) (\<lambda>top.
         verify_top (opcode = OP_NUMEQUALVERIFY) (CastToBool top) SCRIPT_ERR_NUMEQUALVERIFY st))))))"

definition exec_WITHIN :: "u32 \<Rightarrow> bytes list \<Rightarrow> cxx_exit + bytes list" where
  "exec_WITHIN flags st = need 3 st (
     ebind (scriptnum_at st 3 flags nDefaultMaxNumSize) (\<lambda>bn1.
     ebind (scriptnum_at st 2 flags nDefaultMaxNumSize) (\<lambda>bn2.
     ebind (scriptnum_at st 1 flags nDefaultMaxNumSize) (\<lambda>bn3.
     ebind (popstack_n 3 st) (\<lambda>st. Inr (bool_vch (bn2 \<le> bn1 \<and> bn1 < bn3) # st))))))"

definition exec_hash :: "crypto \<Rightarrow> opcodetype \<Rightarrow> bytes list \<Rightarrow> cxx_exit + bytes list" where
  "exec_hash C opcode st = need 1 st (
     ebind (stacktop st 1) (\<lambda>vch.
       let vchHash =
         (if opcode = OP_RIPEMD160 then CRIPEMD160 C vch
          else if opcode = OP_SHA1 then CSHA1 C vch
          else if opcode = OP_SHA256 then CSHA256 C vch
          else if opcode = OP_HASH160 then CHash160 C vch
          else CHash256 C vch) in
       ebind (popstack st) (\<lambda>st. Inr (vchHash # st))))"

subsection \<open>Signatures\<close>

text \<open>
  \<open>codehash\<close> is the iterator \<open>pbegincodehash\<close>: the rest of the script from the last code separator.
\<close>

definition check_encodings :: "crypto \<Rightarrow> u32 \<Rightarrow> bytes \<Rightarrow> bytes \<Rightarrow> cxx_exit + unit" where
  "check_encodings C flags vchSig vchPubKey =
     ebind (CheckSignatureEncoding C vchSig flags) (\<lambda>_. CheckPubKeyEncoding vchPubKey flags)"

definition exec_CHECKSIG ::
  "crypto \<Rightarrow> checker \<Rightarrow> u32 \<Rightarrow> opcodetype \<Rightarrow> iterator \<Rightarrow> bytes list \<Rightarrow> cxx_exit + bytes list" where
  "exec_CHECKSIG C checker flags opcode codehash st = need 2 st (
     ebind (stacktop st 2) (\<lambda>vchSig. ebind (stacktop st 1) (\<lambda>vchPubKey.
       let scriptCode = snd (FindAndDelete codehash (push_data [] vchSig)) in
       ebind (check_encodings C flags vchSig vchPubKey) (\<lambda>_.
         let fSuccess = CheckSig checker vchSig vchPubKey scriptCode in
         ebind (popstack_n 2 st) (\<lambda>st.
           verify_top (opcode = OP_CHECKSIGVERIFY) fSuccess SCRIPT_ERR_CHECKSIGVERIFY
             (bool_vch fSuccess # st))))))"

text \<open>
  \<open>CHECKMULTISIG\<close>. The loop that drops the signatures from the script, and the loop that matches
  signatures with keys: \<open>isig\<close> and \<open>ikey\<close> are positions from the top of the stack.
\<close>

fun delete_sigs :: "bytes list \<Rightarrow> nat \<Rightarrow> nat \<Rightarrow> CScript \<Rightarrow> cxx_exit + CScript" where
  "delete_sigs st isig 0 scriptCode = Inr scriptCode"
| "delete_sigs st isig (Suc k) scriptCode =
     ebind (stacktop st isig) (\<lambda>vchSig.
       delete_sigs st (isig + 1) k (snd (FindAndDelete scriptCode (push_data [] vchSig))))"

function multisig_loop ::
  "crypto \<Rightarrow> checker \<Rightarrow> u32 \<Rightarrow> CScript \<Rightarrow> bytes list \<Rightarrow> nat \<Rightarrow> int \<Rightarrow> nat \<Rightarrow> int \<Rightarrow> cxx_exit + bool" where
  "multisig_loop C checker flags scriptCode st isig nSigsCount ikey nKeysCount =
     (if nSigsCount > 0 then
        ebind (stacktop st isig) (\<lambda>vchSig. ebind (stacktop st ikey) (\<lambda>vchPubKey.
          ebind (check_encodings C flags vchSig vchPubKey) (\<lambda>_.
            let fOk = CheckSig checker vchSig vchPubKey scriptCode;
                isig' = (if fOk then isig + 1 else isig);
                nSigsCount' = (if fOk then nSigsCount - 1 else nSigsCount);
                ikey' = ikey + 1;
                nKeysCount' = nKeysCount - 1 in
            if nSigsCount' > nKeysCount' then Inr False
            else multisig_loop C checker flags scriptCode st isig' nSigsCount' ikey' nKeysCount')))
      else Inr True)"
  by pat_completeness auto
termination
  by (relation "measure (\<lambda>(C, checker, flags, scriptCode, st, isig, nSigs, ikey, nKeys). nat (nKeys + 1))")
    (auto split: if_splits)

declare multisig_loop.simps [simp del]

text \<open>The result is the new stack with the new \<open>nOpCount\<close>.\<close>

definition exec_CHECKMULTISIG ::
  "crypto \<Rightarrow> checker \<Rightarrow> u32 \<Rightarrow> opcodetype \<Rightarrow> iterator \<Rightarrow> int \<Rightarrow> bytes list \<Rightarrow> cxx_exit + bytes list \<times> int" where
  "exec_CHECKMULTISIG C checker flags opcode codehash nOpCount st =
     (let i = 1 in need i st (
      ebind (scriptnum_at st i flags nDefaultMaxNumSize) (\<lambda>bn. let nKeysCount = getint bn in
      if nKeysCount < 0 \<or> nKeysCount > MAX_PUBKEYS_PER_MULTISIG then set_error SCRIPT_ERR_PUBKEY_COUNT
      else let nOpCount = nOpCount + nKeysCount in
      if nOpCount > MAX_OPS_PER_SCRIPT then set_error SCRIPT_ERR_OP_COUNT
      else let i = i + 1; ikey = i; i = i + nat nKeysCount in need i st (
      ebind (scriptnum_at st i flags nDefaultMaxNumSize) (\<lambda>bn. let nSigsCount = getint bn in
      if nSigsCount < 0 \<or> nSigsCount > nKeysCount then set_error SCRIPT_ERR_SIG_COUNT
      else let i = i + 1; isig = i; i = i + nat nSigsCount in need i st (
      ebind (delete_sigs st isig (nat nSigsCount) codehash) (\<lambda>scriptCode.
      ebind (multisig_loop C checker flags scriptCode st isig nSigsCount ikey nKeysCount) (\<lambda>fSuccess.
      ebind (popstack_n (i - 1) st) (\<lambda>st. need 1 st (
      ebind (stacktop st 1) (\<lambda>dummy.
      if has_flag flags SCRIPT_VERIFY_NULLDUMMY \<and> length dummy \<noteq> 0 then set_error SCRIPT_ERR_SIG_NULLDUMMY
      else ebind (popstack st) (\<lambda>st.
      ebind (verify_top (opcode = OP_CHECKMULTISIGVERIFY) fSuccess SCRIPT_ERR_CHECKMULTISIGVERIFY
               (bool_vch fSuccess # st)) (\<lambda>st.
      Inr (st, nOpCount))))))))))))))"

subsection \<open>One instruction\<close>

text \<open>
  The local variables of \<open>EvalScript\<close> that its loop changes. \<open>altstack\<close> and \<open>vfExec\<close> are vectors
  too, with their back at the head.
\<close>

record eval_state =
  stack :: "bytes list"
  altstack :: "bytes list"
  vfExec :: "bool list"
  nOpCount :: int
  script_pc :: iterator
  pbegincodehash :: iterator

definition on_stack :: "(bytes list \<Rightarrow> cxx_exit + bytes list) \<Rightarrow> eval_state \<Rightarrow> cxx_exit + eval_state" where
  "on_stack f s = ebind (f (stack s)) (\<lambda>st. Inr (s\<lparr>stack := st\<rparr>))"

definition on_stack_altstack ::
  "(bytes list \<times> bytes list \<Rightarrow> cxx_exit + bytes list \<times> bytes list) \<Rightarrow> eval_state \<Rightarrow> cxx_exit + eval_state" where
  "on_stack_altstack f s =
     ebind (f (stack s, altstack s)) (\<lambda>(st, alt). Inr (s\<lparr>stack := st, altstack := alt\<rparr>))"

definition on_stack_vfExec ::
  "(bytes list \<times> bool list \<Rightarrow> cxx_exit + bytes list \<times> bool list) \<Rightarrow> eval_state \<Rightarrow> cxx_exit + eval_state" where
  "on_stack_vfExec f s =
     ebind (f (stack s, vfExec s)) (\<lambda>(st, vf). Inr (s\<lparr>stack := st, vfExec := vf\<rparr>))"

definition on_vfExec :: "(bool list \<Rightarrow> cxx_exit + bool list) \<Rightarrow> eval_state \<Rightarrow> cxx_exit + eval_state" where
  "on_vfExec f s = ebind (f (vfExec s)) (\<lambda>vf. Inr (s\<lparr>vfExec := vf\<rparr>))"

definition on_stack_nOpCount ::
  "(int \<Rightarrow> bytes list \<Rightarrow> cxx_exit + bytes list \<times> int) \<Rightarrow> eval_state \<Rightarrow> cxx_exit + eval_state" where
  "on_stack_nOpCount f s =
     ebind (f (nOpCount s) (stack s)) (\<lambda>(st, n). Inr (s\<lparr>stack := st, nOpCount := n\<rparr>))"

text \<open>The switch, cut where the source has its headings.\<close>

definition exec_control :: "checker \<Rightarrow> u32 \<Rightarrow> bool \<Rightarrow> opcodetype \<Rightarrow> eval_state \<Rightarrow> cxx_exit + eval_state" where
  "exec_control checker flags fExec opcode s =
     (if opcode = OP_NOP then Inr s
      else if opcode = OP_CHECKLOCKTIMEVERIFY then on_stack (exec_CHECKLOCKTIMEVERIFY checker flags) s
      else if opcode = OP_CHECKSEQUENCEVERIFY then on_stack (exec_CHECKSEQUENCEVERIFY checker flags) s
      else if opcode = OP_NOP1 \<or> (OP_NOP4 \<le> opcode \<and> opcode \<le> OP_NOP10) then on_stack (exec_NOPx flags) s
      else if opcode = OP_IF \<or> opcode = OP_NOTIF then on_stack_vfExec (exec_IF opcode fExec) s
      else if opcode = OP_ELSE then on_vfExec exec_ELSE s
      else if opcode = OP_ENDIF then on_vfExec exec_ENDIF s
      else if opcode = OP_VERIFY then on_stack exec_VERIFY s
      else set_error SCRIPT_ERR_OP_RETURN)"

definition is_control :: "opcodetype \<Rightarrow> bool" where
  "is_control opcode \<longleftrightarrow> opcode \<in> {OP_NOP, OP_CHECKLOCKTIMEVERIFY, OP_CHECKSEQUENCEVERIFY, OP_NOP1,
     OP_IF, OP_NOTIF, OP_ELSE, OP_ENDIF, OP_VERIFY, OP_RETURN} \<or> (OP_NOP4 \<le> opcode \<and> opcode \<le> OP_NOP10)"

definition exec_stack_op :: "u32 \<Rightarrow> opcodetype \<Rightarrow> bytes list \<Rightarrow> cxx_exit + bytes list" where
  "exec_stack_op flags opcode =
     (if opcode = OP_2DROP then exec_2DROP
      else if opcode = OP_2DUP then exec_2DUP
      else if opcode = OP_3DUP then exec_3DUP
      else if opcode = OP_2OVER then exec_2OVER
      else if opcode = OP_2ROT then exec_2ROT
      else if opcode = OP_2SWAP then exec_2SWAP
      else if opcode = OP_IFDUP then exec_IFDUP
      else if opcode = OP_DEPTH then exec_DEPTH
      else if opcode = OP_DROP then exec_DROP
      else if opcode = OP_DUP then exec_DUP
      else if opcode = OP_NIP then exec_NIP
      else if opcode = OP_OVER then exec_OVER
      else if opcode = OP_PICK \<or> opcode = OP_ROLL then exec_PICK_ROLL opcode flags
      else if opcode = OP_ROT then exec_ROT
      else if opcode = OP_SWAP then exec_SWAP
      else if opcode = OP_TUCK then exec_TUCK
      else exec_SIZE)"

definition is_stack_op :: "opcodetype \<Rightarrow> bool" where
  "is_stack_op opcode \<longleftrightarrow> (OP_2DROP \<le> opcode \<and> opcode \<le> OP_TUCK) \<or> opcode = OP_SIZE"

definition is_unary :: "opcodetype \<Rightarrow> bool" where
  "is_unary opcode \<longleftrightarrow> opcode \<in> {OP_1ADD, OP_1SUB, OP_NEGATE, OP_ABS, OP_NOT, OP_0NOTEQUAL}"

definition is_binary :: "opcodetype \<Rightarrow> bool" where
  "is_binary opcode \<longleftrightarrow> opcode \<in> {OP_ADD, OP_SUB, OP_BOOLAND, OP_BOOLOR, OP_NUMEQUAL,
     OP_NUMEQUALVERIFY, OP_NUMNOTEQUAL, OP_LESSTHAN, OP_GREATERTHAN, OP_LESSTHANOREQUAL,
     OP_GREATERTHANOREQUAL, OP_MIN, OP_MAX}"

definition exec_op ::
  "crypto \<Rightarrow> checker \<Rightarrow> u32 \<Rightarrow> bool \<Rightarrow> opcodetype \<Rightarrow> eval_state \<Rightarrow> cxx_exit + eval_state" where
  "exec_op C checker flags fExec opcode s =
     (if opcode = OP_1NEGATE \<or> (OP_1 \<le> opcode \<and> opcode \<le> OP_16) then
        on_stack (\<lambda>st. Inr (exec_push_value opcode st)) s
      else if is_control opcode then exec_control checker flags fExec opcode s
      else if opcode = OP_TOALTSTACK then on_stack_altstack exec_TOALTSTACK s
      else if opcode = OP_FROMALTSTACK then on_stack_altstack exec_FROMALTSTACK s
      else if is_stack_op opcode then on_stack (exec_stack_op flags opcode) s
      else if opcode = OP_EQUAL \<or> opcode = OP_EQUALVERIFY then on_stack (exec_EQUAL opcode) s
      else if is_unary opcode then on_stack (exec_unary opcode flags) s
      else if is_binary opcode then on_stack (exec_binary opcode flags) s
      else if opcode = OP_WITHIN then on_stack (exec_WITHIN flags) s
      else if OP_RIPEMD160 \<le> opcode \<and> opcode \<le> OP_HASH256 then on_stack (exec_hash C opcode) s
      else if opcode = OP_CODESEPARATOR then Inr (s\<lparr>pbegincodehash := script_pc s\<rparr>)
      else if opcode = OP_CHECKSIG \<or> opcode = OP_CHECKSIGVERIFY then
        on_stack (exec_CHECKSIG C checker flags opcode (pbegincodehash s)) s
      else if opcode = OP_CHECKMULTISIG \<or> opcode = OP_CHECKMULTISIGVERIFY then
        on_stack_nOpCount (exec_CHECKMULTISIG C checker flags opcode (pbegincodehash s)) s
      else set_error SCRIPT_ERR_BAD_OPCODE)"

subsection \<open>EvalScript\<close>

definition disabled_opcode :: "opcodetype \<Rightarrow> bool" where
  "disabled_opcode opcode \<longleftrightarrow>
     opcode = OP_CAT \<or> opcode = OP_SUBSTR \<or> opcode = OP_LEFT \<or> opcode = OP_RIGHT \<or>
     opcode = OP_INVERT \<or> opcode = OP_AND \<or> opcode = OP_OR \<or> opcode = OP_XOR \<or>
     opcode = OP_2MUL \<or> opcode = OP_2DIV \<or> opcode = OP_MUL \<or> opcode = OP_DIV \<or>
     opcode = OP_MOD \<or> opcode = OP_LSHIFT \<or> opcode = OP_RSHIFT"

text \<open>The body of the loop after the instruction has been read.\<close>

definition eval_instruction ::
  "crypto \<Rightarrow> checker \<Rightarrow> u32 \<Rightarrow> opcodetype \<Rightarrow> bytes \<Rightarrow> eval_state \<Rightarrow> cxx_exit + eval_state" where
  "eval_instruction C checker flags opcode vchPushValue s =
     (let fExec = (\<not> (False \<in> set (vfExec s))) in
      if length vchPushValue > MAX_SCRIPT_ELEMENT_SIZE then set_error SCRIPT_ERR_PUSH_SIZE
      else let s = (if opcode > OP_16 then s\<lparr>nOpCount := nOpCount s + 1\<rparr> else s) in
      if opcode > OP_16 \<and> nOpCount s > MAX_OPS_PER_SCRIPT then set_error SCRIPT_ERR_OP_COUNT
      else if disabled_opcode opcode then set_error SCRIPT_ERR_DISABLED_OPCODE
      else ebind
        (if fExec \<and> opcode \<le> OP_PUSHDATA4 then
           (if fRequireMinimal flags \<and> \<not> CheckMinimalPush vchPushValue opcode
            then set_error SCRIPT_ERR_MINIMALDATA
            else Inr (s\<lparr>stack := vchPushValue # stack s\<rparr>))
         else if fExec \<or> (OP_IF \<le> opcode \<and> opcode \<le> OP_ENDIF)
         then exec_op C checker flags fExec opcode s
         else Inr s) (\<lambda>s.
        if length (stack s) + length (altstack s) > 1000 then set_error SCRIPT_ERR_STACK_SIZE
        else Inr s))"

definition eval_step :: "crypto \<Rightarrow> checker \<Rightarrow> u32 \<Rightarrow> eval_state \<Rightarrow> cxx_exit + eval_state" where
  "eval_step C checker flags s =
     (case GetOp2 (script_pc s) of (ok, opcode, vchPushValue, pc) \<Rightarrow>
        if \<not> ok then set_error SCRIPT_ERR_BAD_OPCODE
        else eval_instruction C checker flags opcode vchPushValue (s\<lparr>script_pc := pc\<rparr>))"

lemma exec_op_script_pc: "exec_op C checker flags fExec opcode s = Inr s' \<Longrightarrow> script_pc s' = script_pc s"
  unfolding exec_op_def exec_control_def on_stack_def on_stack_altstack_def on_stack_vfExec_def
    on_vfExec_def on_stack_nOpCount_def
  by (auto simp: ebind_eq_Inr split: if_splits)

lemma eval_instruction_script_pc:
  "eval_instruction C checker flags opcode vch s = Inr s' \<Longrightarrow> script_pc s' = script_pc s"
  unfolding eval_instruction_def Let_def
  by (auto simp: ebind_eq_Inr dest!: exec_op_script_pc split: if_splits)

lemma eval_step_progress:
  "eval_step C checker flags s = Inr s' \<Longrightarrow> length (script_pc s') < length (script_pc s)"
  unfolding eval_step_def
  by (auto dest!: eval_instruction_script_pc GetOp2_ok_progress split: if_splits prod.splits)

function eval_loop :: "crypto \<Rightarrow> checker \<Rightarrow> u32 \<Rightarrow> eval_state \<Rightarrow> cxx_exit + eval_state" where
  "eval_loop C checker flags s =
     (if script_pc s = [] then Inr s
      else case eval_step C checker flags s of
          Inl e \<Rightarrow> Inl e
        | Inr s' \<Rightarrow> eval_loop C checker flags s')"
  by pat_completeness auto
termination
  by (relation "measure (\<lambda>(C, checker, flags, s). length (script_pc s))") (auto dest: eval_step_progress)

declare eval_loop.simps [simp del]

text \<open>\<open>catch (...)\<close> around the loop.\<close>

definition catch_all :: "cxx_exit + 'a \<Rightarrow> cxx_exit + 'a" where
  "catch_all r = (case r of Inl (Throw x) \<Rightarrow> set_error SCRIPT_ERR_UNKNOWN_ERROR | _ \<Rightarrow> r)"

definition eval_start :: "bytes list \<Rightarrow> CScript \<Rightarrow> eval_state" where
  "eval_start st script =
     \<lparr>stack = st, altstack = [], vfExec = [], nOpCount = 0, script_pc = script, pbegincodehash = script\<rparr>"

definition EvalScript ::
  "crypto \<Rightarrow> checker \<Rightarrow> u32 \<Rightarrow> bytes list \<Rightarrow> CScript \<Rightarrow> cxx_exit + bytes list" where
  "EvalScript C checker flags st script =
     (if length script > 10000 then set_error SCRIPT_ERR_SCRIPT_SIZE
      else ebind (catch_all (eval_loop C checker flags (eval_start st script))) (\<lambda>s.
        if vfExec s \<noteq> [] then set_error SCRIPT_ERR_UNBALANCED_CONDITIONAL
        else Inr (stack s)))"

text \<open>The check of the stack that \<open>VerifyScript\<close> makes after an evaluation.\<close>

definition require_true :: "bytes list \<Rightarrow> cxx_exit + unit" where
  "require_true st =
     (case st of
        [] \<Rightarrow> set_error SCRIPT_ERR_EVAL_FALSE
      | v # st' \<Rightarrow> if CastToBool v = False then set_error SCRIPT_ERR_EVAL_FALSE else Inr ())"

definition VerifyScript :: "crypto \<Rightarrow> CScript \<Rightarrow> CScript \<Rightarrow> u32 \<Rightarrow> checker \<Rightarrow> cxx_exit + unit" where
  "VerifyScript C scriptSig scriptPubKey flags checker =
     (if has_flag flags SCRIPT_VERIFY_SIGPUSHONLY \<and> \<not> IsPushOnly scriptSig
      then set_error SCRIPT_ERR_SIG_PUSHONLY
      else ebind (EvalScript C checker flags [] scriptSig) (\<lambda>st.
      let stackCopy = (if has_flag flags SCRIPT_VERIFY_P2SH then st else []) in
      ebind (EvalScript C checker flags st scriptPubKey) (\<lambda>st.
      ebind (require_true st) (\<lambda>_.
      ebind
        (if has_flag flags SCRIPT_VERIFY_P2SH \<and> IsPayToScriptHash scriptPubKey then
           (if \<not> IsPushOnly scriptSig then set_error SCRIPT_ERR_SIG_PUSHONLY
            else case stackCopy of
                [] \<Rightarrow> Inl AssertFail
              | pubKeySerialized # st \<Rightarrow>
                  ebind (EvalScript C checker flags st pubKeySerialized) (\<lambda>st.
                  ebind (require_true st) (\<lambda>_. Inr st)))
         else Inr st) (\<lambda>st.
      if has_flag flags SCRIPT_VERIFY_CLEANSTACK then
        (if \<not> has_flag flags SCRIPT_VERIFY_P2SH then Inl AssertFail
         else if length st \<noteq> 1 then set_error SCRIPT_ERR_CLEANSTACK
         else Inr ())
      else Inr ())))))"

subsection \<open>How a computation ends\<close>

text \<open>
  \<open>returns m P\<close>: the computation returns a value with \<open>P\<close>, or it ends with a script error or with
  one of the two exceptions of \<open>CScriptNum\<close>. The other exits, an index out of range, an empty stack
  popped, a failed assertion or undefined behaviour, are not among these. Every combinator of the
  evaluator has an equation for \<open>returns\<close>, so that simplification computes the condition under
  which an operation is safe.
\<close>

definition evaluation_exit :: "cxx_exit \<Rightarrow> bool" where
  "evaluation_exit e =
     (case e of
        Err serror \<Rightarrow> True
      | Throw x \<Rightarrow> x = scriptnum_overflow \<or> x = scriptnum_nonminimal
      | AssertFail \<Rightarrow> False
      | Undefined \<Rightarrow> False)"

definition returns :: "cxx_exit + 'a \<Rightarrow> ('a \<Rightarrow> bool) \<Rightarrow> bool" where
  "returns m P = (case m of Inl e \<Rightarrow> evaluation_exit e | Inr x \<Rightarrow> P x)"

named_theorems wp

lemma returns_Inr [wp]: "returns (Inr x) P = P x"
  by (simp add: returns_def)

lemma returns_Err [wp]: "returns (set_error e) P"
  by (simp add: returns_def evaluation_exit_def)

lemma returns_AssertFail [wp]: "\<not> returns (Inl AssertFail) P"
  by (simp add: returns_def evaluation_exit_def)

lemma returns_Undefined [wp]: "\<not> returns (Inl Undefined) P"
  by (simp add: returns_def evaluation_exit_def)

lemma returns_ebind [wp]: "returns (ebind m f) P = returns m (\<lambda>x. returns (f x) P)"
  by (cases m) (simp_all add: returns_def)

lemma returns_if [wp]: "returns (if c then m else m') P = ((c \<longrightarrow> returns m P) \<and> (\<not> c \<longrightarrow> returns m' P))"
  by simp

lemma returns_mono: "returns m P \<Longrightarrow> (\<And>x. P x \<Longrightarrow> Q x) \<Longrightarrow> returns m Q"
  by (cases m) (auto simp: returns_def)

lemma returns_need [wp]: "returns (need n st k) P = (n \<le> length st \<longrightarrow> returns k P)"
  by (auto simp: need_def wp)

lemma returns_stacktop [wp]:
  "returns (stacktop st i) P = (0 < i \<and> i \<le> length st \<and> P (st ! (i - 1)))"
  by (simp add: stacktop_def returns_def evaluation_exit_def)

lemma returns_popstack [wp]: "returns (popstack st) P = (st \<noteq> [] \<and> P (tl st))"
  by (cases st) (simp_all add: popstack_def returns_def evaluation_exit_def)

lemma returns_popstack_n [wp]: "returns (popstack_n n st) P = (n \<le> length st \<and> P (drop n st))"
proof (induction n arbitrary: st)
  case (Suc n)
  then show ?case by (cases st) (auto simp: wp)
qed (simp add: wp)

lemma returns_swap_stacktop [wp]:
  "returns (swap_stacktop i j st) P =
     (0 < i \<and> i \<le> length st \<and> 0 < j \<and> j \<le> length st \<and>
      P (st[i - 1 := st ! (j - 1), j - 1 := st ! (i - 1)]))"
  by (auto simp: swap_stacktop_def wp)

lemma returns_erase_top [wp]:
  "returns (erase_top i st) P = (0 < i \<and> i \<le> length st \<and> P (erase_at (i - 1) st))"
  by (auto simp: erase_top_def wp)

lemma returns_erase_range_top [wp]:
  "returns (erase_range_top i j st) P = (j \<le> i \<and> i \<le> length st \<and> P (take j st @ drop i st))"
  by (auto simp: erase_range_top_def wp)

lemma returns_insert_top [wp]:
  "returns (insert_top i v st) P = (i \<le> length st \<and> P (insert_at i v st))"
  by (auto simp: insert_top_def wp)

lemma returns_CScriptNum [wp]:
  "returns (CScriptNum vch m k) P = (\<forall>n. CScriptNum vch m k = Inr n \<longrightarrow> P n)"
  by (auto simp: CScriptNum_def returns_def evaluation_exit_def)

lemma returns_scriptnum_at [wp]:
  "returns (scriptnum_at st i flags k) P =
     (0 < i \<and> i \<le> length st \<and>
      (\<forall>n. CScriptNum (st ! (i - 1)) (fRequireMinimal flags) k = Inr n \<longrightarrow> P n))"
  by (simp add: scriptnum_at_def wp)

lemma returns_verify_top [wp]:
  "returns (verify_top verify b e st) P =
     (if verify then b \<longrightarrow> st \<noteq> [] \<and> P (tl st) else P st)"
  by (simp add: verify_top_def wp)

lemma returns_require_valid_encoding [wp]:
  "returns (require_valid_encoding sig) P = (IsValidSignatureEncoding sig = Some True \<longrightarrow> P ())"
  using IsValidSignatureEncoding_defined [of sig]
  by (auto simp: require_valid_encoding_def wp)

lemma returns_check_encodings [wp]:
  "returns (check_encodings C flags sig key) P = (check_encodings C flags sig key = Inr () \<longrightarrow> P ())"
proof -
  have "returns (check_encodings C flags sig key) (\<lambda>_. True)"
    by (simp add: check_encodings_def CheckSignatureEncoding_def CheckPubKeyEncoding_def
        IsLowDERSignature_def wp)
  then show ?thesis
    by (cases "check_encodings C flags sig key") (simp_all add: returns_def)
qed

text \<open>An evaluation error is one that the caller sees as an error code.\<close>

lemma returns_catch_all: "returns m P \<Longrightarrow> returns (catch_all m) P"
  by (auto simp: catch_all_def wp split: sum.splits cxx_exit.splits)

lemma catch_all_no_Throw: "catch_all m \<noteq> Inl (Throw x)"
  by (auto simp: catch_all_def split: sum.splits cxx_exit.splits)

lemma returns_cases:
  assumes "returns m P"
  obtains (val) x where "m = Inr x" "P x" | (err) e where "m = set_error e"
    | (scriptnum) x where "m = Inl (Throw x)" "x = scriptnum_overflow \<or> x = scriptnum_nonminimal"
  using assms by (auto simp: returns_def evaluation_exit_def split: sum.splits cxx_exit.splits)

end
