(* ===== verification/EvalSafety.thy ===== *)
theory EvalSafety
  imports Interpreter
begin

text \<open>
  Safety of the evaluator: whatever the script, an evaluation never indexes a stack out of range,
  pops an empty one, fails an assertion or overflows an integer, and it keeps the limits on the size
  of elements, on the number of elements and on the number of operations.
\<close>

subsection \<open>Sizes of elements\<close>

definition small :: "bytes list \<Rightarrow> bool" where
  "small st \<longleftrightarrow> (\<forall>v \<in> set st. length v \<le> MAX_SCRIPT_ELEMENT_SIZE)"

lemma small_Nil [simp]: "small []"
  by (simp add: small_def)

lemma small_Cons [simp]: "small (v # st) \<longleftrightarrow> length v \<le> MAX_SCRIPT_ELEMENT_SIZE \<and> small st"
  by (simp add: small_def)

lemma small_append [simp]: "small (xs @ ys) \<longleftrightarrow> small xs \<and> small ys"
  by (auto simp: small_def)

lemma small_subset: "small st \<Longrightarrow> set st' \<subseteq> set st \<Longrightarrow> small st'"
  by (auto simp: small_def)

lemma small_drop [intro]: "small st \<Longrightarrow> small (drop n st)"
  by (erule small_subset) (rule set_drop_subset)

lemma small_take [intro]: "small st \<Longrightarrow> small (take n st)"
  by (erule small_subset) (rule set_take_subset)

lemma small_tl [intro]: "small st \<Longrightarrow> small (tl st)"
  using small_drop [of st 1] by (simp add: drop_Suc)

lemma small_nth [intro]: "small st \<Longrightarrow> i < length st \<Longrightarrow> length (st ! i) \<le> MAX_SCRIPT_ELEMENT_SIZE"
  by (auto simp: small_def)

lemma small_update [intro]:
  "small st \<Longrightarrow> length v \<le> MAX_SCRIPT_ELEMENT_SIZE \<Longrightarrow> small (st[i := v])"
  using set_update_subset_insert [of st i v] by (auto simp: small_def)

lemma small_erase_at [intro]: "small st \<Longrightarrow> small (erase_at i st)"
  by (erule small_subset) (rule set_erase_at)

lemma small_insert_at [intro]:
  "small st \<Longrightarrow> length v \<le> MAX_SCRIPT_ELEMENT_SIZE \<Longrightarrow> small (insert_at i v st)"
  by (auto simp: small_def set_insert_at)

lemma small_getvch:
  assumes "\<bar>n\<bar> < 2 ^ 39"
  shows "length (getvch n) \<le> MAX_SCRIPT_ELEMENT_SIZE"
  using length_scriptnum_serialize [of n 4] assms by (simp add: getvch_def)

lemma small_bool_vch [simp]: "length (bool_vch b) \<le> MAX_SCRIPT_ELEMENT_SIZE"
  by (simp add: bool_vch_def)

lemmas smalls = small_drop small_take small_tl small_nth small_update small_erase_at small_insert_at

subsection \<open>Every operation\<close>

text \<open>The numbers that operands stand for, and that arithmetic on them gives.\<close>

lemma CScriptNum_default_bound:
  "CScriptNum vch m nDefaultMaxNumSize = Inr n \<Longrightarrow> \<bar>n\<bar> < 2 ^ 31"
  using CScriptNum_bound [of vch m 3 n] by (simp add: eval_nat_numeral)

lemma getint_default: "\<bar>n\<bar> < 2 ^ 31 \<Longrightarrow> getint n = n"
  by (auto simp: getint_def int_ranges)

lemma returns_unary_num:
  assumes "is_unary opcode" and "\<bar>n\<bar> < 2 ^ 31"
  shows "returns (unary_num opcode n) (\<lambda>r. \<bar>r\<bar> < 2 ^ 39)"
  using assms unfolding is_unary_def
  by (auto simp: unary_num_def wp scriptnum_plus_assign_def scriptnum_minus_assign_def
      scriptnum_uminus_def int_ranges bool_num_def)

lemma returns_binary_num:
  assumes "is_binary opcode" and "\<bar>a\<bar> < 2 ^ 31" and "\<bar>b\<bar> < 2 ^ 31"
  shows "returns (binary_num opcode a b) (\<lambda>r. \<bar>r\<bar> < 2 ^ 39)"
  using assms unfolding is_binary_def
  by (auto simp: binary_num_def wp scriptnum_add_def scriptnum_sub_def int_ranges bool_num_def)

text \<open>The hash functions of crypto/ write 20 and 32 bytes.\<close>

definition standard_hashes :: "crypto \<Rightarrow> bool" where
  "standard_hashes C \<longleftrightarrow>
     (\<forall>m. length (CRIPEMD160 C m) = 20 \<and> length (CSHA1 C m) = 20 \<and> length (CSHA256 C m) = 32)"

lemma standard_hashes_256: "standard_hashes C \<Longrightarrow> length (CHash160 C m) = 20 \<and> length (CHash256 C m) = 32"
  by (simp add: standard_hashes_def CHash160_def CHash256_def)

lemma tl_Nil: "tl st = [] \<Longrightarrow> length st \<le> 1"
  by (cases st) auto

lemma small_getvch_nat: "n \<le> 1000 \<Longrightarrow> length (getvch (int n)) \<le> MAX_SCRIPT_ELEMENT_SIZE"
  by (rule small_getvch) simp

text \<open>
  Each operation returns a stack of small elements, from a stack of small elements that is not too
  long.
\<close>

lemma exec_push_value_small:
  "small st \<Longrightarrow> opcode < 256 \<Longrightarrow> small (exec_push_value opcode st)"
  by (simp add: exec_push_value_def small_getvch)

lemma exec_2DROP_safe: "small st \<Longrightarrow> returns (exec_2DROP st) small"
  by (auto simp: exec_2DROP_def wp dest!: tl_Nil intro!: smalls)

lemma exec_dup_safe:
  assumes "small st"
  shows "returns (exec_2DUP st) small" "returns (exec_3DUP st) small" "returns (exec_2OVER st) small"
    "returns (exec_IFDUP st) small" "returns (exec_DUP st) small" "returns (exec_OVER st) small"
    "returns (exec_TUCK st) small"
  using assms by (auto simp: exec_2DUP_def exec_3DUP_def exec_2OVER_def exec_IFDUP_def exec_DUP_def
      exec_OVER_def exec_TUCK_def wp intro!: smalls)

lemma exec_move_safe:
  assumes "small st"
  shows "returns (exec_2ROT st) small" "returns (exec_2SWAP st) small" "returns (exec_DROP st) small"
    "returns (exec_NIP st) small" "returns (exec_ROT st) small" "returns (exec_SWAP st) small"
  using assms by (auto simp: exec_2ROT_def exec_2SWAP_def exec_DROP_def exec_NIP_def exec_ROT_def
      exec_SWAP_def wp nth_list_update intro!: smalls)

lemma exec_size_safe:
  assumes "small st" "length st \<le> 1000"
  shows "returns (exec_DEPTH st) small" "returns (exec_SIZE st) small"
proof -
  have "length (st ! 0) \<le> 1000" if "st \<noteq> []"
    using small_nth [of st 0] assms(1) that by simp
  then show "returns (exec_DEPTH st) small" "returns (exec_SIZE st) small"
    using assms by (auto simp: exec_DEPTH_def exec_SIZE_def wp intro!: small_getvch_nat)
qed

lemma exec_PICK_ROLL_safe: "small st \<Longrightarrow> returns (exec_PICK_ROLL opcode flags st) small"
  by (auto simp: exec_PICK_ROLL_def Let_def wp nat_add_distrib intro!: smalls)

lemma exec_stack_op_safe:
  assumes "small st" "length st \<le> 1000"
  shows "returns (exec_stack_op flags opcode st) small"
  unfolding exec_stack_op_def
  using exec_2DROP_safe exec_dup_safe exec_move_safe exec_size_safe exec_PICK_ROLL_safe assms
  by simp

lemma exec_EQUAL_safe: "small st \<Longrightarrow> returns (exec_EQUAL opcode st) small"
  by (auto simp: exec_EQUAL_def Let_def wp intro!: smalls)

lemma exec_unary_safe:
  assumes "small st" "is_unary opcode"
  shows "returns (exec_unary opcode flags st) small"
proof -
  have result: "returns (unary_num opcode n) (\<lambda>bn. small (getvch bn # tl st))"
    if "CScriptNum (st ! 0) m nDefaultMaxNumSize = Inr n" for n m
    using returns_unary_num [OF assms(2) CScriptNum_default_bound [OF that]] assms(1)
    by (auto elim!: returns_mono intro!: small_getvch smalls)
  show ?thesis
    by (auto simp: exec_unary_def wp intro!: returns_mono [OF result])
qed

lemma exec_binary_safe:
  assumes "small st" "is_binary opcode"
  shows "returns (exec_binary opcode flags st) small"
proof -
  have result: "returns (binary_num opcode a b) (\<lambda>bn. small (getvch bn # drop 2 st))"
    if "CScriptNum (st ! 1) m nDefaultMaxNumSize = Inr a" "CScriptNum (st ! 0) m' nDefaultMaxNumSize = Inr b"
    for a b m m'
    using returns_binary_num [OF assms(2) CScriptNum_default_bound [OF that(1)]
        CScriptNum_default_bound [OF that(2)]] assms(1)
    by (auto elim!: returns_mono intro!: small_getvch smalls)
  show ?thesis
    by (auto simp: exec_binary_def wp Let_def intro!: returns_mono [OF result])
qed

lemma exec_WITHIN_safe: "small st \<Longrightarrow> returns (exec_WITHIN flags st) small"
  by (auto simp: exec_WITHIN_def wp intro!: smalls)

lemma exec_hash_safe: "small st \<Longrightarrow> standard_hashes C \<Longrightarrow> returns (exec_hash C opcode st) small"
  using standard_hashes_256 [of C]
  by (auto simp: exec_hash_def Let_def wp standard_hashes_def intro!: smalls)

lemma exec_CHECKSIG_safe:
  "small st \<Longrightarrow> returns (exec_CHECKSIG C checker flags opcode codehash st) small"
  by (auto simp: exec_CHECKSIG_def Let_def wp intro!: smalls)

subsection \<open>Multi-signatures\<close>

lemma delete_sigs_safe:
  assumes "0 < isig" "isig + k \<le> Suc (length st)"
  shows "returns (delete_sigs st isig k scriptCode) (\<lambda>_. True)"
  using assms by (induction k arbitrary: isig scriptCode) (auto simp: wp)

lemma multisig_loop_safe:
  assumes "0 < isig" "int isig + nSigsCount \<le> int (length st) + 1"
    and "0 < ikey" "int ikey + nKeysCount \<le> int (length st) + 1" and "nSigsCount \<le> nKeysCount"
  shows "returns (multisig_loop C checker flags scriptCode st isig nSigsCount ikey nKeysCount) (\<lambda>_. True)"
  using assms
proof (induction C checker flags scriptCode st isig nSigsCount ikey nKeysCount rule: multisig_loop.induct)
  case (1 C checker flags scriptCode st isig nSigsCount ikey nKeysCount)
  show ?case
  proof (cases "nSigsCount > 0")
    case False
    then show ?thesis by (subst multisig_loop.simps) (simp add: wp)
  next
    case True
    then have "isig \<le> length st" "ikey \<le> length st" using "1.prems" by linarith+
    with True "1.prems" show ?thesis
      by (subst multisig_loop.simps)
        (auto simp: wp Let_def intro!: "1.IH" split: if_splits)
  qed
qed

lemma exec_CHECKMULTISIG_safe:
  assumes "small st" "ops \<le> 201" "0 \<le> ops"
  shows "returns (exec_CHECKMULTISIG C checker flags opcode codehash ops st)
    (\<lambda>(st', n). small st' \<and> ops \<le> n \<and> n \<le> 201)"
  using assms unfolding exec_CHECKMULTISIG_def Let_def
  by (auto simp: wp dest!: tl_Nil intro!: smalls returns_mono [OF delete_sigs_safe] returns_mono [OF multisig_loop_safe])

subsection \<open>The loop\<close>

text \<open>What holds at the head of the loop of \<open>EvalScript\<close>.\<close>

definition eval_inv :: "eval_state \<Rightarrow> bool" where
  "eval_inv s \<longleftrightarrow>
     length (stack s) + length (altstack s) \<le> 1000 \<and> small (stack s) \<and> small (altstack s) \<and>
     0 \<le> nOpCount s \<and> nOpCount s \<le> MAX_OPS_PER_SCRIPT"

text \<open>
  What every operation keeps: small elements on both stacks and the operation count (the number of
  elements is checked after the operation).
\<close>

definition op_post :: "eval_state \<Rightarrow> bool" where
  "op_post s \<longleftrightarrow> small (stack s) \<and> small (altstack s) \<and> 0 \<le> nOpCount s \<and> nOpCount s \<le> MAX_OPS_PER_SCRIPT"

lemma on_stack_safe:
  assumes "op_post s" "returns (f (stack s)) small"
  shows "returns (on_stack f s) op_post"
  using assms by (auto simp: on_stack_def wp op_post_def elim!: returns_mono)

lemma altstack_ops_safe:
  assumes "op_post s"
  shows "returns (on_stack_altstack exec_TOALTSTACK s) op_post"
    "returns (on_stack_altstack exec_FROMALTSTACK s) op_post"
  using assms small_nth [of "stack s" 0] small_nth [of "altstack s" 0]
  by (auto simp: on_stack_altstack_def exec_TOALTSTACK_def exec_FROMALTSTACK_def wp op_post_def
      intro!: smalls)

lemma conditionals_safe:
  assumes "op_post s"
  shows "returns (on_stack_vfExec (exec_IF opcode fExec) s) op_post"
    "returns (on_vfExec exec_ELSE s) op_post" "returns (on_vfExec exec_ENDIF s) op_post"
  using assms
  by (auto simp: on_stack_vfExec_def on_vfExec_def exec_IF_def exec_ELSE_def exec_ENDIF_def wp op_post_def
      Let_def intro!: smalls split: list.splits)

lemma exec_VERIFY_safe: "small st \<Longrightarrow> returns (exec_VERIFY st) small"
  by (auto simp: exec_VERIFY_def wp intro!: smalls)

lemma exec_NOPx_safe: "small st \<Longrightarrow> returns (exec_NOPx flags st) small"
  by (auto simp: exec_NOPx_def wp)

text \<open>
  The interface between the evaluator and a signature checker. A checker is made from some
  context, for instance a transaction and an input of it, and the evaluator relies on its lock-time
  checks to return when that context is in order.
\<close>

locale sig_checker =
  fixes mk :: "'c \<Rightarrow> checker"
    and ok :: "'c \<Rightarrow> bool"
  assumes CheckLockTime_returns: "ok c \<Longrightarrow> \<exists>b. CheckLockTime (mk c) n = Inr b"
    and CheckSequence_returns: "ok c \<Longrightarrow> \<exists>b. CheckSequence (mk c) n = Inr b"
    and CheckSig_empty: "\<not> CheckSig (mk c) [] vchPubKey scriptCode"
begin

lemma returns_CheckLockTime: "ok c \<Longrightarrow> (\<And>b. P b) \<Longrightarrow> returns (CheckLockTime (mk c) n) P"
  using CheckLockTime_returns [of c n] by (auto simp: wp)

lemma returns_CheckSequence: "ok c \<Longrightarrow> (\<And>b. P b) \<Longrightarrow> returns (CheckSequence (mk c) n) P"
  using CheckSequence_returns [of c n] by (auto simp: wp)

lemma exec_control_safe:
  assumes "ok c" "op_post s"
  shows "returns (exec_control (mk c) flags fExec opcode s) op_post"
proof -
  have small: "small (stack s)" using assms(2) by (simp add: op_post_def)
  have "returns (exec_CHECKLOCKTIMEVERIFY (mk c) flags (stack s)) small"
    "returns (exec_CHECKSEQUENCEVERIFY (mk c) flags (stack s)) small"
    using assms(1) small
    by (auto simp: exec_CHECKLOCKTIMEVERIFY_def exec_CHECKSEQUENCEVERIFY_def wp
        intro!: returns_CheckLockTime returns_CheckSequence)
  then show ?thesis
    unfolding exec_control_def
    using conditionals_safe [OF assms(2)] assms(2) small
    by (simp add: on_stack_safe exec_NOPx_safe exec_VERIFY_safe wp)
qed

lemma exec_op_safe:
  assumes ok: "ok c" and C: "standard_hashes C" and inv: "op_post s" "length (stack s) \<le> 1000"
    and opcode: "opcode < 256"
  shows "returns (exec_op C (mk c) flags fExec opcode s) op_post"
proof -
  have small: "small (stack s)" and ops: "nOpCount s \<le> 201" "0 \<le> nOpCount s"
    using inv by (simp_all add: op_post_def)
  have multisig: "returns (on_stack_nOpCount (exec_CHECKMULTISIG C (mk c) flags opcode codehash) s) op_post"
    for codehash
    using inv unfolding on_stack_nOpCount_def
    by (auto simp: wp op_post_def intro!: returns_mono [OF exec_CHECKMULTISIG_safe [OF small ops]])
  show ?thesis
    unfolding exec_op_def
    using multisig altstack_ops_safe [OF inv(1)] exec_control_safe [OF ok inv(1)]
    by (auto simp: wp small inv C opcode exec_push_value_small exec_stack_op_safe exec_EQUAL_safe
        exec_unary_safe exec_binary_safe exec_WITHIN_safe exec_hash_safe exec_CHECKSIG_safe
        intro!: on_stack_safe) (use inv in \<open>simp add: op_post_def\<close>)
qed

lemma eval_instruction_safe:
  assumes ok: "ok c" and C: "standard_hashes C" and inv: "eval_inv s" and opcode: "opcode < 256"
  shows "returns (eval_instruction C (mk c) flags opcode vch s) eval_inv"
proof -
  have post: "returns (eval_instruction C (mk c) flags opcode vch s)
    (\<lambda>s. op_post s \<and> length (stack s) + length (altstack s) \<le> 1000)"
    unfolding eval_instruction_def Let_def
    using inv by (auto simp: wp eval_inv_def op_post_def
        intro!: returns_mono [OF exec_op_safe [OF ok C _ _ opcode]])
  then show ?thesis
    by (rule returns_mono) (auto simp: op_post_def eval_inv_def)
qed

lemma eval_step_safe:
  assumes "ok c" and "standard_hashes C" and "eval_inv s"
  shows "returns (eval_step C (mk c) flags s) eval_inv"
proof -
  obtain got opcode vch pc where op: "GetOp2 (script_pc s) = (got, opcode, vch, pc)"
    by (cases "GetOp2 (script_pc s)") auto
  have "eval_inv (s\<lparr>script_pc := pc\<rparr>)" using assms(3) by (simp add: eval_inv_def)
  then show ?thesis
    using eval_instruction_safe [OF assms(1,2) _ GetOp2_opcode_le [OF op]]
    by (simp add: eval_step_def op wp)
qed

lemma eval_loop_safe:
  assumes "ok c" and "standard_hashes C" and "eval_inv s"
  shows "returns (eval_loop C (mk c) flags s) (\<lambda>s'. eval_inv s' \<and> script_pc s' = [])"
  using assms(3)
proof (induction "length (script_pc s)" arbitrary: s rule: less_induct)
  case less
  show ?case
  proof (cases "script_pc s = []")
    case True
    then show ?thesis using less.prems by (subst eval_loop.simps) (simp add: wp)
  next
    case False
    have step: "returns (eval_step C (mk c) flags s) eval_inv"
      by (rule eval_step_safe [OF assms(1,2) less.prems])
    show ?thesis
    proof (cases "eval_step C (mk c) flags s")
      case (Inl e)
      with False step show ?thesis
        by (subst eval_loop.simps) (simp add: returns_def)
    next
      case (Inr s')
      then have "returns (eval_loop C (mk c) flags s') (\<lambda>s'. eval_inv s' \<and> script_pc s' = [])"
        using less.hyps eval_step_progress step by (simp add: returns_def)
      with False Inr show ?thesis
        by (subst eval_loop.simps) simp
    qed
  qed
qed

lemma EvalScript_safe:
  assumes "ok c" and "standard_hashes C" and "small st" "length st \<le> 1000"
  shows "(\<exists>st'. EvalScript C (mk c) flags st script = Inr st' \<and> small st' \<and> length st' \<le> 1000) \<or>
    (\<exists>e. EvalScript C (mk c) flags st script = Inl (Err e))"
proof -
  have "eval_inv (eval_start st script)"
    using assms(3,4) by (simp add: eval_inv_def eval_start_def)
  from eval_loop_safe [OF assms(1,2) this, of flags] show ?thesis
    by (cases rule: returns_cases) (auto simp: EvalScript_def catch_all_def eval_inv_def)
qed

end

end
