(* ===== verification/Serialize.thy ===== *)
theory Serialize
  imports Opcodes
begin

text \<open>
  The wire format of serialize.h, and the stream \<open>CDataStream\<close> of streams.h.

  Writing to a stream appends bytes, so a serializer is a function to \<open>bytes\<close>. A reader is
  parametric in the stream, as the C++ templates are: \<open>rd s n\<close> is \<open>s.read(pch, n)\<close>, which gives the
  bytes with the new stream, or throws. What the readers rely on is the locale \<open>byte_stream\<close>;
  \<open>CDataStream\<close> provides it.
\<close>

abbreviation (input) MAX_SIZE :: nat where "MAX_SIZE \<equiv> 0x02000000"

text \<open>The \<open>std::ios_base::failure\<close> exceptions, and a read outside of the buffer.\<close>

datatype ser_exn = end_of_data | non_canonical | size_too_large | superfluous_data | memory_fault

type_synonym 's reader = "'s \<Rightarrow> nat \<Rightarrow> ser_exn + bytes \<times> 's"

subsection \<open>CDataStream\<close>

record CDataStream =
  ds_vch :: bytes
  nReadPos :: nat

definition CDataStream_read :: "CDataStream reader" where
  "CDataStream_read s nSize =
     (let nReadPosNext = (nReadPos s + nSize) mod 2 ^ 32 in
      if nReadPosNext \<ge> length (ds_vch s) then
        (if nReadPosNext > length (ds_vch s) then Inl end_of_data
         else if nReadPos s + nSize > length (ds_vch s) then Inl memory_fault
         else Inr (take nSize (drop (nReadPos s) (ds_vch s)), s\<lparr>nReadPos := 0, ds_vch := []\<rparr>))
      else if nReadPos s + nSize > length (ds_vch s) then Inl memory_fault
      else Inr (take nSize (drop (nReadPos s) (ds_vch s)), s\<lparr>nReadPos := nReadPosNext\<rparr>))"

definition CDataStream_ignore :: "CDataStream \<Rightarrow> nat \<Rightarrow> ser_exn + CDataStream" where
  "CDataStream_ignore s nSize =
     (let nReadPosNext = (nReadPos s + nSize) mod 2 ^ 32 in
      if nReadPosNext \<ge> length (ds_vch s) then
        (if nReadPosNext > length (ds_vch s) then Inl end_of_data
         else Inr (s\<lparr>nReadPos := 0, ds_vch := []\<rparr>))
      else Inr (s\<lparr>nReadPos := nReadPosNext\<rparr>))"

definition CDataStream_write :: "CDataStream \<Rightarrow> bytes \<Rightarrow> CDataStream" where
  "CDataStream_write s pch = s\<lparr>ds_vch := ds_vch s @ pch\<rparr>"

definition CDataStream_size :: "CDataStream \<Rightarrow> nat" where
  "CDataStream_size s = length (ds_vch s) - nReadPos s"

definition CDataStream_Compact :: "CDataStream \<Rightarrow> CDataStream" where
  "CDataStream_Compact s = s\<lparr>ds_vch := drop (nReadPos s) (ds_vch s), nReadPos := 0\<rparr>"

definition CDataStream_Rewind :: "CDataStream \<Rightarrow> nat \<Rightarrow> bool \<times> CDataStream" where
  "CDataStream_Rewind s n =
     (if n > nReadPos s then (False, s) else (True, s\<lparr>nReadPos := nReadPos s - n\<rparr>))"

text \<open>
  \<open>Xor\<close>: the loop runs over the first \<open>size()\<close> bytes of \<open>ds_vch\<close>, not over the unread ones. A key
  index that reaches the length of the key goes back to 0.
\<close>

fun Xor_loop :: "bytes \<Rightarrow> bytes \<Rightarrow> nat \<Rightarrow> bytes" where
  "Xor_loop key [] j = []"
| "Xor_loop key (b # bs) j =
     (b XOR key ! j) # Xor_loop key bs (if j + 1 = length key then 0 else j + 1)"

definition CDataStream_Xor :: "CDataStream \<Rightarrow> bytes \<Rightarrow> CDataStream" where
  "CDataStream_Xor s key =
     (if length key = 0 then s
      else let n = CDataStream_size s in
        s\<lparr>ds_vch := Xor_loop key (take n (ds_vch s)) 0 @ drop n (ds_vch s)\<rparr>)"

subsection \<open>Fixed-width integers\<close>

definition ser_writedata8 :: "nat \<Rightarrow> bytes" where "ser_writedata8 obj = le_bytes 1 obj"
definition ser_writedata16 :: "nat \<Rightarrow> bytes" where "ser_writedata16 obj = le_bytes 2 obj"
definition ser_writedata32 :: "nat \<Rightarrow> bytes" where "ser_writedata32 obj = le_bytes 4 obj"
definition ser_writedata64 :: "nat \<Rightarrow> bytes" where "ser_writedata64 obj = le_bytes 8 obj"

definition read_le :: "nat \<Rightarrow> 's reader \<Rightarrow> 's \<Rightarrow> ser_exn + nat \<times> 's" where
  "read_le k rd s = ebind (rd s k) (\<lambda>(obj, s). Inr (le_val obj, s))"

definition ser_readdata8 :: "'s reader \<Rightarrow> 's \<Rightarrow> ser_exn + nat \<times> 's" where
  "ser_readdata8 = read_le 1"
definition ser_readdata16 :: "'s reader \<Rightarrow> 's \<Rightarrow> ser_exn + nat \<times> 's" where
  "ser_readdata16 = read_le 2"
definition ser_readdata32 :: "'s reader \<Rightarrow> 's \<Rightarrow> ser_exn + nat \<times> 's" where
  "ser_readdata32 = read_le 4"
definition ser_readdata64 :: "'s reader \<Rightarrow> 's \<Rightarrow> ser_exn + nat \<times> 's" where
  "ser_readdata64 = read_le 8"

text \<open>An \<open>int32_t\<close> or \<open>int64_t\<close> is converted to the unsigned type of its width and back.\<close>

definition unsigned_of :: "nat \<Rightarrow> int \<Rightarrow> nat" where
  "unsigned_of w n = nat (n mod 2 ^ w)"

definition signed_of :: "nat \<Rightarrow> nat \<Rightarrow> int" where
  "signed_of w n = (if n < 2 ^ (w - 1) then int n else int n - 2 ^ w)"

lemma signed_of_unsigned_of:
  assumes "0 < w" "- (2 ^ (w - 1)) \<le> n" "n < 2 ^ (w - 1)"
  shows "signed_of w (unsigned_of w n) = n"
proof -
  have two: "(2 :: int) ^ w = 2 * 2 ^ (w - 1)" using assms(1) by (cases w) auto
  show ?thesis
  proof (cases "0 \<le> n")
    case True
    then have "n mod 2 ^ w = n" using assms two by simp
    then show ?thesis using True assms by (simp add: unsigned_of_def signed_of_def nat_less_iff)
  next
    case False
    then have "n mod 2 ^ w = n + 2 ^ w"
      using assms two by (intro mod_pos_pos_trivial [THEN trans [OF mod_add_self2 [symmetric]]]) simp_all
    then show ?thesis using False assms two by (simp add: unsigned_of_def signed_of_def nat_less_iff)
  qed
qed

subsection \<open>CompactSize\<close>

definition GetSizeOfCompactSize :: "nat \<Rightarrow> nat" where
  "GetSizeOfCompactSize nSize =
     (if nSize < 253 then 1
      else if nSize \<le> 0xffff then 1 + 2
      else if nSize \<le> 0xffffffff then 1 + 4
      else 1 + 8)"

definition WriteCompactSize :: "nat \<Rightarrow> bytes" where
  "WriteCompactSize nSize =
     (if nSize < 253 then ser_writedata8 nSize
      else if nSize \<le> 0xffff then ser_writedata8 253 @ ser_writedata16 nSize
      else if nSize \<le> 0xffffffff then ser_writedata8 254 @ ser_writedata32 nSize
      else ser_writedata8 255 @ ser_writedata64 nSize)"

definition ReadCompactSize :: "'s reader \<Rightarrow> 's \<Rightarrow> ser_exn + nat \<times> 's" where
  "ReadCompactSize rd s =
     ebind (ser_readdata8 rd s) (\<lambda>(chSize, s).
     ebind
       (if chSize < 253 then Inr (chSize, s)
        else if chSize = 253 then
          ebind (ser_readdata16 rd s) (\<lambda>(n, s). if n < 253 then Inl non_canonical else Inr (n, s))
        else if chSize = 254 then
          ebind (ser_readdata32 rd s) (\<lambda>(n, s). if n < 0x10000 then Inl non_canonical else Inr (n, s))
        else
          ebind (ser_readdata64 rd s) (\<lambda>(n, s). if n < 0x100000000 then Inl non_canonical else Inr (n, s)))
       (\<lambda>(nSizeRet, s).
        if nSizeRet > MAX_SIZE then Inl size_too_large else Inr (nSizeRet, s)))"

subsection \<open>VarInt\<close>

text \<open>
  \<open>varint_tmp n len\<close> is the buffer \<open>tmp\<close> from the index \<open>len\<close> on; it is written last index first.
  The integer type has \<open>w\<close> bits.
\<close>

lemma varint_next_less: "\<not> n \<le> 0x7F \<Longrightarrow> drop_bit 7 n - 1 < (n :: nat)"
  by (simp add: drop_bit_eq_div)

function varint_tmp :: "nat \<Rightarrow> nat \<Rightarrow> bytes" where
  "varint_tmp n len =
     word_of_nat (n AND 0x7F OR (if len \<noteq> 0 then 0x80 else 0x00)) #
     (if n \<le> 0x7F then [] else varint_tmp (drop_bit 7 n - 1) (len + 1))"
  by pat_completeness auto
termination
  by (relation "measure fst") (use varint_next_less in auto)

definition WriteVarInt :: "nat \<Rightarrow> bytes" where
  "WriteVarInt n = rev (varint_tmp n 0)"

function GetSizeOfVarInt :: "nat \<Rightarrow> nat" where
  "GetSizeOfVarInt n = 1 + (if n \<le> 0x7F then 0 else GetSizeOfVarInt (drop_bit 7 n - 1))"
  by pat_completeness auto
termination
  by (relation "measure id") (use varint_next_less in auto)

declare varint_tmp.simps [simp del] GetSizeOfVarInt.simps [simp del]

text \<open>The loop of the reader ends only where the stream does: \<open>None\<close> is an endless loop.\<close>

partial_function (option) ReadVarInt_loop ::
  "nat \<Rightarrow> 's reader \<Rightarrow> nat \<Rightarrow> 's \<Rightarrow> (ser_exn + nat \<times> 's) option" where
  "ReadVarInt_loop w rd n s =
     (case ser_readdata8 rd s of
        Inl e \<Rightarrow> Some (Inl e)
      | Inr (chData, s) \<Rightarrow>
          let n = take_bit w (push_bit 7 n) OR (chData AND 0x7F) in
          if chData AND 0x80 \<noteq> 0 then ReadVarInt_loop w rd (take_bit w (n + 1)) s
          else Some (Inr (n, s)))"

definition ReadVarInt :: "nat \<Rightarrow> 's reader \<Rightarrow> 's \<Rightarrow> (ser_exn + nat \<times> 's) option" where
  "ReadVarInt w rd s = ReadVarInt_loop w rd 0 s"

subsection \<open>Vectors\<close>

text \<open>
  A vector of bytes is read in blocks of at most 5,000,000 bytes. A vector of other elements is
  resized to \<open>nMid\<close> elements, which are read one by one, until \<open>nMid\<close> is the size; \<open>sizeof_T\<close> is
  the size of an element in memory.
\<close>

definition Serialize_bytes :: "bytes \<Rightarrow> bytes" where
  "Serialize_bytes v = WriteCompactSize (length v) @ v"

function read_blocks :: "'s reader \<Rightarrow> nat \<Rightarrow> nat \<Rightarrow> bytes \<Rightarrow> 's \<Rightarrow> ser_exn + bytes \<times> 's" where
  "read_blocks rd nSize i v s =
     (if i < nSize then
        let blk = min (nSize - i) (1 + 4999999 div 1) in
        ebind (rd s blk) (\<lambda>(pch, s). read_blocks rd nSize (i + blk) (v @ pch) s)
      else Inr (v, s))"
  by pat_completeness auto
termination
  by (relation "measure (\<lambda>(rd, nSize, i, v, s). nSize - i)") auto

definition Unserialize_bytes :: "'s reader \<Rightarrow> 's \<Rightarrow> ser_exn + bytes \<times> 's" where
  "Unserialize_bytes rd s = ebind (ReadCompactSize rd s) (\<lambda>(nSize, s). read_blocks rd nSize 0 [] s)"

definition Serialize_vector :: "('a \<Rightarrow> bytes) \<Rightarrow> 'a list \<Rightarrow> bytes" where
  "Serialize_vector ser v = WriteCompactSize (length v) @ concat (map ser v)"

fun read_elements :: "('s \<Rightarrow> ser_exn + 'a \<times> 's) \<Rightarrow> nat \<Rightarrow> 'a list \<Rightarrow> 's \<Rightarrow> ser_exn + 'a list \<times> 's" where
  "read_elements unser 0 v s = Inr (v, s)"
| "read_elements unser (Suc k) v s = ebind (unser s) (\<lambda>(x, s). read_elements unser k (v @ [x]) s)"

function read_vector ::
  "('s \<Rightarrow> ser_exn + 'a \<times> 's) \<Rightarrow> nat \<Rightarrow> nat \<Rightarrow> nat \<Rightarrow> 'a list \<Rightarrow> 's \<Rightarrow> ser_exn + 'a list \<times> 's" where
  "read_vector unser step nSize nMid v s =
     (if nMid < nSize \<and> 0 < step then
        let nMid' = (if nMid + step > nSize then nSize else nMid + step) in
        ebind (read_elements unser (nMid' - nMid) v s) (\<lambda>(v, s). read_vector unser step nSize nMid' v s)
      else Inr (v, s))"
  by pat_completeness auto
termination
  by (relation "measure (\<lambda>(unser, step, nSize, nMid, v, s). nSize - nMid)") auto

declare read_blocks.simps [simp del] read_vector.simps [simp del]

definition Unserialize_vector ::
  "'s reader \<Rightarrow> nat \<Rightarrow> ('s \<Rightarrow> ser_exn + 'a \<times> 's) \<Rightarrow> 's \<Rightarrow> ser_exn + 'a list \<times> 's" where
  "Unserialize_vector rd sizeof_T unser s =
     ebind (ReadCompactSize rd s) (\<lambda>(nSize, s). read_vector unser (5000000 div sizeof_T) nSize 0 [] s)"

subsection \<open>The interface of a stream\<close>

text \<open>
  \<open>unread s\<close> are the bytes that a reader has in front of it. A read takes them off, and throws when
  there are too few. The laws are for reads below \<open>2 ^ 25 + 1\<close> bytes, which is \<open>MAX_SIZE\<close>.
\<close>

locale byte_stream =
  fixes rd :: "'s reader"
    and unread :: "'s \<Rightarrow> bytes"
    and inv :: "'s \<Rightarrow> bool"
  assumes read_some: "inv s \<Longrightarrow> n \<le> MAX_SIZE \<Longrightarrow> n \<le> length (unread s) \<Longrightarrow>
      \<exists>s'. rd s n = Inr (take n (unread s), s') \<and> unread s' = drop n (unread s) \<and> inv s'"
    and read_end: "inv s \<Longrightarrow> n \<le> MAX_SIZE \<Longrightarrow> length (unread s) < n \<Longrightarrow> rd s n = Inl end_of_data"
begin

text \<open>
  \<open>parses un s x rest\<close>: reading from \<open>s\<close> gives \<open>x\<close> and leaves \<open>rest\<close>.
\<close>

definition parses :: "('s \<Rightarrow> ser_exn + 'a \<times> 's) \<Rightarrow> 's \<Rightarrow> 'a \<Rightarrow> bytes \<Rightarrow> bool" where
  "parses un s x rest \<longleftrightarrow> (\<exists>s'. un s = Inr (x, s') \<and> unread s' = rest \<and> inv s')"

lemma parsesE:
  assumes "parses un s x rest"
  obtains s' where "un s = Inr (x, s')" "unread s' = rest" "inv s'"
  using assms by (auto simp: parses_def)

lemma parses_read:
  assumes "inv s" "unread s = b @ rest" "length b \<le> MAX_SIZE" "n = length b"
  shows "parses (\<lambda>s. rd s n) s b rest"
  using read_some [of s n] assms by (auto simp: parses_def)

lemma parses_ebind:
  assumes "parses un s x r" and "\<And>s'. inv s' \<Longrightarrow> unread s' = r \<Longrightarrow> parses (k x) s' y rest"
  shows "parses (\<lambda>s. ebind (un s) (\<lambda>(x, s). k x s)) s y rest"
  using assms by (fastforce simp: parses_def)

lemma parses_return: "inv s \<Longrightarrow> unread s = rest \<Longrightarrow> parses (\<lambda>s. Inr (x, s)) s x rest"
  by (simp add: parses_def)

lemma parses_read_le:
  assumes "inv s" "unread s = le_bytes k n @ rest" "n < 256 ^ k" "k \<le> MAX_SIZE"
  shows "parses (read_le k rd) s n rest"
proof -
  have "parses (\<lambda>s. ebind (rd s k) (\<lambda>(obj, s). Inr (le_val obj, s))) s n rest"
    using assms by (intro parses_ebind [OF parses_read [of s "le_bytes k n"]] )
      (auto simp: parses_def le_val_le_bytes)
  then show ?thesis by (simp add: read_le_def [abs_def])
qed

lemma parses_ReadCompactSize:
  assumes "inv s" "unread s = WriteCompactSize n @ rest" "n \<le> MAX_SIZE"
  shows "parses (ReadCompactSize rd) s n rest"
proof -
  let ?body = "\<lambda>chSize s. ebind
    (if chSize < 253 then Inr (chSize, s)
     else if chSize = 253 then
       ebind (ser_readdata16 rd s) (\<lambda>(n, s). if n < 253 then Inl non_canonical else Inr (n, s))
     else if chSize = 254 then
       ebind (ser_readdata32 rd s) (\<lambda>(n, s). if n < 0x10000 then Inl non_canonical else Inr (n, s))
     else
       ebind (ser_readdata64 rd s) (\<lambda>(n, s). if n < 0x100000000 then Inl non_canonical else Inr (n, s)))
    (\<lambda>(nSizeRet, s). if nSizeRet > MAX_SIZE then Inl size_too_large else Inr (nSizeRet, s))"
  have first: "parses (ReadCompactSize rd) s n rest"
    if "unread s = ser_writedata8 c @ r" "c < 256"
      and "\<And>s'. inv s' \<Longrightarrow> unread s' = r \<Longrightarrow> parses (?body c) s' n rest" for c r
    unfolding ReadCompactSize_def [abs_def] ser_readdata8_def
    by (rule parses_ebind [OF parses_read_le [OF assms(1)]]) (use that in \<open>auto simp: ser_writedata8_def\<close>)
  consider "n < 253" | "253 \<le> n" "n \<le> 0xffff" | "0xffff < n" "n \<le> 0xffffffff"
    using assms(3) by linarith
  then show ?thesis
  proof cases
    case 1
    show ?thesis
      by (rule first [of n rest]) (use 1 assms in \<open>auto simp: WriteCompactSize_def parses_def\<close>)
  next
    case 2
    have "parses (?body 253) s' n rest" if "inv s'" "unread s' = ser_writedata16 n @ rest" for s'
      using parses_read_le [of s' 2 n rest] that 2 assms(3)
      by (auto simp: parses_def ser_readdata16_def ser_writedata16_def)
    then show ?thesis
      by (intro first [of 253 "ser_writedata16 n @ rest"]) (use 2 assms in \<open>auto simp: WriteCompactSize_def\<close>)
  next
    case 3
    have "parses (?body 254) s' n rest" if "inv s'" "unread s' = ser_writedata32 n @ rest" for s'
      using parses_read_le [of s' 4 n rest] that 3 assms(3)
      by (auto simp: parses_def ser_readdata32_def ser_writedata32_def)
    then show ?thesis
      by (intro first [of 254 "ser_writedata32 n @ rest"]) (use 3 assms in \<open>auto simp: WriteCompactSize_def\<close>)
  qed
qed

lemma parses_read_blocks:
  assumes "inv s" "unread s = b @ rest" "nSize = i + length b"
  shows "parses (read_blocks rd nSize i v) s (v @ b) rest"
  using assms
proof (induction "nSize - i" arbitrary: i v b s rule: less_induct)
  case less
  show ?case
  proof (cases "b = []")
    case True
    with less.prems show ?thesis by (simp add: parses_def read_blocks.simps)
  next
    case False
    define blk where "blk = min (nSize - i) 5000000"
    have blk: "blk \<le> length b" "0 < blk" "i < nSize"
      using less.prems(3) False by (auto simp: blk_def)
    have "parses (\<lambda>s. rd s blk) s (take blk b) (drop blk b @ rest)"
      using less.prems blk by (intro parses_read) (auto simp: blk_def)
    moreover have "parses (read_blocks rd nSize (i + blk) (v @ take blk b)) s' ((v @ take blk b) @ drop blk b) rest"
      if "inv s'" "unread s' = drop blk b @ rest" for s'
      using less.prems(3) blk that by (intro less.hyps) auto
    ultimately have "parses (\<lambda>s. ebind (rd s blk) (\<lambda>(pch, s). read_blocks rd nSize (i + blk) (v @ pch) s))
        s (v @ b) rest"
      by (intro parses_ebind) auto
    moreover have "read_blocks rd nSize i v =
        (\<lambda>s. ebind (rd s blk) (\<lambda>(pch, s). read_blocks rd nSize (i + blk) (v @ pch) s))"
      using blk by (intro ext, subst read_blocks.simps) (simp add: blk_def Let_def)
    ultimately show ?thesis by simp
  qed
qed

lemma parses_Unserialize_bytes:
  assumes "inv s" "unread s = Serialize_bytes b @ rest" "length b \<le> MAX_SIZE"
  shows "parses (Unserialize_bytes rd) s b rest"
  unfolding Unserialize_bytes_def [abs_def]
  by (rule parses_ebind [OF parses_ReadCompactSize [OF assms(1)]])
    (use assms parses_read_blocks [of _ b rest "length b" 0 "[]"] in \<open>auto simp: Serialize_bytes_def\<close>)

text \<open>The vectors of elements: the steps of the outer loop do not show.\<close>

lemma parses_read_elements:
  assumes "inv s" "unread s = concat (map ser xs) @ rest"
    and "\<And>s x r. x \<in> set xs \<Longrightarrow> inv s \<Longrightarrow> unread s = ser x @ r \<Longrightarrow> parses un s x r"
  shows "parses (read_elements un (length xs) v) s (v @ xs) rest"
  using assms
proof (induction xs arbitrary: v s)
  case Nil
  then show ?case by (simp add: parses_def)
next
  case (Cons x xs)
  have "parses (read_elements un (length xs) (v @ [x])) s' ((v @ [x]) @ xs) rest"
    if "inv s'" "unread s' = concat (map ser xs) @ rest" for s'
    using that Cons.prems by (intro Cons.IH) auto
  then have "parses (\<lambda>s. ebind (un s) (\<lambda>(x, s). read_elements un (length xs) (v @ [x]) s)) s ((v @ [x]) @ xs) rest"
    by (intro parses_ebind [of un s x "concat (map ser xs) @ rest"]) (use Cons.prems in auto)
  then show ?case by simp
qed

end

text \<open>The steps of the outer loop do not show: a vector is read as one run of elements.\<close>

lemma read_elements_append:
  "read_elements un (j + k) v s = ebind (read_elements un j v s) (\<lambda>(v, s). read_elements un k v s)"
  by (induction j arbitrary: v s) (auto simp: ebind_def split: sum.splits)

lemma read_vector_eq:
  "0 < step \<Longrightarrow> nMid \<le> nSize \<Longrightarrow> read_vector un step nSize nMid v s = read_elements un (nSize - nMid) v s"
proof (induction "nSize - nMid" arbitrary: nMid v s rule: less_induct)
  case less
  show ?case
  proof (cases "nMid < nSize")
    case False
    with less.prems show ?thesis by (simp add: read_vector.simps)
  next
    case True
    define nMid' where "nMid' = (if nMid + step > nSize then nSize else nMid + step)"
    have mid: "nMid < nMid'" "nMid' \<le> nSize" using True less.prems by (auto simp: nMid'_def)
    have "read_vector un step nSize nMid v s =
        ebind (read_elements un (nMid' - nMid) v s) (\<lambda>(v, s). read_vector un step nSize nMid' v s)"
      using True less.prems by (subst read_vector.simps) (simp add: nMid'_def Let_def)
    also have "\<dots> = ebind (read_elements un (nMid' - nMid) v s) (\<lambda>(v, s). read_elements un (nSize - nMid') v s)"
      using mid less.prems by (intro arg_cong [where f = "ebind _"] ext) (auto intro!: less.hyps)
    also have "\<dots> = read_elements un (nSize - nMid) v s"
      using mid by (simp flip: read_elements_append)
    finally show ?thesis .
  qed
qed

context byte_stream
begin

lemma parses_Unserialize_vector:
  assumes "inv s" "unread s = Serialize_vector ser xs @ rest" "length xs \<le> MAX_SIZE"
    and "0 < sizeof_T" "sizeof_T \<le> 5000000"
    and "\<And>s x r. x \<in> set xs \<Longrightarrow> inv s \<Longrightarrow> unread s = ser x @ r \<Longrightarrow> parses un s x r"
  shows "parses (Unserialize_vector rd sizeof_T un) s xs rest"
proof -
  have "0 < 5000000 div sizeof_T" using assms(4,5) by (simp add: div_greater_zero_iff)
  then have "read_vector un (5000000 div sizeof_T) n 0 [] s = read_elements un n [] s" for n s
    by (simp add: read_vector_eq)
  then show ?thesis
    unfolding Unserialize_vector_def [abs_def]
    by (intro parses_ebind [OF parses_ReadCompactSize [OF assms(1)]])
      (use assms parses_read_elements [of _ ser xs rest un "[]"] in
        \<open>auto simp: Serialize_vector_def parses_def\<close>)
qed

end

subsection \<open>The streams of the model\<close>

text \<open>A plain byte string, read from the front.\<close>

definition bytes_read :: "bytes reader" where
  "bytes_read s n = (if length s < n then Inl end_of_data else Inr (take n s, drop n s))"

interpretation bytes_stream: byte_stream bytes_read "\<lambda>s. s" "\<lambda>s. True"
  by unfold_locales (auto simp: bytes_read_def)

text \<open>
  \<open>CDataStream\<close>: the unread bytes are those from \<open>nReadPos\<close> on. The position is 32 bits wide and
  is not checked for wrap-around, so the interface holds for buffers up to \<open>2 ^ 32 - 2 ^ 25 - 1\<close>
  bytes.
\<close>

definition CDataStream_unread :: "CDataStream \<Rightarrow> bytes" where
  "CDataStream_unread s = drop (nReadPos s) (ds_vch s)"

definition CDataStream_inv :: "CDataStream \<Rightarrow> bool" where
  "CDataStream_inv s \<longleftrightarrow> nReadPos s \<le> length (ds_vch s) \<and> length (ds_vch s) + MAX_SIZE < 2 ^ 32"

interpretation data_stream: byte_stream CDataStream_read CDataStream_unread CDataStream_inv
proof
  fix s n
  assume "CDataStream_inv s" "n \<le> MAX_SIZE" "n \<le> length (CDataStream_unread s)"
  then show "\<exists>s'. CDataStream_read s n = Inr (take n (CDataStream_unread s), s') \<and>
      CDataStream_unread s' = drop n (CDataStream_unread s) \<and> CDataStream_inv s'"
    by (auto simp: CDataStream_read_def CDataStream_unread_def CDataStream_inv_def Let_def add.commute)
next
  fix s n
  assume "CDataStream_inv s" "n \<le> MAX_SIZE" "length (CDataStream_unread s) < n"
  then show "CDataStream_read s n = Inl end_of_data"
    by (auto simp: CDataStream_read_def CDataStream_unread_def CDataStream_inv_def Let_def)
qed

lemma CDataStream_write_unread:
  "nReadPos s \<le> length (ds_vch s) \<Longrightarrow> CDataStream_unread (CDataStream_write s b) = CDataStream_unread s @ b"
  by (simp add: CDataStream_unread_def CDataStream_write_def)

lemma CDataStream_Compact_unread: "CDataStream_unread (CDataStream_Compact s) = CDataStream_unread s"
  by (simp add: CDataStream_unread_def CDataStream_Compact_def)

subsection \<open>VarInt: round trip, size and buffer\<close>

lemma varint_byte:
  "unat (word_of_nat (n AND 0x7F OR (if c then 0x80 else 0x00)) :: byte) = n mod 128 + (if c then 128 else 0)"
proof -
  have "n mod 128 OR push_bit 7 1 = n mod 128 + 2 ^ 7 * (1 :: nat)"
    by (rule or_disjoint_add_nat) simp
  then have or: "n mod 128 OR 0x80 = n mod 128 + 128" by simp
  show ?thesis
  proof (cases c)
    case True
    have "n mod 128 + 128 < 256" using mod_less_divisor [of 128 n] by simp
    with True show ?thesis by (simp only: and_127_nat or unat_word_of_nat_byte if_True mod_less)
  next
    case False
    then show ?thesis by (simp add: and_127_nat)
  qed
qed

lemma varint_step:
  assumes "n < 2 ^ w" "127 < (n :: nat)"
  shows "take_bit w (push_bit 7 (drop_bit 7 n)) OR n mod 128 = n"
proof -
  have "push_bit 7 (drop_bit 7 n) = n div 128 * 128"
    by (simp add: push_bit_eq_mult drop_bit_eq_div)
  moreover have "n div 128 * 128 \<le> n" by (rule div_times_less_eq_dividend)
  ultimately have "take_bit w (push_bit 7 (drop_bit 7 n)) = push_bit 7 (drop_bit 7 n)"
    using assms(1) by (simp add: take_bit_nat_eq_self)
  moreover have "n mod 128 OR push_bit 7 (drop_bit 7 n) = n mod 128 + 2 ^ 7 * drop_bit 7 n"
    by (rule or_disjoint_add_nat) simp
  ultimately show ?thesis
    by (simp add: or.commute drop_bit_eq_div)
qed

context byte_stream
begin

lemma ser_readdata8_Cons:
  assumes "inv s" "unread s = b # r"
  obtains s' where "ser_readdata8 rd s = Inr (unat b, s')" "unread s' = r" "inv s'"
  using read_some [of s 1] assms by (auto simp: ser_readdata8_def read_le_def)

lemma ReadVarInt_continue:
  assumes "inv s" "unread s = rev (varint_tmp m len) @ r" "len \<noteq> 0" "m + 1 < 2 ^ w"
  shows "\<exists>s'. inv s' \<and> unread s' = r \<and> ReadVarInt_loop w rd 0 s = ReadVarInt_loop w rd (m + 1) s'"
  using assms
proof (induction m len arbitrary: r rule: varint_tmp.induct)
  case (1 m len)
  define b :: byte where "b = word_of_nat (m AND 0x7F OR (if len \<noteq> 0 then 0x80 else 0x00))"
  have b: "unat b = m mod 128 + 128"
    using varint_byte [of m "len \<noteq> 0"] "1.prems"(3) by (simp add: b_def)
  have b_bits: "unat b AND 0x7F = m mod 128" "unat b AND 0x80 \<noteq> 0"
    using and_128_nat [of "unat b"] by (simp_all add: b and_127_nat)
  show ?case
  proof (cases "m \<le> 0x7F")
    case True
    then have "unread s = b # r"
      using "1.prems" by (simp add: varint_tmp.simps [of m] b_def)
    then obtain s' where s': "ser_readdata8 rd s = Inr (unat b, s')" "unread s' = r" "inv s'"
      using ser_readdata8_Cons "1.prems"(1) by blast
    have "take_bit w (Suc m) = Suc m" using "1.prems"(4) by (simp add: take_bit_nat_eq_self)
    then have "ReadVarInt_loop w rd 0 s = ReadVarInt_loop w rd (m + 1) s'"
      using s'(1) b_bits True by (subst ReadVarInt_loop.simps) (simp add: Let_def)
    with s' show ?thesis by blast
  next
    case False
    then have "unread s = rev (varint_tmp (drop_bit 7 m - 1) (len + 1)) @ b # r"
      using "1.prems" by (simp add: varint_tmp.simps [of m] b_def)
    moreover have "drop_bit 7 m - 1 + 1 < 2 ^ w" "drop_bit 7 m - 1 + 1 = drop_bit 7 m"
      using False "1.prems"(4) div_le_dividend [of m 128] by (auto simp: drop_bit_eq_div div_greater_zero_iff)
    ultimately obtain s1 where s1: "inv s1" "unread s1 = b # r"
        "ReadVarInt_loop w rd 0 s = ReadVarInt_loop w rd (drop_bit 7 m) s1"
      using "1.IH" [OF False "1.prems"(1), of "b # r"] by auto
    then obtain s' where s': "ser_readdata8 rd s1 = Inr (unat b, s')" "unread s' = r" "inv s'"
      using ser_readdata8_Cons by blast
    have "take_bit w (Suc m) = Suc m" using "1.prems"(4) by (simp add: take_bit_nat_eq_self)
    then have "ReadVarInt_loop w rd (drop_bit 7 m) s1 = ReadVarInt_loop w rd (m + 1) s'"
      using s'(1) b_bits varint_step [of m w] False "1.prems"(4)
      by (subst ReadVarInt_loop.simps) (simp add: Let_def)
    with s' s1(3) show ?thesis by auto
  qed
qed

lemma ReadVarInt_WriteVarInt:
  assumes "inv s" "unread s = WriteVarInt n @ rest" "n < 2 ^ w"
  shows "\<exists>s'. ReadVarInt w rd s = Some (Inr (n, s')) \<and> unread s' = rest \<and> inv s'"
proof -
  define b :: byte where "b = word_of_nat (n AND 0x7F OR (if False then 0x80 else 0x00))"
  have b: "unat b = n mod 128"
    using varint_byte [of n False] by (simp add: b_def)
  have "n mod 128 < 128" by simp
  then have "n mod 128 < 256" "\<not> 128 \<le> n mod 128" by linarith+
  then have b_bits: "unat b AND 0x7F = n mod 128" "unat b AND 0x80 = 0"
    using and_128_nat [of "n mod 128"] unfolding b by (simp_all add: and_127_nat)
  show ?thesis
  proof (cases "n \<le> 0x7F")
    case True
    then have "unread s = b # rest"
      using assms by (simp add: WriteVarInt_def varint_tmp.simps [of n] b_def)
    then obtain s' where s': "ser_readdata8 rd s = Inr (unat b, s')" "unread s' = rest" "inv s'"
      using ser_readdata8_Cons assms(1) by blast
    then show ?thesis
      using b_bits True by (simp add: ReadVarInt_def ReadVarInt_loop.simps [of _ _ _ s])
  next
    case False
    then have "unread s = rev (varint_tmp (drop_bit 7 n - 1) 1) @ b # rest"
      using assms by (simp add: WriteVarInt_def varint_tmp.simps [of n] b_def)
    moreover have "drop_bit 7 n - 1 + 1 < 2 ^ w" "drop_bit 7 n - 1 + 1 = drop_bit 7 n"
      using False assms(3) div_le_dividend [of n 128] by (auto simp: drop_bit_eq_div div_greater_zero_iff)
    ultimately obtain s1 where s1: "inv s1" "unread s1 = b # rest"
        "ReadVarInt_loop w rd 0 s = ReadVarInt_loop w rd (drop_bit 7 n) s1"
      using ReadVarInt_continue [of s "drop_bit 7 n - 1" 1 "b # rest" w] assms(1) by auto
    then obtain s' where s': "ser_readdata8 rd s1 = Inr (unat b, s')" "unread s' = rest" "inv s'"
      using ser_readdata8_Cons by blast
    then have "ReadVarInt_loop w rd (drop_bit 7 n) s1 = Some (Inr (n, s'))"
      using b_bits varint_step [of n w] False assms(3)
      by (subst ReadVarInt_loop.simps) (simp add: Let_def)
    with s' s1(3) show ?thesis by (auto simp: ReadVarInt_def)
  qed
qed

end

lemma length_varint_tmp: "length (varint_tmp n len) = GetSizeOfVarInt n"
  by (induction n len rule: varint_tmp.induct)
    (subst varint_tmp.simps, subst GetSizeOfVarInt.simps, simp)

text \<open>The buffer \<open>tmp\<close> has \<open>(sizeof(n) * 8 + 6) / 7\<close> bytes: it does not overflow.\<close>

lemma GetSizeOfVarInt_le: "0 < k \<Longrightarrow> n < 2 ^ (7 * k) \<Longrightarrow> GetSizeOfVarInt n \<le> k"
proof (induction k arbitrary: n)
  case (Suc k)
  show ?case
  proof (cases "n \<le> 0x7F")
    case True
    then show ?thesis by (subst GetSizeOfVarInt.simps) simp
  next
    case False
    then have k: "0 < k" using Suc.prems(2) by (cases k) auto
    have "n < 128 * 2 ^ (7 * k)" using Suc.prems(2) by (simp add: power_add)
    then have "n div 128 < 2 ^ (7 * k)" by (simp add: less_mult_imp_div_less mult.commute)
    then have "GetSizeOfVarInt (drop_bit 7 n - 1) \<le> k"
      by (intro Suc.IH k) (simp add: drop_bit_eq_div)
    then show ?thesis using False by (subst GetSizeOfVarInt.simps) simp
  qed
qed simp

lemma length_WriteVarInt_le:
  assumes "0 < w" "n < 2 ^ w"
  shows "length (WriteVarInt n) \<le> (w + 6) div 7"
proof -
  have "w \<le> 7 * ((w + 6) div 7)" by linarith
  then have "n < 2 ^ (7 * ((w + 6) div 7))"
    using assms(2) by (meson less_le_trans one_le_numeral power_increasing)
  then show ?thesis
    unfolding WriteVarInt_def length_rev length_varint_tmp
    using assms(1) by (intro GetSizeOfVarInt_le) auto
qed

lemma length_WriteCompactSize [simp]: "length (WriteCompactSize n) = GetSizeOfCompactSize n"
  by (simp add: WriteCompactSize_def GetSizeOfCompactSize_def ser_writedata8_def ser_writedata16_def
      ser_writedata32_def ser_writedata64_def)

subsection \<open>Properties\<close>

text \<open>A compact size up to \<open>MAX_SIZE\<close> that was written to a stream is read back from it, takes
  the number of bytes that \<open>GetSizeOfCompactSize\<close> announces, and leaves what follows it unread.\<close>

theorem CompactSize_roundtrip:
  assumes "CDataStream_inv s" "CDataStream_unread s = WriteCompactSize n @ rest" "n \<le> MAX_SIZE"
  shows "length (WriteCompactSize n) = GetSizeOfCompactSize n \<and>
    (\<exists>s'. ReadCompactSize CDataStream_read s = Inr (n, s') \<and> CDataStream_unread s' = rest \<and> CDataStream_inv s')"
  using data_stream.parses_ReadCompactSize [OF assms] by (simp add: data_stream.parses_def)

theorem CompactSize_roundtrip_witness:
  "\<exists>s'. ReadCompactSize CDataStream_read \<lparr>ds_vch = WriteCompactSize 70000 @ [1, 2], nReadPos = 0\<rparr> = Inr (70000, s') \<and>
     CDataStream_unread s' = [1, 2]"
  using CompactSize_roundtrip [of "\<lparr>ds_vch = WriteCompactSize 70000 @ [1, 2], nReadPos = 0\<rparr>" 70000 "[1, 2]"]
  by (auto simp: CDataStream_inv_def CDataStream_unread_def GetSizeOfCompactSize_def)

text \<open>A value of \<open>w\<close> bits written as a VarInt is read back by the reader for \<open>w\<close>-bit
  integers, which returns, and the writer stays inside its buffer of \<open>(w + 6) / 7\<close> bytes.\<close>

theorem VarInt_roundtrip:
  assumes "CDataStream_inv s" "CDataStream_unread s = WriteVarInt n @ rest" "n < 2 ^ w" "0 < w"
  shows "length (WriteVarInt n) \<le> (w + 6) div 7 \<and> length (WriteVarInt n) = GetSizeOfVarInt n \<and>
    (\<exists>s'. ReadVarInt w CDataStream_read s = Some (Inr (n, s')) \<and> CDataStream_unread s' = rest \<and> CDataStream_inv s')"
  using data_stream.ReadVarInt_WriteVarInt [OF assms(1-3)] length_WriteVarInt_le [OF assms(4,3)]
  by (simp add: WriteVarInt_def length_varint_tmp)

theorem VarInt_roundtrip_witness:
  "\<exists>s'. ReadVarInt 32 CDataStream_read \<lparr>ds_vch = WriteVarInt 123456 @ [5], nReadPos = 0\<rparr> = Some (Inr (123456, s')) \<and>
     CDataStream_unread s' = [5]"
  using VarInt_roundtrip [of "\<lparr>ds_vch = WriteVarInt 123456 @ [5], nReadPos = 0\<rparr>" 123456 "[5]" 32]
    length_WriteVarInt_le [of 32 123456]
  by (auto simp: CDataStream_inv_def CDataStream_unread_def)

end
