(* ===== verification/Transaction.thy ===== *)
theory Transaction
  imports Script Serialize "HOL-Library.Multiset"
begin

text \<open>
  The data of primitives/transaction.h with its serialization, amounts (amount.h, amount.cpp) and
  the comparators that order inputs and outputs. A \<open>uint256\<close> (uint256.h) is the array of its 32
  bytes.

  The fields that are in memory only (the cached hash, \<open>prevPubKey\<close>, \<open>nRounds\<close>) are not written:
  the cached hash is left out of the model, the other two get their initial values when read.
\<close>

subsection \<open>Blobs\<close>

type_synonym uint256 = bytes
type_synonym uint160 = bytes

definition blob_IsNull :: "bytes \<Rightarrow> bool" where
  "blob_IsNull data = list_all (\<lambda>b. b = 0) data"

definition blob_SetNull :: "nat \<Rightarrow> bytes" where
  "blob_SetNull WIDTH = replicate WIDTH 0"

text \<open>\<open>memcmp(a, b, n) < 0\<close>, for arrays of one length.\<close>

fun memcmp_less :: "bytes \<Rightarrow> bytes \<Rightarrow> bool" where
  "memcmp_less (a # as) (b # bs) = (if a = b then memcmp_less as bs else a < b)"
| "memcmp_less _ _ = False"

subsection \<open>Amounts\<close>

type_synonym CAmount = int

abbreviation (input) COIN :: CAmount where "COIN \<equiv> 100000000"
abbreviation (input) CENT :: CAmount where "CENT \<equiv> 1000000"
abbreviation (input) MAX_MONEY :: CAmount where "MAX_MONEY \<equiv> int64_max"

definition MoneyRange :: "CAmount \<Rightarrow> bool" where
  "MoneyRange nValue \<longleftrightarrow> nValue \<ge> 0 \<and> nValue \<le> MAX_MONEY"

text \<open>
  \<open>CFeeRate\<close> is its \<open>nSatoshisPerK\<close>. An operand of type \<open>size_t\<close> makes the arithmetic unsigned: it
  wraps, and the result is converted back to \<open>int64_t\<close>. The product of two signed operands is
  undefined when it does not fit.
\<close>

definition u64_of :: "int \<Rightarrow> nat" where "u64_of n = unsigned_of 64 n"
definition i64_of :: "nat \<Rightarrow> int" where "i64_of n = signed_of 64 (n mod 2 ^ 64)"

definition CFeeRate :: "CAmount \<Rightarrow> nat \<Rightarrow> cxx_exit + CAmount" where
  "CFeeRate nFeePaid nSize =
     (if nSize > 0 then
        (if in_int64 (nFeePaid * 1000) then Inr (i64_of (u64_of (nFeePaid * 1000) div nSize))
         else Inl Undefined)
      else Inr 0)"

definition GetFee :: "CAmount \<Rightarrow> nat \<Rightarrow> CAmount" where
  "GetFee nSatoshisPerK nSize =
     (let nFee = i64_of (u64_of nSatoshisPerK * nSize mod 2 ^ 64 div 1000) in
      if nFee = 0 \<and> nSatoshisPerK > 0 then nSatoshisPerK else nFee)"

definition GetFeePerK :: "CAmount \<Rightarrow> CAmount" where
  "GetFeePerK nSatoshisPerK = GetFee nSatoshisPerK 1000"

subsection \<open>Transactions\<close>

record COutPoint =
  op_hash :: uint256
  op_n :: u32

record CTxIn =
  prevout :: COutPoint
  scriptSig :: CScript
  nSequence :: u32
  prevPubKey :: CScript

record CTxOut =
  nValue :: CAmount
  scriptPubKey :: CScript
  nRounds :: int

record CTransaction =
  nVersion :: int
  vin :: "CTxIn list"
  vout :: "CTxOut list"
  nLockTime :: u32

definition COutPoint_SetNull :: COutPoint where
  "COutPoint_SetNull = \<lparr>op_hash = blob_SetNull 32, op_n = -1\<rparr>"

definition COutPoint_IsNull :: "COutPoint \<Rightarrow> bool" where
  "COutPoint_IsNull p \<longleftrightarrow> blob_IsNull (op_hash p) \<and> op_n p = -1"

definition COutPoint_less :: "COutPoint \<Rightarrow> COutPoint \<Rightarrow> bool" where
  "COutPoint_less a b \<longleftrightarrow>
     memcmp_less (op_hash a) (op_hash b) \<or> (op_hash a = op_hash b \<and> op_n a < op_n b)"

definition mk_CTxIn :: "COutPoint \<Rightarrow> CScript \<Rightarrow> u32 \<Rightarrow> CTxIn" where
  "mk_CTxIn p s n = \<lparr>prevout = p, scriptSig = s, nSequence = n, prevPubKey = []\<rparr>"

definition CTxIn_eq :: "CTxIn \<Rightarrow> CTxIn \<Rightarrow> bool" where
  "CTxIn_eq a b \<longleftrightarrow> prevout a = prevout b \<and> scriptSig a = scriptSig b \<and> nSequence a = nSequence b"

definition CTxIn_less :: "CTxIn \<Rightarrow> CTxIn \<Rightarrow> bool" where
  "CTxIn_less a b = COutPoint_less (prevout a) (prevout b)"

definition mk_CTxOut :: "CAmount \<Rightarrow> CScript \<Rightarrow> CTxOut" where
  "mk_CTxOut v s = \<lparr>nValue = v, scriptPubKey = s, nRounds = -10\<rparr>"

definition CTxOut_SetNull :: CTxOut where
  "CTxOut_SetNull = \<lparr>nValue = -1, scriptPubKey = [], nRounds = -10\<rparr>"

definition CTxOut_IsNull :: "CTxOut \<Rightarrow> bool" where
  "CTxOut_IsNull out \<longleftrightarrow> nValue out = -1"

definition CTxOut_eq :: "CTxOut \<Rightarrow> CTxOut \<Rightarrow> bool" where
  "CTxOut_eq a b \<longleftrightarrow> nValue a = nValue b \<and> scriptPubKey a = scriptPubKey b \<and> nRounds a = nRounds b"

definition CTransaction_IsNull :: "CTransaction \<Rightarrow> bool" where
  "CTransaction_IsNull tx \<longleftrightarrow> vin tx = [] \<and> vout tx = []"

definition IsCoinBase :: "CTransaction \<Rightarrow> bool" where
  "IsCoinBase tx \<longleftrightarrow> length (vin tx) = 1 \<and> COutPoint_IsNull (prevout (vin tx ! 0))"

text \<open>\<open>GetValueOut\<close>: the sum is an \<open>int64_t\<close>, computed before it is checked.\<close>

datatype value_exn = value_out_of_range | value_overflow

fun GetValueOut_loop :: "CTxOut list \<Rightarrow> CAmount \<Rightarrow> value_exn + CAmount" where
  "GetValueOut_loop [] nValueOut = Inr nValueOut"
| "GetValueOut_loop (out # outs) nValueOut =
     (if \<not> in_int64 (nValueOut + nValue out) then Inl value_overflow
      else let nValueOut = nValueOut + nValue out in
        if \<not> MoneyRange (nValue out) \<or> \<not> MoneyRange nValueOut then Inl value_out_of_range
        else GetValueOut_loop outs nValueOut)"

definition GetValueOut :: "CTransaction \<Rightarrow> value_exn + CAmount" where
  "GetValueOut tx = GetValueOut_loop (vout tx) 0"

subsection \<open>Serialization\<close>

definition Serialize_COutPoint :: "COutPoint \<Rightarrow> bytes" where
  "Serialize_COutPoint p = op_hash p @ ser_writedata32 (unat (op_n p))"

definition Serialize_CTxIn :: "CTxIn \<Rightarrow> bytes" where
  "Serialize_CTxIn i =
     Serialize_COutPoint (prevout i) @ Serialize_bytes (scriptSig i) @ ser_writedata32 (unat (nSequence i))"

definition Serialize_CTxOut :: "CTxOut \<Rightarrow> bytes" where
  "Serialize_CTxOut out = ser_writedata64 (unsigned_of 64 (nValue out)) @ Serialize_bytes (scriptPubKey out)"

definition Serialize_CTransaction :: "CTransaction \<Rightarrow> bytes" where
  "Serialize_CTransaction tx =
     ser_writedata32 (unsigned_of 32 (nVersion tx)) @
     Serialize_vector Serialize_CTxIn (vin tx) @
     Serialize_vector Serialize_CTxOut (vout tx) @
     ser_writedata32 (unat (nLockTime tx))"

definition Unserialize_COutPoint :: "'s reader \<Rightarrow> 's \<Rightarrow> ser_exn + COutPoint \<times> 's" where
  "Unserialize_COutPoint rd s =
     ebind (rd s 32) (\<lambda>(hash, s).
     ebind (ser_readdata32 rd s) (\<lambda>(n, s).
     Inr (\<lparr>op_hash = hash, op_n = word_of_nat n\<rparr>, s)))"

definition Unserialize_CTxIn :: "'s reader \<Rightarrow> 's \<Rightarrow> ser_exn + CTxIn \<times> 's" where
  "Unserialize_CTxIn rd s =
     ebind (Unserialize_COutPoint rd s) (\<lambda>(p, s).
     ebind (Unserialize_bytes rd s) (\<lambda>(scr, s).
     ebind (ser_readdata32 rd s) (\<lambda>(n, s).
     Inr (mk_CTxIn p scr (word_of_nat n), s))))"

definition Unserialize_CTxOut :: "'s reader \<Rightarrow> 's \<Rightarrow> ser_exn + CTxOut \<times> 's" where
  "Unserialize_CTxOut rd s =
     ebind (ser_readdata64 rd s) (\<lambda>(v, s).
     ebind (Unserialize_bytes rd s) (\<lambda>(scr, s).
     Inr (mk_CTxOut (signed_of 64 v) scr, s)))"

text \<open>The sizes of \<open>CTxIn\<close> and \<open>CTxOut\<close> in memory depend on the platform.\<close>

definition Unserialize_CTransaction ::
  "'s reader \<Rightarrow> nat \<Rightarrow> nat \<Rightarrow> 's \<Rightarrow> ser_exn + CTransaction \<times> 's" where
  "Unserialize_CTransaction rd sizeof_CTxIn sizeof_CTxOut s =
     ebind (ser_readdata32 rd s) (\<lambda>(ver, s).
     ebind (Unserialize_vector rd sizeof_CTxIn (Unserialize_CTxIn rd) s) (\<lambda>(ins, s).
     ebind (Unserialize_vector rd sizeof_CTxOut (Unserialize_CTxOut rd) s) (\<lambda>(outs, s).
     ebind (ser_readdata32 rd s) (\<lambda>(lock, s).
     Inr (\<lparr>nVersion = signed_of 32 ver, vin = ins, vout = outs, nLockTime = word_of_nat lock\<rparr>, s)))))"

definition CalculateModifiedSize :: "CTransaction \<Rightarrow> nat \<Rightarrow> nat" where
  "CalculateModifiedSize tx nTxSize =
     (let nTxSize = (if nTxSize = 0 then length (Serialize_CTransaction tx) else nTxSize) in
      fold (\<lambda>i nTxSize. let offset = 41 + min 110 (length (scriptSig i)) in
        if nTxSize > offset then nTxSize - offset else nTxSize) (vin tx) nTxSize)"

definition GetDustThreshold :: "CTxOut \<Rightarrow> CAmount \<Rightarrow> CAmount" where
  "GetDustThreshold out minRelayTxFee =
     (if IsUnspendable (scriptPubKey out) then 0
      else let nSize = length (Serialize_CTxOut out) + 148 in
        3 * GetFee minRelayTxFee nSize)"

definition IsDust :: "CTxOut \<Rightarrow> CAmount \<Rightarrow> bool" where
  "IsDust out minRelayTxFee \<longleftrightarrow> nValue out < GetDustThreshold out minRelayTxFee"

subsection \<open>BIP69 order\<close>

text \<open>\<open>std::lexicographical_compare\<close> on reversed arrays, and \<open>operator<\<close> of a script.\<close>

fun lexicographical_compare :: "bytes \<Rightarrow> bytes \<Rightarrow> bool" where
  "lexicographical_compare [] ys = (ys \<noteq> [])"
| "lexicographical_compare (x # xs) [] = False"
| "lexicographical_compare (x # xs) (y # ys) =
     (if x < y then True else if y < x then False else lexicographical_compare xs ys)"

definition CompareInputBIP69 :: "CTxIn \<Rightarrow> CTxIn \<Rightarrow> bool" where
  "CompareInputBIP69 a b =
     (if op_hash (prevout a) = op_hash (prevout b) then op_n (prevout a) < op_n (prevout b)
      else lexicographical_compare (rev (op_hash (prevout a))) (rev (op_hash (prevout b))))"

text \<open>
  The script type is a \<open>prevector\<close>; its \<open>operator<\<close> compares the sizes first.
\<close>

definition prevector_less :: "bytes \<Rightarrow> bytes \<Rightarrow> bool" where
  "prevector_less a b =
     (if length a < length b then True
      else if length a > length b then False
      else memcmp_less a b)"

definition CompareOutputBIP69 :: "CTxOut \<Rightarrow> CTxOut \<Rightarrow> bool" where
  "CompareOutputBIP69 a b \<longleftrightarrow>
     nValue a < nValue b \<or> (nValue a = nValue b \<and> prevector_less (scriptPubKey a) (scriptPubKey b))"

subsection \<open>Reading back what was written\<close>

text \<open>The values that the C++ types can hold, with sizes that a reader accepts.\<close>

definition wf_COutPoint :: "COutPoint \<Rightarrow> bool" where
  "wf_COutPoint p \<longleftrightarrow> length (op_hash p) = 32"

definition wf_CTxIn :: "CTxIn \<Rightarrow> bool" where
  "wf_CTxIn i \<longleftrightarrow> wf_COutPoint (prevout i) \<and> length (scriptSig i) \<le> MAX_SIZE \<and> prevPubKey i = []"

definition wf_CTxOut :: "CTxOut \<Rightarrow> bool" where
  "wf_CTxOut out \<longleftrightarrow> in_int64 (nValue out) \<and> length (scriptPubKey out) \<le> MAX_SIZE \<and> nRounds out = -10"

definition wf_CTransaction :: "CTransaction \<Rightarrow> bool" where
  "wf_CTransaction tx \<longleftrightarrow>
     int32_min \<le> nVersion tx \<and> nVersion tx \<le> int32_max \<and>
     length (vin tx) \<le> MAX_SIZE \<and> length (vout tx) \<le> MAX_SIZE \<and>
     (\<forall>i \<in> set (vin tx). wf_CTxIn i) \<and> (\<forall>out \<in> set (vout tx). wf_CTxOut out)"

lemma unsigned_of_less: "unsigned_of w n < 2 ^ w"
  by (simp add: unsigned_of_def nat_less_iff)

context byte_stream
begin

lemma parses_u32:
  assumes "inv s" "unread s = ser_writedata32 n @ rest" "n < 2 ^ 32"
  shows "parses (ser_readdata32 rd) s n rest"
  using assms parses_read_le [of s 4 n rest] by (simp add: ser_readdata32_def ser_writedata32_def)

lemma parses_u64:
  assumes "inv s" "unread s = ser_writedata64 n @ rest" "n < 2 ^ 64"
  shows "parses (ser_readdata64 rd) s n rest"
  using assms parses_read_le [of s 8 n rest] by (simp add: ser_readdata64_def ser_writedata64_def)

lemma unat_u32_less: "unat (n :: u32) < 2 ^ 32"
  using unsigned_less [of n] by simp

lemma parses_COutPoint:
  assumes "inv s" "unread s = Serialize_COutPoint p @ rest" "wf_COutPoint p"
  shows "parses (Unserialize_COutPoint rd) s p rest"
proof -
  obtain s1 where s1: "rd s 32 = Inr (op_hash p, s1)"
      "unread s1 = ser_writedata32 (unat (op_n p)) @ rest" "inv s1"
    using assms by (auto simp: Serialize_COutPoint_def wf_COutPoint_def
        intro: parsesE [OF parses_read [of s "op_hash p" "ser_writedata32 (unat (op_n p)) @ rest" 32]])
  obtain s2 where "ser_readdata32 rd s1 = Inr (unat (op_n p), s2)" "unread s2 = rest" "inv s2"
    using parses_u32 [OF s1(3,2) unat_u32_less] by (rule parsesE)
  with s1 show ?thesis by (simp add: parses_def Unserialize_COutPoint_def)
qed

lemma parses_CTxIn:
  assumes "inv s" "unread s = Serialize_CTxIn i @ rest" "wf_CTxIn i"
  shows "parses (Unserialize_CTxIn rd) s i rest"
proof -
  have s: "unread s = Serialize_COutPoint (prevout i) @
      Serialize_bytes (scriptSig i) @ ser_writedata32 (unat (nSequence i)) @ rest"
    using assms(2) by (simp add: Serialize_CTxIn_def)
  have wf: "wf_COutPoint (prevout i)" "length (scriptSig i) \<le> MAX_SIZE" "prevPubKey i = []"
    using assms(3) by (simp_all add: wf_CTxIn_def)
  obtain s1 where s1: "Unserialize_COutPoint rd s = Inr (prevout i, s1)"
      "unread s1 = Serialize_bytes (scriptSig i) @ ser_writedata32 (unat (nSequence i)) @ rest" "inv s1"
    using parses_COutPoint [OF assms(1) s wf(1)] by (rule parsesE)
  obtain s2 where s2: "Unserialize_bytes rd s1 = Inr (scriptSig i, s2)"
      "unread s2 = ser_writedata32 (unat (nSequence i)) @ rest" "inv s2"
    using parses_Unserialize_bytes [OF s1(3,2) wf(2)] by (rule parsesE)
  obtain s3 where "ser_readdata32 rd s2 = Inr (unat (nSequence i), s3)" "unread s3 = rest" "inv s3"
    using parses_u32 [OF s2(3,2) unat_u32_less] by (rule parsesE)
  with s1 s2 wf(3) show ?thesis by (simp add: parses_def Unserialize_CTxIn_def mk_CTxIn_def)
qed

lemma parses_CTxOut:
  assumes "inv s" "unread s = Serialize_CTxOut out @ rest" "wf_CTxOut out"
  shows "parses (Unserialize_CTxOut rd) s out rest"
proof -
  have s: "unread s = ser_writedata64 (unsigned_of 64 (nValue out)) @ Serialize_bytes (scriptPubKey out) @ rest"
    using assms(2) by (simp add: Serialize_CTxOut_def)
  have wf: "length (scriptPubKey out) \<le> MAX_SIZE" "nRounds out = -10"
    using assms(3) by (simp_all add: wf_CTxOut_def)
  have v: "signed_of 64 (unsigned_of 64 (nValue out)) = nValue out"
    using assms(3) by (intro signed_of_unsigned_of) (auto simp: wf_CTxOut_def int_ranges)
  obtain s1 where s1: "ser_readdata64 rd s = Inr (unsigned_of 64 (nValue out), s1)"
      "unread s1 = Serialize_bytes (scriptPubKey out) @ rest" "inv s1"
    using parses_u64 [OF assms(1) s unsigned_of_less] by (rule parsesE)
  obtain s2 where "Unserialize_bytes rd s1 = Inr (scriptPubKey out, s2)" "unread s2 = rest" "inv s2"
    using parses_Unserialize_bytes [OF s1(3,2) wf(1)] by (rule parsesE)
  with s1 v wf(2) show ?thesis by (simp add: parses_def Unserialize_CTxOut_def mk_CTxOut_def)
qed

lemma parses_CTransaction:
  assumes "inv s" "unread s = Serialize_CTransaction tx @ rest" "wf_CTransaction tx"
    and sz: "0 < szIn" "szIn \<le> 5000000" "0 < szOut" "szOut \<le> 5000000"
  shows "parses (Unserialize_CTransaction rd szIn szOut) s tx rest"
proof -
  note wf = assms(3) [unfolded wf_CTransaction_def]
  have ver: "signed_of 32 (unsigned_of 32 (nVersion tx)) = nVersion tx"
    using wf by (intro signed_of_unsigned_of) (auto simp: int_ranges)
  have s: "unread s = ser_writedata32 (unsigned_of 32 (nVersion tx)) @
      Serialize_vector Serialize_CTxIn (vin tx) @ Serialize_vector Serialize_CTxOut (vout tx) @
      ser_writedata32 (unat (nLockTime tx)) @ rest"
    using assms(2) by (simp add: Serialize_CTransaction_def)
  obtain s1 where s1: "ser_readdata32 rd s = Inr (unsigned_of 32 (nVersion tx), s1)"
      "unread s1 = Serialize_vector Serialize_CTxIn (vin tx) @ Serialize_vector Serialize_CTxOut (vout tx) @
      ser_writedata32 (unat (nLockTime tx)) @ rest" "inv s1"
    using parses_u32 [OF assms(1) s unsigned_of_less] by (rule parsesE)
  have "parses (Unserialize_vector rd szIn (Unserialize_CTxIn rd)) s1 (vin tx)
      (Serialize_vector Serialize_CTxOut (vout tx) @ ser_writedata32 (unat (nLockTime tx)) @ rest)"
    using wf sz by (intro parses_Unserialize_vector [OF s1(3,2)]) (auto intro: parses_CTxIn)
  then obtain s2 where s2: "Unserialize_vector rd szIn (Unserialize_CTxIn rd) s1 = Inr (vin tx, s2)"
      "unread s2 = Serialize_vector Serialize_CTxOut (vout tx) @ ser_writedata32 (unat (nLockTime tx)) @ rest"
      "inv s2"
    by (rule parsesE)
  have "parses (Unserialize_vector rd szOut (Unserialize_CTxOut rd)) s2 (vout tx)
      (ser_writedata32 (unat (nLockTime tx)) @ rest)"
    using wf sz by (intro parses_Unserialize_vector [OF s2(3,2)]) (auto intro: parses_CTxOut)
  then obtain s3 where s3: "Unserialize_vector rd szOut (Unserialize_CTxOut rd) s2 = Inr (vout tx, s3)"
      "unread s3 = ser_writedata32 (unat (nLockTime tx)) @ rest" "inv s3"
    by (rule parsesE)
  obtain s4 where "ser_readdata32 rd s3 = Inr (unat (nLockTime tx), s4)" "unread s4 = rest" "inv s4"
    using parses_u32 [OF s3(3,2) unat_u32_less] by (rule parsesE)
  with s1 s2 s3 ver show ?thesis by (simp add: parses_def Unserialize_CTransaction_def)
qed

end

subsection \<open>Values and fees\<close>

lemma GetValueOut_loop_eq:
  assumes "0 \<le> acc" "acc \<le> MAX_MONEY"
  shows "GetValueOut_loop outs acc = Inr v \<longleftrightarrow>
    (\<forall>out \<in> set outs. 0 \<le> nValue out) \<and> v = acc + sum_list (map nValue outs) \<and> v \<le> MAX_MONEY"
  using assms
proof (induction outs arbitrary: acc)
  case Nil
  then show ?case by auto
next
  case (Cons out outs)
  have nonneg: "0 \<le> sum_list (map nValue outs)" if "\<forall>out \<in> set outs. 0 \<le> nValue out"
    using that by (induction outs) auto
  show ?case
  proof (cases "0 \<le> nValue out \<and> acc + nValue out \<le> MAX_MONEY")
    case True
    then have "in_int64 (acc + nValue out)" "MoneyRange (nValue out)" "MoneyRange (acc + nValue out)"
      using Cons.prems by (auto simp: MoneyRange_def int_ranges)
    then show ?thesis
      using True Cons.prems Cons.IH [of "acc + nValue out"] by (auto simp: algebra_simps)
  next
    case False
    then have "GetValueOut_loop (out # outs) acc \<noteq> Inr v"
      by (auto simp: MoneyRange_def Let_def)
    then show ?thesis using False Cons.prems nonneg by auto
  qed
qed

lemma i64_of_small: "n < 2 ^ 63 \<Longrightarrow> i64_of n = int n"
  by (simp add: i64_of_def signed_of_def)

lemma u64_of_nonneg: "0 \<le> n \<Longrightarrow> n \<le> int64_max \<Longrightarrow> u64_of n = nat n"
  by (simp add: u64_of_def unsigned_of_def int_ranges)

subsection \<open>Orders for sorting and for map keys\<close>

text \<open>
  What \<open>std::sort\<close> and \<open>std::map\<close> rely on: a strict order that looks at a key only and is total on
  it. Then sorting has one result, whatever the algorithm and whatever the order of its input.
\<close>

locale sort_order =
  fixes less :: "'a \<Rightarrow> 'a \<Rightarrow> bool" and key :: "'a \<Rightarrow> 'k" and valid :: "'a \<Rightarrow> bool"
  assumes less_irrefl: "\<not> less a a"
    and less_trans: "valid a \<Longrightarrow> valid b \<Longrightarrow> valid c \<Longrightarrow> less a b \<Longrightarrow> less b c \<Longrightarrow> less a c"
    and less_total: "valid a \<Longrightarrow> valid b \<Longrightarrow> key a \<noteq> key b \<Longrightarrow> less a b \<or> less b a"
    and less_key: "key a = key a' \<Longrightarrow> key b = key b' \<Longrightarrow> less a b = less a' b'"
begin

lemma less_asym: "valid a \<Longrightarrow> valid b \<Longrightarrow> less a b \<Longrightarrow> \<not> less b a"
  using less_trans less_irrefl by blast

lemma equivalent_iff: "valid a \<Longrightarrow> valid b \<Longrightarrow> \<not> less a b \<and> \<not> less b a \<longleftrightarrow> key a = key b"
  using less_total less_key less_irrefl by metis

lemma sorted_unique:
  assumes "sorted_wrt (\<lambda>a b. \<not> less b a) xs" "sorted_wrt (\<lambda>a b. \<not> less b a) ys"
    and "mset (map key xs) = mset (map key ys)" "\<forall>a \<in> set xs \<union> set ys. valid a"
  shows "map key xs = map key ys"
  using assms
proof (induction xs arbitrary: ys)
  case Nil
  then show ?case by simp
next
  case (Cons x xs)
  then obtain y ys' where ys: "ys = y # ys'" by (cases ys) auto
  have "set (map key (x # xs)) = set (map key ys)"
    using Cons.prems(3) by (rule mset_eq_setD)
  then have "key x \<in> key ` set ys" "key y \<in> key ` set (x # xs)"
    using ys by auto
  then obtain x' y' where "x' \<in> set ys" "key x' = key x" "y' \<in> set (x # xs)" "key y' = key y"
    by (metis imageE)
  then have "\<not> less x y" "\<not> less y x"
    using Cons.prems(1,2) less_irrefl less_key [of x x' y y] less_key [of y y' x x]
    by (auto simp: ys)
  then have eq: "key x = key y"
    using Cons.prems(4) equivalent_iff [of x y] by (simp add: ys)
  moreover have "map key xs = map key ys'"
    using Cons.prems eq by (intro Cons.IH) (auto simp: ys)
  ultimately show ?case by (simp add: ys)
qed

end

lemma lexicographical_compare_lexordp: "lexicographical_compare xs ys = ord_class.lexordp xs ys"
  by (induction xs ys rule: lexicographical_compare.induct) (auto simp: neq_Nil_conv)

lemma memcmp_less_lexordp: "length xs = length ys \<Longrightarrow> memcmp_less xs ys = ord_class.lexordp xs ys"
  by (induction xs ys rule: memcmp_less.induct) auto

lemma memcmp_less_irrefl [simp]: "\<not> memcmp_less xs xs"
  by (induction xs) auto

lemma memcmp_less_trans:
  "length xs = length ys \<Longrightarrow> length ys = length zs \<Longrightarrow> memcmp_less xs ys \<Longrightarrow> memcmp_less ys zs \<Longrightarrow>
   memcmp_less xs zs"
  using lexordp_trans by (simp add: memcmp_less_lexordp)

lemma memcmp_less_total:
  "length xs = length ys \<Longrightarrow> xs \<noteq> ys \<Longrightarrow> memcmp_less xs ys \<or> memcmp_less ys xs"
  using lexordp_linear [of xs ys] by (auto simp: memcmp_less_lexordp)

lemma prevector_less_irrefl [simp]: "\<not> prevector_less xs xs"
  by (simp add: prevector_less_def)

lemma prevector_less_trans: "prevector_less xs ys \<Longrightarrow> prevector_less ys zs \<Longrightarrow> prevector_less xs zs"
  using memcmp_less_trans [of xs ys zs] by (auto simp: prevector_less_def split: if_splits)

lemma prevector_less_total: "xs \<noteq> ys \<Longrightarrow> prevector_less xs ys \<or> prevector_less ys xs"
  using memcmp_less_total [of xs ys] by (auto simp: prevector_less_def)

interpretation outpoint_order: sort_order COutPoint_less "\<lambda>p. p" wf_COutPoint
proof
  fix a b c
  assume "wf_COutPoint a" "wf_COutPoint b" "wf_COutPoint c" "COutPoint_less a b" "COutPoint_less b c"
  then show "COutPoint_less a c"
    using memcmp_less_trans [of "op_hash a" "op_hash b" "op_hash c"]
    by (auto simp: COutPoint_less_def wf_COutPoint_def)
next
  fix a b
  assume "wf_COutPoint a" "wf_COutPoint b" "a \<noteq> b"
  then have "op_hash a = op_hash b \<Longrightarrow> op_n a < op_n b \<or> op_n b < op_n a"
    using COutPoint.equality [of a b] by (metis neq_iff old.unit.exhaust)
  then show "COutPoint_less a b \<or> COutPoint_less b a"
    using memcmp_less_total [of "op_hash a" "op_hash b"] \<open>wf_COutPoint a\<close> \<open>wf_COutPoint b\<close>
    by (cases "op_hash a = op_hash b") (auto simp: COutPoint_less_def wf_COutPoint_def)
qed (auto simp: COutPoint_less_def)

interpretation bip69_input: sort_order CompareInputBIP69 prevout "\<lambda>i. True"
proof
  fix a b c :: CTxIn
  let ?a = "rev (op_hash (prevout a))" and ?b = "rev (op_hash (prevout b))" and ?c = "rev (op_hash (prevout c))"
  assume ab: "CompareInputBIP69 a b" and bc: "CompareInputBIP69 b c"
  show "CompareInputBIP69 a c"
  proof (cases "?a = ?b \<or> ?b = ?c")
    case True
    with ab bc show ?thesis by (auto simp: CompareInputBIP69_def split: if_splits)
  next
    case False
    with ab bc have "ord_class.lexordp ?a ?b" "ord_class.lexordp ?b ?c"
      by (simp_all add: CompareInputBIP69_def lexicographical_compare_lexordp)
    then have "ord_class.lexordp ?a ?c" by (rule lexordp_trans)
    then have "?a \<noteq> ?c" "lexicographical_compare ?a ?c"
      using lexordp_irreflexive' [of ?a] by (metis, simp add: lexicographical_compare_lexordp)
    then show ?thesis by (simp add: CompareInputBIP69_def)
  qed
next
  fix a b :: CTxIn
  assume ne: "prevout a \<noteq> prevout b"
  show "CompareInputBIP69 a b \<or> CompareInputBIP69 b a"
  proof (cases "op_hash (prevout a) = op_hash (prevout b)")
    case True
    then have "op_n (prevout a) \<noteq> op_n (prevout b)"
      using ne COutPoint.equality [of "prevout a" "prevout b"] by auto
    with True show ?thesis by (auto simp: CompareInputBIP69_def neq_iff)
  next
    case False
    then show ?thesis
      using lexordp_linear [of "rev (op_hash (prevout a))" "rev (op_hash (prevout b))"]
      by (auto simp: CompareInputBIP69_def lexicographical_compare_lexordp)
  qed
qed (auto simp: CompareInputBIP69_def)

interpretation bip69_output: sort_order CompareOutputBIP69 "\<lambda>out. (nValue out, scriptPubKey out)" "\<lambda>out. True"
proof
  fix a b c :: CTxOut
  assume "CompareOutputBIP69 a b" "CompareOutputBIP69 b c"
  then show "CompareOutputBIP69 a c"
    using prevector_less_trans [of "scriptPubKey a" "scriptPubKey b" "scriptPubKey c"]
    by (auto simp: CompareOutputBIP69_def)
next
  fix a b :: CTxOut
  assume "(nValue a, scriptPubKey a) \<noteq> (nValue b, scriptPubKey b)"
  then show "CompareOutputBIP69 a b \<or> CompareOutputBIP69 b a"
    using prevector_less_total [of "scriptPubKey a" "scriptPubKey b"]
    by (auto simp: CompareOutputBIP69_def)
qed (auto simp: CompareOutputBIP69_def)

subsection \<open>Properties\<close>

text \<open>C16: A transaction whose fields fit their C++ types is read back from a stream exactly as it was
  written, whatever the sizes of the vector elements in memory, and what follows it stays unread.\<close>

theorem CTransaction_roundtrip:
  assumes "CDataStream_inv s" "CDataStream_unread s = Serialize_CTransaction tx @ rest" "wf_CTransaction tx"
    and "0 < szIn" "szIn \<le> 5000000" "0 < szOut" "szOut \<le> 5000000"
  shows "\<exists>s'. Unserialize_CTransaction CDataStream_read szIn szOut s = Inr (tx, s') \<and>
    CDataStream_unread s' = rest \<and> CDataStream_inv s'"
  using data_stream.parses_CTransaction [OF assms] by (simp add: data_stream.parses_def)

definition example_tx :: CTransaction where
  "example_tx = \<lparr>nVersion = 1,
     vin = [mk_CTxIn \<lparr>op_hash = replicate 32 1, op_n = 3\<rparr> [0x51] 0xffffffff,
            mk_CTxIn \<lparr>op_hash = replicate 32 2, op_n = 0\<rparr> [] 0],
     vout = [mk_CTxOut 5000 [0x6a], mk_CTxOut 0 []], nLockTime = 0\<rparr>"

lemma wf_example_tx: "wf_CTransaction example_tx"
  by (simp add: wf_CTransaction_def example_tx_def wf_CTxIn_def wf_CTxOut_def wf_COutPoint_def
      mk_CTxIn_def mk_CTxOut_def int_ranges)

theorem CTransaction_roundtrip_witness:
  "\<exists>s'. Unserialize_CTransaction CDataStream_read 100 40
     \<lparr>ds_vch = Serialize_CTransaction example_tx @ [9], nReadPos = 0\<rparr> = Inr (example_tx, s') \<and>
     CDataStream_unread s' = [9]"
proof -
  let ?s = "\<lparr>ds_vch = Serialize_CTransaction example_tx @ [9], nReadPos = 0\<rparr>"
  have len: "length (Serialize_CTransaction example_tx) = 112"
    by (simp add: Serialize_CTransaction_def Serialize_vector_def Serialize_CTxIn_def Serialize_CTxOut_def
        Serialize_COutPoint_def Serialize_bytes_def GetSizeOfCompactSize_def example_tx_def mk_CTxIn_def
        mk_CTxOut_def ser_writedata32_def ser_writedata64_def)
  then have "CDataStream_inv ?s" by (simp add: CDataStream_inv_def)
  moreover have "CDataStream_unread ?s = Serialize_CTransaction example_tx @ [9]"
    by (simp add: CDataStream_unread_def)
  ultimately obtain s' where "Unserialize_CTransaction CDataStream_read 100 40 ?s = Inr (example_tx, s')"
      "CDataStream_unread s' = [9]"
    using CTransaction_roundtrip [OF _ _ wf_example_tx, of ?s "[9]" 100 40] by auto
  then show ?thesis by blast
qed

text \<open>\<open>GetValueOut\<close> returns a value exactly when no output is negative and the sum is at most
  \<open>MAX_MONEY\<close>, and the value is then the exact sum of the outputs.\<close>

theorem GetValueOut_exact:
  "GetValueOut tx = Inr v \<longleftrightarrow>
     (\<forall>out \<in> set (vout tx). 0 \<le> nValue out) \<and> v = sum_list (map nValue (vout tx)) \<and> v \<le> MAX_MONEY"
  using GetValueOut_loop_eq [of 0 "vout tx" v] by (simp add: GetValueOut_def int_ranges)

theorem GetValueOut_exact_witness: "GetValueOut example_tx = Inr 5000"
  using GetValueOut_exact [of example_tx 5000] by (simp add: example_tx_def mk_CTxOut_def int_ranges)

text \<open>A fee is the rate times the size, divided by a thousand and rounded down, or the rate itself
  when that is zero, as long as the rate is not negative and the product fits 64 bits.\<close>

theorem GetFee_exact:
  assumes "0 \<le> rate" "rate * int n < 2 ^ 64" "rate \<le> int64_max"
  shows "GetFee rate n = (if rate * int n < 1000 then rate else rate * int n div 1000)"
proof -
  have prod: "nat rate * n < 2 ^ 64"
    using assms by (metis nat_int nat_less_numeral_power_cancel_iff nat_mult_distrib)
  then have "nat rate * n mod 2 ^ 64 div 1000 < 2 ^ 63"
    by (simp add: less_mult_imp_div_less)
  then have "i64_of (nat rate * n mod 2 ^ 64 div 1000) = int (nat rate * n div 1000)"
    using prod by (simp add: i64_of_small)
  also have "\<dots> = rate * int n div 1000"
    using assms(1) by (simp add: zdiv_int)
  finally show ?thesis
    using assms by (auto simp: GetFee_def u64_of_nonneg Let_def div_pos_pos_trivial pos_imp_zdiv_nonneg_iff
        intro: antisym dest: pos_imp_zdiv_pos_iff [THEN iffD1])
qed

theorem GetFee_exact_witness: "GetFee 10000 250 = 2500"
  using GetFee_exact [of 10000 250] by (simp add: int_ranges)

text \<open>Sorting by the BIP69 comparators has one result: two sorted arrangements of the same inputs
  list the same outpoints in the same order, and two sorted arrangements of the same outputs list
  the same values and scripts in the same order.\<close>

theorem BIP69_sort_deterministic:
  assumes "sorted_wrt (\<lambda>a b. \<not> CompareInputBIP69 b a) ins" "sorted_wrt (\<lambda>a b. \<not> CompareInputBIP69 b a) ins'"
    and "mset ins = mset ins'"
    and "sorted_wrt (\<lambda>a b. \<not> CompareOutputBIP69 b a) outs" "sorted_wrt (\<lambda>a b. \<not> CompareOutputBIP69 b a) outs'"
    and "mset outs = mset outs'"
  shows "map prevout ins = map prevout ins' \<and>
    map (\<lambda>out. (nValue out, scriptPubKey out)) outs = map (\<lambda>out. (nValue out, scriptPubKey out)) outs'"
proof
  show "map prevout ins = map prevout ins'"
    using assms by (intro bip69_input.sorted_unique) simp_all
  show "map (\<lambda>out. (nValue out, scriptPubKey out)) outs = map (\<lambda>out. (nValue out, scriptPubKey out)) outs'"
    using assms by (intro bip69_output.sorted_unique) simp_all
qed

theorem BIP69_sort_deterministic_witness:
  "map prevout (vin example_tx) = map prevout (vin example_tx) \<and>
   map (\<lambda>out. (nValue out, scriptPubKey out)) [mk_CTxOut 0 [], mk_CTxOut 5000 [0x6a]] =
   map (\<lambda>out. (nValue out, scriptPubKey out)) [mk_CTxOut 0 [], mk_CTxOut 5000 [0x6a]]"
proof (rule BIP69_sort_deterministic)
  show "sorted_wrt (\<lambda>a b. \<not> CompareInputBIP69 b a) (vin example_tx)" by code_simp
  then show "sorted_wrt (\<lambda>a b. \<not> CompareInputBIP69 b a) (vin example_tx)" .
  show "sorted_wrt (\<lambda>a b. \<not> CompareOutputBIP69 b a) [mk_CTxOut 0 [], mk_CTxOut 5000 [0x6a]]" by code_simp
  then show "sorted_wrt (\<lambda>a b. \<not> CompareOutputBIP69 b a) [mk_CTxOut 0 [], mk_CTxOut 5000 [0x6a]]" .
qed simp_all

end
