(* ===== verification/PubKey.thy ===== *)
theory PubKey
  imports SigEncoding Transaction
begin

text \<open>
  Public keys as pubkey.h keeps them: an array of 65 bytes of which the first tells how many count.
\<close>

type_synonym CPubKey = bytes

definition GetLen :: "byte \<Rightarrow> nat" where
  "GetLen chHeader =
     (if chHeader = 2 \<or> chHeader = 3 then 33
      else if chHeader = 4 \<or> chHeader = 6 \<or> chHeader = 7 then 65
      else 0)"

definition Invalidate :: "CPubKey \<Rightarrow> CPubKey" where
  "Invalidate vch = vch[0 := 0xFF]"

text \<open>\<open>Set\<close> writes over what the array held; a new object starts from an arbitrary array.\<close>

definition CPubKey_Set :: "CPubKey \<Rightarrow> bytes \<Rightarrow> CPubKey" where
  "CPubKey_Set vch data =
     (let len = (if data = [] then 0 else GetLen (data ! 0)) in
      if len \<noteq> 0 \<and> len = length data then data @ drop len vch else Invalidate vch)"

definition CPubKey_of :: "bytes \<Rightarrow> CPubKey" where
  "CPubKey_of data = CPubKey_Set (replicate 65 0) data"

definition CPubKey_size :: "CPubKey \<Rightarrow> nat" where
  "CPubKey_size vch = GetLen (vch ! 0)"

text \<open>The range from \<open>begin()\<close> to \<open>end()\<close>.\<close>

definition CPubKey_bytes :: "CPubKey \<Rightarrow> bytes" where
  "CPubKey_bytes vch = take (CPubKey_size vch) vch"

definition CPubKey_eq :: "CPubKey \<Rightarrow> CPubKey \<Rightarrow> bool" where
  "CPubKey_eq a b \<longleftrightarrow> a ! 0 = b ! 0 \<and> take (CPubKey_size a) a = take (CPubKey_size a) b"

definition CPubKey_less :: "CPubKey \<Rightarrow> CPubKey \<Rightarrow> bool" where
  "CPubKey_less a b \<longleftrightarrow>
     a ! 0 < b ! 0 \<or> (a ! 0 = b ! 0 \<and> memcmp_less (take (CPubKey_size a) a) (take (CPubKey_size a) b))"

definition CPubKey_Serialize :: "CPubKey \<Rightarrow> bytes" where
  "CPubKey_Serialize vch = WriteCompactSize (CPubKey_size vch) @ take (CPubKey_size vch) vch"

text \<open>An overlong key is skipped, byte by byte.\<close>

fun skip_bytes :: "'s reader \<Rightarrow> nat \<Rightarrow> 's \<Rightarrow> ser_exn + 's" where
  "skip_bytes rd 0 s = Inr s"
| "skip_bytes rd (Suc len) s = ebind (rd s 1) (\<lambda>(dummy, s). skip_bytes rd len s)"

definition CPubKey_Unserialize :: "'s reader \<Rightarrow> CPubKey \<Rightarrow> 's \<Rightarrow> ser_exn + CPubKey \<times> 's" where
  "CPubKey_Unserialize rd vch s =
     ebind (ReadCompactSize rd s) (\<lambda>(len, s).
       if len \<le> 65 then ebind (rd s len) (\<lambda>(b, s). Inr (b @ drop len vch, s))
       else ebind (skip_bytes rd len s) (\<lambda>s. Inr (Invalidate vch, s)))"

definition CPubKey_GetID :: "crypto \<Rightarrow> CPubKey \<Rightarrow> uint160" where
  "CPubKey_GetID C vch = CHash160 C (CPubKey_bytes vch)"

definition CPubKey_GetHash :: "crypto \<Rightarrow> CPubKey \<Rightarrow> uint256" where
  "CPubKey_GetHash C vch = CHash256 C (CPubKey_bytes vch)"

definition CPubKey_IsValid :: "CPubKey \<Rightarrow> bool" where
  "CPubKey_IsValid vch \<longleftrightarrow> CPubKey_size vch > 0"

definition CPubKey_IsCompressed :: "CPubKey \<Rightarrow> bool" where
  "CPubKey_IsCompressed vch \<longleftrightarrow> CPubKey_size vch = 33"

subsection \<open>Facts\<close>

lemma GetLen_cases: "GetLen b = 0 \<or> GetLen b = 33 \<or> GetLen b = 65"
  by (simp add: GetLen_def)

lemma GetLen_FF [simp]: "GetLen 0xFF = 0"
  by (simp add: GetLen_def)

definition pubkey_form :: "bytes \<Rightarrow> bool" where
  "pubkey_form data \<longleftrightarrow> data \<noteq> [] \<and> GetLen (data ! 0) = length data"

lemma pubkey_form_length: "pubkey_form data \<Longrightarrow> length data = 33 \<or> length data = 65"
  using GetLen_cases [of "data ! 0"] by (auto simp: pubkey_form_def)

lemma CPubKey_of_form: "pubkey_form data \<Longrightarrow> CPubKey_of data = data @ replicate (65 - length data) 0"
  by (simp add: CPubKey_of_def CPubKey_Set_def pubkey_form_def)

lemma CPubKey_bytes_of: "pubkey_form data \<Longrightarrow> CPubKey_bytes (CPubKey_of data) = data"
  by (simp add: CPubKey_of_form CPubKey_bytes_def CPubKey_size_def)
    (simp add: pubkey_form_def nth_append)

lemma CPubKey_IsValid_of: "CPubKey_IsValid (CPubKey_of data) \<longleftrightarrow> pubkey_form data"
proof (cases "pubkey_form data")
  case True
  then show ?thesis
    using pubkey_form_length [OF True]
    by (simp add: CPubKey_IsValid_def CPubKey_size_def CPubKey_of_form)
      (auto simp: pubkey_form_def nth_append)
next
  case False
  then have "CPubKey_of data = Invalidate (replicate 65 0)"
    by (auto simp: CPubKey_of_def CPubKey_Set_def pubkey_form_def)
  then show ?thesis
    using False by (simp add: CPubKey_IsValid_def CPubKey_size_def Invalidate_def)
qed

context byte_stream
begin

text \<open>A valid key is read back, whatever the array held before.\<close>

lemma parses_CPubKey:
  assumes "inv s" "unread s = CPubKey_Serialize (CPubKey_of data) @ rest" "pubkey_form data"
  shows "\<exists>s'. CPubKey_Unserialize rd vch s = Inr (data @ drop (length data) vch, s') \<and>
    unread s' = rest \<and> inv s'"
proof -
  have ser: "CPubKey_Serialize (CPubKey_of data) = WriteCompactSize (length data) @ data"
    using CPubKey_bytes_of [OF assms(3)] assms(3)
    by (auto simp: CPubKey_Serialize_def CPubKey_bytes_def CPubKey_of_form CPubKey_size_def pubkey_form_def
        nth_append)
  have len: "length data \<le> 65" using pubkey_form_length [OF assms(3)] by auto
  obtain s1 where s1: "ReadCompactSize rd s = Inr (length data, s1)" "unread s1 = data @ rest" "inv s1"
    using parses_ReadCompactSize [of s "length data" "data @ rest"] assms(1,2) len
    by (auto simp: ser elim: parsesE)
  obtain s2 where "rd s1 (length data) = Inr (data, s2)" "unread s2 = rest" "inv s2"
    using parses_read [OF s1(3,2), of "length data"] len by (auto elim: parsesE)
  with s1 len show ?thesis by (simp add: CPubKey_Unserialize_def)
qed

end

subsection \<open>Properties\<close>

text \<open>A public key made from bytes is valid exactly when the header byte announces the length of
  the bytes (33 or 65), and then it is read back from a stream, whatever the target held before, and
  compares equal to the key that was written.\<close>

theorem CPubKey_roundtrip:
  assumes "CDataStream_inv s" "CDataStream_unread s = CPubKey_Serialize (CPubKey_of data) @ rest"
    and "CPubKey_IsValid (CPubKey_of data)" "length vch = 65"
  shows "CPubKey_bytes (CPubKey_of data) = data \<and>
    (\<exists>key s'. CPubKey_Unserialize CDataStream_read vch s = Inr (key, s') \<and> CDataStream_unread s' = rest \<and>
      CPubKey_bytes key = data \<and> CPubKey_eq key (CPubKey_of data))"
proof -
  have form: "pubkey_form data" using assms(3) by (simp add: CPubKey_IsValid_of)
  let ?key = "data @ drop (length data) vch"
  have "CPubKey_bytes ?key = data"
    using form assms(4) pubkey_form_length [OF form]
    by (auto simp: CPubKey_bytes_def CPubKey_size_def pubkey_form_def nth_append)
  moreover have "?key ! 0 = CPubKey_of data ! 0"
    using form by (auto simp: CPubKey_of_form pubkey_form_def nth_append)
  ultimately show ?thesis
    using data_stream.parses_CPubKey [OF assms(1,2) form, of vch] CPubKey_bytes_of [OF form]
    by (auto simp: CPubKey_eq_def CPubKey_bytes_def CPubKey_size_def)
qed

theorem CPubKey_roundtrip_witness:
  "CPubKey_bytes (CPubKey_of (2 # replicate 32 7)) = 2 # replicate 32 7"
proof -
  let ?s = "\<lparr>ds_vch = CPubKey_Serialize (CPubKey_of (2 # replicate 32 7)) @ [5], nReadPos = 0\<rparr>"
  have "length (CPubKey_Serialize (CPubKey_of (2 # replicate 32 7))) = 34" by code_simp
  then have "CDataStream_inv ?s" by (simp add: CDataStream_inv_def)
  moreover have "CDataStream_unread ?s = CPubKey_Serialize (CPubKey_of (2 # replicate 32 7)) @ [5]"
    by (simp add: CDataStream_unread_def)
  moreover have "CPubKey_IsValid (CPubKey_of (2 # replicate 32 7))" by code_simp
  ultimately show ?thesis
    using CPubKey_roundtrip [of ?s "2 # replicate 32 7" "[5]" "replicate 65 0"] by simp
qed

end
