(* ===== verification/SigHash.thy ===== *)
theory SigHash
  imports EvalSafety PubKey
begin

text \<open>
  What a signature signs: \<open>CTransactionSignatureSerializer\<close> and \<open>SignatureHash\<close> of
  script/interpreter.cpp, and the checker that verifies signatures and lock times against a
  transaction. The main lemma relates the serializer, which writes the modified transaction without
  building it, to the original algorithm, which the tests keep as \<open>SignatureHashOld\<close>.
\<close>

subsection \<open>The serializer\<close>

text \<open>
  \<open>nHashType\<close> is a C++ \<open>int\<close>. The flags of the serializer are read off it.
\<close>

definition fAnyoneCanPay :: "int \<Rightarrow> bool" where
  "fAnyoneCanPay nHashType \<longleftrightarrow> nHashType AND 0x80 \<noteq> 0"

definition fHashSingle :: "int \<Rightarrow> bool" where
  "fHashSingle nHashType \<longleftrightarrow> nHashType AND 0x1f = int SIGHASH_SINGLE"

definition fHashNone :: "int \<Rightarrow> bool" where
  "fHashNone nHashType \<longleftrightarrow> nHashType AND 0x1f = int SIGHASH_NONE"

text \<open>The first loop counts the code separators, the second one writes what is between them.\<close>

function count_separators :: "iterator \<Rightarrow> nat \<Rightarrow> nat" where
  "count_separators it nCodeSeparators =
     (case GetOp2 it of (ok, opcode, v, it') \<Rightarrow>
        if ok then count_separators it' (if opcode = OP_CODESEPARATOR then nCodeSeparators + 1 else nCodeSeparators)
        else nCodeSeparators)"
  by pat_completeness auto
termination
  by (relation "measure (\<lambda>(it, n). length it)") (auto dest!: GetOp2_ok_progress [OF sym])

function write_segments :: "iterator \<Rightarrow> iterator \<Rightarrow> bytes \<Rightarrow> bytes" where
  "write_segments itBegin it s =
     (case GetOp2 it of (ok, opcode, v, it') \<Rightarrow>
        if ok then
          (if opcode = OP_CODESEPARATOR
           then write_segments it' it' (s @ take (length itBegin - length it' - 1) itBegin)
           else write_segments itBegin it' s)
        else if itBegin \<noteq> [] then s @ take (length itBegin - length it') itBegin
        else s)"
  by pat_completeness auto
termination
  by (relation "measure (\<lambda>(itBegin, it, s). length it)") (auto dest!: GetOp2_ok_progress [OF sym])

declare count_separators.simps [simp del] write_segments.simps [simp del]

definition SerializeScriptCode :: "CScript \<Rightarrow> bytes" where
  "SerializeScriptCode scriptCode =
     write_segments scriptCode scriptCode
       (WriteCompactSize (length scriptCode - count_separators scriptCode 0))"

definition SerializeInput :: "CTransaction \<Rightarrow> CScript \<Rightarrow> nat \<Rightarrow> int \<Rightarrow> nat \<Rightarrow> bytes" where
  "SerializeInput txTo scriptCode nIn nHashType nInput =
     (let nInput = (if fAnyoneCanPay nHashType then nIn else nInput) in
      Serialize_COutPoint (prevout (vin txTo ! nInput)) @
      (if nInput \<noteq> nIn then Serialize_bytes [] else SerializeScriptCode scriptCode) @
      (if nInput \<noteq> nIn \<and> (fHashSingle nHashType \<or> fHashNone nHashType) then ser_writedata32 0
       else ser_writedata32 (unat (nSequence (vin txTo ! nInput)))))"

definition SerializeOutput :: "CTransaction \<Rightarrow> nat \<Rightarrow> int \<Rightarrow> nat \<Rightarrow> bytes" where
  "SerializeOutput txTo nIn nHashType nOutput =
     (if fHashSingle nHashType \<and> nOutput \<noteq> nIn then Serialize_CTxOut CTxOut_SetNull
      else Serialize_CTxOut (vout txTo ! nOutput))"

definition Serialize_txTmp :: "CTransaction \<Rightarrow> CScript \<Rightarrow> nat \<Rightarrow> int \<Rightarrow> bytes" where
  "Serialize_txTmp txTo scriptCode nIn nHashType =
     (let nInputs = (if fAnyoneCanPay nHashType then 1 else length (vin txTo));
          nOutputs = (if fHashNone nHashType then 0
                      else if fHashSingle nHashType then nIn + 1 else length (vout txTo)) in
      ser_writedata32 (unsigned_of 32 (nVersion txTo)) @
      WriteCompactSize nInputs @
      concat (map (SerializeInput txTo scriptCode nIn nHashType) [0..<nInputs]) @
      WriteCompactSize nOutputs @
      concat (map (SerializeOutput txTo nIn nHashType) [0..<nOutputs]) @
      ser_writedata32 (unat (nLockTime txTo)))"

definition uint256_one :: uint256 where
  "uint256_one = 1 # replicate 31 0"

definition SignatureHash :: "crypto \<Rightarrow> CScript \<Rightarrow> CTransaction \<Rightarrow> nat \<Rightarrow> int \<Rightarrow> uint256" where
  "SignatureHash C scriptCode txTo nIn nHashType =
     (if nIn \<ge> length (vin txTo) then uint256_one
      else if fHashSingle nHashType \<and> nIn \<ge> length (vout txTo) then uint256_one
      else CHash256 C (Serialize_txTmp txTo scriptCode nIn nHashType @
             ser_writedata32 (unsigned_of 32 nHashType)))"

subsection \<open>The checker of a transaction\<close>

definition TransactionSignatureChecker_CheckSig ::
  "crypto \<Rightarrow> CTransaction \<Rightarrow> nat \<Rightarrow> bytes \<Rightarrow> bytes \<Rightarrow> CScript \<Rightarrow> bool" where
  "TransactionSignatureChecker_CheckSig C txTo nIn vchSigIn vchPubKey scriptCode =
     (let pubkey = CPubKey_of vchPubKey in
      if \<not> CPubKey_IsValid pubkey then False
      else if vchSigIn = [] then False
      else let nHashType = uint (last vchSigIn);
               vchSig = butlast vchSigIn;
               sighash = SignatureHash C scriptCode txTo nIn nHashType in
        PubKey_Verify C (CPubKey_bytes pubkey) sighash vchSig)"

definition TransactionSignatureChecker_CheckLockTime ::
  "CTransaction \<Rightarrow> nat \<Rightarrow> int \<Rightarrow> cxx_exit + bool" where
  "TransactionSignatureChecker_CheckLockTime txTo nIn nLockTime' =
     (if \<not> ((uint (nLockTime txTo) < LOCKTIME_THRESHOLD \<and> nLockTime' < LOCKTIME_THRESHOLD) \<or>
            (uint (nLockTime txTo) \<ge> LOCKTIME_THRESHOLD \<and> nLockTime' \<ge> LOCKTIME_THRESHOLD))
      then Inr False
      else if nLockTime' > uint (nLockTime txTo) then Inr False
      else case vget (vin txTo) nIn of
          None \<Rightarrow> Inl Undefined
        | Some i \<Rightarrow> if SEQUENCE_FINAL = uint (nSequence i) then Inr False else Inr True)"

definition TransactionSignatureChecker_CheckSequence ::
  "CTransaction \<Rightarrow> nat \<Rightarrow> int \<Rightarrow> cxx_exit + bool" where
  "TransactionSignatureChecker_CheckSequence txTo nIn nSequence' =
     (case vget (vin txTo) nIn of
        None \<Rightarrow> Inl Undefined
      | Some i \<Rightarrow>
          let txToSequence = uint (nSequence i) in
          if unsigned_of 32 (nVersion txTo) < 2 then Inr False
          else if txToSequence AND SEQUENCE_LOCKTIME_DISABLE_FLAG \<noteq> 0 then Inr False
          else let nLockTimeMask = SEQUENCE_LOCKTIME_TYPE_FLAG OR SEQUENCE_LOCKTIME_MASK;
                   txToSequenceMasked = txToSequence AND nLockTimeMask;
                   nSequenceMasked = nSequence' AND nLockTimeMask in
            if \<not> ((txToSequenceMasked < SEQUENCE_LOCKTIME_TYPE_FLAG \<and>
                    nSequenceMasked < SEQUENCE_LOCKTIME_TYPE_FLAG) \<or>
                   (txToSequenceMasked \<ge> SEQUENCE_LOCKTIME_TYPE_FLAG \<and>
                    nSequenceMasked \<ge> SEQUENCE_LOCKTIME_TYPE_FLAG))
            then Inr False
            else if nSequenceMasked > txToSequenceMasked then Inr False
            else Inr True)"

definition TransactionSignatureChecker :: "crypto \<Rightarrow> CTransaction \<times> nat \<Rightarrow> checker" where
  "TransactionSignatureChecker C = (\<lambda>(txTo, nIn).
     \<lparr>CheckSig = TransactionSignatureChecker_CheckSig C txTo nIn,
      CheckLockTime = TransactionSignatureChecker_CheckLockTime txTo nIn,
      CheckSequence = TransactionSignatureChecker_CheckSequence txTo nIn\<rparr>)"

text \<open>Both checkers provide what the evaluator relies on.\<close>

interpretation base_checker: sig_checker "\<lambda>_ :: unit. BaseSignatureChecker" "\<lambda>_. True"
  by unfold_locales (auto simp: BaseSignatureChecker_def)

interpretation tx_checker: sig_checker "TransactionSignatureChecker C" "\<lambda>(tx, nIn). nIn < length (vin tx)"
  by unfold_locales
    (auto simp: TransactionSignatureChecker_def TransactionSignatureChecker_CheckLockTime_def
      TransactionSignatureChecker_CheckSequence_def TransactionSignatureChecker_CheckSig_def Let_def split: if_splits)

subsection \<open>The original algorithm\<close>

text \<open>
  \<open>SignatureHashOld\<close> of test/sighash_tests.cpp: it copies the transaction, changes the copy and
  serializes it.
\<close>

definition SignatureHashOld_tx :: "CScript \<Rightarrow> CTransaction \<Rightarrow> nat \<Rightarrow> int \<Rightarrow> CTransaction" where
  "SignatureHashOld_tx scriptCode txTo nIn nHashType =
     (let scriptCode = snd (FindAndDelete scriptCode [word_of_nat OP_CODESEPARATOR]);
          ins = map (\<lambda>i. i\<lparr>scriptSig := []\<rparr>) (vin txTo);
          ins = ins[nIn := (ins ! nIn)\<lparr>scriptSig := scriptCode\<rparr>];
          zero = map (\<lambda>(k, i). if k \<noteq> nIn then i\<lparr>nSequence := 0\<rparr> else i) (enumerate 0 ins);
          tx = (if fHashNone nHashType then txTo\<lparr>vout := [], vin := zero\<rparr>
                else if fHashSingle nHashType then
                  txTo\<lparr>vout := replicate nIn CTxOut_SetNull @ [vout txTo ! nIn], vin := zero\<rparr>
                else txTo\<lparr>vin := ins\<rparr>) in
      if fAnyoneCanPay nHashType then tx\<lparr>vin := [vin tx ! nIn]\<rparr> else tx)"

definition SignatureHashOld :: "crypto \<Rightarrow> CScript \<Rightarrow> CTransaction \<Rightarrow> nat \<Rightarrow> int \<Rightarrow> uint256" where
  "SignatureHashOld C scriptCode txTo nIn nHashType =
     (if nIn \<ge> length (vin txTo) then uint256_one
      else if fHashSingle nHashType \<and> nIn \<ge> length (vout txTo) then uint256_one
      else CHash256 C (Serialize_CTransaction (SignatureHashOld_tx scriptCode txTo nIn nHashType) @
             ser_writedata32 (unsigned_of 32 nHashType)))"

subsection \<open>The script code\<close>

text \<open>
  \<open>strip_separators\<close> leaves the code separators out, up to where the script stops parsing;
  \<open>parses_fully\<close> says that it does not stop.
\<close>

function strip_separators :: "iterator \<Rightarrow> bytes" where
  "strip_separators pc =
     (case GetOp2 pc of (ok, opcode, v, pc') \<Rightarrow>
        if \<not> ok then pc
        else (if opcode = OP_CODESEPARATOR then [] else take (length pc - length pc') pc) @ strip_separators pc')"
  by pat_completeness auto
termination
  by (relation "measure length") (auto dest!: GetOp2_ok_progress [OF sym])

function parses_fully :: "iterator \<Rightarrow> bool" where
  "parses_fully pc =
     (case GetOp2 pc of (ok, opcode, v, pc') \<Rightarrow> if ok then parses_fully pc' else pc = [])"
  by pat_completeness auto
termination
  by (relation "measure length") (auto dest!: GetOp2_ok_progress [OF sym])

declare strip_separators.simps [simp del] parses_fully.simps [simp del]

lemma strip_separators_Nil [simp]: "strip_separators [] = []"
  by (simp add: strip_separators.simps)

lemma strip_separators_fail: "\<not> fst (GetOp2 pc) \<Longrightarrow> strip_separators pc = pc"
  by (subst strip_separators.simps) (auto split: prod.splits)

lemma strip_separators_step:
  assumes "GetOp2 pc = (True, opcode, v, pc')"
  shows "strip_separators pc =
    (if opcode = OP_CODESEPARATOR then [] else take (length pc - length pc') pc) @ strip_separators pc'"
  using assms by (subst strip_separators.simps) simp

lemma GetOp2_separator: "GetOp2 (0xAB # pc) = (True, OP_CODESEPARATOR, [], pc)"
  by (simp add: GetOp2_opcode)

lemma strip_separators_separator [simp]: "strip_separators (0xAB # pc) = strip_separators pc"
  using strip_separators_step [OF GetOp2_separator, of pc] by simp

lemma GetOp2_is_separator:
  assumes "GetOp2 pc = (True, OP_CODESEPARATOR, v, pc')"
  shows "pc = 0xAB # pc'"
proof (cases pc)
  case Nil
  with assms show ?thesis by simp
next
  case (Cons b pc1)
  have "unat b = OP_CODESEPARATOR \<and> pc1 = pc'"
    using assms Cons by (auto simp: GetOp2_def Let_def split: if_splits option.splits prod.splits)
  then show ?thesis by (simp add: Cons word_unat_eq_iff)
qed

lemma suffix_split: "suffix pc' pc \<Longrightarrow> pc = take (length pc - length pc') pc @ pc'"
  by (auto simp: suffix_def)

text \<open>\<open>FindAndDelete\<close> of a code separator strips the script.\<close>

lemma skip_matches_separator:
  "skip_matches [0xAB] pc n = (pc1, n1) \<Longrightarrow>
   strip_separators pc = strip_separators pc1 \<and> (\<nexists>r. pc1 = 0xAB # r)"
proof (induction "length pc" arbitrary: pc n rule: less_induct)
  case less
  show ?case
  proof (cases "\<exists>r. pc = 0xAB # r")
    case True
    then obtain r where pc: "pc = 0xAB # r" by blast
    with less.prems have "skip_matches [0xAB] r (n + 1) = (pc1, n1)"
      by (subst (asm) skip_matches.simps) simp
    with less.hyps [of r "n + 1"] show ?thesis by (simp add: pc)
  next
    case False
    then have "\<not> (length pc \<ge> 1 \<and> take 1 pc = [0xAB])" by (cases pc) auto
    with less.prems have "pc1 = pc"
      by (subst (asm) skip_matches.simps) (auto split: if_splits)
    with False show ?thesis by simp
  qed
qed

lemma find_delete_loop_separator:
  assumes "find_delete_loop [0xAB] pc2 pc result n = (pc2', result', n')" "suffix pc pc2"
  shows "result' @ pc2' = result @ take (length pc2 - length pc) pc2 @ strip_separators pc"
  using assms
proof (induction "length pc" arbitrary: pc2 pc result n rule: less_induct)
  case less
  obtain pc1 n1 where skip: "skip_matches [0xAB] pc n = (pc1, n1)" by fastforce
  note stripped = skip_matches_separator [OF skip]
  obtain ok opcode v pc' where op: "GetOp2 pc1 = (ok, opcode, v, pc')"
    by (cases "GetOp2 pc1") auto
  let ?copied = "take (length pc2 - length pc) pc2"
  show ?case
  proof (cases ok)
    case False
    with less.prems(1) skip op have "pc2' = pc1" "result' = result @ ?copied"
      by (auto simp: find_delete_loop.simps [of _ pc2 pc] Let_def)
    with False stripped op show ?thesis by (simp add: strip_separators_fail)
  next
    case True
    then have op': "GetOp2 pc1 = (True, opcode, v, pc')" using op by simp
    have loop: "find_delete_loop [0xAB] pc1 pc' (result @ ?copied) n1 = (pc2', result', n')"
      using less.prems(1) skip op' by (simp add: find_delete_loop.simps [of _ pc2 pc] Let_def)
    have "length pc' < length pc"
      using GetOp2_ok_progress [OF op'] skip_matches_length [OF skip] by simp
    then have "result' @ pc2' = (result @ ?copied) @ take (length pc1 - length pc') pc1 @ strip_separators pc'"
      using less.hyps [OF _ loop GetOp2_suffix [OF op']] by blast
    moreover have "opcode \<noteq> OP_CODESEPARATOR"
      using stripped GetOp2_is_separator op' by blast
    ultimately show ?thesis
      using stripped strip_separators_step [OF op'] by simp
  qed
qed

lemma FindAndDelete_separator: "snd (FindAndDelete script [0xAB]) = strip_separators script"
proof -
  obtain pc2 result n where loop: "find_delete_loop [0xAB] script script [] 0 = (pc2, result, n)"
    by (cases "find_delete_loop [0xAB] script script [] 0") auto
  have joined: "result @ pc2 = strip_separators script"
    using find_delete_loop_separator [OF loop] by simp
  show ?thesis
  proof (cases "n > 0")
    case True
    with loop joined show ?thesis by (simp add: FindAndDelete_def)
  next
    case False
    obtain t where "result @ pc2 = t" "deletion [0xAB] 0 script t"
      using find_delete_loop_deletion [OF loop] False by auto
    then have "subseq (strip_separators script) script" "length script = length (strip_separators script)"
      using deletion_subseq deletion_length joined by fastforce+
    then have "strip_separators script = script" by (metis subseq_same_length)
    with loop False show ?thesis by (simp add: FindAndDelete_def)
  qed
qed

text \<open>The two loops of the serializer.\<close>

lemma count_separators_add: "count_separators it (n + k) = count_separators it n + k"
proof (induction "length it" arbitrary: it n rule: less_induct)
  case less
  obtain ok opcode v it' where op: "GetOp2 it = (ok, opcode, v, it')" by (cases "GetOp2 it") auto
  have "ok \<Longrightarrow> length it' < length it" using op by (auto dest: GetOp2_ok_progress)
  then show ?case
    using op less.hyps [of it' n] less.hyps [of it' "n + 1"] by (simp add: count_separators.simps [of it])
qed

lemma length_strip_separators:
  "length (strip_separators it) + count_separators it 0 = length it"
proof (induction "length it" arbitrary: it rule: less_induct)
  case less
  obtain ok opcode v it' where op: "GetOp2 it = (ok, opcode, v, it')" by (cases "GetOp2 it") auto
  show ?case
  proof (cases ok)
    case False
    with op show ?thesis by (simp add: count_separators.simps [of it] strip_separators_fail)
  next
    case True
    then have op': "GetOp2 it = (True, opcode, v, it')" using op by simp
    have "length it' < length it" using GetOp2_ok_progress [OF op'] .
    moreover have "opcode = OP_CODESEPARATOR \<Longrightarrow> length it = Suc (length it')"
      using GetOp2_is_separator op' by fastforce
    ultimately show ?thesis
      using op' less.hyps [of it'] count_separators_add [of it' 0 1]
      by (auto simp: count_separators.simps [of it] strip_separators_step)
  qed
qed

lemma write_segments_strip:
  "parses_fully it \<Longrightarrow> write_segments (d @ it) it s = s @ d @ strip_separators it"
proof (induction "length it" arbitrary: d it s rule: less_induct)
  case less
  obtain ok opcode v it' where op: "GetOp2 it = (ok, opcode, v, it')" by (cases "GetOp2 it") auto
  show ?case
  proof (cases ok)
    case False
    with less.prems op have "it = []" by (simp add: parses_fully.simps [of it])
    then show ?thesis by (simp add: write_segments.simps [of _ "[]"])
  next
    case True
    then have op': "GetOp2 it = (True, opcode, v, it')" using op by simp
    have shorter: "length it' < length it" using GetOp2_ok_progress [OF op'] .
    have full: "parses_fully it'" using less.prems op' by (simp add: parses_fully.simps [of it])
    show ?thesis
    proof (cases "opcode = OP_CODESEPARATOR")
      case True
      then have it: "it = 0xAB # it'" using GetOp2_is_separator op' by blast
      have "write_segments it' it' (s @ d) = (s @ d) @ strip_separators it'"
        using less.hyps [OF shorter full, of "[]" "s @ d"] by simp
      then show ?thesis
        unfolding it by (subst write_segments.simps) (simp add: GetOp2_separator)
    next
      case False
      obtain o' where it: "it = o' @ it'" using GetOp2_suffix [OF op'] by (auto simp: suffix_def)
      have "write_segments ((d @ o') @ it') it' s = s @ (d @ o') @ strip_separators it'"
        by (rule less.hyps [OF shorter full])
      moreover have "write_segments (d @ it) it s = write_segments (d @ it) it' s"
        using op' False by (subst write_segments.simps) simp
      ultimately show ?thesis
        using op' False it by (simp add: strip_separators_step)
    qed
  qed
qed

lemma SerializeScriptCode_strip:
  assumes "parses_fully scriptCode"
  shows "SerializeScriptCode scriptCode = Serialize_bytes (strip_separators scriptCode)"
proof -
  have "length scriptCode - count_separators scriptCode 0 = length (strip_separators scriptCode)"
    using length_strip_separators [of scriptCode] by simp
  then show ?thesis
    using write_segments_strip [OF assms, of "[]"]
    by (simp add: SerializeScriptCode_def Serialize_bytes_def)
qed

subsection \<open>The serializer writes the modified transaction\<close>

lemma fHashSingle_not_None: "fHashSingle h \<Longrightarrow> \<not> fHashNone h"
  by (simp add: fHashSingle_def fHashNone_def)

lemma Serialize_vector_nth:
  "Serialize_vector ser xs = WriteCompactSize (length xs) @ concat (map (\<lambda>k. ser (xs ! k)) [0..<length xs])"
proof -
  have "map (\<lambda>k. ser (xs ! k)) [0..<length xs] = map ser (map ((!) xs) [0..<length xs])"
    by simp
  also have "\<dots> = map ser xs" by (simp only: map_nth)
  finally show ?thesis by (simp add: Serialize_vector_def)
qed

text \<open>The inputs of the changed copy, before \<open>ANYONECANPAY\<close> takes one of them.\<close>

definition sighash_inputs :: "CScript \<Rightarrow> CTransaction \<Rightarrow> nat \<Rightarrow> int \<Rightarrow> CTxIn list" where
  "sighash_inputs scriptCode txTo nIn h =
     map (\<lambda>k. (vin txTo ! k)\<lparr>scriptSig := (if k = nIn then scriptCode else []),
            nSequence := (if k \<noteq> nIn \<and> (fHashSingle h \<or> fHashNone h) then 0 else nSequence (vin txTo ! k))\<rparr>)
       [0..<length (vin txTo)]"

lemma vin_SignatureHashOld_tx:
  assumes "nIn < length (vin txTo)"
  shows "vin (SignatureHashOld_tx scriptCode txTo nIn h) =
    (let ins = sighash_inputs (strip_separators scriptCode) txTo nIn h in
     if fAnyoneCanPay h then [ins ! nIn] else ins)"
proof -
  let ?code = "strip_separators scriptCode"
  let ?ins = "(map (\<lambda>i. i\<lparr>scriptSig := []\<rparr>) (vin txTo))[nIn := (map (\<lambda>i. i\<lparr>scriptSig := []\<rparr>) (vin txTo) ! nIn)\<lparr>scriptSig := ?code\<rparr>]"
  let ?zero = "map (\<lambda>(k, i). if k \<noteq> nIn then i\<lparr>nSequence := 0\<rparr> else i) (enumerate 0 ?ins)"
  have zero: "?zero = sighash_inputs ?code txTo nIn h" if "fHashSingle h \<or> fHashNone h"
    using assms that
    by (intro nth_equalityI) (auto simp: sighash_inputs_def nth_enumerate_eq nth_list_update)
  have ins: "?ins = sighash_inputs ?code txTo nIn h" if "\<not> (fHashSingle h \<or> fHashNone h)"
    using assms that by (intro nth_equalityI) (auto simp: sighash_inputs_def nth_list_update)
  show ?thesis
    using zero ins fHashSingle_not_None [of h]
    by (auto simp: SignatureHashOld_tx_def Let_def FindAndDelete_separator)
qed

lemma Serialize_sighash_input:
  assumes "nIn < length (vin txTo)" "k < length (vin txTo)" "parses_fully scriptCode"
  shows "Serialize_CTxIn (sighash_inputs (strip_separators scriptCode) txTo nIn h ! k) =
    Serialize_COutPoint (prevout (vin txTo ! k)) @
    (if k \<noteq> nIn then Serialize_bytes [] else SerializeScriptCode scriptCode) @
    (if k \<noteq> nIn \<and> (fHashSingle h \<or> fHashNone h) then ser_writedata32 0
     else ser_writedata32 (unat (nSequence (vin txTo ! k))))"
  using assms by (simp add: sighash_inputs_def Serialize_CTxIn_def SerializeScriptCode_strip)

lemma length_sighash_inputs [simp]: "length (sighash_inputs c txTo nIn h) = length (vin txTo)"
  by (simp add: sighash_inputs_def)

lemma inputs_SignatureHashOld_tx:
  assumes "nIn < length (vin txTo)" "parses_fully scriptCode"
  shows "Serialize_vector Serialize_CTxIn (vin (SignatureHashOld_tx scriptCode txTo nIn h)) =
    WriteCompactSize (if fAnyoneCanPay h then 1 else length (vin txTo)) @
    concat (map (SerializeInput txTo scriptCode nIn h)
      [0..<(if fAnyoneCanPay h then 1 else length (vin txTo))])"
proof (cases "fAnyoneCanPay h")
  case True
  then show ?thesis
    using assms by (simp add: vin_SignatureHashOld_tx Serialize_vector_def SerializeInput_def
        Serialize_sighash_input)
next
  case False
  then have inputs: "map (\<lambda>k. Serialize_CTxIn (sighash_inputs (strip_separators scriptCode) txTo nIn h ! k))
      [0..<length (vin txTo)] = map (SerializeInput txTo scriptCode nIn h) [0..<length (vin txTo)]"
    using assms by (intro map_cong) (auto simp: Serialize_sighash_input SerializeInput_def)
  from False show ?thesis
    using assms(1) unfolding vin_SignatureHashOld_tx [OF assms(1)] Let_def Serialize_vector_nth
    by (simp only: if_False length_sighash_inputs inputs)
qed

lemma outputs_SignatureHashOld_tx:
  assumes "fHashSingle h \<Longrightarrow> nIn < length (vout txTo)"
  shows "Serialize_vector Serialize_CTxOut (vout (SignatureHashOld_tx scriptCode txTo nIn h)) =
    (let n = (if fHashNone h then 0 else if fHashSingle h then nIn + 1 else length (vout txTo)) in
     WriteCompactSize n @ concat (map (SerializeOutput txTo nIn h) [0..<n]))"
proof -
  consider (none) "fHashNone h" | (single) "fHashSingle h" "\<not> fHashNone h"
    | (all) "\<not> fHashSingle h" "\<not> fHashNone h" by blast
  then show ?thesis
  proof cases
    case none
    then show ?thesis by (simp add: SignatureHashOld_tx_def Let_def Serialize_vector_def)
  next
    case single
    then have "vout (SignatureHashOld_tx scriptCode txTo nIn h) =
        replicate nIn CTxOut_SetNull @ [vout txTo ! nIn]"
      by (simp add: SignatureHashOld_tx_def Let_def)
    moreover have "map (SerializeOutput txTo nIn h) [0..<nIn] =
        map Serialize_CTxOut (replicate nIn CTxOut_SetNull)"
      using single by (intro nth_equalityI) (auto simp: SerializeOutput_def)
    ultimately show ?thesis
      using single by (simp add: Serialize_vector_def Let_def SerializeOutput_def)
  next
    case all
    then have "SerializeOutput txTo nIn h = (\<lambda>k. Serialize_CTxOut (vout txTo ! k))"
      by (intro ext) (simp add: SerializeOutput_def)
    with all show ?thesis
      by (simp add: SignatureHashOld_tx_def Let_def Serialize_vector_nth)
  qed
qed

lemma SignatureHashOld_tx_other [simp]:
  "nVersion (SignatureHashOld_tx scriptCode txTo nIn h) = nVersion txTo"
  "nLockTime (SignatureHashOld_tx scriptCode txTo nIn h) = nLockTime txTo"
  by (simp_all add: SignatureHashOld_tx_def Let_def)

lemma Serialize_txTmp_eq:
  assumes "nIn < length (vin txTo)" "parses_fully scriptCode"
    and "fHashSingle h \<Longrightarrow> nIn < length (vout txTo)"
  shows "Serialize_txTmp txTo scriptCode nIn h =
    Serialize_CTransaction (SignatureHashOld_tx scriptCode txTo nIn h)"
proof -
  have outputs: "Serialize_vector Serialize_CTxOut (vout (SignatureHashOld_tx scriptCode txTo nIn h)) =
    (let n = (if fHashNone h then 0 else if fHashSingle h then nIn + 1 else length (vout txTo)) in
     WriteCompactSize n @ concat (map (SerializeOutput txTo nIn h) [0..<n]))"
    using assms(3) by (rule outputs_SignatureHashOld_tx)
  show ?thesis
    unfolding Serialize_CTransaction_def inputs_SignatureHashOld_tx [OF assms(1,2)] outputs
    by (simp only: Serialize_txTmp_def Let_def SignatureHashOld_tx_other append_assoc)
qed

subsection \<open>Properties\<close>

text \<open>C4: For every transaction, input and hash type, and every script code that parses to its end,
  \<open>SignatureHash\<close>, which writes the modified transaction without building it, computes the hash of
  the original algorithm, which copies the transaction, edits the copy and serializes it.\<close>

theorem SignatureHash_eq_Old:
  assumes "parses_fully scriptCode"
  shows "SignatureHash C scriptCode txTo nIn nHashType = SignatureHashOld C scriptCode txTo nIn nHashType"
  using Serialize_txTmp_eq [OF _ assms] by (auto simp: SignatureHash_def SignatureHashOld_def not_le)

theorem SignatureHash_eq_Old_witness:
  "SignatureHash example_crypto [0x51, 0xab, 0xac] example_tx 1 3 =
   SignatureHashOld example_crypto [0x51, 0xab, 0xac] example_tx 1 3"
proof (rule SignatureHash_eq_Old)
  show "parses_fully [0x51, 0xab, 0xac]" by code_simp
qed

end
