(* ===== verification/Verify.thy ===== *)
theory Verify
  imports SigHash
begin

text \<open>
  What \<open>EvalScript\<close> and \<open>VerifyScript\<close> compute: the static conditions that every script that evaluates
  meets, pay-to-public-key-hash and pay-to-script-hash spends, and multi-signatures.
\<close>

subsection \<open>One step at a time\<close>

lemma eval_loop_Nil [simp]: "script_pc s = [] \<Longrightarrow> eval_loop C checker flags s = Inr s"
  by (subst eval_loop.simps) simp

lemma eval_loop_op:
  assumes "GetOp2 (script_pc s) = (True, opcode, v, pc)"
  shows "eval_loop C checker flags s =
    ebind (eval_instruction C checker flags opcode v (s\<lparr>script_pc := pc\<rparr>)) (eval_loop C checker flags)"
proof -
  have "script_pc s \<noteq> []" using assms by auto
  then show ?thesis
    using assms by (subst eval_loop.simps) (auto simp: eval_step_def ebind_def split: sum.splits)
qed

lemma eval_loop_fail:
  assumes "GetOp2 (script_pc s) = (False, opcode, v, pc)" "script_pc s \<noteq> []"
  shows "eval_loop C checker flags s = set_error SCRIPT_ERR_BAD_OPCODE"
  using assms by (subst eval_loop.simps) (simp add: eval_step_def)

subsection \<open>What evaluates is well formed\<close>

text \<open>The operations of a script, when it parses to the end.\<close>

function script_ops :: "iterator \<Rightarrow> (opcodetype \<times> bytes) list option" where
  "script_ops pc =
     (if pc = [] then Some []
      else case GetOp2 pc of (ok, opcode, v, pc') \<Rightarrow>
        if ok then map_option (Cons (opcode, v)) (script_ops pc') else None)"
  by pat_completeness auto
termination
  by (relation "measure length") (auto dest: GetOp2_progress [OF _ sym])

declare script_ops.simps [simp del]

text \<open>The depth of the open conditionals; \<open>None\<close> when one is missing.\<close>

fun cond_depth :: "nat \<Rightarrow> opcodetype list \<Rightarrow> nat option" where
  "cond_depth d [] = Some d"
| "cond_depth d (opcode # ops) =
     (if opcode = OP_IF \<or> opcode = OP_NOTIF then cond_depth (Suc d) ops
      else if opcode = OP_ELSE then (if d = 0 then None else cond_depth d ops)
      else if opcode = OP_ENDIF then (case d of 0 \<Rightarrow> None | Suc d' \<Rightarrow> cond_depth d' ops)
      else cond_depth d ops)"

definition allowed_op :: "opcodetype \<times> bytes \<Rightarrow> bool" where
  "allowed_op = (\<lambda>(opcode, v).
     \<not> disabled_opcode opcode \<and> opcode \<noteq> OP_VERIF \<and> opcode \<noteq> OP_VERNOTIF \<and>
     length v \<le> MAX_SCRIPT_ELEMENT_SIZE)"

definition counted_ops :: "(opcodetype \<times> bytes) list \<Rightarrow> int" where
  "counted_ops ops = int (length (filter (\<lambda>(opcode, v). opcode > OP_16) ops))"

text \<open>What the groups of operations leave alone.\<close>

lemma on_stack_frame: "on_stack f s = Inr s' \<Longrightarrow> vfExec s' = vfExec s \<and> nOpCount s' = nOpCount s"
  by (auto simp: on_stack_def ebind_eq_Inr)

lemma on_stack_altstack_frame:
  "on_stack_altstack f s = Inr s' \<Longrightarrow> vfExec s' = vfExec s \<and> nOpCount s' = nOpCount s"
  by (auto simp: on_stack_altstack_def ebind_eq_Inr)

lemma on_stack_nOpCount_frame:
  "on_stack_nOpCount f s = Inr s' \<Longrightarrow> vfExec s' = vfExec s \<and> f (nOpCount s) (stack s) = Inr (stack s', nOpCount s')"
  by (auto simp: on_stack_nOpCount_def ebind_eq_Inr)

lemma exec_IF_frame:
  "on_stack_vfExec (exec_IF opcode fExec) s = Inr s' \<Longrightarrow>
   length (vfExec s') = Suc (length (vfExec s)) \<and> nOpCount s' = nOpCount s"
  by (auto simp: on_stack_vfExec_def exec_IF_def Let_def ebind_eq_Inr split: if_splits)

lemma exec_ELSE_frame:
  "on_vfExec exec_ELSE s = Inr s' \<Longrightarrow>
   length (vfExec s') = length (vfExec s) \<and> 0 < length (vfExec s) \<and> nOpCount s' = nOpCount s"
  by (auto simp: on_vfExec_def exec_ELSE_def ebind_eq_Inr split: list.splits)

lemma exec_ENDIF_frame:
  "on_vfExec exec_ENDIF s = Inr s' \<Longrightarrow>
   length (vfExec s) = Suc (length (vfExec s')) \<and> nOpCount s' = nOpCount s"
  by (auto simp: on_vfExec_def exec_ENDIF_def ebind_eq_Inr split: list.splits)

lemma need_eq_Inr: "need n st k = Inr x \<longleftrightarrow> n \<le> length st \<and> k = Inr x"
  by (auto simp: need_def)

lemma exec_CHECKMULTISIG_count:
  assumes "exec_CHECKMULTISIG C checker flags opcode codehash n st = Inr (st', n')"
  shows "n \<le> n' \<and> n' \<le> MAX_OPS_PER_SCRIPT"
  using assms unfolding exec_CHECKMULTISIG_def Let_def need_eq_Inr ebind_eq_Inr
  by (auto simp: ebind_eq_Inr need_eq_Inr split: if_splits)

lemma exec_control_frame:
  assumes "exec_control checker flags fExec opcode s = Inr s'" "is_control opcode"
  shows "cond_depth (length (vfExec s)) [opcode] = Some (length (vfExec s')) \<and> nOpCount s' = nOpCount s"
  using assms unfolding exec_control_def
  by (auto split: if_splits nat.splits
      dest!: on_stack_frame exec_IF_frame exec_ELSE_frame exec_ENDIF_frame simp: is_control_def)

lemma exec_op_cases:
  assumes "exec_op C checker flags fExec opcode s = Inr s'"
  obtains (control) "is_control opcode" "exec_control checker flags fExec opcode s = Inr s'"
  | (plain) "opcode < OP_IF \<or> OP_ENDIF < opcode" "vfExec s' = vfExec s" "nOpCount s' = nOpCount s"
  | (multisig) "OP_ENDIF < opcode" "vfExec s' = vfExec s" "nOpCount s \<le> nOpCount s'"
      "nOpCount s' \<le> MAX_OPS_PER_SCRIPT"
proof (cases "is_control opcode")
  case True
  then show ?thesis
    using assms control by (auto simp: exec_op_def is_control_def)
next
  case False
  then have not_if: "opcode \<noteq> OP_IF" "opcode \<noteq> OP_NOTIF" "opcode \<noteq> OP_ELSE" "opcode \<noteq> OP_ENDIF"
    by (auto simp: is_control_def)
  show ?thesis
  proof (cases "opcode = OP_CHECKMULTISIG \<or> opcode = OP_CHECKMULTISIGVERIFY")
    case True
    with False assms have "on_stack_nOpCount (exec_CHECKMULTISIG C checker flags opcode (pbegincodehash s)) s = Inr s'"
      by (auto simp: exec_op_def is_stack_op_def is_unary_def is_binary_def split: if_splits)
    from on_stack_nOpCount_frame [OF this] show ?thesis
      using True multisig exec_CHECKMULTISIG_count by fastforce
  next
    case multi: False
    have range: "opcode \<noteq> OP_VERIF \<and> opcode \<noteq> OP_VERNOTIF"
      using assms False
      by (auto simp: exec_op_def is_stack_op_def is_unary_def is_binary_def split: if_splits)
    have "opcode < OP_IF \<or> OP_ENDIF < opcode"
      using range not_if by linarith
    moreover have "vfExec s' = vfExec s \<and> nOpCount s' = nOpCount s"
      using assms False multi unfolding exec_op_def
      by (auto split: if_splits dest!: on_stack_frame on_stack_altstack_frame)
    ultimately show ?thesis using plain by blast
  qed
qed

lemma cond_depth_other:
  "opcode < OP_IF \<or> OP_ENDIF < opcode \<Longrightarrow> cond_depth d [opcode] = Some d"
  by auto

lemma eval_instruction_static:
  assumes "eval_instruction C checker flags opcode v s = Inr s'"
  shows "allowed_op (opcode, v)"
    and "cond_depth (length (vfExec s)) [opcode] = Some (length (vfExec s'))"
    and "nOpCount s + (if opcode > OP_16 then 1 else 0) \<le> nOpCount s'"
    and "nOpCount s \<le> MAX_OPS_PER_SCRIPT \<Longrightarrow> nOpCount s' \<le> MAX_OPS_PER_SCRIPT"
proof -
  define fExec where "fExec = (False \<notin> set (vfExec s))"
  define s1 where "s1 = (if opcode > OP_16 then s\<lparr>nOpCount := nOpCount s + 1\<rparr> else s)"
  have s1: "vfExec s1 = vfExec s" "nOpCount s1 = nOpCount s + (if opcode > OP_16 then 1 else 0)"
    by (simp_all add: s1_def)
  have guards: "length v \<le> MAX_SCRIPT_ELEMENT_SIZE" "\<not> disabled_opcode opcode"
      "opcode > OP_16 \<Longrightarrow> nOpCount s + 1 \<le> MAX_OPS_PER_SCRIPT"
    using assms by (auto simp: eval_instruction_def Let_def split: if_splits)
  have step: "(opcode \<le> OP_PUSHDATA4 \<and> fExec \<and> s' = s1\<lparr>stack := v # stack s1\<rparr>) \<or>
      exec_op C checker flags fExec opcode s1 = Inr s' \<or>
      (\<not> fExec \<and> \<not> (OP_IF \<le> opcode \<and> opcode \<le> OP_ENDIF) \<and> s' = s1)"
    using assms by (auto simp: eval_instruction_def Let_def fExec_def s1_def ebind_eq_Inr split: if_splits)
  then have "opcode \<noteq> OP_VERIF \<and> opcode \<noteq> OP_VERNOTIF \<and>
      cond_depth (length (vfExec s)) [opcode] = Some (length (vfExec s')) \<and> nOpCount s1 \<le> nOpCount s' \<and>
      (nOpCount s1 \<le> MAX_OPS_PER_SCRIPT \<longrightarrow> nOpCount s' \<le> MAX_OPS_PER_SCRIPT)"
  proof (elim disjE)
    assume "exec_op C checker flags fExec opcode s1 = Inr s'"
    then show ?thesis
    proof (cases rule: exec_op_cases)
      case control
      then show ?thesis
        using exec_control_frame [OF control(2,1)] s1(1) by (auto simp: is_control_def)
    qed (auto simp: s1 cond_depth_other)
  qed (auto simp: s1 cond_depth_other not_le)
  with guards s1 show "allowed_op (opcode, v)"
    "cond_depth (length (vfExec s)) [opcode] = Some (length (vfExec s'))"
    "nOpCount s + (if opcode > OP_16 then 1 else 0) \<le> nOpCount s'"
    "nOpCount s \<le> MAX_OPS_PER_SCRIPT \<Longrightarrow> nOpCount s' \<le> MAX_OPS_PER_SCRIPT"
    by (auto simp: allowed_op_def split: if_splits)
qed

lemma cond_depth_Cons: "cond_depth d [opcode] = Some d' \<Longrightarrow> cond_depth d (opcode # ops) = cond_depth d' ops"
  by (auto split: if_splits nat.splits)

lemma eval_loop_static:
  assumes "eval_loop C checker flags s = Inr s'"
  shows "\<exists>ops. script_ops (script_pc s) = Some ops \<and> list_all allowed_op ops \<and>
    cond_depth (length (vfExec s)) (map fst ops) = Some (length (vfExec s')) \<and>
    (nOpCount s \<le> MAX_OPS_PER_SCRIPT \<longrightarrow> nOpCount s + counted_ops ops \<le> MAX_OPS_PER_SCRIPT)"
  using assms
proof (induction "length (script_pc s)" arbitrary: s rule: less_induct)
  case less
  show ?case
  proof (cases "script_pc s = []")
    case True
    with less.prems show ?thesis
      by (auto simp: script_ops.simps counted_ops_def)
  next
    case False
    obtain ok opcode v pc where op: "GetOp2 (script_pc s) = (ok, opcode, v, pc)"
      by (cases "GetOp2 (script_pc s)") auto
    have ok: "ok" using less.prems False op eval_loop_fail by (cases ok) fastforce+
    then obtain s1 where step: "eval_instruction C checker flags opcode v (s\<lparr>script_pc := pc\<rparr>) = Inr s1"
      and loop: "eval_loop C checker flags s1 = Inr s'"
      using less.prems op eval_loop_op by (fastforce simp: ebind_eq_Inr)
    have pc: "script_pc s1 = pc" using eval_instruction_script_pc [OF step] by simp
    moreover have "length pc < length (script_pc s)" using op ok by (auto dest: GetOp2_ok_progress)
    ultimately obtain ops where ops: "script_ops pc = Some ops" "list_all allowed_op ops"
        "cond_depth (length (vfExec s1)) (map fst ops) = Some (length (vfExec s'))"
        "nOpCount s1 \<le> MAX_OPS_PER_SCRIPT \<longrightarrow> nOpCount s1 + counted_ops ops \<le> MAX_OPS_PER_SCRIPT"
      using less.hyps [of s1] loop by auto
    note static = eval_instruction_static [OF step]
    have "script_ops (script_pc s) = Some ((opcode, v) # ops)"
      using False op ok ops(1) by (simp add: script_ops.simps [of "script_pc s"])
    moreover have "cond_depth (length (vfExec s)) (map fst ((opcode, v) # ops)) = Some (length (vfExec s'))"
      using static(2) ops(3) cond_depth_Cons [of "length (vfExec s)" opcode "length (vfExec s1)"] by simp
    moreover have "nOpCount s \<le> MAX_OPS_PER_SCRIPT \<longrightarrow>
        nOpCount s + counted_ops ((opcode, v) # ops) \<le> MAX_OPS_PER_SCRIPT"
      using static(3,4) ops(4) by (auto simp: counted_ops_def)
    ultimately show ?thesis using static(1) ops(2) by auto
  qed
qed

text \<open>C14: A script that evaluates is well formed, whatever the stack it ran on, the checker and the
  flags: it has at most 10000 bytes and parses to its end, none of its operations is disabled, its
  pushes are at most 520 bytes, its conditionals are balanced, also where they were not executed,
  and at most 201 of its operations are not pushes.\<close>

theorem EvalScript_well_formed:
  assumes "EvalScript C checker flags st script = Inr st'"
  shows "length script \<le> 10000 \<and> (\<exists>ops. script_ops script = Some ops \<and> list_all allowed_op ops \<and>
    cond_depth 0 (map fst ops) = Some 0 \<and> counted_ops ops \<le> MAX_OPS_PER_SCRIPT)"
proof -
  obtain s where loop: "eval_loop C checker flags (eval_start st script) = Inr s"
    and balanced: "vfExec s = []" and len: "length script \<le> 10000"
    using assms
    by (auto simp: EvalScript_def ebind_eq_Inr catch_all_def split: if_splits sum.splits cxx_exit.splits)
  from eval_loop_static [OF loop] balanced len show ?thesis
    by (auto simp: eval_start_def)
qed

theorem EvalScript_well_formed_witness: "\<exists>ops. script_ops [0x51, 0x63, 0x52, 0x68] = Some ops"
proof -
  have "EvalScript example_crypto BaseSignatureChecker 0 [] [0x51, 0x63, 0x52, 0x68] = Inr [[2]]"
    by code_simp
  from EvalScript_well_formed [OF this] show ?thesis by auto
qed

subsection \<open>Unspendable scripts\<close>

lemma EvalScript_first:
  assumes "length script \<le> 10000" "GetOp2 script = (True, opcode, v, pc)"
    and "eval_instruction C checker flags opcode v ((eval_start st script)\<lparr>script_pc := pc\<rparr>) = set_error e"
  shows "EvalScript C checker flags st script = set_error e"
proof -
  have "eval_loop C checker flags (eval_start st script) = set_error e"
    using assms(2,3) by (simp add: eval_loop_op eval_start_def)
  then show ?thesis using assms(1) by (simp add: EvalScript_def catch_all_def)
qed

lemma EvalScript_unspendable:
  assumes "IsUnspendable script"
  shows "EvalScript C checker flags st script \<noteq> Inr st'"
proof (cases "length script \<le> 10000")
  case False
  then show ?thesis by (simp add: EvalScript_def)
next
  case True
  from assms obtain b pc where script: "script = b # pc" "unat b = OP_RETURN"
    by (cases script) (auto simp: IsUnspendable_def)
  have "EvalScript C checker flags st script = set_error SCRIPT_ERR_OP_RETURN"
  proof (rule EvalScript_first [OF True])
    show "GetOp2 script = (True, OP_RETURN, [], pc)"
      using script by (simp add: GetOp2_def Let_def)
    show "eval_instruction C checker flags OP_RETURN [] ((eval_start st script)\<lparr>script_pc := pc\<rparr>) =
        set_error SCRIPT_ERR_OP_RETURN"
      by (simp add: eval_instruction_def Let_def eval_start_def disabled_opcode_def exec_op_def
          is_control_def exec_control_def)
  qed
  then show ?thesis by simp
qed

lemma VerifyScript_evaluates:
  assumes "VerifyScript C ssig spk flags checker = Inr u"
  shows "\<exists>st st'. EvalScript C checker flags [] ssig = Inr st \<and>
    EvalScript C checker flags st spk = Inr st' \<and> require_true st' = Inr ()"
  using assms by (auto simp: VerifyScript_def ebind_eq_Inr split: if_splits)

subsection \<open>VerifyScript does not fail an assertion\<close>

text \<open>A pay-to-script-hash script fails on an empty stack, so the stack that is restored has a top.\<close>

lemma EvalScript_P2SH_empty:
  assumes "IsPayToScriptHash script"
  shows "EvalScript C checker flags [] script = set_error SCRIPT_ERR_INVALID_STACK_OPERATION"
proof -
  from assms obtain h where h: "length h = 20" "script = 0xa9 # 0x14 # h @ [0x87]"
    by (auto simp: IsPayToScriptHash_iff)
  show ?thesis
  proof (rule EvalScript_first)
    show "length script \<le> 10000" using h by simp
    show "GetOp2 script = (True, OP_HASH160, [], 0x14 # h @ [0x87])"
      using h by (simp add: GetOp2_def Let_def)
    show "eval_instruction C checker flags OP_HASH160 []
        ((eval_start [] script)\<lparr>script_pc := 0x14 # h @ [0x87]\<rparr>) = set_error SCRIPT_ERR_INVALID_STACK_OPERATION"
      by (simp add: eval_instruction_def Let_def eval_start_def disabled_opcode_def exec_op_def is_control_def
          is_stack_op_def is_unary_def is_binary_def on_stack_def exec_hash_def need_def)
  qed
qed

context sig_checker
begin

lemma EvalScript_exit:
  assumes "ok c" and "standard_hashes C" and "small st" "length st \<le> 1000"
  shows "EvalScript C (mk c) flags st script = Inl e \<Longrightarrow> \<exists>err. e = Err err"
  using EvalScript_safe [OF assms, of flags script] by auto

lemma EvalScript_stack:
  assumes "ok c" and "standard_hashes C" and "small st" "length st \<le> 1000"
  shows "EvalScript C (mk c) flags st script = Inr st' \<Longrightarrow> small st' \<and> length st' \<le> 1000"
  using EvalScript_safe [OF assms, of flags script] by auto

lemma require_true_exit: "require_true st = Inl e \<Longrightarrow> \<exists>err. e = Err err"
  by (auto simp: require_true_def split: list.splits if_splits)

lemma VerifyScript_safe:
  assumes ok: "ok c" and C: "standard_hashes C"
    and clean: "has_flag flags SCRIPT_VERIFY_CLEANSTACK \<Longrightarrow> has_flag flags SCRIPT_VERIFY_P2SH"
    and exit: "VerifyScript C ssig spk flags (mk c) = Inl e"
  shows "\<exists>err. e = Err err"
proof (cases "EvalScript C (mk c) flags [] ssig")
  case (Inl e1)
  then show ?thesis
    using exit EvalScript_exit [OF ok C, of "[]"] by (auto simp: VerifyScript_def split: if_splits)
next
  case (Inr st1)
  note st1 = EvalScript_stack [OF ok C _ _ Inr]
  show ?thesis
  proof (cases "EvalScript C (mk c) flags st1 spk")
    case (Inl e2)
    then show ?thesis
      using Inr exit EvalScript_exit [OF ok C, of st1] st1 by (auto simp: VerifyScript_def split: if_splits)
  next
    case Inr2: (Inr st2)
    have top: "\<exists>v st. st1 = v # st" if "IsPayToScriptHash spk"
      using Inr2 EvalScript_P2SH_empty [OF that] by (cases st1) auto
    have inner: "\<exists>err. e1 = Err err" if "st1 = v # st" "EvalScript C (mk c) flags st script = Inl e1"
      for v st script e1
      using EvalScript_exit [OF ok C _ _ that(2)] st1 that(1) by auto
    show ?thesis
      using exit Inr Inr2 top inner clean
      by (auto simp: VerifyScript_def ebind_eq_Inl dest: require_true_exit split: if_splits list.splits)
  qed
qed

end

subsection \<open>Scripts that only push\<close>

lemma CheckMinimalPush_push_op:
  assumes "length v \<noteq> 1" "length v \<le> MAX_SCRIPT_ELEMENT_SIZE"
  shows "CheckMinimalPush v (push_op v)"
  using assms by (auto simp: CheckMinimalPush_def push_op_def)

lemma push_op_not_disabled [simp]: "\<not> disabled_opcode (push_op v)"
  using push_op_le [of v] by (auto simp: disabled_opcode_def)

lemma eval_instruction_push:
  assumes "vfExec s = []" "length v \<noteq> 1" "length v \<le> MAX_SCRIPT_ELEMENT_SIZE"
    and "length (stack s) + length (altstack s) < 1000"
  shows "eval_instruction C checker flags (push_op v) v s = Inr (s\<lparr>stack := v # stack s\<rparr>)"
  using assms push_op_le [of v] CheckMinimalPush_push_op [OF assms(2,3)]
  by (simp add: eval_instruction_def Let_def)

lemma eval_loop_pushes:
  assumes "script_pc s = concat (map (push_data []) vs)" "vfExec s = []"
    and "\<forall>v \<in> set vs. length v \<noteq> 1 \<and> length v \<le> MAX_SCRIPT_ELEMENT_SIZE"
    and "length (stack s) + length (altstack s) + length vs \<le> 1000"
  shows "eval_loop C checker flags s = Inr (s\<lparr>stack := rev vs @ stack s, script_pc := []\<rparr>)"
  using assms
proof (induction vs arbitrary: s)
  case Nil
  then show ?case by simp
next
  case (Cons v vs)
  have op: "GetOp2 (script_pc s) = (True, push_op v, v, concat (map (push_data []) vs))"
    using Cons.prems(1,3) GetOp2_push_data [of v "concat (map (push_data []) vs)"] by simp
  have push: "eval_instruction C checker flags (push_op v) v (s\<lparr>script_pc := concat (map (push_data []) vs)\<rparr>) =
      Inr (s\<lparr>script_pc := concat (map (push_data []) vs), stack := v # stack s\<rparr>)"
    using Cons.prems by (subst eval_instruction_push) simp_all
  show ?case
    unfolding eval_loop_op [OF op] push ebind_simps
    using Cons.prems by (subst Cons.IH) simp_all
qed

lemma EvalScript_pushes:
  assumes "\<forall>v \<in> set vs. length v \<noteq> 1 \<and> length v \<le> MAX_SCRIPT_ELEMENT_SIZE"
    and "length st + length vs \<le> 1000" "length (concat (map (push_data []) vs)) \<le> 10000"
  shows "EvalScript C checker flags st (concat (map (push_data []) vs)) = Inr (rev vs @ st)"
  using assms eval_loop_pushes [of "eval_start st (concat (map (push_data []) vs))" vs C checker flags]
  by (simp add: EvalScript_def eval_start_def catch_all_def)

lemma IsPushOnly_pushes:
  "\<forall>v \<in> set vs. length v < 2 ^ 32 \<Longrightarrow> IsPushOnly (concat (map (push_data []) vs))"
  by (induction vs) auto

subsection \<open>FindAndDelete without a match\<close>

text \<open>The first bytes of the operations of a script.\<close>

function op_heads :: "iterator \<Rightarrow> bytes" where
  "op_heads pc =
     (if pc = [] then []
      else case GetOp2 pc of (ok, opcode, v, pc') \<Rightarrow> hd pc # (if ok then op_heads pc' else []))"
  by pat_completeness auto
termination
  by (relation "measure length") (auto dest: GetOp2_progress [OF _ sym])

declare op_heads.simps [simp del]

lemma op_heads_Nil [simp]: "op_heads [] = []"
  by (simp add: op_heads.simps)

lemma op_heads_step:
  "GetOp2 (b # pc) = (True, opcode, v, pc') \<Longrightarrow> op_heads (b # pc) = b # op_heads pc'"
  by (subst op_heads.simps) simp

lemma skip_matches_no_match:
  "pc = [] \<or> hd pc \<noteq> x \<Longrightarrow> skip_matches (x # xs) pc n = (pc, n)"
  by (cases pc) (auto simp: skip_matches.simps)

lemma find_delete_loop_no_match:
  assumes "x \<notin> set (op_heads pc)"
  shows "snd (snd (find_delete_loop (x # xs) pc2 pc result n)) = n"
  using assms
proof (induction "length pc" arbitrary: pc2 pc result rule: less_induct)
  case less
  obtain ok opcode v pc' where op: "GetOp2 pc = (ok, opcode, v, pc')" by (cases "GetOp2 pc") auto
  have "pc = [] \<or> hd pc \<noteq> x"
    using less.prems op by (subst (asm) op_heads.simps) (auto split: if_splits)
  then have skip: "skip_matches (x # xs) pc n = (pc, n)" by (rule skip_matches_no_match)
  show ?case
  proof (cases ok)
    case False
    with skip op show ?thesis by (simp add: find_delete_loop.simps [of _ pc2 pc] Let_def)
  next
    case True
    then have op': "GetOp2 pc = (True, opcode, v, pc')" using op by simp
    then have "x \<notin> set (op_heads pc')"
      using less.prems by (subst (asm) op_heads.simps) (auto split: if_splits)
    with less.hyps [OF GetOp2_ok_progress [OF op']] show ?thesis
      using skip op' by (simp add: find_delete_loop.simps [of _ pc2 pc] Let_def)
  qed
qed

lemma FindAndDelete_no_match:
  assumes "x \<notin> set (op_heads script)"
  shows "FindAndDelete script (x # xs) = (0, script)"
  using find_delete_loop_no_match [OF assms, of xs script "[]" 0]
  by (auto simp: FindAndDelete_def split: prod.splits)

subsection \<open>Pay to public key hash\<close>

definition P2PKH_script :: "bytes \<Rightarrow> CScript" where
  "P2PKH_script h = 0x76 # 0xa9 # 0x14 # h @ [0x88, 0xac]"

lemma length_P2PKH_script [simp]: "length (P2PKH_script h) = length h + 5"
  by (simp add: P2PKH_script_def)

lemma GetOp2_P2PKH:
  assumes "length h = 20"
  shows "GetOp2 (P2PKH_script h) = (True, OP_DUP, [], 0xa9 # 0x14 # h @ [0x88, 0xac])"
    and "GetOp2 (0xa9 # 0x14 # h @ [0x88, 0xac]) = (True, OP_HASH160, [], 0x14 # h @ [0x88, 0xac])"
    and "GetOp2 (0x14 # h @ [0x88, 0xac]) = (True, 20, h, [0x88, 0xac])"
    and "GetOp2 [0x88, 0xac] = (True, OP_EQUALVERIFY, [], [0xac])"
    and "GetOp2 [0xac] = (True, OP_CHECKSIG, [], [])"
  using assms GetOp2_direct_push [of "0x14" h "[0x88, 0xac]"]
  by (simp_all add: P2PKH_script_def GetOp2_opcode)

lemma op_heads_P2PKH: "length h = 20 \<Longrightarrow> op_heads (P2PKH_script h) = [0x76, 0xa9, 0x14, 0x88, 0xac]"
  using GetOp2_P2PKH [of h]
  by (simp add: P2PKH_script_def op_heads_step)

lemma FindAndDelete_P2PKH:
  assumes "length h = 20" "length sig \<noteq> 20" "length sig \<le> MAX_SCRIPT_ELEMENT_SIZE"
  shows "FindAndDelete (P2PKH_script h) (push_data [] sig) = (0, P2PKH_script h)"
proof -
  obtain x xs where push: "push_data [] sig = x # xs" by (cases "push_data [] sig") auto
  have "unat x = (if length sig < 76 then length sig else if length sig \<le> 0xff then 76 else 77)"
    using push assms(3) by (auto simp: push_data_def split: if_splits)
  then have "unat x \<notin> {0x76, 0xa9, 0x14, 0x88, 0xac}"
    using assms(2) by auto
  then have "x \<notin> set (op_heads (P2PKH_script h))"
    by (auto simp: op_heads_P2PKH [OF assms(1)])
  then show ?thesis unfolding push by (rule FindAndDelete_no_match)
qed

lemmas step_simps = eval_instruction_def exec_op_def is_control_def exec_control_def is_stack_op_def
  is_unary_def is_binary_def disabled_opcode_def on_stack_def Let_def need_def stacktop_def popstack_def

lemma check_encodings_exit: "check_encodings C flags sig pubkey = Inl e \<Longrightarrow> \<exists>x. e = Err x"
  using IsValidSignatureEncoding_defined [of sig]
  by (auto simp: check_encodings_def CheckSignatureEncoding_def CheckPubKeyEncoding_def
      IsLowDERSignature_def require_valid_encoding_def ebind_eq_Inl split: if_splits option.splits)

lemma eval_loop_P2PKH:
  assumes h: "length h = 20" "length sig \<noteq> 20" "length sig \<le> MAX_SCRIPT_ELEMENT_SIZE"
  shows "eval_loop C checker flags (eval_start [pubkey, sig] (P2PKH_script h)) =
    (if CHash160 C pubkey \<noteq> h then set_error SCRIPT_ERR_EQUALVERIFY
     else ebind (check_encodings C flags sig pubkey) (\<lambda>_.
       Inr ((eval_start [bool_vch (CheckSig checker sig pubkey (P2PKH_script h))] (P2PKH_script h))
         \<lparr>nOpCount := 4, script_pc := []\<rparr>)))"
proof -
  let ?s = "\<lambda>st n pc. (eval_start st (P2PKH_script h))\<lparr>nOpCount := n, script_pc := pc\<rparr>"
  have dup: "eval_instruction C checker flags OP_DUP [] ((eval_start [pubkey, sig] (P2PKH_script h))\<lparr>script_pc := pc\<rparr>) =
      Inr (?s [pubkey, pubkey, sig] 1 pc)" for pc
    by (simp add: step_simps eval_start_def exec_stack_op_def exec_DUP_def)
  have hash: "eval_instruction C checker flags OP_HASH160 [] (?s [pubkey, pubkey, sig] 1 pc) =
      Inr (?s [CHash160 C pubkey, pubkey, sig] 2 pc)" for pc
    by (simp add: step_simps eval_start_def exec_hash_def)
  have push: "eval_instruction C checker flags 20 h (?s [CHash160 C pubkey, pubkey, sig] 2 pc) =
      Inr (?s [h, CHash160 C pubkey, pubkey, sig] 2 pc)" for pc
    using h by (simp add: eval_instruction_def Let_def disabled_opcode_def eval_start_def CheckMinimalPush_def)
  have equal: "eval_instruction C checker flags OP_EQUALVERIFY [] (?s [h, CHash160 C pubkey, pubkey, sig] 2 pc) =
      (if CHash160 C pubkey \<noteq> h then set_error SCRIPT_ERR_EQUALVERIFY else Inr (?s [pubkey, sig] 3 pc))" for pc
    by (simp add: step_simps eval_start_def exec_EQUAL_def numeral_2_eq_2 verify_top_def)
  have checksig: "eval_instruction C checker flags OP_CHECKSIG [] (?s [pubkey, sig] 3 pc) =
      ebind (check_encodings C flags sig pubkey) (\<lambda>_.
        Inr (?s [bool_vch (CheckSig checker sig pubkey (P2PKH_script h))] 4 pc))" for pc
    using FindAndDelete_P2PKH [OF h]
    by (cases "check_encodings C flags sig pubkey")
      (simp_all add: step_simps eval_start_def exec_CHECKSIG_def numeral_2_eq_2 verify_top_def)
  note ops = GetOp2_P2PKH [OF h(1)]
  have loop: "eval_loop C checker flags (?s st n pc) =
      ebind (eval_instruction C checker flags opcode v (?s st n pc')) (eval_loop C checker flags)"
    if "GetOp2 pc = (True, opcode, v, pc')" for st n pc opcode v pc'
    using that by (subst eval_loop_op) simp_all
  have start: "eval_loop C checker flags (eval_start [pubkey, sig] (P2PKH_script h)) =
      ebind (eval_instruction C checker flags OP_DUP []
        ((eval_start [pubkey, sig] (P2PKH_script h))\<lparr>script_pc := 0xa9 # 0x14 # h @ [0x88, 0xac]\<rparr>))
      (eval_loop C checker flags)"
    using ops(1) by (subst eval_loop_op) (simp_all add: eval_start_def)
  show ?thesis
    unfolding start dup ebind_simps loop [OF ops(2)] hash loop [OF ops(3)] push loop [OF ops(4)] equal
    by (cases "check_encodings C flags sig pubkey") (simp_all add: loop [OF ops(5)] checksig)
qed

lemma EvalScript_P2PKH:
  assumes "length h = 20" "length sig \<noteq> 20" "length sig \<le> MAX_SCRIPT_ELEMENT_SIZE"
  shows "EvalScript C checker flags [pubkey, sig] (P2PKH_script h) =
    (if CHash160 C pubkey \<noteq> h then set_error SCRIPT_ERR_EQUALVERIFY
     else ebind (check_encodings C flags sig pubkey) (\<lambda>_.
       Inr [bool_vch (CheckSig checker sig pubkey (P2PKH_script h))]))"
proof (cases "check_encodings C flags sig pubkey")
  case (Inl e)
  then obtain x where "e = Err x" using check_encodings_exit by blast
  with Inl assms show ?thesis
    by (simp add: EvalScript_def eval_loop_P2PKH catch_all_def)
next
  case (Inr u)
  with assms show ?thesis
    by (simp add: EvalScript_def eval_loop_P2PKH catch_all_def, simp add: eval_start_def)
qed

lemma CastToBool_bool_vch [simp]: "CastToBool (bool_vch b) = b"
  by (simp add: bool_vch_def)

lemma not_P2SH_P2PKH [simp]: "length h = 20 \<Longrightarrow> \<not> IsPayToScriptHash (P2PKH_script h)"
  by (simp add: IsPayToScriptHash_def P2PKH_script_def)

text \<open>C12: Spending a pay-to-public-key-hash output with a signature and a key: the verification
  succeeds exactly when the key hashes to the hash of the output, the encodings of the signature and
  of the key pass the checks that the flags ask for, and the checker accepts the signature for the
  script of the output; otherwise it fails with the error of the first of these that does not
  hold.\<close>

theorem VerifyScript_P2PKH:
  assumes h: "length h = 20" and sig: "length sig \<noteq> 20" "length sig \<noteq> 1" "length sig \<le> MAX_SCRIPT_ELEMENT_SIZE"
    and key: "length pubkey \<noteq> 1" "length pubkey \<le> MAX_SCRIPT_ELEMENT_SIZE"
    and clean: "has_flag flags SCRIPT_VERIFY_CLEANSTACK \<Longrightarrow> has_flag flags SCRIPT_VERIFY_P2SH"
  shows "VerifyScript C (push_data (push_data [] sig) pubkey) (P2PKH_script h) flags checker =
    (if CHash160 C pubkey \<noteq> h then set_error SCRIPT_ERR_EQUALVERIFY
     else ebind (check_encodings C flags sig pubkey) (\<lambda>_.
       if CheckSig checker sig pubkey (P2PKH_script h) then Inr () else set_error SCRIPT_ERR_EVAL_FALSE))"
proof -
  have sigs: "push_data (push_data [] sig) pubkey = concat (map (push_data []) [sig, pubkey])"
    by (simp add: push_data_append [of "push_data [] sig"])
  have "length (push_data [] b) \<le> length b + 5" for b
    by (simp add: push_data_def)
  from this [of sig] this [of pubkey] have len: "length (concat (map (push_data []) [sig, pubkey])) \<le> 10000"
    using sig key by simp
  have pushed: "EvalScript C checker flags [] (concat (map (push_data []) [sig, pubkey])) = Inr [pubkey, sig]"
    using EvalScript_pushes [of "[sig, pubkey]" "[]" C checker flags] sig key len by simp
  have pushonly: "IsPushOnly (concat (map (push_data []) [sig, pubkey]))"
    using sig key by (intro IsPushOnly_pushes) auto
  show ?thesis
    unfolding sigs VerifyScript_def pushed ebind_simps EvalScript_P2PKH [OF h sig(1,3)] Let_def
    using pushonly h clean
    by (cases "check_encodings C flags sig pubkey") (auto simp: require_true_def)
qed

theorem VerifyScript_P2PKH_witness:
  "VerifyScript example_crypto (push_data (push_data [] [1, 2]) [3, 4]) (P2PKH_script (replicate 20 0)) 0
     BaseSignatureChecker = set_error SCRIPT_ERR_EVAL_FALSE"
proof -
  have "\<not> has_flag 0 SCRIPT_VERIFY_CLEANSTACK" "CHash160 example_crypto [3, 4] = replicate 20 0"
    "check_encodings example_crypto 0 [1, 2] [3, 4] = Inr ()"
    by code_simp+
  then show ?thesis
    using VerifyScript_P2PKH [of "replicate 20 0" "[1, 2]" "[3, 4]" 0 example_crypto BaseSignatureChecker]
    by (simp add: BaseSignatureChecker_def)
qed

subsection \<open>Multi-signatures\<close>

text \<open>
  The loop of \<open>CHECKMULTISIG\<close> takes the signatures and the keys from the top of the stack down and
  tries each key once. It succeeds exactly when some of the keys, in their order, match the
  signatures, in theirs.
\<close>

definition matches :: "(bytes \<Rightarrow> bytes \<Rightarrow> bool) \<Rightarrow> bytes list \<Rightarrow> bytes list \<Rightarrow> bool" where
  "matches ok sigs keys \<longleftrightarrow> (\<exists>keys'. subseq keys' keys \<and> list_all2 ok sigs keys')"

lemma matches_Nil [simp]: "matches ok [] keys"
  by (auto simp: matches_def intro: exI [of _ "[]"])

lemma matches_length: "matches ok sigs keys \<Longrightarrow> length sigs \<le> length keys"
  unfolding matches_def by (metis list_all2_lengthD list_emb_length)

lemma matches_Cons_skip: "\<not> ok sig key \<Longrightarrow> matches ok (sig # sigs) (key # keys) = matches ok (sig # sigs) keys"
  by (auto simp: matches_def list_all2_Cons1 intro: list_emb_Cons elim!: list_emb.cases [of _ _ "key # keys"])

lemma matches_tl: "matches ok (sig # sigs) keys \<Longrightarrow> matches ok sigs (tl keys)"
proof -
  assume "matches ok (sig # sigs) keys"
  then obtain key keys' where "subseq (key # keys') keys" "list_all2 ok sigs keys'"
    by (auto simp: matches_def list_all2_Cons1)
  moreover from this have "subseq keys' (tl keys)"
    by (cases keys) (auto dest: subseq_Cons' split: if_splits)
  ultimately show ?thesis by (auto simp: matches_def)
qed

lemma matches_Cons_take:
  assumes "ok sig key"
  shows "matches ok (sig # sigs) (key # keys) = matches ok sigs keys"
proof
  assume "matches ok (sig # sigs) (key # keys)"
  then show "matches ok sigs keys" using matches_tl by fastforce
next
  assume "matches ok sigs keys"
  then obtain keys' where "subseq keys' keys" "list_all2 ok sigs keys'" by (auto simp: matches_def)
  then show "matches ok (sig # sigs) (key # keys)"
    using assms by (auto simp: matches_def intro!: exI [of _ "key # keys'"])
qed

lemma multisig_loop_matches:
  assumes "0 < isig" "isig + nS \<le> Suc (length st)" "0 < ikey" "ikey + nK \<le> Suc (length st)" "nS \<le> nK"
    and "\<And>sig key. sig \<in> set (take nS (drop (isig - 1) st)) \<Longrightarrow> key \<in> set (take nK (drop (ikey - 1) st)) \<Longrightarrow>
      check_encodings C flags sig key = Inr ()"
  shows "multisig_loop C checker flags scriptCode st isig (int nS) ikey (int nK) =
    Inr (matches (\<lambda>sig key. CheckSig checker sig key scriptCode)
      (take nS (drop (isig - 1) st)) (take nK (drop (ikey - 1) st)))"
  using assms
proof (induction nK arbitrary: isig nS ikey)
  case 0
  then show ?case by (subst multisig_loop.simps) simp
next
  case (Suc nK)
  show ?case
  proof (cases nS)
    case 0
    then show ?thesis by (subst multisig_loop.simps) simp
  next
    case (Suc n)
    let ?sig = "st ! (isig - 1)" and ?key = "st ! (ikey - 1)"
    let ?ok = "\<lambda>sig key. CheckSig checker sig key scriptCode"
    have top: "stacktop st isig = Inr ?sig" "stacktop st ikey = Inr ?key"
      using Suc.prems Suc by (auto simp: stacktop_def)
    have sigs: "take nS (drop (isig - 1) st) = ?sig # take n (drop isig st)"
      using Suc.prems Suc Cons_nth_drop_Suc [of "isig - 1" st] by (simp flip: Cons_nth_drop_Suc)
    have keys: "take (Suc nK) (drop (ikey - 1) st) = ?key # take nK (drop ikey st)"
      using Suc.prems Cons_nth_drop_Suc [of "ikey - 1" st] by (simp flip: Cons_nth_drop_Suc)
    have enc: "check_encodings C flags ?sig ?key = Inr ()"
      by (rule Suc.prems(6)) (simp_all only: sigs keys list.set_intros)
    have enc_keys: "check_encodings C flags sig key = Inr ()"
      if "sig \<in> set (take nS (drop (isig - 1) st))" "key \<in> set (take nK (drop ikey st))" for sig key
      by (rule Suc.prems(6) [OF that(1)]) (simp only: keys list.set_intros that(2))
    have enc_both: "check_encodings C flags sig key = Inr ()"
      if "sig \<in> set (take n (drop isig st))" "key \<in> set (take nK (drop ikey st))" for sig key
      by (rule enc_keys [OF _ that(2)]) (simp only: sigs list.set_intros that(1))
    show ?thesis
    proof (cases "?ok ?sig ?key")
      case True
      then have "multisig_loop C checker flags scriptCode st isig (int nS) ikey (int (Suc nK)) =
          multisig_loop C checker flags scriptCode st (isig + 1) (int n) (ikey + 1) (int nK)"
        using Suc.prems(5) enc top Suc by (subst multisig_loop.simps) (simp add: Let_def)
      also have "\<dots> = Inr (matches ?ok (take n (drop isig st)) (take nK (drop ikey st)))"
        using Suc.prems(1-5) Suc enc_both by (subst Suc.IH) simp_all
      finally show ?thesis unfolding sigs keys using True by (simp add: matches_Cons_take)
    next
      case False
      have "multisig_loop C checker flags scriptCode st isig (int nS) ikey (int (Suc nK)) =
          (if nS > nK then Inr False
           else multisig_loop C checker flags scriptCode st isig (int nS) (ikey + 1) (int nK))"
        using False enc top Suc by (subst multisig_loop.simps) (simp add: Let_def)
      also have "\<dots> = Inr (matches ?ok (take nS (drop (isig - 1) st)) (take nK (drop ikey st)))"
      proof (cases "nS > nK")
        case True
        have "length (take nS (drop (isig - 1) st)) = nS" "length (take nK (drop ikey st)) \<le> nK"
          using Suc.prems(1,2) by auto
        with True have "\<not> matches ?ok (take nS (drop (isig - 1) st)) (take nK (drop ikey st))"
          using matches_length [of ?ok "take nS (drop (isig - 1) st)" "take nK (drop ikey st)"] by linarith
        with True show ?thesis by simp
      next
        case False
        then show ?thesis using Suc.prems(1-5) enc_keys by (subst if_not_P, simp, subst Suc.IH) simp_all
      qed
      finally show ?thesis unfolding sigs keys using False by (simp add: matches_Cons_skip)
    qed
  qed
qed

text \<open>The script code that the signatures sign: every signature is deleted from it.\<close>

lemma delete_sigs_eq:
  "0 < isig \<Longrightarrow> isig + k \<le> Suc (length st) \<Longrightarrow>
   delete_sigs st isig k scriptCode =
     Inr (fold (\<lambda>sig code. snd (FindAndDelete code (push_data [] sig))) (take k (drop (isig - 1) st)) scriptCode)"
proof (induction k arbitrary: isig scriptCode)
  case (Suc k)
  have "take (Suc k) (drop (isig - 1) st) = st ! (isig - 1) # take k (drop isig st)"
    using Suc.prems by (simp flip: Cons_nth_drop_Suc)
  then show ?case using Suc.prems Suc.IH [of "isig + 1"] by (simp add: stacktop_def)
qed simp

lemma popstack_n_eq: "n \<le> length st \<Longrightarrow> popstack_n n st = Inr (drop n st)"
  by (induction n st rule: popstack_n.induct) (auto simp: popstack_def split: list.splits)

lemma scriptnum_at_getvch:
  assumes "0 < i" "i \<le> length st" "st ! (i - 1) = getvch v" "\<bar>v\<bar> < 2 ^ 31"
  shows "scriptnum_at st i flags nDefaultMaxNumSize = Inr v"
  using assms CScriptNum_getvch [of v 3] by (simp add: scriptnum_at_def stacktop_def)

lemma popstack_Cons: "popstack (v # st) = Inr st"
  by (simp add: popstack_def)

subsection \<open>Properties\<close>

text \<open>C6: Evaluating any script against an input of a transaction ends in a result or in one of the
  foreseen script errors: no exception leaves the evaluator, no assertion fails and nothing
  undefined is done. A resulting stack has at most 1000 elements of at most 520 bytes.\<close>

theorem EvalScript_returns:
  assumes "nIn < length (vin tx)" "standard_hashes C" "small st" "length st \<le> 1000"
  shows "(\<exists>st'. EvalScript C (TransactionSignatureChecker C (tx, nIn)) flags st script = Inr st' \<and>
      small st' \<and> length st' \<le> 1000) \<or>
    (\<exists>e. EvalScript C (TransactionSignatureChecker C (tx, nIn)) flags st script = Inl (Err e))"
  using assms tx_checker.EvalScript_safe [of "(tx, nIn)" C st C flags script] by simp

lemma standard_hashes_example: "standard_hashes example_crypto"
  by (simp add: standard_hashes_def example_crypto_def)

theorem EvalScript_returns_witness:
  "\<exists>r. (EvalScript example_crypto (TransactionSignatureChecker example_crypto (example_tx, 0)) 0 [[1]]
     [0x76, 0x93, 0xb1] = Inr r) \<or>
   (\<exists>e. EvalScript example_crypto (TransactionSignatureChecker example_crypto (example_tx, 0)) 0 [[1]]
     [0x76, 0x93, 0xb1] = Inl (Err e))"
proof -
  have "0 < length (vin example_tx)" by (simp add: example_tx_def)
  moreover have "small [[1]]" by (simp add: small_def)
  ultimately show ?thesis
    using EvalScript_returns [of 0 example_tx example_crypto "[[1]]" 0 "[0x76, 0x93, 0xb1]"]
      standard_hashes_example by auto
qed

text \<open>C3: Verifying any pair of scripts against an input of a transaction returns: it accepts or gives
  a script error. The assertions about the restored stack cannot fail, as long as the clean-stack
  rule is asked for only together with pay-to-script-hash.\<close>

theorem VerifyScript_returns:
  assumes "nIn < length (vin tx)" "standard_hashes C"
    and "has_flag flags SCRIPT_VERIFY_CLEANSTACK \<Longrightarrow> has_flag flags SCRIPT_VERIFY_P2SH"
  shows "VerifyScript C ssig spk flags (TransactionSignatureChecker C (tx, nIn)) = Inr () \<or>
    (\<exists>e. VerifyScript C ssig spk flags (TransactionSignatureChecker C (tx, nIn)) = Inl (Err e))"
proof (cases "VerifyScript C ssig spk flags (TransactionSignatureChecker C (tx, nIn))")
  case (Inl e)
  then show ?thesis
    using assms tx_checker.VerifyScript_safe [of "(tx, nIn)" C flags ssig spk C e] by auto
qed auto

theorem VerifyScript_returns_witness:
  "VerifyScript example_crypto [0x51] [0x51, 0x93] 0x101 (TransactionSignatureChecker example_crypto (example_tx, 0)) = Inr () \<or>
   (\<exists>e. VerifyScript example_crypto [0x51] [0x51, 0x93] 0x101
      (TransactionSignatureChecker example_crypto (example_tx, 0)) = Inl (Err e))"
proof (rule VerifyScript_returns)
  show "0 < length (vin example_tx)" by (simp add: example_tx_def)
  show "has_flag 0x101 SCRIPT_VERIFY_P2SH" by code_simp
qed (rule standard_hashes_example)

text \<open>C17: An output whose script is unspendable (it starts with \<open>RETURN\<close> or is too long to run) is
  never spent: no signature script, flags or checker make the verification succeed.\<close>

theorem unspendable_never_spent:
  assumes "IsUnspendable spk \<or> 10000 < length spk"
  shows "VerifyScript C ssig spk flags checker \<noteq> Inr u"
proof
  assume "VerifyScript C ssig spk flags checker = Inr u"
  then obtain st st' where run: "EvalScript C checker flags st spk = Inr st'"
    using VerifyScript_evaluates by blast
  with assms show False
    using EvalScript_unspendable by (auto simp: EvalScript_def)
qed

theorem unspendable_never_spent_witness:
  "VerifyScript example_crypto [0x51] [0x6a, 0x51] 1 BaseSignatureChecker \<noteq> Inr ()"
  using unspendable_never_spent [of "[0x6a, 0x51]" example_crypto "[0x51]" 1 BaseSignatureChecker "()"]
  by (simp add: IsUnspendable_def)



text \<open>A script built by pushing byte strings parses back to exactly those strings, each with the
  opcode that its length asks for, and it is push-only.\<close>

theorem push_data_roundtrip:
  assumes "\<forall>v \<in> set vs. length v < 2 ^ 32"
  shows "script_ops (concat (map (push_data []) vs)) = Some (map (\<lambda>v. (push_op v, v)) vs) \<and>
    IsPushOnly (concat (map (push_data []) vs))"
proof
  show "script_ops (concat (map (push_data []) vs)) = Some (map (\<lambda>v. (push_op v, v)) vs)"
    using assms
  proof (induction vs)
    case (Cons v vs)
    then show ?case
      using GetOp2_push_data [of v "concat (map (push_data []) vs)"]
      by (simp add: script_ops.simps [of "push_data [] v @ concat (map (push_data []) vs)"])
  qed (simp add: script_ops.simps)
qed (rule IsPushOnly_pushes [OF assms])

theorem push_data_roundtrip_witness:
  "script_ops (concat (map (push_data []) [[1, 2], replicate 80 3])) =
     Some [(2, [1, 2]), (OP_PUSHDATA1, replicate 80 3)]"
  using push_data_roundtrip [of "[[1, 2], replicate 80 3]"] by (simp add: push_op_def)

end
