(* ===== verification/CheckQueue.thy ===== *)
theory CheckQueue
  imports Prelude
begin

text \<open>
  The queue of verifications, checkqueue.h: the master adds batches of checks, worker threads and the
  master take and run them, and \<open>Wait\<close> gives the conjunction of their results.

  A state is the queue with the place of each thread in \<open>Loop\<close>. Thread 0 is the master, the threads
  1 to \<open>n\<close> are the workers. A section that holds the mutex is one step; so is every call of a check. The
  function \<open>ok\<close> says what a check returns.
\<close>

subsection \<open>The queue and its threads\<close>

record 'a CCheckQueue =
  cq_queue :: "'a list"
  nIdle :: int
  nTotal :: int
  fAllOk :: bool
  nTodo :: nat
  fQuit :: bool
  nBatchSize :: nat

definition CCheckQueue_init :: "nat \<Rightarrow> 'a CCheckQueue" where
  "CCheckQueue_init nBatchSizeIn =
     \<lparr>cq_queue = [], nIdle = 0, nTotal = 0, fAllOk = True, nTodo = 0, fQuit = False, nBatchSize = nBatchSizeIn\<rparr>"

definition IsIdle :: "'a CCheckQueue \<Rightarrow> bool" where
  "IsIdle q \<longleftrightarrow> nTotal q = nIdle q \<and> nTodo q = 0 \<and> fAllOk q = True"

text \<open>
  Where a thread is: not in \<open>Loop\<close>; before the mutex, with the variables \<open>nNow\<close> and \<open>fOk\<close>; running a batch,
  with the checks that are left; waiting for its condition variable; told to go on, before the mutex again.
\<close>

datatype 'a place = Outside | Before nat bool | Running "'a list" nat bool | Waiting | Notified

definition batch_size :: "'a CCheckQueue \<Rightarrow> nat" where
  "batch_size q = max 1 (min (nBatchSize q) ((length (cq_queue q) mod 2 ^ 32) div nat (nTotal q + nIdle q + 1)))"

text \<open>The first part of the section: the clean-up of the previous run.\<close>

definition clean_up :: "nat \<Rightarrow> bool \<Rightarrow> 'a CCheckQueue \<Rightarrow> 'a CCheckQueue" where
  "clean_up nNow fOk q =
     (if nNow \<noteq> 0 then q\<lparr>fAllOk := (fAllOk q \<and> fOk), nTodo := (nTodo q + (2 ^ 32 - nNow)) mod 2 ^ 32\<rparr>
      else q\<lparr>nTotal := nTotal q + 1\<rparr>)"

text \<open>The rest of it, from the test whether the queue is empty; with the result when the thread returns.\<close>

definition look :: "bool \<Rightarrow> 'a CCheckQueue \<Rightarrow> 'a CCheckQueue \<times> 'a place \<times> bool option" where
  "look fMaster q =
     (if cq_queue q = [] then
        (if (fMaster \<or> fQuit q) \<and> nTodo q = 0 then
           (q\<lparr>nTotal := nTotal q - 1, fAllOk := (if fMaster then True else fAllOk q)\<rparr>, Outside, Some (fAllOk q))
         else (q\<lparr>nIdle := nIdle q + 1\<rparr>, Waiting, None))
      else
        let nNow = batch_size q; k = length (cq_queue q) - nNow in
        (q\<lparr>cq_queue := take k (cq_queue q)\<rparr>, Running (rev (drop k (cq_queue q))) nNow (fAllOk q), None))"

definition Queue_Add :: "'a list \<Rightarrow> 'a CCheckQueue \<Rightarrow> 'a CCheckQueue" where
  "Queue_Add vChecks q = q\<lparr>cq_queue := cq_queue q @ vChecks, nTodo := (nTodo q + length vChecks) mod 2 ^ 32\<rparr>"

type_synonym 'a threads = "nat \<Rightarrow> 'a place"

text \<open>The condition variables: the master is the only thread that waits for \<open>condMaster\<close>.\<close>

definition notify_master :: "'a threads \<Rightarrow> 'a threads" where
  "notify_master T = (if T 0 = Waiting then T(0 := Notified) else T)"

definition notify_all :: "nat \<Rightarrow> 'a threads \<Rightarrow> 'a threads" where
  "notify_all n T = (\<lambda>t. if 1 \<le> t \<and> t \<le> n \<and> T t = Waiting then Notified else T t)"

inductive notify_one :: "nat \<Rightarrow> 'a threads \<Rightarrow> 'a threads \<Rightarrow> bool" for n T where
  some_worker: "1 \<le> t \<Longrightarrow> t \<le> n \<Longrightarrow> T t = Waiting \<Longrightarrow> notify_one n T (T(t := Notified))"
| no_worker: "(\<forall>t. 1 \<le> t \<longrightarrow> t \<le> n \<longrightarrow> T t \<noteq> Waiting) \<Longrightarrow> notify_one n T T"

definition notified :: "nat \<Rightarrow> nat \<Rightarrow> 'a threads \<Rightarrow> 'a threads \<Rightarrow> bool" where
  "notified n added T T' \<longleftrightarrow>
     (if added = 1 then notify_one n T T' else if added > 1 then T' = notify_all n T else T' = T)"

datatype 'a event = Added "'a list" | Calls nat | Returned nat bool | Wakes nat | Inside nat

type_synonym 'a queue_state = "'a CCheckQueue \<times> 'a threads"

definition ended :: "nat \<Rightarrow> bool option \<Rightarrow> 'a event" where
  "ended t r = (case r of None \<Rightarrow> Inside t | Some b \<Rightarrow> Returned t b)"

text \<open>
  The steps. Only the master adds checks, and never so many that their number leaves 32 bits; a thread may
  also be woken without being notified.
\<close>

inductive queue_step :: "('a \<Rightarrow> bool) \<Rightarrow> nat \<Rightarrow> 'a queue_state \<Rightarrow> 'a event \<Rightarrow> 'a queue_state \<Rightarrow> bool" for ok n where
  adds: "T 0 = Outside \<Longrightarrow> nTodo q + length vChecks < 2 ^ 32 \<Longrightarrow> notified n (length vChecks) T T' \<Longrightarrow>
     queue_step ok n (q, T) (Added vChecks) (Queue_Add vChecks q, T')"
| calls: "t \<le> n \<Longrightarrow> T t = Outside \<Longrightarrow> queue_step ok n (q, T) (Calls t) (q, T(t := Before 0 True))"
| enters: "t \<le> n \<Longrightarrow> T t = Before nNow fOk \<Longrightarrow> clean_up nNow fOk q = q1 \<Longrightarrow>
     T1 = (if nNow \<noteq> 0 \<and> nTodo q1 = 0 \<and> t \<noteq> 0 then notify_master T else T) \<Longrightarrow> look (t = 0) q1 = (q2, p, r) \<Longrightarrow>
     queue_step ok n (q, T) (ended t r) (q2, T1(t := p))"
| resumes: "t \<le> n \<Longrightarrow> T t = Notified \<Longrightarrow> look (t = 0) (q\<lparr>nIdle := nIdle q - 1\<rparr>) = (q2, p, r) \<Longrightarrow>
     queue_step ok n (q, T) (ended t r) (q2, T(t := p))"
| wakes: "t \<le> n \<Longrightarrow> T t = Waiting \<Longrightarrow> queue_step ok n (q, T) (Wakes t) (q, T(t := Notified))"
| checks: "t \<le> n \<Longrightarrow> T t = Running (c # cs) nNow fOk \<Longrightarrow>
     queue_step ok n (q, T) (Inside t) (q, T(t := Running cs nNow (if fOk then ok c else fOk)))"
| finishes: "t \<le> n \<Longrightarrow> T t = Running [] nNow fOk \<Longrightarrow>
     queue_step ok n (q, T) (Inside t) (q, T(t := Before nNow fOk))"

inductive queue_run :: "('a \<Rightarrow> bool) \<Rightarrow> nat \<Rightarrow> 'a queue_state \<Rightarrow> 'a event list \<Rightarrow> 'a queue_state \<Rightarrow> bool" for ok n s0 where
  queue_start: "queue_run ok n s0 [] s0"
| queue_next: "queue_run ok n s0 es s \<Longrightarrow> queue_step ok n s e s' \<Longrightarrow> queue_run ok n s0 (es @ [e]) s'"

definition queue_initial :: "nat \<Rightarrow> 'a queue_state" where
  "queue_initial nBatchSizeIn = (CCheckQueue_init nBatchSizeIn, \<lambda>t. Outside)"

text \<open>The checks that were added since the master last returned.\<close>

fun since_return :: "'a list \<Rightarrow> 'a event list \<Rightarrow> 'a list" where
  "since_return cs [] = cs"
| "since_return cs (e # es) =
     (case e of Added vChecks \<Rightarrow> since_return (cs @ vChecks) es
      | Returned t b \<Rightarrow> since_return (if t = 0 then [] else cs) es
      | _ \<Rightarrow> since_return cs es)"

subsection \<open>The invariant of the queue\<close>

fun held :: "'a place \<Rightarrow> int" where
  "held (Before nNow fOk) = int nNow"
| "held (Running cs nNow fOk) = int nNow"
| "held _ = 0"

fun inside :: "'a place \<Rightarrow> int" where
  "inside Outside = 0"
| "inside (Before nNow fOk) = (if nNow = 0 then 0 else 1)"
| "inside _ = 1"

fun idle :: "'a place \<Rightarrow> int" where
  "idle Waiting = 1"
| "idle Notified = 1"
| "idle _ = 0"

fun place_ok :: "'a place \<Rightarrow> bool" where
  "place_ok (Before nNow fOk) \<longleftrightarrow> (nNow = 0 \<longrightarrow> fOk)"
| "place_ok (Running cs nNow fOk) \<longleftrightarrow> 0 < nNow \<and> length cs \<le> nNow"
| "place_ok _ \<longleftrightarrow> True"

fun promising :: "('a \<Rightarrow> bool) \<Rightarrow> 'a place \<Rightarrow> bool" where
  "promising ok (Before nNow fOk) \<longleftrightarrow> fOk"
| "promising ok (Running cs nNow fOk) \<longleftrightarrow> fOk \<and> (\<forall>c \<in> set cs. ok c)"
| "promising ok _ \<longleftrightarrow> True"

text \<open>
  The counters are what they count, the checks in \<open>cs\<close> all succeed iff what is known and what is left of
  them does, and a master that waits has something to wait for. A thread that is in the section, and not
  counted among the places, is the difference \<open>d\<close>.
\<close>

definition queue_inv :: "int \<Rightarrow> ('a \<Rightarrow> bool) \<Rightarrow> nat \<Rightarrow> 'a list \<Rightarrow> 'a queue_state \<Rightarrow> bool" where
  "queue_inv d ok n cs = (\<lambda>(q, T).
     int (nTodo q) = int (length (cq_queue q)) + (\<Sum>t\<le>n. held (T t)) \<and> nTotal q = (\<Sum>t\<le>n. inside (T t)) + d \<and>
     nIdle q = (\<Sum>t\<le>n. idle (T t)) \<and> nTodo q < 2 ^ 32 \<and> nTodo q \<le> length cs \<and> \<not> fQuit q \<and> (\<forall>t\<le>n. place_ok (T t)) \<and>
     ((\<forall>c \<in> set cs. ok c) \<longleftrightarrow> fAllOk q \<and> (\<forall>c \<in> set (cq_queue q). ok c) \<and> (\<forall>t\<le>n. promising ok (T t))) \<and>
     (T 0 = Waiting \<longrightarrow> cq_queue q = [] \<and> 0 < nTodo q))"

lemma sum_place: "t \<le> n \<Longrightarrow> (\<Sum>i\<le>n. f ((T(t := p)) i)) = (\<Sum>i\<le>n. f (T i)) - f (T t) + (f p :: int)" for n :: nat
proof -
  assume t: "t \<le> n"
  have "(\<Sum>i\<le>n. f ((T(t := p)) i)) = f p + (\<Sum>i \<in> {..n} - {t}. f ((T(t := p)) i))"
    using t by (simp add: sum.remove [of "{..n}" t])
  also have "(\<Sum>i \<in> {..n} - {t}. f ((T(t := p)) i)) = (\<Sum>i \<in> {..n} - {t}. f (T i))" by (rule sum.cong) auto
  also have "\<dots> = (\<Sum>i\<le>n. f (T i)) - f (T t)" using t by (simp add: sum.remove [of "{..n}" t "\<lambda>i. f (T i)"])
  finally show ?thesis by simp
qed

lemma queue_inv_place:
  assumes "t \<le> n"
  shows "queue_inv d ok n cs (q, T(t := p)) \<longleftrightarrow>
     int (nTodo q) = int (length (cq_queue q)) + ((\<Sum>i\<le>n. held (T i)) - held (T t) + held p) \<and>
     nTotal q = ((\<Sum>i\<le>n. inside (T i)) - inside (T t) + inside p) + d \<and>
     nIdle q = (\<Sum>i\<le>n. idle (T i)) - idle (T t) + idle p \<and> nTodo q < 2 ^ 32 \<and> nTodo q \<le> length cs \<and> \<not> fQuit q \<and>
     (place_ok p \<and> (\<forall>i\<le>n. i \<noteq> t \<longrightarrow> place_ok (T i))) \<and>
     ((\<forall>c \<in> set cs. ok c) \<longleftrightarrow> fAllOk q \<and> (\<forall>c \<in> set (cq_queue q). ok c) \<and>
        (promising ok p \<and> (\<forall>i\<le>n. i \<noteq> t \<longrightarrow> promising ok (T i)))) \<and>
     ((if t = 0 then p else T 0) = Waiting \<longrightarrow> cq_queue q = [] \<and> 0 < nTodo q)"
proof -
  have "(\<forall>i\<le>n. P ((T(t := p)) i)) \<longleftrightarrow> P p \<and> (\<forall>i\<le>n. i \<noteq> t \<longrightarrow> P (T i))" for P using assms by auto
  then show ?thesis unfolding queue_inv_def prod.case by (simp only: sum_place [OF assms]) (simp only: fun_upd_def eq_commute [of 0 t])
qed

lemmas queue_inv_same = queue_inv_place [of t n d ok cs q T "T t" for t n d ok cs q T, unfolded fun_upd_triv]

lemma held_nonneg: "0 \<le> held p" by (cases p) auto
lemma inside_nonneg: "0 \<le> inside p" by (cases p) auto
lemma idle_nonneg: "0 \<le> idle p" by (cases p) auto

text \<open>Waking threads changes nothing that the invariant counts.\<close>

definition woken :: "'a threads \<Rightarrow> 'a threads \<Rightarrow> bool" where
  "woken T T' \<longleftrightarrow> (\<forall>t. T' t = T t \<or> (T t = Waiting \<and> T' t = Notified))"

lemma woken_same:
  assumes "woken T T'"
  shows "held (T' t) = held (T t)" "inside (T' t) = inside (T t)" "idle (T' t) = idle (T t)"
    "place_ok (T' t) = place_ok (T t)" "promising ok (T' t) = promising ok (T t)" "T' t = Waiting \<Longrightarrow> T t = Waiting"
  using spec [OF assms [unfolded woken_def], of t] by auto

lemma woken_notified: "notified n k T T' \<Longrightarrow> woken T T'"
  by (auto simp: notified_def woken_def notify_all_def notify_one.simps split: if_splits)

lemma woken_master: "woken T (notify_master T)" by (simp add: woken_def notify_master_def)

lemma queue_inv_woken: "woken T T' \<Longrightarrow> queue_inv d ok n cs (q, T) \<Longrightarrow> queue_inv d ok n cs (q, T')"
  using woken_same(6) [of T T' 0] by (auto simp: queue_inv_def woken_same(1-5))

lemma Queue_Add_inv:
  assumes "queue_inv 0 ok n cs (q, T)" "T 0 = Outside" "nTodo q + length vChecks < 2 ^ 32"
  shows "queue_inv 0 ok n (cs @ vChecks) (Queue_Add vChecks q, T)"
  using assms by (auto simp: queue_inv_def Queue_Add_def)

lemma look_inv:
  assumes inv: "queue_inv 1 ok n cs (q, T)" and t: "t \<le> n" "T t = Outside" and lk: "look (t = 0) q = (q2, p, r)"
  shows "queue_inv 0 ok n (if t = 0 \<and> r \<noteq> None then [] else cs) (q2, T(t := p)) \<and>
    (r \<noteq> None \<longrightarrow> t = 0 \<and> p = Outside \<and> r = Some (\<forall>c \<in> set cs. ok c) \<and> IsIdle q2) \<and> (r = None \<longrightarrow> p \<noteq> Outside)"
proof -
  note i = inv [unfolded queue_inv_same [OF t(1)] t(2)]
  consider (empty) "cq_queue q = []" "\<not> (t = 0 \<and> nTodo q = 0)" | (all_done) "cq_queue q = []" "t = 0" "nTodo q = 0"
    | (some) "cq_queue q \<noteq> []" by blast
  then show ?thesis
  proof cases
    case empty
    then have r: "q2 = q\<lparr>nIdle := nIdle q + 1\<rparr>" "p = Waiting" "r = None"
      using lk i by (auto simp: look_def split: if_splits)
    show ?thesis using i empty unfolding queue_inv_place [OF t(1)] t(2) r by (cases "t = 0"; simp)
  next
    case all_done
    then have r: "q2 = q\<lparr>nTotal := nTotal q - 1, fAllOk := True\<rparr>" "p = Outside" "r = Some (fAllOk q)"
      using lk by (auto simp: look_def)
    have zero: "held (T j) = 0" if "j \<le> n" for j
    proof -
      have "(\<Sum>j\<le>n. held (T j)) = 0" using i all_done by simp
      then show ?thesis using that by (simp add: sum_nonneg_eq_0_iff held_nonneg)
    qed
    have pl: "place_ok (T j)" if "j \<le> n" for j using inv that by (simp add: queue_inv_def)
    have good: "promising ok (T j)" "inside (T j) = idle (T j)" if "j \<le> n" for j
      using zero [OF that] pl [OF that] by (cases "T j"; simp)+
    have eq: "(\<Sum>j\<le>n. inside (T j)) = (\<Sum>j\<le>n. idle (T j))" using good(2) by (intro sum.cong) auto
    have "queue_inv 0 ok n [] (q2, T(t := p))"
      using i eq all_done good pl unfolding queue_inv_place [OF t(1)] t(2) r by simp
    moreover have "fAllOk q = (\<forall>c \<in> set cs. ok c)" using i all_done good(1) by simp
    moreover have "IsIdle q2" using i eq all_done by (simp add: IsIdle_def r)
    ultimately show ?thesis using all_done by (simp add: r)
  next
    case some
    let ?b = "batch_size q" let ?k = "length (cq_queue q) - ?b"
    have r: "q2 = q\<lparr>cq_queue := take ?k (cq_queue q)\<rparr>" "p = Running (rev (drop ?k (cq_queue q))) ?b (fAllOk q)" "r = None"
      using lk some by (auto simp: look_def Let_def)
    have "batch_size q \<le> max 1 (length (cq_queue q) mod 2 ^ 32)"
      unfolding batch_size_def by (rule max.mono [OF order_refl]) (rule order_trans [OF min.cobounded2 div_le_dividend])
    also have "\<dots> \<le> length (cq_queue q)"
      using some mod_less_eq_dividend [of "length (cq_queue q)" "2 ^ 32"] by (cases "cq_queue q") auto
    finally have b: "batch_size q \<le> length (cq_queue q)" "0 < batch_size q" by (auto simp: batch_size_def)
    have m: "t \<noteq> 0 \<longrightarrow> T 0 \<noteq> Waiting" using i some by auto
    have "set (cq_queue q) = set (take ?k (cq_queue q)) \<union> set (drop ?k (cq_queue q))"
      by (metis append_take_drop_id set_append)
    then have sets: "(\<forall>c \<in> set (cq_queue q). ok c) \<longleftrightarrow> (\<forall>c \<in> set (take ?k (cq_queue q)). ok c) \<and> (\<forall>c \<in> set (drop ?k (cq_queue q)). ok c)"
      by (metis Un_iff)
    have "queue_inv 0 ok n cs (q2, T(t := p))"
      using i b m sets unfolding queue_inv_place [OF t(1)] t(2) r by auto
    then show ?thesis using r by simp
  qed
qed

lemma clean_up_inv:
  assumes inv: "queue_inv 0 ok n cs (q, T)" and t: "t \<le> n" "T t = Before nNow fOk" and q1: "clean_up nNow fOk q = q1"
    and T1: "T1 = (if nNow \<noteq> 0 \<and> nTodo q1 = 0 \<and> t \<noteq> 0 then notify_master T else T)"
  shows "queue_inv 1 ok n cs (q1, T1(t := Outside))"
proof -
  note i = inv [unfolded queue_inv_same [OF t(1)] t(2)]
  have other: "0 \<le> (\<Sum>i\<le>n. held (T i)) - held (T t)"
    using t(1) by (simp add: sum.remove [of "{..n}" t "\<lambda>i. held (T i)"] sum_nonneg held_nonneg)
  have k: "nNow \<le> nTodo q" "nTodo q - nNow < 2 ^ 32" using i other t(2) by auto
  have todo: "(nTodo q + (2 ^ 32 - nNow)) mod 2 ^ 32 = nTodo q - nNow" if "nNow \<noteq> 0"
  proof -
    have "nTodo q + (2 ^ 32 - nNow) = (nTodo q - nNow) + 2 ^ 32" using k i by simp
    then show ?thesis using k(2) by simp
  qed
  show ?thesis
  proof (cases "nNow = 0")
    case True
    then have q1: "q1 = q\<lparr>nTotal := nTotal q + 1\<rparr>" "T1 = T" using q1 T1 by (auto simp: clean_up_def)
    show ?thesis using i True t(2) unfolding queue_inv_place [OF t(1)] q1 by (cases "t = 0"; auto)
  next
    case False
    then have q1: "q1 = q\<lparr>fAllOk := (fAllOk q \<and> fOk), nTodo := nTodo q - nNow\<rparr>"
      using q1 todo by (simp add: clean_up_def)
    have left: "0 < nTodo q1" if "T1 0 = Waiting" "t \<noteq> 0" using that False by (auto simp: T1 notify_master_def split: if_splits)
    have T10: "T1 0 = Waiting \<longrightarrow> T 0 = Waiting" by (simp add: T1 notify_master_def)
    have p: "held (T1 j) = held (T j)" "inside (T1 j) = inside (T j)" "idle (T1 j) = idle (T j)"
        "place_ok (T1 j) = place_ok (T j)" "promising ok (T1 j) = promising ok (T j)" for j
      by (simp_all add: T1 notify_master_def)
    show ?thesis
      using i False t(2) left T10 k unfolding queue_inv_place [OF t(1)] p by (cases "t = 0"; auto simp: q1)
  qed
qed

lemma resume_inv:
  assumes "queue_inv 0 ok n cs (q, T)" and t: "t \<le> n" "T t = Notified"
  shows "queue_inv 1 ok n cs (q\<lparr>nIdle := nIdle q - 1\<rparr>, T(t := Outside))"
proof -
  note i = assms(1) [unfolded queue_inv_same [OF t(1)] t(2)]
  show ?thesis using i unfolding queue_inv_place [OF t(1)] t(2) by (cases "t = 0"; auto)
qed

text \<open>What a step does to the checks that are pending.\<close>

fun pending_after :: "'a list \<Rightarrow> 'a event \<Rightarrow> 'a list" where
  "pending_after cs (Added vChecks) = cs @ vChecks"
| "pending_after cs (Returned t b) = (if t = 0 then [] else cs)"
| "pending_after cs e = cs"

lemma since_return_snoc: "since_return cs (es @ [e]) = pending_after (since_return cs es) e"
proof (induction es arbitrary: cs)
  case Nil
  show ?case by (cases e) auto
next
  case (Cons a es)
  then show ?case by (cases a) auto
qed

lemma pending_after_ended: "pending_after cs (ended t r) = (if t = 0 \<and> r \<noteq> None then [] else cs)"
  by (cases r) (auto simp: ended_def)

lemma queue_step_inv:
  assumes "queue_step ok n s e s'" "queue_inv 0 ok n cs s"
  shows "queue_inv 0 ok n (pending_after cs e) s' \<and>
    (\<forall>t b. e = Returned t b \<longrightarrow> t = 0 \<and> (b \<longleftrightarrow> (\<forall>c \<in> set cs. ok c)) \<and> IsIdle (fst s'))"
  using assms
proof (induction rule: queue_step.induct)
  case (adds T q vChecks T')
  have "queue_inv 0 ok n (cs @ vChecks) (Queue_Add vChecks q, T)" by (rule Queue_Add_inv [OF adds.prems adds.hyps(1,2)])
  then show ?case using queue_inv_woken [OF woken_notified [OF adds.hyps(3)]] by simp
next
  case (calls t T q)
  have "queue_inv 0 ok n cs (q, T(t := Before 0 True))"
    using calls.prems [unfolded queue_inv_same [OF calls.hyps(1)] calls.hyps(2)]
    unfolding queue_inv_place [OF calls.hyps(1)] calls.hyps(2) by (cases "t = 0"; auto)
  then show ?case by simp
next
  case (enters t T nNow fOk q q1 T1 q2 p r)
  have inv: "queue_inv 1 ok n cs (q1, T1(t := Outside))" by (rule clean_up_inv [OF enters.prems enters.hyps(1-4)])
  from look_inv [OF inv enters.hyps(1) _ enters.hyps(5)] show ?case
    by (cases r) (simp_all add: pending_after_ended, auto simp: ended_def)
next
  case (resumes t T q q2 p r)
  have inv: "queue_inv 1 ok n cs (q\<lparr>nIdle := nIdle q - 1\<rparr>, T(t := Outside))" by (rule resume_inv [OF resumes.prems resumes.hyps(1,2)])
  from look_inv [OF inv resumes.hyps(1) _ resumes.hyps(3)] show ?case
    by (cases r) (simp_all add: pending_after_ended, auto simp: ended_def)
next
  case (wakes t T q)
  have "woken T (T(t := Notified))" using wakes.hyps by (simp add: woken_def)
  then show ?case using queue_inv_woken wakes.prems by fastforce
next
  case (checks t T c cs' nNow fOk q)
  have "queue_inv 0 ok n cs (q, T(t := Running cs' nNow (if fOk then ok c else fOk)))"
    using checks.prems [unfolded queue_inv_same [OF checks.hyps(1)] checks.hyps(2)]
    unfolding queue_inv_place [OF checks.hyps(1)] checks.hyps(2) by (cases "t = 0"; auto)
  then show ?case by simp
next
  case (finishes t T nNow fOk q)
  have "queue_inv 0 ok n cs (q, T(t := Before nNow fOk))"
    using finishes.prems [unfolded queue_inv_same [OF finishes.hyps(1)] finishes.hyps(2)]
    unfolding queue_inv_place [OF finishes.hyps(1)] finishes.hyps(2) by (cases "t = 0"; auto)
  then show ?case by simp
qed

lemma queue_run_inv: "queue_run ok n (queue_initial B) es s \<Longrightarrow> queue_inv 0 ok n (since_return [] es) s"
proof (induction rule: queue_run.induct)
  case queue_start
  show ?case by (simp add: queue_inv_def queue_initial_def CCheckQueue_init_def)
next
  case (queue_next es s e s')
  then show ?case using queue_step_inv by (fastforce simp: since_return_snoc)
qed

text \<open>C10: However the threads interleave, when \<open>Wait\<close> returns to the master, it returns true iff all the
  checks added since it last returned succeed; no thread ever returns otherwise, and the queue is then
  idle again, as the constructor of the next \<open>CCheckQueueControl\<close> asserts.
\<close>

theorem Wait_returns_conjunction:
  assumes "queue_run ok n (queue_initial nBatchSizeIn) es s" and "queue_step ok n s (Returned t b) s'"
  shows "t = 0 \<and> (b \<longleftrightarrow> (\<forall>c \<in> set (since_return [] es). ok c)) \<and> IsIdle (fst s')"
  using queue_step_inv [OF assms(2) queue_run_inv [OF assms(1)]] by simp

subsection \<open>Waiting ends\<close>

text \<open>The steps by which the threads that are in \<open>Loop\<close> get on, without unprovoked wake-ups.\<close>

fun works :: "'a event \<Rightarrow> bool" where
  "works (Inside t) \<longleftrightarrow> True"
| "works (Returned t b) \<longleftrightarrow> True"
| "works e \<longleftrightarrow> False"

lemma works_ended [simp]: "works (ended t r)"
  by (cases r) (simp_all add: ended_def)

text \<open>What is still to do, in steps.\<close>

fun place_cost :: "'a place \<Rightarrow> int" where
  "place_cost Outside = 0"
| "place_cost (Before nNow fOk) = 2"
| "place_cost (Running cs nNow fOk) = 3 + int (length cs)"
| "place_cost Waiting = 0"
| "place_cost Notified = 1"

definition queue_cost :: "nat \<Rightarrow> 'a queue_state \<Rightarrow> int" where
  "queue_cost n = (\<lambda>(q, T). 4 * int (length (cq_queue q)) + (\<Sum>t\<le>n. place_cost (T t)))"

lemma queue_cost_nonneg: "0 \<le> queue_cost n s"
proof -
  have "0 \<le> place_cost p" for p :: "'a place" by (cases p) auto
  then show ?thesis by (simp add: queue_cost_def sum_nonneg split: prod.split)
qed

lemma look_cost:
  assumes "queue_inv 1 ok n cs (q, T)" "t \<le> n" "T t = Outside" "look (t = 0) q = (q2, p, r)"
  shows "(cq_queue q2 = cq_queue q \<and> place_cost p = 0) \<or>
    (cq_queue q \<noteq> [] \<and> 4 * int (length (cq_queue q2)) + place_cost p < 4 * int (length (cq_queue q)) + 1)"
proof (cases "cq_queue q = []")
  case True
  then show ?thesis using assms(4) by (auto simp: look_def split: if_splits)
next
  case False
  let ?b = "batch_size q" let ?k = "length (cq_queue q) - ?b"
  have r: "q2 = q\<lparr>cq_queue := take ?k (cq_queue q)\<rparr>" "p = Running (rev (drop ?k (cq_queue q))) ?b (fAllOk q)"
    using assms(4) False by (auto simp: look_def Let_def)
  have "0 < length (cq_queue q)" "0 < ?b" using False by (auto simp: batch_size_def)
  then have "?k < length (cq_queue q)" by simp
  then show ?thesis using False by (simp add: r)
qed

lemma works_cost:
  assumes "queue_step ok n s e s'" "queue_inv 0 ok n cs s" "works e"
  shows "queue_cost n s' < queue_cost n s"
  using assms
proof (induction rule: queue_step.induct)
  case (enters t T nNow fOk q q1 T1 q2 p r)
  have inv: "queue_inv 1 ok n cs (q1, T1(t := Outside))" by (rule clean_up_inv [OF enters.prems(1) enters.hyps(1-4)])
  have q1: "cq_queue q1 = cq_queue q" using enters.hyps(3) by (auto simp: clean_up_def)
  have "T1 t = T t" using enters.hyps(2,4) by (auto simp: notify_master_def)
  then have s: "(\<Sum>i\<le>n. place_cost ((T1(t := p)) i)) = (\<Sum>i\<le>n. place_cost (T1 i)) - 2 + place_cost p"
    using sum_place [OF enters.hyps(1), of place_cost T1 p] enters.hyps(2) by simp
  note lk = look_cost [OF inv enters.hyps(1) fun_upd_same enters.hyps(5)]
  show ?case
  proof (cases "nNow \<noteq> 0 \<and> nTodo q1 = 0 \<and> t \<noteq> 0 \<and> T 0 = Waiting")
    case True
    have "0 \<le> (\<Sum>i\<le>n. held ((T1(t := Outside)) i))" by (simp add: sum_nonneg held_nonneg)
    moreover have "int (nTodo q1) = int (length (cq_queue q1)) + (\<Sum>i\<le>n. held ((T1(t := Outside)) i))"
      using inv unfolding queue_inv_def prod.case by (rule conjunct1)
    ultimately have "length (cq_queue q1) = 0" using True by linarith
    then have "cq_queue q1 = []" by simp
    then have "place_cost p = 0" "cq_queue q2 = []" using lk by auto
    moreover have "(\<Sum>i\<le>n. place_cost (T1 i)) = (\<Sum>i\<le>n. place_cost (T i)) + 1"
      using True sum_place [of 0 n place_cost T Notified] enters.hyps(4) by (simp add: notify_master_def del: fun_upd_apply)
    ultimately show ?thesis using s by (simp add: queue_cost_def del: fun_upd_apply)
  next
    case False
    then have "T1 = T" using enters.hyps(4) by (auto simp: notify_master_def)
    then show ?thesis using lk s q1 by (auto simp: queue_cost_def simp del: fun_upd_apply)
  qed
next
  case (resumes t T q q2 p r)
  have inv: "queue_inv 1 ok n cs (q\<lparr>nIdle := nIdle q - 1\<rparr>, T(t := Outside))" by (rule resume_inv [OF resumes.prems(1) resumes.hyps(1,2)])
  have s: "(\<Sum>i\<le>n. place_cost ((T(t := p)) i)) = (\<Sum>i\<le>n. place_cost (T i)) - 1 + place_cost p"
    using sum_place [OF resumes.hyps(1), of place_cost T p] resumes.hyps(2) by simp
  show ?case using look_cost [OF inv resumes.hyps(1) fun_upd_same resumes.hyps(3)] s by (auto simp: queue_cost_def simp del: fun_upd_apply)
next
  case (checks t T c cs' nNow fOk q)
  show ?case using sum_place [OF checks.hyps(1), of place_cost T] checks.hyps(2) by (simp add: queue_cost_def del: fun_upd_apply)
next
  case (finishes t T nNow fOk q)
  show ?case using sum_place [OF finishes.hyps(1), of place_cost T] finishes.hyps(2) by (simp add: queue_cost_def del: fun_upd_apply)
qed simp_all

text \<open>While the master is in \<open>Loop\<close>, some thread can get on.\<close>

lemma place_works:
  assumes "t \<le> n" "T t \<noteq> Outside" "T t \<noteq> Waiting"
  shows "\<exists>e s'. works e \<and> queue_step ok n (q, T) e s'"
proof (cases "T t")
  case (Before nNow fOk)
  let ?q = "clean_up nNow fOk q"
  obtain q2 p r where "look (t = 0) ?q = (q2, p, r)" by (rule prod_cases3)
  then have "queue_step ok n (q, T) (ended t r) (q2, (if nNow \<noteq> 0 \<and> nTodo ?q = 0 \<and> t \<noteq> 0 then notify_master T else T)(t := p))"
    using enters [of t n T nNow fOk q ?q "if nNow \<noteq> 0 \<and> nTodo ?q = 0 \<and> t \<noteq> 0 then notify_master T else T" q2 p r ok] assms(1) Before
    by blast
  then show ?thesis using works_ended by blast
next
  case (Running cs nNow fOk)
  show ?thesis
  proof (cases cs)
    case Nil
    then show ?thesis using finishes [OF assms(1), of T nNow fOk ok q] Running by (metis works.simps(1))
  next
    case (Cons c cs')
    then show ?thesis using checks [OF assms(1), of T c cs' nNow fOk ok q] Running by (metis works.simps(1))
  qed
next
  case Notified
  obtain q2 p r where "look (t = 0) (q\<lparr>nIdle := nIdle q - 1\<rparr>) = (q2, p, r)" by (rule prod_cases3)
  then have "queue_step ok n (q, T) (ended t r) (q2, T(t := p))"
    using resumes [of t n T q q2 p r ok] assms(1) Notified by blast
  then show ?thesis using works_ended by blast
qed (use assms in simp_all)

lemma master_works:
  assumes inv: "queue_inv 0 ok n cs (q, T)" and "T 0 \<noteq> Outside"
  shows "\<exists>e s'. works e \<and> queue_step ok n (q, T) e s'"
proof (cases "T 0 = Waiting")
  case True
  then have "0 < (\<Sum>t\<le>n. held (T t))" using inv by (auto simp: queue_inv_def)
  then obtain t where t: "t \<le> n" "held (T t) \<noteq> 0"
    by (metis (mono_tags, lifting) atMost_iff less_irrefl sum.neutral)
  then have "T t \<noteq> Outside" "T t \<noteq> Waiting" by auto
  then show ?thesis by (rule place_works [OF t(1)])
qed (use assms place_works [of 0] in auto)

lemma working_run:
  "queue_run ok n s ws s' \<Longrightarrow> queue_inv 0 ok n cs s \<Longrightarrow> \<forall>e \<in> set ws. works e \<Longrightarrow>
     (\<exists>cs'. queue_inv 0 ok n cs' s') \<and> int (length ws) + queue_cost n s' \<le> queue_cost n s"
proof (induction rule: queue_run.induct)
  case (queue_next es s1 e s2)
  then obtain cs' where inv: "queue_inv 0 ok n cs' s1" by auto
  have "queue_cost n s2 < queue_cost n s1" using works_cost [OF queue_next.hyps(2) inv] queue_next.prems by simp
  then show ?case using queue_step_inv [OF queue_next.hyps(2) inv] queue_next by auto
qed auto

text \<open>C11: \<open>Wait\<close> comes to its end, without a lost notification and without unprovoked wake-ups: from a
  reachable state, the threads that are in \<open>Loop\<close> can make a bounded number of steps only, and as long as
  the master has not returned, one of them can make a step.
\<close>

theorem Wait_ends:
  assumes "queue_run ok n (queue_initial nBatchSizeIn) es s"
  shows "\<exists>k. \<forall>ws s'. queue_run ok n s ws s' \<longrightarrow> (\<forall>e \<in> set ws. works e) \<longrightarrow>
    length ws \<le> k \<and> (snd s' 0 \<noteq> Outside \<longrightarrow> (\<exists>e s''. works e \<and> queue_step ok n s' e s''))"
proof (intro exI [of _ "nat (queue_cost n s)"] allI impI)
  fix ws s' assume run: "queue_run ok n s ws s'" and ws: "\<forall>e \<in> set ws. works e"
  note r = working_run [OF run queue_run_inv [OF assms] ws]
  show "length ws \<le> nat (queue_cost n s) \<and> (snd s' 0 \<noteq> Outside \<longrightarrow> (\<exists>e s''. works e \<and> queue_step ok n s' e s''))"
    using r queue_cost_nonneg [of n s'] master_works [of ok n _ "fst s'" "snd s'"] by auto
qed

text \<open>A run with one worker, and one check that fails.\<close>

lemma example_queue_run:
  "queue_run (\<lambda>c. c) 1 (queue_initial 128) [Added [False], Calls 0, Inside 0, Inside 0, Inside 0]
     (\<lparr>cq_queue = [], nIdle = 0, nTotal = 1, fAllOk = True, nTodo = 1, fQuit = False, nBatchSize = 128\<rparr>,
      (\<lambda>t. Outside)(0 := Before 1 False))"
proof -
  let ?T = "\<lambda>t :: nat. Outside" and ?q = "\<lambda>q todo tot. \<lparr>cq_queue = q, nIdle = 0, nTotal = tot, fAllOk = True, nTodo = todo, fQuit = False, nBatchSize = 128\<rparr>"
  let ?ok = "\<lambda>c :: bool. c"
  have init: "queue_run ?ok 1 (queue_initial 128) [] (?q [] 0 0, ?T)"
    using queue_start [of ?ok 1 "queue_initial 128"] by (simp add: queue_initial_def CCheckQueue_init_def)
  have "notified 1 1 ?T ?T" by (simp add: notified_def notify_one.simps)
  then have "queue_step ?ok 1 (?q [] 0 0, ?T) (Added [False]) (?q [False] 1 0, ?T)"
    using adds [of ?T "?q [] 0 0" "[False]" 1 ?T ?ok] by (simp add: Queue_Add_def)
  from queue_next [OF init this] have r1: "queue_run ?ok 1 (queue_initial 128) [Added [False]] (?q [False] 1 0, ?T)" by simp
  have "queue_step ?ok 1 (?q [False] 1 0, ?T) (Calls 0) (?q [False] 1 0, ?T(0 := Before 0 True))"
    using calls [of 0 1 ?T ?ok] by simp
  from queue_next [OF r1 this] have r2: "queue_run ?ok 1 (queue_initial 128) [Added [False], Calls 0] (?q [False] 1 0, ?T(0 := Before 0 True))" by simp
  have "queue_step ?ok 1 (?q [False] 1 0, ?T(0 := Before 0 True)) (Inside 0) (?q [] 1 1, ?T(0 := Running [False] 1 True))"
    using enters [of 0 1 "?T(0 := Before 0 True)" 0 True "?q [False] 1 0" "?q [False] 1 1" "?T(0 := Before 0 True)" "?q [] 1 1" "Running [False] 1 True" None ?ok]
    by (simp add: clean_up_def look_def Let_def batch_size_def ended_def)
  from queue_next [OF r2 this]
  have r3: "queue_run ?ok 1 (queue_initial 128) [Added [False], Calls 0, Inside 0] (?q [] 1 1, ?T(0 := Running [False] 1 True))" by simp
  have "queue_step ?ok 1 (?q [] 1 1, ?T(0 := Running [False] 1 True)) (Inside 0) (?q [] 1 1, ?T(0 := Running [] 1 False))"
    using checks [of 0 1 "?T(0 := Running [False] 1 True)" False "[]" 1 True ?ok] by simp
  from queue_next [OF r3 this]
  have r4: "queue_run ?ok 1 (queue_initial 128) [Added [False], Calls 0, Inside 0, Inside 0] (?q [] 1 1, ?T(0 := Running [] 1 False))" by simp
  have "queue_step ?ok 1 (?q [] 1 1, ?T(0 := Running [] 1 False)) (Inside 0) (?q [] 1 1, ?T(0 := Before 1 False))"
    using finishes [of 0 1 "?T(0 := Running [] 1 False)" 1 False ?ok] by simp
  from queue_next [OF r4 this] show ?thesis by simp
qed

lemma Wait_returns_conjunction_witness:
  "\<not> (\<forall>c \<in> set (since_return [] [Added [False], Calls 0, Inside 0, Inside 0, Inside 0]). c)"
proof -
  let ?q = "\<lambda>todo tot ok. \<lparr>cq_queue = [], nIdle = 0, nTotal = tot, fAllOk = ok, nTodo = todo, fQuit = False, nBatchSize = 128\<rparr>"
  have out: "(\<lambda>t. Outside)(0 := Outside) = (\<lambda>t :: nat. Outside)" by auto
  have "queue_step (\<lambda>c. c) 1 (?q 1 1 True, (\<lambda>t. Outside)(0 := Before 1 False)) (Returned 0 False) (?q 0 0 True, \<lambda>t. Outside)"
    using enters [of 0 1 "(\<lambda>t. Outside)(0 := Before 1 False)" 1 False "?q 1 1 True" "?q 0 1 False" "(\<lambda>t. Outside)(0 := Before 1 False)"
        "?q 0 0 True" Outside "Some False" "\<lambda>c. c"]
    by (simp add: clean_up_def look_def ended_def out)
  from Wait_returns_conjunction [OF example_queue_run this] show ?thesis by simp
qed

lemma Wait_ends_witness:
  "\<exists>k. \<forall>ws s'. queue_run (\<lambda>c. c) 1
       (\<lparr>cq_queue = [], nIdle = 0, nTotal = 1, fAllOk = True, nTodo = 1, fQuit = False, nBatchSize = 128\<rparr>,
        (\<lambda>t. Outside)(0 := Before 1 False)) ws s' \<longrightarrow> (\<forall>e \<in> set ws. works e) \<longrightarrow>
     length ws \<le> k \<and> (snd s' 0 \<noteq> Outside \<longrightarrow> (\<exists>e s''. works e \<and> queue_step (\<lambda>c. c) 1 s' e s''))"
  by (rule Wait_ends [OF example_queue_run])

end
