(* ===== verification/Coins.thy ===== *)
theory Coins
  imports Transaction "HOL-Library.AList"
begin

text \<open>
  The unspent outputs of transactions and the views of them, coins.h and coins.cpp: \<open>CCoins\<close>, the
  interface \<open>CCoinsView\<close>, and the cache \<open>CCoinsViewCache\<close> that sits on another view, with its
  \<open>DIRTY\<close> and \<open>FRESH\<close> entries, its batch writes and its accounting of memory.

  A view is given by its operations on a state of its own (a record \<open>CCoinsView\<close>, what the virtual
  functions of the class are); the reading operations return a state too, because a cache fills
  itself when it is read. What every view promises is the locale \<open>coins_view\<close>: the map of the
  transactions with an unspent output that the state stands for, which reading keeps and a batch
  write overrides. The cache on any view that keeps this contract keeps it as well, and its
  operations do to the map of the cache what their names say, whatever the entries and flags are.
\<close>

subsection \<open>CCoins\<close>

record CCoins =
  fCoinBase :: bool
  c_vout :: "CTxOut list"
  c_nHeight :: int
  c_nVersion :: int

definition CCoins_init :: CCoins where
  "CCoins_init = \<lparr>fCoinBase = False, c_vout = [], c_nHeight = 0, c_nVersion = 0\<rparr>"

definition CCoins_Clear :: "CCoins \<Rightarrow> CCoins" where
  "CCoins_Clear c = c\<lparr>fCoinBase := False, c_vout := [], c_nHeight := 0, c_nVersion := 0\<rparr>"

text \<open>The loop that pops the outputs at the end of the vector while they are null.\<close>

function Cleanup_loop :: "CTxOut list \<Rightarrow> CTxOut list" where
  "Cleanup_loop outs =
     (if length outs > 0 \<and> CTxOut_IsNull (last outs) then Cleanup_loop (butlast outs) else outs)"
  by auto
termination by (relation "measure length") auto

declare Cleanup_loop.simps [simp del]

definition Cleanup :: "CCoins \<Rightarrow> CCoins" where
  "Cleanup c = c\<lparr>c_vout := Cleanup_loop (c_vout c)\<rparr>"

definition ClearUnspendable :: "CCoins \<Rightarrow> CCoins" where
  "ClearUnspendable c =
     Cleanup (c\<lparr>c_vout := map (\<lambda>out. if IsUnspendable (scriptPubKey out) then CTxOut_SetNull else out) (c_vout c)\<rparr>)"

definition FromTx :: "CCoins \<Rightarrow> CTransaction \<Rightarrow> int \<Rightarrow> CCoins" where
  "FromTx c tx nHeightIn =
     ClearUnspendable (c\<lparr>fCoinBase := IsCoinBase tx, c_vout := vout tx, c_nHeight := nHeightIn,
                         c_nVersion := nVersion tx\<rparr>)"

definition CCoins_of :: "CTransaction \<Rightarrow> int \<Rightarrow> CCoins" where
  "CCoins_of tx nHeightIn = FromTx CCoins_init tx nHeightIn"

definition IsPruned :: "CCoins \<Rightarrow> bool" where
  "IsPruned c = list_all CTxOut_IsNull (c_vout c)"

definition IsAvailable :: "CCoins \<Rightarrow> nat \<Rightarrow> bool" where
  "IsAvailable c nPos \<longleftrightarrow> nPos < length (c_vout c) \<and> \<not> CTxOut_IsNull (c_vout c ! nPos)"

definition CCoins_eq :: "CCoins \<Rightarrow> CCoins \<Rightarrow> bool" where
  "CCoins_eq a b =
     (if IsPruned a \<and> IsPruned b then True
      else fCoinBase a = fCoinBase b \<and> c_nHeight a = c_nHeight b \<and> c_nVersion a = c_nVersion b \<and>
           list_all2 CTxOut_eq (c_vout a) (c_vout b))"

definition Spend :: "CCoins \<Rightarrow> nat \<Rightarrow> bool \<times> CCoins" where
  "Spend c nPos =
     (if nPos \<ge> length (c_vout c) \<or> CTxOut_IsNull (c_vout c ! nPos) then (False, c)
      else (True, Cleanup (c\<lparr>c_vout := (c_vout c)[nPos := CTxOut_SetNull]\<rparr>)))"

text \<open>
  \<open>CalcMaskSize\<close> over the outputs after the first two, eight at a time: \<open>b\<close> is the number of bytes
  before, the result the index after the last used byte and the number of bytes that are not zero.
\<close>

function CalcMaskSize_loop :: "nat \<Rightarrow> CTxOut list \<Rightarrow> nat \<times> nat \<Rightarrow> nat \<times> nat" where
  "CalcMaskSize_loop b [] acc = acc"
| "CalcMaskSize_loop b (out # outs) (nLastUsedByte, nNonzeroBytes) =
     (let fZero = list_all CTxOut_IsNull (take 8 (out # outs)) in
      CalcMaskSize_loop (b + 1) (drop 8 (out # outs))
        (if \<not> fZero then (b + 1, nNonzeroBytes + 1) else (nLastUsedByte, nNonzeroBytes)))"
  by pat_completeness auto
termination by (relation "measure (\<lambda>(b, outs, acc). length outs)") auto

definition CalcMaskSize :: "CCoins \<Rightarrow> nat \<times> nat" where
  "CalcMaskSize c = CalcMaskSize_loop 0 (drop 2 (c_vout c)) (0, 0)"

subsection \<open>Cleaning up\<close>

definition cleaned :: "CCoins \<Rightarrow> bool" where
  "cleaned c \<longleftrightarrow> c_vout c = [] \<or> \<not> CTxOut_IsNull (last (c_vout c))"

lemma IsNull_SetNull [simp]: "CTxOut_IsNull CTxOut_SetNull"
  by (simp add: CTxOut_IsNull_def CTxOut_SetNull_def)

lemma Cleanup_loop_props:
  "(Cleanup_loop outs = [] \<or> \<not> CTxOut_IsNull (last (Cleanup_loop outs))) \<and>
   (\<exists>nulls. outs = Cleanup_loop outs @ nulls \<and> list_all CTxOut_IsNull nulls)"
proof (induction outs rule: Cleanup_loop.induct)
  case (1 outs)
  show ?case
  proof (cases "length outs > 0 \<and> CTxOut_IsNull (last outs)")
    case True
    then obtain nulls where "butlast outs = Cleanup_loop (butlast outs) @ nulls" "list_all CTxOut_IsNull nulls"
      using 1 by blast
    moreover have "outs = butlast outs @ [last outs]" using True by simp
    ultimately have "outs = Cleanup_loop outs @ (nulls @ [last outs])" "list_all CTxOut_IsNull (nulls @ [last outs])"
      using True by (metis Cleanup_loop.simps append.assoc, simp)
    moreover have "Cleanup_loop outs = Cleanup_loop (butlast outs)" using True by (simp add: Cleanup_loop.simps [of outs])
    ultimately show ?thesis using 1 [OF True] by metis
  next
    case False
    then have "Cleanup_loop outs = outs" by (subst Cleanup_loop.simps) auto
    then show ?thesis using False by auto
  qed
qed

lemma Cleanup_loop_id: "outs = [] \<or> \<not> CTxOut_IsNull (last outs) \<Longrightarrow> Cleanup_loop outs = outs"
  by (subst Cleanup_loop.simps) auto

lemma Cleanup_loop_null: "Cleanup_loop (outs @ [out]) = (if CTxOut_IsNull out then Cleanup_loop outs else outs @ [out])"
  by (subst Cleanup_loop.simps) auto

lemma Cleanup_loop_nulls: "list_all CTxOut_IsNull nulls \<Longrightarrow> Cleanup_loop (outs @ nulls) = Cleanup_loop outs"
proof (induction nulls rule: rev_induct)
  case (snoc x xs)
  then show ?case using Cleanup_loop_null [of "outs @ xs" x] by simp
qed simp

lemma cleaned_Cleanup [simp]: "cleaned (Cleanup c)"
  using Cleanup_loop_props [of "c_vout c"] by (auto simp: cleaned_def Cleanup_def)

lemma Cleanup_id [simp]: "cleaned c \<Longrightarrow> Cleanup c = c"
  by (simp add: Cleanup_def cleaned_def Cleanup_loop_id)

lemma IsPruned_Cleanup [simp]: "IsPruned (Cleanup c) = IsPruned c"
proof -
  obtain nulls where "c_vout c = Cleanup_loop (c_vout c) @ nulls" "list_all CTxOut_IsNull nulls"
    using Cleanup_loop_props by blast
  then have "list_all CTxOut_IsNull (c_vout c) = list_all CTxOut_IsNull (Cleanup_loop (c_vout c))"
    using list_all_append [of CTxOut_IsNull "Cleanup_loop (c_vout c)" nulls] by simp
  then show ?thesis by (simp add: IsPruned_def Cleanup_def)
qed

lemma cleaned_pruned: "cleaned c \<Longrightarrow> IsPruned c \<longleftrightarrow> c_vout c = []"
  using last_in_set by (fastforce simp: cleaned_def IsPruned_def list_all_iff)

lemma nth_Cleanup_loop:
  "i < length (Cleanup_loop outs) \<Longrightarrow> Cleanup_loop outs ! i = outs ! i"
  "i < length (Cleanup_loop outs) \<Longrightarrow> i < length outs"
  "length (Cleanup_loop outs) \<le> i \<Longrightarrow> i < length outs \<Longrightarrow> CTxOut_IsNull (outs ! i)"
proof -
  obtain nulls where "outs = Cleanup_loop outs @ nulls" and nulls: "list_all CTxOut_IsNull nulls"
    using Cleanup_loop_props by blast
  then obtain front where *: "outs = front @ nulls" "Cleanup_loop outs = front" by blast
  show "i < length (Cleanup_loop outs) \<Longrightarrow> Cleanup_loop outs ! i = outs ! i"
    unfolding *(2) by (simp add: *(1) nth_append)
  show "i < length (Cleanup_loop outs) \<Longrightarrow> i < length outs"
    unfolding *(2) by (simp add: *(1))
  show "length (Cleanup_loop outs) \<le> i \<Longrightarrow> i < length outs \<Longrightarrow> CTxOut_IsNull (outs ! i)"
    unfolding *(2) using nulls by (simp add: *(1) nth_append list_all_length)
qed

lemma length_Cleanup_loop: "length (Cleanup_loop outs) \<le> length outs"
proof -
  obtain nulls where "outs = Cleanup_loop outs @ nulls" using Cleanup_loop_props by blast
  from arg_cong [OF this, of length] show ?thesis by simp
qed

lemma IsAvailable_Cleanup [simp]: "IsAvailable (Cleanup c) i = IsAvailable c i"
proof (cases "i < length (Cleanup_loop (c_vout c))")
  case True
  then show ?thesis using nth_Cleanup_loop(1,2) [OF True] by (simp add: IsAvailable_def Cleanup_def)
next
  case False
  then show ?thesis using nth_Cleanup_loop(3) [of "c_vout c" i] by (auto simp: IsAvailable_def Cleanup_def)
qed

text \<open>Spending an output makes it unavailable and leaves the others as they are.\<close>

lemma Spend_spends:
  "fst (Spend c i) \<longleftrightarrow> IsAvailable c i"
  "IsAvailable c i \<Longrightarrow> IsAvailable (snd (Spend c i)) j \<longleftrightarrow> IsAvailable c j \<and> j \<noteq> i"
  "IsAvailable (snd (Spend c i)) j \<Longrightarrow> c_vout (snd (Spend c i)) ! j = c_vout c ! j"
proof -
  show "fst (Spend c i) \<longleftrightarrow> IsAvailable c i" by (auto simp: Spend_def IsAvailable_def)
  show *: "IsAvailable c i \<Longrightarrow> IsAvailable (snd (Spend c i)) j \<longleftrightarrow> IsAvailable c j \<and> j \<noteq> i"
    by (simp add: Spend_def) (auto simp: IsAvailable_def nth_list_update)
  assume a: "IsAvailable (snd (Spend c i)) j"
  show "c_vout (snd (Spend c i)) ! j = c_vout c ! j"
  proof (cases "IsAvailable c i")
    case True
    then have ij: "j \<noteq> i" using * a by simp
    let ?outs = "(c_vout c)[i := CTxOut_SetNull]"
    have eq: "snd (Spend c i) = Cleanup (c\<lparr>c_vout := ?outs\<rparr>)" using True by (auto simp: Spend_def IsAvailable_def)
    have "j < length (Cleanup_loop ?outs)" using a by (simp only: eq IsAvailable_def) (simp add: Cleanup_def)
    then show ?thesis using nth_Cleanup_loop(1) [of j ?outs] ij by (simp add: eq) (simp add: Cleanup_def)
  qed (auto simp: Spend_def IsAvailable_def)
qed

subsection \<open>Views\<close>

text \<open>
  \<open>CCoinsMap\<close> is a list of the entries in the order its iterators visit them; the flags are the
  bits \<open>DIRTY\<close> and \<open>FRESH\<close>.
\<close>

record CCoinsCacheEntry =
  coins :: CCoins
  flags :: byte

abbreviation (input) DIRTY :: byte where "DIRTY \<equiv> 1"
abbreviation (input) FRESH :: byte where "FRESH \<equiv> 2"

type_synonym CCoinsMap = "(uint256 \<times> CCoinsCacheEntry) list"

definition CCoinsCacheEntry_init :: CCoinsCacheEntry where
  "CCoinsCacheEntry_init = \<lparr>coins = CCoins_init, flags = 0\<rparr>"

record 'b CCoinsView =
  v_GetCoins :: "'b \<Rightarrow> uint256 \<Rightarrow> CCoins option \<times> 'b"
  v_HaveCoins :: "'b \<Rightarrow> uint256 \<Rightarrow> bool \<times> 'b"
  v_GetBestBlock :: "'b \<Rightarrow> uint256 \<times> 'b"
  v_BatchWrite :: "'b \<Rightarrow> CCoinsMap \<Rightarrow> uint256 \<Rightarrow> bool \<times> 'b"

text \<open>The base class, a view without coins that refuses to be written.\<close>

definition CCoinsView_base :: "unit CCoinsView" where
  "CCoinsView_base =
     \<lparr>v_GetCoins = \<lambda>s txid. (None, s), v_HaveCoins = \<lambda>s txid. (False, s),
      v_GetBestBlock = \<lambda>s. (blob_SetNull 32, s), v_BatchWrite = \<lambda>s mapCoins hashBlock. (False, s)\<rparr>"

subsection \<open>The cache\<close>

text \<open>
  \<open>usage\<close> is \<open>CCoins::DynamicMemoryUsage\<close>, which depends on the allocator. The flag \<open>hasModifier\<close>
  is not part of the state: the life of a modifier is one operation of the model, which is what the
  assertions on the flag demand.
\<close>

record 'b CCoinsViewCache =
  base :: 'b
  cache_hashBlock :: uint256
  cacheCoins :: CCoinsMap
  cachedCoinsUsage :: u64

definition CCoinsViewCache_init :: "'b \<Rightarrow> 'b CCoinsViewCache" where
  "CCoinsViewCache_init baseIn =
     \<lparr>base = baseIn, cache_hashBlock = blob_SetNull 32, cacheCoins = [], cachedCoinsUsage = 0\<rparr>"

definition FetchCoins ::
  "'b CCoinsView \<Rightarrow> (CCoins \<Rightarrow> u64) \<Rightarrow> 'b CCoinsViewCache \<Rightarrow> uint256 \<Rightarrow> CCoinsCacheEntry option \<times> 'b CCoinsViewCache" where
  "FetchCoins V usage s txid =
     (case map_of (cacheCoins s) txid of
        Some it \<Rightarrow> (Some it, s)
      | None \<Rightarrow>
          (case v_GetCoins V (base s) txid of
             (None, b) \<Rightarrow> (None, s\<lparr>base := b\<rparr>)
           | (Some tmp, b) \<Rightarrow>
               let ret = \<lparr>coins = tmp, flags = (if IsPruned tmp then FRESH else 0)\<rparr> in
               (Some ret, s\<lparr>base := b, cacheCoins := AList.update txid ret (cacheCoins s),
                            cachedCoinsUsage := cachedCoinsUsage s + usage tmp\<rparr>)))"

definition Cache_GetCoins ::
  "'b CCoinsView \<Rightarrow> (CCoins \<Rightarrow> u64) \<Rightarrow> 'b CCoinsViewCache \<Rightarrow> uint256 \<Rightarrow> CCoins option \<times> 'b CCoinsViewCache" where
  "Cache_GetCoins V usage s txid =
     (case FetchCoins V usage s txid of
        (Some it, s) \<Rightarrow> (Some (coins it), s)
      | (None, s) \<Rightarrow> (None, s))"

definition AccessCoins ::
  "'b CCoinsView \<Rightarrow> (CCoins \<Rightarrow> u64) \<Rightarrow> 'b CCoinsViewCache \<Rightarrow> uint256 \<Rightarrow> CCoins option \<times> 'b CCoinsViewCache" where
  "AccessCoins V usage s txid =
     (case FetchCoins V usage s txid of
        (None, s) \<Rightarrow> (None, s)
      | (Some it, s) \<Rightarrow> (Some (coins it), s))"

definition Cache_HaveCoins ::
  "'b CCoinsView \<Rightarrow> (CCoins \<Rightarrow> u64) \<Rightarrow> 'b CCoinsViewCache \<Rightarrow> uint256 \<Rightarrow> bool \<times> 'b CCoinsViewCache" where
  "Cache_HaveCoins V usage s txid =
     (case FetchCoins V usage s txid of
        (None, s) \<Rightarrow> (False, s)
      | (Some it, s) \<Rightarrow> (c_vout (coins it) \<noteq> [], s))"

definition HaveCoinsInCache :: "'b CCoinsViewCache \<Rightarrow> uint256 \<Rightarrow> bool" where
  "HaveCoinsInCache s txid \<longleftrightarrow> map_of (cacheCoins s) txid \<noteq> None"

definition Cache_GetBestBlock :: "'b CCoinsView \<Rightarrow> 'b CCoinsViewCache \<Rightarrow> uint256 \<times> 'b CCoinsViewCache" where
  "Cache_GetBestBlock V s =
     (if blob_IsNull (cache_hashBlock s) then
        (case v_GetBestBlock V (base s) of (h, b) \<Rightarrow> (h, s\<lparr>base := b, cache_hashBlock := h\<rparr>))
      else (cache_hashBlock s, s))"

definition SetBestBlock :: "'b CCoinsViewCache \<Rightarrow> uint256 \<Rightarrow> 'b CCoinsViewCache" where
  "SetBestBlock s hashBlockIn = s\<lparr>cache_hashBlock := hashBlockIn\<rparr>"

text \<open>One round of the loop of \<open>BatchWrite\<close>, for an entry of the child.\<close>

definition BatchWrite_entry ::
  "(CCoins \<Rightarrow> u64) \<Rightarrow> uint256 \<times> CCoinsCacheEntry \<Rightarrow> 'b CCoinsViewCache \<Rightarrow> 'b CCoinsViewCache" where
  "BatchWrite_entry usage it s =
     (case it of (txid, e) \<Rightarrow>
        if flags e AND DIRTY \<noteq> 0 then
          (case map_of (cacheCoins s) txid of
             None \<Rightarrow>
               if \<not> (flags e AND FRESH \<noteq> 0 \<and> IsPruned (coins e)) then
                 s\<lparr>cacheCoins := AList.update txid
                      \<lparr>coins = coins e, flags = (if flags e AND FRESH \<noteq> 0 then DIRTY OR FRESH else DIRTY)\<rparr> (cacheCoins s),
                   cachedCoinsUsage := cachedCoinsUsage s + usage (coins e)\<rparr>
               else s
           | Some itUs \<Rightarrow>
               if flags itUs AND FRESH \<noteq> 0 \<and> IsPruned (coins e) then
                 s\<lparr>cacheCoins := AList.delete txid (cacheCoins s),
                   cachedCoinsUsage := cachedCoinsUsage s - usage (coins itUs)\<rparr>
               else
                 s\<lparr>cacheCoins := AList.update txid \<lparr>coins = coins e, flags = flags itUs OR DIRTY\<rparr> (cacheCoins s),
                   cachedCoinsUsage := cachedCoinsUsage s - usage (coins itUs) + usage (coins e)\<rparr>)
        else s)"

definition Cache_BatchWrite ::
  "(CCoins \<Rightarrow> u64) \<Rightarrow> 'b CCoinsViewCache \<Rightarrow> CCoinsMap \<Rightarrow> uint256 \<Rightarrow> bool \<times> 'b CCoinsViewCache" where
  "Cache_BatchWrite usage s mapCoins hashBlockIn =
     (True, (fold (BatchWrite_entry usage) mapCoins s)\<lparr>cache_hashBlock := hashBlockIn\<rparr>)"

definition Flush :: "'b CCoinsView \<Rightarrow> 'b CCoinsViewCache \<Rightarrow> bool \<times> 'b CCoinsViewCache" where
  "Flush V s =
     (case v_BatchWrite V (base s) (cacheCoins s) (cache_hashBlock s) of
        (fOk, b) \<Rightarrow> (fOk, s\<lparr>base := b, cacheCoins := [], cachedCoinsUsage := 0\<rparr>))"

definition Uncache :: "(CCoins \<Rightarrow> u64) \<Rightarrow> 'b CCoinsViewCache \<Rightarrow> uint256 \<Rightarrow> 'b CCoinsViewCache" where
  "Uncache usage s txid =
     (case map_of (cacheCoins s) txid of
        Some it \<Rightarrow>
          if flags it = 0 then
            s\<lparr>cacheCoins := AList.delete txid (cacheCoins s), cachedCoinsUsage := cachedCoinsUsage s - usage (coins it)\<rparr>
          else s
      | None \<Rightarrow> s)"

definition GetCacheSize :: "'b CCoinsViewCache \<Rightarrow> nat" where
  "GetCacheSize s = length (cacheCoins s)"

text \<open>The virtual functions of the cache on a view \<open>V\<close>.\<close>

definition CCoinsViewCache_view :: "'b CCoinsView \<Rightarrow> (CCoins \<Rightarrow> u64) \<Rightarrow> 'b CCoinsViewCache CCoinsView" where
  "CCoinsViewCache_view V usage =
     \<lparr>v_GetCoins = Cache_GetCoins V usage, v_HaveCoins = Cache_HaveCoins V usage,
      v_GetBestBlock = Cache_GetBestBlock V, v_BatchWrite = Cache_BatchWrite usage\<rparr>"

subsection \<open>Modifiers\<close>

text \<open>
  A \<open>CCoinsModifier\<close> refers to an entry of the cache, here by its key. \<open>ModifyCoins\<close> and
  \<open>ModifyNewCoins\<close> make one, the code that holds it reads and writes the coins through it, and the
  destructor cleans up; \<open>modifying\<close> is this life of a modifier.
\<close>

record CCoinsModifier =
  mod_it :: uint256
  cachedCoinUsage :: u64

definition ModifyCoins ::
  "'b CCoinsView \<Rightarrow> (CCoins \<Rightarrow> u64) \<Rightarrow> 'b CCoinsViewCache \<Rightarrow> uint256 \<Rightarrow> CCoinsModifier \<times> 'b CCoinsViewCache" where
  "ModifyCoins V usage s txid =
     (case map_of (cacheCoins s) txid of
        None \<Rightarrow>
          (case v_GetCoins V (base s) txid of (r, b) \<Rightarrow>
             let ret = (case r of
                 None \<Rightarrow> \<lparr>coins = CCoins_Clear CCoins_init, flags = FRESH\<rparr>
               | Some c \<Rightarrow> \<lparr>coins = c, flags = (if IsPruned c then FRESH else 0)\<rparr>);
               ret = ret\<lparr>flags := flags ret OR DIRTY\<rparr> in
             (\<lparr>mod_it = txid, cachedCoinUsage = 0\<rparr>, s\<lparr>base := b, cacheCoins := AList.update txid ret (cacheCoins s)\<rparr>))
      | Some it \<Rightarrow>
          (\<lparr>mod_it = txid, cachedCoinUsage = usage (coins it)\<rparr>,
           s\<lparr>cacheCoins := AList.update txid (it\<lparr>flags := flags it OR DIRTY\<rparr>) (cacheCoins s)\<rparr>))"

definition ModifyNewCoins :: "'b CCoinsViewCache \<Rightarrow> uint256 \<Rightarrow> CCoinsModifier \<times> 'b CCoinsViewCache" where
  "ModifyNewCoins s txid =
     (let ret = (case map_of (cacheCoins s) txid of None \<Rightarrow> CCoinsCacheEntry_init | Some it \<Rightarrow> it);
        ret = \<lparr>coins = CCoins_Clear (coins ret), flags = FRESH OR DIRTY\<rparr> in
      (\<lparr>mod_it = txid, cachedCoinUsage = 0\<rparr>, s\<lparr>cacheCoins := AList.update txid ret (cacheCoins s)\<rparr>))"

definition CCoinsModifier_coins :: "CCoinsModifier \<Rightarrow> 'b CCoinsViewCache \<Rightarrow> CCoins" where
  "CCoinsModifier_coins m s =
     (case map_of (cacheCoins s) (mod_it m) of None \<Rightarrow> CCoins_init | Some it \<Rightarrow> coins it)"

definition CCoinsModifier_assign :: "CCoinsModifier \<Rightarrow> CCoins \<Rightarrow> 'b CCoinsViewCache \<Rightarrow> 'b CCoinsViewCache" where
  "CCoinsModifier_assign m c s =
     s\<lparr>cacheCoins := AList.map_entry (mod_it m) (\<lambda>it. it\<lparr>coins := c\<rparr>) (cacheCoins s)\<rparr>"

definition CCoinsModifier_destroy :: "(CCoins \<Rightarrow> u64) \<Rightarrow> CCoinsModifier \<Rightarrow> 'b CCoinsViewCache \<Rightarrow> 'b CCoinsViewCache" where
  "CCoinsModifier_destroy usage m s =
     (case map_of (cacheCoins s) (mod_it m) of
        None \<Rightarrow> s
      | Some it \<Rightarrow>
          let it = it\<lparr>coins := Cleanup (coins it)\<rparr>;
            s = s\<lparr>cacheCoins := AList.update (mod_it m) it (cacheCoins s),
                  cachedCoinsUsage := cachedCoinsUsage s - cachedCoinUsage m\<rparr> in
          if flags it AND FRESH \<noteq> 0 \<and> IsPruned (coins it) then
            s\<lparr>cacheCoins := AList.delete (mod_it m) (cacheCoins s)\<rparr>
          else s\<lparr>cachedCoinsUsage := cachedCoinsUsage s + usage (coins it)\<rparr>)"

definition modifying ::
  "(CCoins \<Rightarrow> u64) \<Rightarrow> (CCoins \<Rightarrow> 'r \<times> CCoins) \<Rightarrow> CCoinsModifier \<times> 'b CCoinsViewCache \<Rightarrow> 'r \<times> 'b CCoinsViewCache" where
  "modifying usage f = (\<lambda>(m, s).
     case f (CCoinsModifier_coins m s) of
       (r, c) \<Rightarrow> (r, CCoinsModifier_destroy usage m (CCoinsModifier_assign m c s)))"

subsection \<open>Inputs of a transaction\<close>

text \<open>The outcome \<open>None\<close> is the assertion of \<open>GetOutputFor\<close>.\<close>

definition GetOutputFor ::
  "'b CCoinsView \<Rightarrow> (CCoins \<Rightarrow> u64) \<Rightarrow> 'b CCoinsViewCache \<Rightarrow> CTxIn \<Rightarrow> CTxOut option \<times> 'b CCoinsViewCache" where
  "GetOutputFor V usage s input =
     (case AccessCoins V usage s (op_hash (prevout input)) of
        (None, s) \<Rightarrow> (None, s)
      | (Some c, s) \<Rightarrow>
          if IsAvailable c (unat (op_n (prevout input))) then (Some (c_vout c ! unat (op_n (prevout input))), s)
          else (None, s))"

text \<open>The sum of the values is an \<open>int64_t\<close>: an overflow is undefined, and also \<open>None\<close>.\<close>

fun GetValueIn_loop ::
  "'b CCoinsView \<Rightarrow> (CCoins \<Rightarrow> u64) \<Rightarrow> CTxIn list \<Rightarrow> CAmount \<Rightarrow> 'b CCoinsViewCache \<Rightarrow> CAmount option \<times> 'b CCoinsViewCache" where
  "GetValueIn_loop V usage [] nResult s = (Some nResult, s)"
| "GetValueIn_loop V usage (txin # ins) nResult s =
     (case GetOutputFor V usage s txin of
        (None, s) \<Rightarrow> (None, s)
      | (Some out, s) \<Rightarrow>
          if in_int64 (nResult + nValue out) then GetValueIn_loop V usage ins (nResult + nValue out) s
          else (None, s))"

definition GetValueIn ::
  "'b CCoinsView \<Rightarrow> (CCoins \<Rightarrow> u64) \<Rightarrow> 'b CCoinsViewCache \<Rightarrow> CTransaction \<Rightarrow> CAmount option \<times> 'b CCoinsViewCache" where
  "GetValueIn V usage s tx = (if IsCoinBase tx then (Some 0, s) else GetValueIn_loop V usage (vin tx) 0 s)"

fun HaveInputs_loop ::
  "'b CCoinsView \<Rightarrow> (CCoins \<Rightarrow> u64) \<Rightarrow> CTxIn list \<Rightarrow> 'b CCoinsViewCache \<Rightarrow> bool \<times> 'b CCoinsViewCache" where
  "HaveInputs_loop V usage [] s = (True, s)"
| "HaveInputs_loop V usage (txin # ins) s =
     (case AccessCoins V usage s (op_hash (prevout txin)) of
        (None, s) \<Rightarrow> (False, s)
      | (Some c, s) \<Rightarrow>
          if IsAvailable c (unat (op_n (prevout txin))) then HaveInputs_loop V usage ins s else (False, s))"

definition HaveInputs ::
  "'b CCoinsView \<Rightarrow> (CCoins \<Rightarrow> u64) \<Rightarrow> 'b CCoinsViewCache \<Rightarrow> CTransaction \<Rightarrow> bool \<times> 'b CCoinsViewCache" where
  "HaveInputs V usage s tx = (if \<not> IsCoinBase tx then HaveInputs_loop V usage (vin tx) s else (True, s))"

subsection \<open>What a view promises\<close>

text \<open>
  The map of a view: the transactions that have an unspent output. An entry without one counts as
  absent.
\<close>

type_synonym coins_map = "uint256 \<Rightarrow> CCoins option"

definition unpruned :: "CCoins \<Rightarrow> CCoins option" where
  "unpruned c = (if IsPruned c then None else Some c)"

definition overlay :: "CCoinsMap \<Rightarrow> coins_map \<Rightarrow> coins_map" where
  "overlay m A = (\<lambda>k. case map_of m k of None \<Rightarrow> A k | Some e \<Rightarrow> unpruned (coins e))"

text \<open>
  The entries of a cache on a view with the map \<open>A\<close>: a \<open>FRESH\<close> entry is not in the view, and an
  entry that is not \<open>DIRTY\<close> is what the view has.
\<close>

definition entry_ok :: "CCoins option \<Rightarrow> CCoinsCacheEntry \<Rightarrow> bool" where
  "entry_ok a e \<longleftrightarrow> cleaned (coins e) \<and> (flags e AND FRESH \<noteq> 0 \<longrightarrow> a = None) \<and>
     (flags e AND DIRTY = 0 \<longrightarrow> unpruned (coins e) = a)"

definition entries_ok :: "coins_map \<Rightarrow> CCoinsMap \<Rightarrow> bool" where
  "entries_ok A m \<longleftrightarrow> distinct (map fst m) \<and> (\<forall>k e. map_of m k = Some e \<longrightarrow> entry_ok (A k) e)"

lemma flag_simps [simp]:
  "((f :: byte) OR 1) AND 1 \<noteq> 0" "((f :: byte) OR 1) AND 2 = f AND 2" "(2 OR 1 :: byte) = 3" "(3 AND 2 :: byte) = 2"
  "(3 AND 1 :: byte) = 1" "(2 AND 1 :: byte) = 0" "(1 AND 2 :: byte) = 0" "(1 OR 2 :: byte) = 3"
proof -
  have "bit (((f :: byte) OR 1) AND 1) 0" by (simp add: bit_simps)
  then show "((f :: byte) OR 1) AND 1 \<noteq> 0" by (metis bit_0_eq bot_apply bot_bool_def)
  show "((f :: byte) OR 1) AND 2 = f AND 2" by (simp add: bit.conj_disj_distrib2)
qed simp_all

lemma entries_ok_empty [simp]: "entries_ok A []"
  by (simp add: entries_ok_def)

lemma overlay_empty [simp]: "overlay [] A = A"
  by (simp add: overlay_def)

lemma entries_ok_update:
  "entries_ok A m \<Longrightarrow> entry_ok (A k) e \<Longrightarrow> entries_ok A (AList.update k e m)"
  by (simp add: entries_ok_def distinct_update update_conv')

lemma entries_ok_delete: "entries_ok A m \<Longrightarrow> entries_ok A (AList.delete k m)"
  by (simp add: entries_ok_def distinct_delete delete_conv')

lemma entries_okD: "entries_ok A m \<Longrightarrow> map_of m k = Some e \<Longrightarrow> entry_ok (A k) e"
  by (simp add: entries_ok_def)

lemma overlay_update: "overlay (AList.update k e m) A = (overlay m A)(k := unpruned (coins e))"
  by (rule ext) (simp add: overlay_def update_conv')

lemma overlay_delete: "overlay (AList.delete k m) A = (overlay m A)(k := A k)"
  by (rule ext) (simp add: overlay_def delete_conv')

lemma overlay_apply: "overlay m A k = (case map_of m k of None \<Rightarrow> A k | Some e \<Rightarrow> unpruned (coins e))"
  by (simp add: overlay_def)

lemma unpruned_simps [simp]:
  "IsPruned c \<Longrightarrow> unpruned c = None" "\<not> IsPruned c \<Longrightarrow> unpruned c = Some c"
  by (simp_all add: unpruned_def)

lemma pruned_Clear [simp]: "IsPruned (CCoins_Clear c)" "IsPruned CCoins_init" "cleaned (CCoins_Clear c)" "cleaned CCoins_init"
  by (simp_all add: CCoins_Clear_def CCoins_init_def IsPruned_def cleaned_def)

text \<open>
  What a cache on a view stands for: the map \<open>amap\<close> of the view below, overridden by the entries.
\<close>

definition cache_inv :: "('b \<Rightarrow> coins_map) \<Rightarrow> ('b \<Rightarrow> bool) \<Rightarrow> 'b CCoinsViewCache \<Rightarrow> bool" where
  "cache_inv amap vinv s \<longleftrightarrow> vinv (base s) \<and> entries_ok (amap (base s)) (cacheCoins s)"

definition cache_abs :: "('b \<Rightarrow> coins_map) \<Rightarrow> 'b CCoinsViewCache \<Rightarrow> coins_map" where
  "cache_abs amap s = overlay (cacheCoins s) (amap (base s))"

definition cache_best :: "('b \<Rightarrow> uint256) \<Rightarrow> 'b CCoinsViewCache \<Rightarrow> uint256" where
  "cache_best best s = (if blob_IsNull (cache_hashBlock s) then best (base s) else cache_hashBlock s)"

text \<open>
  The contract. \<open>fit\<close> says which coins the view can store; \<open>best\<close> is the block that the view stands
  for.
\<close>

locale coins_view =
  fixes V :: "'b CCoinsView" and amap :: "'b \<Rightarrow> coins_map" and best :: "'b \<Rightarrow> uint256"
    and vinv :: "'b \<Rightarrow> bool" and fit :: "CCoins \<Rightarrow> bool"
  assumes get: "vinv s \<Longrightarrow> v_GetCoins V s k = (r, s') \<Longrightarrow>
      vinv s' \<and> amap s' = amap s \<and> best s' = best s \<and> Option.bind r unpruned = amap s k \<and> (\<forall>c. r = Some c \<longrightarrow> cleaned c)"
    and have_coins: "vinv s \<Longrightarrow> v_HaveCoins V s k = (h, s') \<Longrightarrow>
      vinv s' \<and> amap s' = amap s \<and> best s' = best s \<and> (h \<longleftrightarrow> amap s k \<noteq> None)"
    and get_best: "vinv s \<Longrightarrow> v_GetBestBlock V s = (b, s') \<Longrightarrow> vinv s' \<and> amap s' = amap s \<and> best s' = best s \<and> b = best s"
    and batch_write: "vinv s \<Longrightarrow> entries_ok (amap s) m \<Longrightarrow> \<forall>e \<in> snd ` set m. flags e AND DIRTY \<noteq> 0 \<longrightarrow> fit (coins e) \<Longrightarrow>
      v_BatchWrite V s m hash = (True, s') \<Longrightarrow>
      vinv s' \<and> amap s' = overlay m (amap s) \<and> (length hash = 32 \<and> \<not> blob_IsNull hash \<longrightarrow> best s' = hash)"
begin

lemma FetchCoins_spec:
  assumes "cache_inv amap vinv s" "FetchCoins V usage s k = (r, s')"
  shows "cache_inv amap vinv s' \<and> cache_abs amap s' = cache_abs amap s \<and> cache_best best s' = cache_best best s \<and>
    Option.bind (map_option coins r) unpruned = cache_abs amap s k \<and> (\<forall>e. r = Some e \<longrightarrow> cleaned (coins e)) \<and>
    map_of (cacheCoins s') k = r"
proof (cases "map_of (cacheCoins s) k")
  case (Some e)
  then have "r = Some e" "s' = s" using assms(2) by (simp_all add: FetchCoins_def)
  then show ?thesis using assms(1) Some
    by (auto simp: cache_abs_def overlay_apply cache_inv_def entry_ok_def dest!: entries_okD)
next
  case None
  obtain r0 b where get_b: "v_GetCoins V (base s) k = (r0, b)" by (cases "v_GetCoins V (base s) k")
  have b: "vinv b" "amap b = amap (base s)" "best b = best (base s)" "Option.bind r0 unpruned = amap (base s) k"
    "\<forall>c. r0 = Some c \<longrightarrow> cleaned c"
    using get [OF _ get_b] assms(1) by (simp_all add: cache_inv_def)
  show ?thesis
  proof (cases r0)
    case None
    then have "r = None" "s' = s\<lparr>base := b\<rparr>" using assms(2) \<open>map_of _ k = None\<close> get_b by (simp_all add: FetchCoins_def)
    then show ?thesis using assms(1) b None \<open>map_of _ k = None\<close>
      by (auto simp: cache_abs_def overlay_apply cache_inv_def cache_best_def)
  next
    case (Some c)
    define e where "e = \<lparr>coins = c, flags = (if IsPruned c then FRESH else 0)\<rparr>"
    have r: "r = Some e" and s': "cacheCoins s' = AList.update k e (cacheCoins s)" "base s' = b"
      "cache_hashBlock s' = cache_hashBlock s"
      using assms(2) None get_b Some by (auto simp: FetchCoins_def e_def Let_def)
    have ok: "entry_ok (amap b k) e" using b Some by (auto simp: entry_ok_def e_def unpruned_def split: if_splits)
    have ab: "amap b k = unpruned c" using b Some by simp
    have "overlay (cacheCoins s') (amap b) = overlay (cacheCoins s) (amap b)"
      using None ab by (auto simp: s' overlay_update overlay_apply e_def)
    moreover have "entries_ok (amap b) (cacheCoins s')"
      using entries_ok_update [of "amap b" "cacheCoins s" k e] ok assms(1) b by (simp add: s' cache_inv_def)
    ultimately show ?thesis using b Some None ab
      by (simp add: cache_inv_def cache_abs_def cache_best_def s' r overlay_apply e_def update_conv')
  qed
qed

lemma AccessCoins_spec:
  assumes "cache_inv amap vinv s" "AccessCoins V usage s k = (r, s')"
  shows "cache_inv amap vinv s' \<and> cache_abs amap s' = cache_abs amap s \<and> cache_best best s' = cache_best best s \<and>
    Option.bind r unpruned = cache_abs amap s k \<and> (\<forall>c. r = Some c \<longrightarrow> cleaned c)"
proof -
  obtain r0 where "FetchCoins V usage s k = (r0, s')" "r = map_option coins r0"
    using assms(2) by (cases "FetchCoins V usage s k") (auto simp: AccessCoins_def split: option.splits)
  then show ?thesis using FetchCoins_spec [OF assms(1), of usage k r0 s'] by auto
qed

lemma Cache_GetCoins_spec:
  assumes "cache_inv amap vinv s" "Cache_GetCoins V usage s k = (r, s')"
  shows "cache_inv amap vinv s' \<and> cache_abs amap s' = cache_abs amap s \<and> cache_best best s' = cache_best best s \<and>
    Option.bind r unpruned = cache_abs amap s k \<and> (\<forall>c. r = Some c \<longrightarrow> cleaned c)"
proof (rule AccessCoins_spec [OF assms(1)])
  show "AccessCoins V usage s k = (r, s')"
    using assms(2) by (auto simp: AccessCoins_def Cache_GetCoins_def split: option.splits prod.splits)
qed

lemma Cache_HaveCoins_spec:
  assumes "cache_inv amap vinv s" "Cache_HaveCoins V usage s k = (h, s')"
  shows "cache_inv amap vinv s' \<and> cache_abs amap s' = cache_abs amap s \<and> cache_best best s' = cache_best best s \<and> (h \<longleftrightarrow> cache_abs amap s k \<noteq> None)"
proof -
  obtain r s1 where f: "FetchCoins V usage s k = (r, s1)" by (cases "FetchCoins V usage s k")
  note sp = FetchCoins_spec [OF assms(1) f]
  show ?thesis
  proof (cases r)
    case None then show ?thesis using assms(2) f sp by (auto simp: Cache_HaveCoins_def)
  next
    case (Some e)
    then have "h = (c_vout (coins e) \<noteq> [])" "s' = s1" using assms(2) f by (simp_all add: Cache_HaveCoins_def)
    moreover have "cache_abs amap s k = unpruned (coins e)" using sp Some by (metis bind.bind_lunit option.simps(9))
    ultimately show ?thesis using sp Some by (simp add: unpruned_def cleaned_pruned)
  qed
qed

lemma Cache_GetBestBlock_spec:
  assumes "cache_inv amap vinv s" "Cache_GetBestBlock V s = (h, s')"
  shows "cache_inv amap vinv s' \<and> cache_abs amap s' = cache_abs amap s \<and> cache_best best s' = cache_best best s \<and> h = cache_best best s"
proof (cases "blob_IsNull (cache_hashBlock s)")
  case True
  obtain h0 b where g: "v_GetBestBlock V (base s) = (h0, b)" by (cases "v_GetBestBlock V (base s)")
  then show ?thesis using get_best [OF _ g] assms True
    by (auto simp: Cache_GetBestBlock_def cache_inv_def cache_abs_def cache_best_def)
qed (use assms in \<open>auto simp: Cache_GetBestBlock_def cache_best_def\<close>)

end

subsection \<open>The operations of the cache on its map\<close>

lemma overlay_Cons: "k \<notin> fst ` set m \<Longrightarrow> overlay ((k, e) # m) A = overlay m (A(k := unpruned (coins e)))"
  using map_of_eq_None_iff [of m k] by (intro ext) (simp add: overlay_def split: option.split)

lemma entries_ok_Cons:
  "entries_ok A ((k, e) # m) \<Longrightarrow> k \<notin> fst ` set m \<and> entry_ok (A k) e \<and> entries_ok (A(k := x)) m"
  by (auto simp: entries_ok_def) (metis map_of_SomeD image_eqI fst_conv)+

lemma CCoins_Clear_eq: "CCoins_Clear c = CCoins_init"
  by (simp add: CCoins_Clear_def CCoins_init_def)

lemma FRESH_DIRTY_pruned:
  "entry_ok a e \<Longrightarrow> flags e AND DIRTY = 0 \<Longrightarrow> A k = a \<Longrightarrow> A = A(k := unpruned (coins e))"
  by (auto simp: entry_ok_def)

context coins_view
begin

lemma SetBestBlock_spec:
  "cache_inv amap vinv s \<Longrightarrow> \<not> blob_IsNull h \<Longrightarrow>
   cache_inv amap vinv (SetBestBlock s h) \<and> cache_abs amap (SetBestBlock s h) = cache_abs amap s \<and>
   cache_best best (SetBestBlock s h) = h"
  by (simp add: cache_inv_def cache_abs_def cache_best_def SetBestBlock_def)

lemma Uncache_spec:
  assumes "cache_inv amap vinv s"
  shows "cache_inv amap vinv (Uncache usage s k) \<and> cache_abs amap (Uncache usage s k) = cache_abs amap s \<and>
    cache_best best (Uncache usage s k) = cache_best best s"
proof (cases "\<exists>e. map_of (cacheCoins s) k = Some e \<and> flags e = 0")
  case True
  then obtain e where e: "map_of (cacheCoins s) k = Some e" "flags e = 0" by blast
  then have "overlay (cacheCoins s) (amap (base s)) k = amap (base s) k"
    using assms entries_okD [of "amap (base s)" "cacheCoins s" k e]
    by (simp add: cache_inv_def overlay_apply entry_ok_def)
  then show ?thesis using assms e entries_ok_delete
    by (simp add: Uncache_def cache_inv_def cache_abs_def cache_best_def overlay_delete fun_upd_idem)
qed (auto simp: Uncache_def assms split: option.splits)

lemma BatchWrite_entry_spec:
  assumes "cache_inv amap vinv s" "entry_ok (cache_abs amap s k) e"
  shows "cache_inv amap vinv (BatchWrite_entry usage (k, e) s) \<and>
    cache_abs amap (BatchWrite_entry usage (k, e) s) = (cache_abs amap s)(k := unpruned (coins e))"
proof (cases "flags e AND DIRTY = 0")
  case True
  then show ?thesis using assms FRESH_DIRTY_pruned [OF assms(2) True, of "cache_abs amap s"]
    by (simp add: BatchWrite_entry_def)
next
  case dirty: False
  have inv: "vinv (base s)" "entries_ok (amap (base s)) (cacheCoins s)" using assms(1) by (simp_all add: cache_inv_def)
  show ?thesis
  proof (cases "map_of (cacheCoins s) k")
    case None
    then have same: "cache_abs amap s k = amap (base s) k" by (simp add: cache_abs_def overlay_apply)
    let ?e = "\<lparr>coins = coins e, flags = (if flags e AND FRESH \<noteq> 0 then DIRTY OR FRESH else DIRTY)\<rparr>"
    have "entry_ok (amap (base s) k) ?e" using assms(2) same by (simp add: entry_ok_def)
    then have "entries_ok (amap (base s)) (AList.update k ?e (cacheCoins s))" by (rule entries_ok_update [OF inv(2)])
    moreover have "(flags e AND FRESH \<noteq> 0 \<and> IsPruned (coins e)) \<Longrightarrow> cache_abs amap s = (cache_abs amap s)(k := unpruned (coins e))"
      using assms(2) by (simp add: entry_ok_def fun_upd_idem)
    ultimately show ?thesis using dirty None inv assms(1)
      by (auto simp: BatchWrite_entry_def cache_inv_def cache_abs_def overlay_update)
  next
    case (Some itUs)
    have us: "entry_ok (amap (base s) k) itUs" using entries_okD [OF inv(2) Some] .
    let ?e = "\<lparr>coins = coins e, flags = flags itUs OR DIRTY\<rparr>"
    have "entry_ok (amap (base s) k) ?e" using assms(2) us by (simp add: entry_ok_def)
    then have "entries_ok (amap (base s)) (AList.update k ?e (cacheCoins s))" by (rule entries_ok_update [OF inv(2)])
    moreover have "flags itUs AND FRESH \<noteq> 0 \<Longrightarrow> amap (base s) k = None" using us by (simp add: entry_ok_def)
    ultimately show ?thesis using dirty Some inv entries_ok_delete [OF inv(2)]
      by (simp add: BatchWrite_entry_def cache_inv_def cache_abs_def overlay_update overlay_delete)
  qed
qed

lemma fold_BatchWrite_spec:
  assumes "cache_inv amap vinv s" "entries_ok (cache_abs amap s) m"
  shows "cache_inv amap vinv (fold (BatchWrite_entry usage) m s) \<and>
    cache_abs amap (fold (BatchWrite_entry usage) m s) = overlay m (cache_abs amap s)"
  using assms
proof (induction m arbitrary: s)
  case (Cons it m)
  obtain k e where it: "it = (k, e)" by (cases it)
  note c = entries_ok_Cons [OF Cons.prems(2) [unfolded it], of "unpruned (coins e)"]
  note b = BatchWrite_entry_spec [OF Cons.prems(1), of k e usage]
  show ?case using Cons.IH [of "BatchWrite_entry usage (k, e) s"] b c
    by (simp add: it overlay_Cons del: fun_upd_apply)
qed simp

lemma Cache_BatchWrite_spec:
  assumes "cache_inv amap vinv s" "entries_ok (cache_abs amap s) m" "Cache_BatchWrite usage s m h = (ok, s')"
  shows "ok \<and> cache_inv amap vinv s' \<and> cache_abs amap s' = overlay m (cache_abs amap s) \<and>
    (\<not> blob_IsNull h \<longrightarrow> cache_best best s' = h)"
  using fold_BatchWrite_spec [OF assms(1,2), of usage] assms(3)
  by (auto simp: Cache_BatchWrite_def cache_inv_def cache_abs_def cache_best_def)

lemma Flush_spec:
  assumes "cache_inv amap vinv s" "\<forall>e \<in> snd ` set (cacheCoins s). flags e AND DIRTY \<noteq> 0 \<longrightarrow> fit (coins e)"
    "Flush V s = (True, s')"
  shows "cache_inv amap vinv s' \<and> cacheCoins s' = [] \<and> cache_abs amap s' = cache_abs amap s \<and>
    amap (base s') = cache_abs amap s \<and> 
    (length (cache_hashBlock s) = 32 \<and> \<not> blob_IsNull (cache_hashBlock s) \<longrightarrow> best (base s') = cache_best best s)"
proof -
  obtain b where b: "v_BatchWrite V (base s) (cacheCoins s) (cache_hashBlock s) = (True, b)"
    "s' = s\<lparr>base := b, cacheCoins := [], cachedCoinsUsage := 0\<rparr>"
    using assms(3) by (auto simp: Flush_def split: prod.splits)
  then show ?thesis using batch_write [OF _ _ assms(2) b(1)] assms(1)
    by (simp add: cache_inv_def cache_abs_def cache_best_def)
qed

text \<open>A cache on a view is a view.\<close>

lemma cache_is_coins_view:
  "coins_view (CCoinsViewCache_view V usage) (cache_abs amap) (cache_best best) (cache_inv amap vinv) (\<lambda>_. True)"
proof (unfold_locales, goal_cases)
  case (1 s k r s') then show ?case using Cache_GetCoins_spec by (simp add: CCoinsViewCache_view_def)
next
  case (2 s k h s') then show ?case using Cache_HaveCoins_spec by (simp add: CCoinsViewCache_view_def)
next
  case (3 s b s') then show ?case using Cache_GetBestBlock_spec by (simp add: CCoinsViewCache_view_def)
next
  case (4 s m h s') then show ?case
    using Cache_BatchWrite_spec [of s m usage h True s'] by (simp add: CCoinsViewCache_view_def)
qed

lemma destroy_assign_spec:
  fixes usage :: "CCoins \<Rightarrow> u64" and c :: CCoins
  assumes "cache_inv amap vinv s" "map_of (cacheCoins s) (mod_it m) = Some e" "flags e AND DIRTY \<noteq> 0"
  defines "s' \<equiv> CCoinsModifier_destroy usage m (CCoinsModifier_assign m c s)"
  shows "cache_inv amap vinv s' \<and> cache_abs amap s' = (cache_abs amap s)(mod_it m := unpruned (Cleanup c)) \<and>
    cache_best best s' = cache_best best s \<and> base s' = base s"
proof -
  have inv: "vinv (base s)" "entries_ok (amap (base s)) (cacheCoins s)" using assms(1) by (simp_all add: cache_inv_def)
  let ?k = "mod_it m" let ?it = "e\<lparr>coins := Cleanup c\<rparr>"
  let ?m = "AList.map_entry ?k (\<lambda>it. it\<lparr>coins := c\<rparr>) (cacheCoins s)"
  let ?m' = "AList.update ?k ?it ?m"
  have e: "entry_ok (amap (base s) ?k) e" using entries_okD [OF inv(2) assms(2)] .
  have map: "map_of ?m = (map_of (cacheCoins s))(?k \<mapsto> e\<lparr>coins := c\<rparr>)"
    using assms(2) by (simp add: map_of_map_entry)
  have it: "entry_ok (amap (base s) ?k) ?it" using e assms(3) by (simp add: entry_ok_def)
  have ok: "entries_ok (amap (base s)) ?m'"
    using inv(2) it unfolding entries_ok_def update_conv' map
    by (simp add: distinct_update distinct_map_entry)
  have ov: "overlay ?m' (amap (base s)) = (overlay (cacheCoins s) (amap (base s)))(?k := unpruned (Cleanup c))"
    by (rule ext) (simp add: overlay_def update_conv' map)
  have s': "s' = (if flags e AND FRESH \<noteq> 0 \<and> IsPruned c then
        s\<lparr>cacheCoins := AList.delete ?k ?m', cachedCoinsUsage := cachedCoinsUsage s - cachedCoinUsage m\<rparr>
      else s\<lparr>cacheCoins := ?m', cachedCoinsUsage := cachedCoinsUsage s - cachedCoinUsage m + usage (Cleanup c)\<rparr>)"
    unfolding s'_def CCoinsModifier_destroy_def CCoinsModifier_assign_def by (simp add: map Let_def)
  show ?thesis
  proof (cases "flags e AND FRESH \<noteq> 0 \<and> IsPruned c")
    case True
    then have "amap (base s) ?k = None" using e by (simp add: entry_ok_def)
    then show ?thesis using True inv(1) entries_ok_delete [OF ok]
      by (simp add: s' cache_inv_def cache_abs_def cache_best_def overlay_delete ov)
  next
    case False
    then have s'2: "cacheCoins s' = ?m'" "base s' = base s" "cache_hashBlock s' = cache_hashBlock s" by (auto simp: s')
    show ?thesis unfolding cache_inv_def cache_abs_def cache_best_def s'2 ov using inv(1) ok by simp
  qed
qed

lemma ModifyCoins_spec:
  assumes "cache_inv amap vinv s" "ModifyCoins V usage s k = (m, s')"
  shows "cache_inv amap vinv s' \<and> cache_abs amap s' = cache_abs amap s \<and> cache_best best s' = cache_best best s \<and>
    amap (base s') = amap (base s) \<and> mod_it m = k \<and>
    (\<exists>e. map_of (cacheCoins s') k = Some e \<and> flags e AND DIRTY \<noteq> 0 \<and> cleaned (coins e) \<and> unpruned (coins e) = cache_abs amap s k)"
proof (cases "map_of (cacheCoins s) k")
  case None
  obtain r b where g: "v_GetCoins V (base s) k = (r, b)" by (cases "v_GetCoins V (base s) k")
  have inv: "vinv (base s)" "entries_ok (amap (base s)) (cacheCoins s)" using assms(1) by (simp_all add: cache_inv_def)
  note b = get [OF inv(1) g]
  define e where "e = (case r of None \<Rightarrow> \<lparr>coins = CCoins_init, flags = 3\<rparr>
     | Some c \<Rightarrow> \<lparr>coins = c, flags = (if IsPruned c then FRESH else 0) OR DIRTY\<rparr>)"
  have s': "s' = s\<lparr>base := b, cacheCoins := AList.update k e (cacheCoins s)\<rparr>" "mod_it m = k"
    using assms(2) None g by (auto simp: ModifyCoins_def e_def Let_def CCoins_Clear_eq split: option.splits)
  have e: "flags e AND DIRTY \<noteq> 0" "cleaned (coins e)" "unpruned (coins e) = amap b k"
    "flags e AND FRESH \<noteq> 0 \<Longrightarrow> amap b k = None"
    using b by (auto simp: e_def unpruned_def split: option.splits if_splits)
  then have ok: "entry_ok (amap b k) e" by (auto simp: entry_ok_def)
  have ov: "overlay (AList.update k e (cacheCoins s)) (amap b) = overlay (cacheCoins s) (amap b)"
    by (rule ext) (simp add: overlay_update overlay_apply None e)
  show ?thesis
    using b inv entries_ok_update [of "amap b" "cacheCoins s" k e] ok e ov None
    by (simp add: s' cache_inv_def cache_abs_def cache_best_def update_conv' overlay_apply)
next
  case (Some it)
  have inv: "vinv (base s)" "entries_ok (amap (base s)) (cacheCoins s)" using assms(1) by (simp_all add: cache_inv_def)
  let ?e = "it\<lparr>flags := flags it OR DIRTY\<rparr>"
  have it: "entry_ok (amap (base s) k) it" using entries_okD [OF inv(2) Some] .
  then have ok: "entry_ok (amap (base s) k) ?e" by (simp add: entry_ok_def)
  have s': "s' = s\<lparr>cacheCoins := AList.update k ?e (cacheCoins s)\<rparr>" "mod_it m = k"
    using assms(2) Some by (auto simp: ModifyCoins_def)
  have ov: "overlay (AList.update k ?e (cacheCoins s)) (amap (base s)) = overlay (cacheCoins s) (amap (base s))"
    by (rule ext) (simp add: overlay_update overlay_apply Some)
  have "cleaned (coins ?e)" using it by (simp add: entry_ok_def)
  then show ?thesis using inv(1) entries_ok_update [OF inv(2) ok] ov Some
    by (simp add: s' cache_inv_def cache_abs_def cache_best_def update_conv' overlay_apply)
qed

lemma ModifyNewCoins_spec:
  assumes "cache_inv amap vinv s" "ModifyNewCoins s k = (m, s')" "amap (base s) k = None"
  shows "cache_inv amap vinv s' \<and> cache_abs amap s' = (cache_abs amap s)(k := None) \<and> cache_best best s' = cache_best best s \<and>
    amap (base s') = amap (base s) \<and> mod_it m = k \<and>
    (\<exists>e. map_of (cacheCoins s') k = Some e \<and> flags e AND DIRTY \<noteq> 0 \<and> coins e = CCoins_init)"
proof -
  have inv: "vinv (base s)" "entries_ok (amap (base s)) (cacheCoins s)" using assms(1) by (simp_all add: cache_inv_def)
  let ?e = "\<lparr>coins = CCoins_init, flags = 3\<rparr>"
  have s': "s' = s\<lparr>cacheCoins := AList.update k ?e (cacheCoins s)\<rparr>" "mod_it m = k"
    using assms(2) by (auto simp: ModifyNewCoins_def CCoins_Clear_eq Let_def)
  have ok: "entry_ok (amap (base s) k) ?e" using assms(3) by (simp add: entry_ok_def)
  show ?thesis using inv(1) entries_ok_update [OF inv(2) ok]
    by (simp add: s' cache_inv_def cache_abs_def cache_best_def update_conv' overlay_update)
qed

text \<open>The whole life of a modifier.\<close>

lemma modifying_ModifyCoins:
  assumes "cache_inv amap vinv s" "modifying usage f (ModifyCoins V usage s k) = (r, s')"
  shows "\<exists>c. cleaned c \<and> unpruned c = cache_abs amap s k \<and> r = fst (f c) \<and> cache_inv amap vinv s' \<and>
    cache_abs amap s' = (cache_abs amap s)(k := unpruned (Cleanup (snd (f c)))) \<and> cache_best best s' = cache_best best s \<and>
    amap (base s') = amap (base s)"
proof -
  obtain m s1 where m: "ModifyCoins V usage s k = (m, s1)" by (cases "ModifyCoins V usage s k")
  note sp = ModifyCoins_spec [OF assms(1) m]
  then obtain e where e: "map_of (cacheCoins s1) k = Some e" "flags e AND DIRTY \<noteq> 0" "cleaned (coins e)"
    "unpruned (coins e) = cache_abs amap s k" by blast
  have "r = fst (f (coins e))" "s' = CCoinsModifier_destroy usage m (CCoinsModifier_assign m (snd (f (coins e))) s1)"
    using assms(2) m e(1) sp by (auto simp: modifying_def CCoinsModifier_coins_def split: prod.splits)
  moreover note destroy_assign_spec [of s1 m e usage "snd (f (coins e))"]
  ultimately show ?thesis using sp e by (intro exI [of _ "coins e"]) simp
qed

lemma modifying_ModifyNewCoins:
  assumes "cache_inv amap vinv s" "modifying usage f (ModifyNewCoins s k) = (r, s')" "amap (base s) k = None"
  shows "r = fst (f CCoins_init) \<and> cache_inv amap vinv s' \<and>
    cache_abs amap s' = (cache_abs amap s)(k := unpruned (Cleanup (snd (f CCoins_init)))) \<and>
    cache_best best s' = cache_best best s \<and> amap (base s') = amap (base s)"
proof -
  obtain m s1 where m: "ModifyNewCoins s k = (m, s1)" by (cases "ModifyNewCoins s k")
  note sp = ModifyNewCoins_spec [OF assms(1) m assms(3)]
  then obtain e where e: "map_of (cacheCoins s1) k = Some e" "flags e AND DIRTY \<noteq> 0" "coins e = CCoins_init" by blast
  have "r = fst (f CCoins_init)" "s' = CCoinsModifier_destroy usage m (CCoinsModifier_assign m (snd (f CCoins_init)) s1)"
    using assms(2) m e sp by (auto simp: modifying_def CCoinsModifier_coins_def split: prod.splits)
  moreover note destroy_assign_spec [of s1 m e usage "snd (f CCoins_init)"]
  ultimately show ?thesis using sp e by simp
qed

end

subsection \<open>Accounting of memory\<close>

text \<open>
  \<open>cachedCoinsUsage\<close> is the sum of the usage of the entries, modulo the width of \<open>size_t\<close>, as long as
  \<open>ModifyNewCoins\<close> is not called for an entry that uses memory: the modifier that it returns
  subtracts nothing for what was there.
\<close>

fun usage_sum :: "(CCoins \<Rightarrow> u64) \<Rightarrow> CCoinsMap \<Rightarrow> u64" where
  "usage_sum usage [] = 0"
| "usage_sum usage ((k, e) # m) = usage (coins e) + usage_sum usage m"

definition usage_ok :: "(CCoins \<Rightarrow> u64) \<Rightarrow> 'b CCoinsViewCache \<Rightarrow> bool" where
  "usage_ok usage s \<longleftrightarrow> distinct (map fst (cacheCoins s)) \<and> cachedCoinsUsage s = usage_sum usage (cacheCoins s)"

definition usage_at :: "(CCoins \<Rightarrow> u64) \<Rightarrow> CCoinsMap \<Rightarrow> uint256 \<Rightarrow> u64" where
  "usage_at usage m k = (case map_of m k of None \<Rightarrow> 0 | Some e \<Rightarrow> usage (coins e))"

lemma usage_sum_update:
  "usage_sum usage (AList.update k e m) = usage_sum usage m - usage_at usage m k + usage (coins e)"
  by (induction m) (auto simp: usage_at_def)

lemma usage_sum_delete:
  "distinct (map fst m) \<Longrightarrow> usage_sum usage (AList.delete k m) = usage_sum usage m - usage_at usage m k"
proof (induction m)
  case (Cons x m)
  then show ?case
    by (cases x) (auto simp: usage_at_def AList.delete_notin_dom map_of_eq_None_iff [symmetric] dom_def split: option.splits)
qed (simp add: usage_at_def)

lemma usage_ok_FetchCoins: "usage_ok usage s \<Longrightarrow> FetchCoins V usage s k = (r, s') \<Longrightarrow> usage_ok usage s'"
  by (auto simp: usage_ok_def FetchCoins_def usage_sum_update usage_at_def distinct_update Let_def
      split: option.splits prod.splits)

lemma usage_ok_Uncache: "usage_ok usage s \<Longrightarrow> usage_ok usage (Uncache usage s k)"
  by (auto simp: usage_ok_def Uncache_def usage_sum_delete usage_at_def distinct_delete split: option.splits)

lemma usage_ok_BatchWrite_entry: "usage_ok usage s \<Longrightarrow> usage_ok usage (BatchWrite_entry usage it s)"
  by (auto simp: usage_ok_def BatchWrite_entry_def usage_sum_update usage_sum_delete usage_at_def
      distinct_update distinct_delete split: option.splits prod.splits)

lemma usage_ok_Cache_BatchWrite:
  "usage_ok usage s \<Longrightarrow> Cache_BatchWrite usage s m h = (ok, s') \<Longrightarrow> usage_ok usage s'"
proof -
  assume s: "usage_ok usage s" and w: "Cache_BatchWrite usage s m h = (ok, s')"
  have "usage_ok usage (fold (BatchWrite_entry usage) m s)"
    using s by (induction m arbitrary: s) (simp_all add: usage_ok_BatchWrite_entry)
  then show ?thesis using w by (auto simp: Cache_BatchWrite_def usage_ok_def)
qed

lemma usage_ok_Flush: "Flush V s = (ok, s') \<Longrightarrow> usage_ok usage s'"
  by (auto simp: Flush_def usage_ok_def split: prod.splits)

lemma usage_sum_map_entry:
  "distinct (map fst m) \<Longrightarrow> map_of m k = Some e \<Longrightarrow>
   usage_sum usage (AList.map_entry k f m) = usage_sum usage m - usage (coins e) + usage (coins (f e))"
proof (induction m)
  case (Cons x m)
  obtain k' e' where x: "x = (k', e')" by (cases x)
  have "k' = k \<Longrightarrow> AList.map_entry k f m = m"
    using Cons.prems(1) x by (induction m) auto
  then show ?case using Cons x by (cases "k' = k") auto
qed simp

lemma usage_ok_destroy_assign:
  assumes "distinct (map fst (cacheCoins s))" "map_of (cacheCoins s) (mod_it m) = Some e"
    "cachedCoinsUsage s + usage (coins e) = usage_sum usage (cacheCoins s) + cachedCoinUsage m"
  shows "usage_ok usage (CCoinsModifier_destroy usage m (CCoinsModifier_assign m c s))"
proof -
  let ?k = "mod_it m"
  let ?f = "\<lambda>it :: CCoinsCacheEntry. it\<lparr>coins := c\<rparr>"
  let ?m = "AList.map_entry ?k ?f (cacheCoins s)"
  have map: "map_of ?m ?k = Some (e\<lparr>coins := c\<rparr>)" using assms(2) by (simp add: map_of_map_entry)
  have d: "distinct (map fst ?m)" using assms(1) by (simp add: distinct_map_entry)
  have sum_m: "usage_sum usage ?m = usage_sum usage (cacheCoins s) - usage (coins e) + usage c"
    using usage_sum_map_entry [OF assms(1,2), of usage ?f] by simp
  let ?m' = "AList.update ?k (e\<lparr>coins := Cleanup c\<rparr>) ?m"
  have d': "distinct (map fst ?m')" using d by (rule distinct_update)
  have sum_m': "usage_sum usage ?m' = usage_sum usage (cacheCoins s) - usage (coins e) + usage (Cleanup c)"
    by (simp add: usage_sum_update usage_at_def map sum_m)
  have used: "cachedCoinsUsage s = usage_sum usage (cacheCoins s) + cachedCoinUsage m - usage (coins e)"
    using assms(3) by (metis add_diff_cancel_right')
  show ?thesis unfolding usage_ok_def
    using d' sum_m' distinct_delete [OF d'] usage_sum_delete [OF d', of usage ?k]
    by (simp add: CCoinsModifier_destroy_def CCoinsModifier_assign_def map Let_def used usage_at_def update_conv')
qed

lemma usage_ok_ModifyCoins:
  assumes "usage_ok usage s" "modifying usage f (ModifyCoins V usage s k) = (r, s')"
  shows "usage_ok usage s'"
proof -
  obtain m s1 where m: "ModifyCoins V usage s k = (m, s1)" by (cases "ModifyCoins V usage s k")
  then obtain e where "distinct (map fst (cacheCoins s1))" "map_of (cacheCoins s1) (mod_it m) = Some e"
      "cachedCoinsUsage s1 + usage (coins e) = usage_sum usage (cacheCoins s1) + cachedCoinUsage m"
    using assms(1)
    by (auto simp: ModifyCoins_def usage_ok_def usage_sum_update usage_at_def distinct_update update_conv' Let_def
        simp del: map_of_eq_Some_iff split: option.splits prod.splits)
  from usage_ok_destroy_assign [OF this] show ?thesis
    using assms(2) m by (auto simp: modifying_def split: prod.splits)
qed

lemma usage_ok_ModifyNewCoins:
  assumes "usage_ok usage s" "modifying usage f (ModifyNewCoins s k) = (r, s')" "usage_at usage (cacheCoins s) k = 0"
  shows "usage_ok usage s'"
proof -
  obtain m s1 where m: "ModifyNewCoins s k = (m, s1)" by (cases "ModifyNewCoins s k")
  then obtain e where "distinct (map fst (cacheCoins s1))" "map_of (cacheCoins s1) (mod_it m) = Some e"
      "cachedCoinsUsage s1 + usage (coins e) = usage_sum usage (cacheCoins s1) + cachedCoinUsage m"
    using assms(1,3) by (auto simp: ModifyNewCoins_def usage_ok_def usage_sum_update distinct_update update_conv' Let_def
        simp del: map_of_eq_Some_iff)
  from usage_ok_destroy_assign [OF this] show ?thesis
    using assms(2) m by (auto simp: modifying_def split: prod.splits)
qed

text \<open>
  The entry of a \<open>ModifyNewCoins\<close> that is there already: the accounting is left with its usage on
  top of the sum, once the coins are changed.
\<close>

lemma ModifyNewCoins_overcounts:
  assumes "usage_ok usage s" "map_of (cacheCoins s) k = Some e"
    "modifying usage (\<lambda>c. ((), c')) (ModifyNewCoins s k) = (r, s')" "cleaned c'" "\<not> IsPruned c'"
  shows "cachedCoinsUsage s' = usage_sum usage (cacheCoins s') + usage (coins e)"
proof -
  let ?s1 = "s\<lparr>cacheCoins := AList.update k \<lparr>coins = CCoins_init, flags = 3\<rparr> (cacheCoins s)\<rparr>"
  let ?m = "\<lparr>mod_it = k, cachedCoinUsage = 0\<rparr>"
  let ?f = "\<lambda>it :: CCoinsCacheEntry. it\<lparr>coins := c'\<rparr>"
  let ?m2 = "AList.map_entry k ?f (cacheCoins ?s1)"
  have d: "distinct (map fst (cacheCoins ?s1))" "map_of (cacheCoins ?s1) k = Some \<lparr>coins = CCoins_init, flags = 3\<rparr>"
    using assms(1) by (simp_all add: usage_ok_def distinct_update update_conv')
  have map: "map_of ?m2 k = Some \<lparr>coins = c', flags = 3\<rparr>" using d(2) by (simp add: map_of_map_entry)
  have sum2: "usage_sum usage ?m2 = usage_sum usage (cacheCoins s) - usage (coins e) + usage c'"
    using usage_sum_map_entry [OF d, of usage ?f] assms(2) by (simp add: usage_sum_update usage_at_def)
  have "s' = CCoinsModifier_destroy usage ?m (CCoinsModifier_assign ?m c' ?s1)"
    using assms(2,3) by (simp add: modifying_def ModifyNewCoins_def CCoins_Clear_eq Let_def)
  then have "cacheCoins s' = AList.update k \<lparr>coins = c', flags = 3\<rparr> ?m2" "cachedCoinsUsage s' = cachedCoinsUsage s + usage c'"
    using assms(4,5) map by (simp_all add: CCoinsModifier_destroy_def CCoinsModifier_assign_def Let_def)
  then show ?thesis using assms(1) map sum2 by (simp add: usage_sum_update usage_at_def usage_ok_def)
qed

interpretation empty_view: coins_view CCoinsView_base "\<lambda>_. Map.empty" "\<lambda>_. blob_SetNull 32" "\<lambda>_. True" "\<lambda>_. False"
  by unfold_locales (simp_all add: CCoinsView_base_def)

subsection \<open>Runs of a cache\<close>

text \<open>
  What the code does with a cache, as steps, with what each of them means for the map. A change
  through \<open>ModifyCoins\<close> starts from the coins of the map; where the map has none it starts from coins
  without an output, whose other fields may be left over. \<open>ModifyNewCoins\<close> is for a transaction that
  the view below does not have.
\<close>

datatype coins_op =
  Op_Access uint256
| Op_Modify uint256 "CCoins \<Rightarrow> CCoins"
| Op_ModifyNew uint256 "CCoins \<Rightarrow> CCoins"
| Op_GetBest
| Op_SetBest uint256
| Op_BatchWrite CCoinsMap uint256
| Op_Uncache uint256

fun exec_op :: "'b CCoinsView \<Rightarrow> (CCoins \<Rightarrow> u64) \<Rightarrow> coins_op \<Rightarrow> 'b CCoinsViewCache \<Rightarrow> 'b CCoinsViewCache" where
  "exec_op V usage (Op_Access k) s = snd (AccessCoins V usage s k)"
| "exec_op V usage (Op_Modify k f) s = snd (modifying usage (\<lambda>c. ((), f c)) (ModifyCoins V usage s k))"
| "exec_op V usage (Op_ModifyNew k f) s = snd (modifying usage (\<lambda>c. ((), f c)) (ModifyNewCoins s k))"
| "exec_op V usage Op_GetBest s = snd (Cache_GetBestBlock V s)"
| "exec_op V usage (Op_SetBest h) s = SetBestBlock s h"
| "exec_op V usage (Op_BatchWrite m h) s = snd (Cache_BatchWrite usage s m h)"
| "exec_op V usage (Op_Uncache k) s = Uncache usage s k"

fun op_allowed :: "('b \<Rightarrow> coins_map) \<Rightarrow> coins_op \<Rightarrow> 'b CCoinsViewCache \<Rightarrow> bool" where
  "op_allowed amap (Op_ModifyNew k f) s \<longleftrightarrow> amap (base s) k = None"
| "op_allowed amap (Op_BatchWrite m h) s \<longleftrightarrow> entries_ok (cache_abs amap s) m"
| "op_allowed amap _ s \<longleftrightarrow> True"

fun op_spec :: "coins_op \<Rightarrow> coins_map \<Rightarrow> coins_map \<Rightarrow> bool" where
  "op_spec (Op_Modify k f) A A' \<longleftrightarrow>
     (\<exists>c. cleaned c \<and> unpruned c = A k \<and> A' = A(k := unpruned (Cleanup (f c))))"
| "op_spec (Op_ModifyNew k f) A A' \<longleftrightarrow> A' = A(k := unpruned (Cleanup (f CCoins_init)))"
| "op_spec (Op_BatchWrite m h) A A' \<longleftrightarrow> A' = overlay m A"
| "op_spec _ A A' \<longleftrightarrow> A' = A"

inductive cache_run ::
  "'b CCoinsView \<Rightarrow> (CCoins \<Rightarrow> u64) \<Rightarrow> ('b \<Rightarrow> coins_map) \<Rightarrow> 'b CCoinsViewCache \<Rightarrow> coins_op list \<Rightarrow> 'b CCoinsViewCache \<Rightarrow> bool"
  for V usage amap where
  run_nil: "cache_run V usage amap s [] s"
| run_step: "cache_run V usage amap s ops s' \<Longrightarrow> op_allowed amap op s' \<Longrightarrow>
    cache_run V usage amap s (ops @ [op]) (exec_op V usage op s')"

inductive map_run :: "coins_map \<Rightarrow> coins_op list \<Rightarrow> coins_map \<Rightarrow> bool" where
  map_nil: "map_run A [] A"
| map_step: "map_run A ops B \<Longrightarrow> op_spec op B C \<Longrightarrow> map_run A (ops @ [op]) C"

context coins_view
begin

lemma exec_op_refines:
  assumes "cache_inv amap vinv s" "op_allowed amap op s"
  shows "cache_inv amap vinv (exec_op V usage op s) \<and> op_spec op (cache_abs amap s) (cache_abs amap (exec_op V usage op s))"
proof (cases op)
  case (Op_Access k)
  then show ?thesis using AccessCoins_spec [OF assms(1), of usage k] by (cases "AccessCoins V usage s k") simp
next
  case (Op_Modify k f)
  obtain r s' where m: "modifying usage (\<lambda>c. ((), f c)) (ModifyCoins V usage s k) = (r, s')" by (rule prod.exhaust)
  from modifying_ModifyCoins [OF assms(1) m] show ?thesis using Op_Modify m by auto
next
  case (Op_ModifyNew k f)
  obtain r s' where m: "modifying usage (\<lambda>c. ((), f c)) (ModifyNewCoins s k) = (r, s')" by (rule prod.exhaust)
  from modifying_ModifyNewCoins [OF assms(1) m] assms(2) show ?thesis using Op_ModifyNew m by simp
next
  case Op_GetBest
  then show ?thesis using Cache_GetBestBlock_spec [OF assms(1)] by (cases "Cache_GetBestBlock V s") simp
next
  case (Op_SetBest h)
  then show ?thesis using assms(1) by (simp add: SetBestBlock_def cache_inv_def cache_abs_def)
next
  case (Op_BatchWrite m h)
  then show ?thesis using Cache_BatchWrite_spec [OF assms(1), of m usage h] assms(2)
    by (cases "Cache_BatchWrite usage s m h") simp
next
  case (Op_Uncache k)
  then show ?thesis using Uncache_spec [OF assms(1)] by simp
qed

lemma cache_run_refines:
  assumes "cache_run V usage amap s ops s'" "cache_inv amap vinv s"
  shows "cache_inv amap vinv s' \<and> map_run (cache_abs amap s) ops (cache_abs amap s')"
  using assms
proof (induction rule: cache_run.induct)
  case (run_step s ops s' op)
  then show ?case using exec_op_refines [of s' op usage] map_run.map_step by blast
qed (simp add: map_nil)

end

end
