(* ===== verification/Compressor.thy ===== *)
theory Compressor
  imports Coins PubKey
begin

text \<open>
  How coins are stored: the compact forms of amounts and scripts (compressor.h, compressor.cpp), the
  serialization of \<open>CTxOut\<close> that uses them, that of the undo data of an input (undo.h), and that of
  \<open>CCoins\<close> (coins.h) with its bit mask of unspent outputs.

  The parser of public keys of libsecp256k1 is a parameter: \<open>ec k\<close> is the uncompressed form of the key
  \<open>k\<close>, as \<open>secp256k1_ec_pubkey_parse\<close> and then \<open>secp256k1_ec_pubkey_serialize\<close> give it, and \<open>None\<close>
  when the first refuses \<open>k\<close>.
\<close>

subsection \<open>Amounts\<close>

text \<open>The amounts are \<open>uint64_t\<close>: what is computed from them wraps.\<close>

function CompressAmount_loop :: "nat \<Rightarrow> nat \<Rightarrow> nat \<times> nat" where
  "CompressAmount_loop n e = (if n mod 10 = 0 \<and> e < 9 then CompressAmount_loop (n div 10) (e + 1) else (n, e))"
  by auto
termination by (relation "measure (\<lambda>(n, e). 9 - e)") auto

declare CompressAmount_loop.simps [simp del]

definition CompressAmount :: "nat \<Rightarrow> nat" where
  "CompressAmount n =
     (if n = 0 then 0
      else case CompressAmount_loop n 0 of (n, e) \<Rightarrow>
        if e < 9 then
          let d = n mod 10; n = n div 10 in (1 + (n * 9 + d - 1) * 10 + e) mod 2 ^ 64
        else (1 + (n - 1) * 10 + 9) mod 2 ^ 64)"

fun DecompressAmount_loop :: "nat \<Rightarrow> nat \<Rightarrow> nat" where
  "DecompressAmount_loop n 0 = n"
| "DecompressAmount_loop n (Suc e) = DecompressAmount_loop (n * 10 mod 2 ^ 64) e"

definition DecompressAmount :: "nat \<Rightarrow> nat" where
  "DecompressAmount x =
     (if x = 0 then 0
      else
        let x = x - 1; e = x mod 10; x = x div 10;
          n = (if e < 9 then
                 let d = (x mod 9) + 1; x = x div 9 in (x * 10 + d) mod 2 ^ 64
               else (x + 1) mod 2 ^ 64) in
        DecompressAmount_loop n e)"

subsection \<open>Scripts\<close>

abbreviation (input) nSpecialScripts :: nat where "nSpecialScripts \<equiv> 6"

type_synonym ec_parser = "bytes \<Rightarrow> bytes option"

definition IsFullyValid :: "ec_parser \<Rightarrow> CPubKey \<Rightarrow> bool" where
  "IsFullyValid ec vch = (if \<not> CPubKey_IsValid vch then False else ec (CPubKey_bytes vch) \<noteq> None)"

definition CPubKey_Decompress :: "ec_parser \<Rightarrow> CPubKey \<Rightarrow> bool \<times> CPubKey" where
  "CPubKey_Decompress ec vch =
     (if \<not> CPubKey_IsValid vch then (False, vch)
      else case ec (CPubKey_bytes vch) of
          None \<Rightarrow> (False, vch)
        | Some pub \<Rightarrow> (True, CPubKey_Set vch pub))"

definition IsToKeyID :: "CScript \<Rightarrow> uint160 option" where
  "IsToKeyID script =
     (if length script = 25 \<and> unat (script ! 0) = OP_DUP \<and> unat (script ! 1) = OP_HASH160 \<and>
         script ! 2 = 20 \<and> unat (script ! 23) = OP_EQUALVERIFY \<and> unat (script ! 24) = OP_CHECKSIG
      then Some (take 20 (drop 3 script)) else None)"

definition IsToScriptID :: "CScript \<Rightarrow> uint160 option" where
  "IsToScriptID script =
     (if length script = 23 \<and> unat (script ! 0) = OP_HASH160 \<and> script ! 1 = 20 \<and> unat (script ! 22) = OP_EQUAL
      then Some (take 20 (drop 2 script)) else None)"

definition IsToPubKey :: "ec_parser \<Rightarrow> CScript \<Rightarrow> CPubKey option" where
  "IsToPubKey ec script =
     (if length script = 35 \<and> script ! 0 = 33 \<and> unat (script ! 34) = OP_CHECKSIG \<and>
         (script ! 1 = 0x02 \<or> script ! 1 = 0x03)
      then Some (CPubKey_of (take 33 (drop 1 script)))
      else if length script = 67 \<and> script ! 0 = 65 \<and> unat (script ! 66) = OP_CHECKSIG \<and> script ! 1 = 0x04
      then (let pubkey = CPubKey_of (take 65 (drop 1 script)) in
            if IsFullyValid ec pubkey then Some pubkey else None)
      else None)"

definition Compress :: "ec_parser \<Rightarrow> CScript \<Rightarrow> bytes option" where
  "Compress ec script =
     (case IsToKeyID script of
        Some keyID \<Rightarrow> Some (0x00 # keyID)
      | None \<Rightarrow>
     (case IsToScriptID script of
        Some scriptID \<Rightarrow> Some (0x01 # scriptID)
      | None \<Rightarrow>
     (case IsToPubKey ec script of
        Some pubkey \<Rightarrow>
          if pubkey ! 0 = 0x02 \<or> pubkey ! 0 = 0x03 then Some (pubkey ! 0 # take 32 (drop 1 pubkey))
          else if pubkey ! 0 = 0x04 then Some ((0x04 OR (pubkey ! 64 AND 0x01)) # take 32 (drop 1 pubkey))
          else None
      | None \<Rightarrow> None)))"

definition GetSpecialSize :: "nat \<Rightarrow> nat" where
  "GetSpecialSize nSize =
     (if nSize = 0 \<or> nSize = 1 then 20
      else if nSize = 2 \<or> nSize = 3 \<or> nSize = 4 \<or> nSize = 5 then 32
      else 0)"

text \<open>The result is the flag that is returned and the script, which a failure leaves as it was.\<close>

definition Decompress :: "ec_parser \<Rightarrow> CScript \<Rightarrow> nat \<Rightarrow> bytes \<Rightarrow> bool \<times> CScript" where
  "Decompress ec script nSize inp =
     (if nSize = 0 then
        (True, [of_nat OP_DUP, of_nat OP_HASH160, 20] @ take 20 inp @ [of_nat OP_EQUALVERIFY, of_nat OP_CHECKSIG])
      else if nSize = 1 then
        (True, [of_nat OP_HASH160, 20] @ take 20 inp @ [of_nat OP_EQUAL])
      else if nSize = 2 \<or> nSize = 3 then
        (True, [33, of_nat nSize] @ take 32 inp @ [of_nat OP_CHECKSIG])
      else if nSize = 4 \<or> nSize = 5 then
        (case CPubKey_Decompress ec (CPubKey_of (of_nat (nSize - 2) # take 32 inp)) of
           (ok, pubkey) \<Rightarrow>
             if \<not> ok then (False, script)
             else (True, [65] @ take 65 pubkey @ [of_nat OP_CHECKSIG]))
      else (False, script))"

definition Serialize_CScriptCompressor :: "ec_parser \<Rightarrow> CScript \<Rightarrow> bytes" where
  "Serialize_CScriptCompressor ec script =
     (case Compress ec script of
        Some compr \<Rightarrow> compr
      | None \<Rightarrow>
          let nSize = length script + nSpecialScripts in WriteVarInt nSize @ script)"

definition CScriptCompressor_GetSerializeSize :: "ec_parser \<Rightarrow> CScript \<Rightarrow> nat" where
  "CScriptCompressor_GetSerializeSize ec script =
     (case Compress ec script of
        Some compr \<Rightarrow> length compr
      | None \<Rightarrow>
          let nSize = length script + nSpecialScripts in length script + GetSizeOfVarInt nSize)"

text \<open>
  Reading a VarInt may not end, so what is read after it is an option too; \<open>obind\<close> goes on after a
  value.
\<close>

definition obind :: "('e + 'a) option \<Rightarrow> ('a \<Rightarrow> ('e + 'b) option) \<Rightarrow> ('e + 'b) option" where
  "obind m k = (case m of None \<Rightarrow> None | Some (Inl e) \<Rightarrow> Some (Inl e) | Some (Inr x) \<Rightarrow> k x)"

definition Unserialize_CScriptCompressor ::
  "ec_parser \<Rightarrow> 's reader \<Rightarrow> CScript \<Rightarrow> 's \<Rightarrow> (ser_exn + CScript \<times> 's) option" where
  "Unserialize_CScriptCompressor ec rd script s =
     obind (ReadVarInt 32 rd s) (\<lambda>(nSize, s).
       if nSize < nSpecialScripts then
         Some (ebind (rd s (GetSpecialSize nSize)) (\<lambda>(vch, s). Inr (snd (Decompress ec script nSize vch), s)))
       else Some (rd s (nSize - nSpecialScripts)))"

subsection \<open>Outputs and undo data\<close>

definition Serialize_CTxOutCompressor :: "ec_parser \<Rightarrow> CTxOut \<Rightarrow> bytes" where
  "Serialize_CTxOutCompressor ec out =
     WriteVarInt (CompressAmount (u64_of (nValue out))) @ Serialize_CScriptCompressor ec (scriptPubKey out)"

definition Unserialize_CTxOutCompressor ::
  "ec_parser \<Rightarrow> 's reader \<Rightarrow> CTxOut \<Rightarrow> 's \<Rightarrow> (ser_exn + CTxOut \<times> 's) option" where
  "Unserialize_CTxOutCompressor ec rd out s =
     obind (ReadVarInt 64 rd s) (\<lambda>(nVal, s).
     obind (Unserialize_CScriptCompressor ec rd (scriptPubKey out) s) (\<lambda>(script, s).
       Some (Inr (out\<lparr>nValue := i64_of (DecompressAmount nVal), scriptPubKey := script\<rparr>, s))))"

text \<open>
  A VarInt of a signed \<open>int\<close>: a negative number is at most \<open>0x7F\<close>, and its low seven bits are all that
  is written.
\<close>

definition WriteVarInt_int :: "int \<Rightarrow> bytes" where
  "WriteVarInt_int n = (if n \<le> 0x7F then [word_of_int (n AND 0x7F)] else WriteVarInt (nat n))"

definition ReadVarInt_int :: "'s reader \<Rightarrow> 's \<Rightarrow> (ser_exn + int \<times> 's) option" where
  "ReadVarInt_int rd s = obind (ReadVarInt 32 rd s) (\<lambda>(n, s). Some (Inr (signed_of 32 n, s)))"

record CTxInUndo =
  undo_txout :: CTxOut
  undo_fCoinBase :: bool
  undo_nHeight :: u32
  undo_nVersion :: int

definition CTxInUndo_init :: CTxInUndo where
  "CTxInUndo_init = \<lparr>undo_txout = CTxOut_SetNull, undo_fCoinBase = False, undo_nHeight = 0, undo_nVersion = 0\<rparr>"

definition mk_CTxInUndo :: "CTxOut \<Rightarrow> CTxInUndo" where
  "mk_CTxInUndo txoutIn = \<lparr>undo_txout = txoutIn, undo_fCoinBase = False, undo_nHeight = 0, undo_nVersion = 0\<rparr>"

definition Serialize_CTxInUndo :: "ec_parser \<Rightarrow> CTxInUndo \<Rightarrow> bytes" where
  "Serialize_CTxInUndo ec u =
     WriteVarInt (unat (undo_nHeight u * 2 + (if undo_fCoinBase u then 1 else 0))) @
     (if undo_nHeight u > 0 then WriteVarInt_int (undo_nVersion u) else []) @
     Serialize_CTxOutCompressor ec (undo_txout u)"

definition Unserialize_CTxInUndo ::
  "ec_parser \<Rightarrow> 's reader \<Rightarrow> CTxInUndo \<Rightarrow> 's \<Rightarrow> (ser_exn + CTxInUndo \<times> 's) option" where
  "Unserialize_CTxInUndo ec rd u s =
     obind (ReadVarInt 32 rd s) (\<lambda>(nCode, s).
       let u = u\<lparr>undo_nHeight := of_nat (nCode div 2), undo_fCoinBase := (nCode AND 1 \<noteq> 0)\<rparr> in
       obind (if undo_nHeight u > 0 then ReadVarInt_int rd s else Some (Inr (undo_nVersion u, s))) (\<lambda>(ver, s).
       obind (Unserialize_CTxOutCompressor ec rd (undo_txout u) s) (\<lambda>(out, s).
         Some (Inr (u\<lparr>undo_nVersion := ver, undo_txout := out\<rparr>, s)))))"

subsection \<open>Coins\<close>

text \<open>One byte of the mask: the bits of the outputs from \<open>2 + b * 8\<close> on.\<close>

definition mask_byte :: "CTxOut list \<Rightarrow> nat \<Rightarrow> byte" where
  "mask_byte outs b =
     fold (\<lambda>i chAvail.
         if 2 + b * 8 + i < length outs \<and> \<not> CTxOut_IsNull (outs ! (2 + b * 8 + i)) then chAvail OR push_bit i 1
         else chAvail) [0..<8] 0"

definition CCoins_nCode :: "CCoins \<Rightarrow> nat option" where
  "CCoins_nCode c =
     (let nMaskCode = snd (CalcMaskSize c);
        fFirst = (length (c_vout c) > 0 \<and> \<not> CTxOut_IsNull (c_vout c ! 0));
        fSecond = (length (c_vout c) > 1 \<and> \<not> CTxOut_IsNull (c_vout c ! 1)) in
      if \<not> (fFirst \<or> fSecond \<or> nMaskCode \<noteq> 0) then None
      else Some (8 * (nMaskCode - (if fFirst \<or> fSecond then 0 else 1)) + (if fCoinBase c then 1 else 0) +
                 (if fFirst then 2 else 0) + (if fSecond then 4 else 0)))"

text \<open>The assertion of \<open>Serialize\<close> fails for pruned coins: \<open>None\<close>.\<close>

definition Serialize_CCoins :: "ec_parser \<Rightarrow> CCoins \<Rightarrow> bytes option" where
  "Serialize_CCoins ec c =
     (case CCoins_nCode c of
        None \<Rightarrow> None
      | Some nCode \<Rightarrow>
          Some (WriteVarInt_int (c_nVersion c) @ WriteVarInt nCode @
                map (mask_byte (c_vout c)) [0..<fst (CalcMaskSize c)] @
                concat (map (\<lambda>out. if \<not> CTxOut_IsNull out then Serialize_CTxOutCompressor ec out else []) (c_vout c)) @
                WriteVarInt_int (c_nHeight c)))"

definition CCoins_GetSerializeSize :: "ec_parser \<Rightarrow> CCoins \<Rightarrow> nat option" where
  "CCoins_GetSerializeSize ec c =
     (case CCoins_nCode c of
        None \<Rightarrow> None
      | Some nCode \<Rightarrow>
          Some (length (WriteVarInt_int (c_nVersion c)) + GetSizeOfVarInt nCode + fst (CalcMaskSize c) +
                sum_list (map (\<lambda>out. if \<not> CTxOut_IsNull out then length (Serialize_CTxOutCompressor ec out) else 0) (c_vout c)) +
                length (WriteVarInt_int (c_nHeight c))))"

text \<open>The loop that reads the mask ends where the stream does, if not before.\<close>

partial_function (option) read_mask ::
  "'s reader \<Rightarrow> nat \<Rightarrow> bool list \<Rightarrow> 's \<Rightarrow> (ser_exn + bool list \<times> 's) option" where
  "read_mask rd nMaskCode vAvail s =
     (if nMaskCode > 0 then
        (case ser_readdata8 rd s of
           Inl e \<Rightarrow> Some (Inl e)
         | Inr (chAvail, s) \<Rightarrow>
             let vAvail = vAvail @ map (\<lambda>p. chAvail AND push_bit p 1 \<noteq> 0) [0..<8] in
             read_mask rd (if chAvail \<noteq> 0 then nMaskCode - 1 else nMaskCode) vAvail s)
      else Some (Inr (vAvail, s)))"

fun read_outputs :: "ec_parser \<Rightarrow> 's reader \<Rightarrow> bool list \<Rightarrow> 's \<Rightarrow> (ser_exn + CTxOut list \<times> 's) option" where
  "read_outputs ec rd [] s = Some (Inr ([], s))"
| "read_outputs ec rd (avail # vAvail) s =
     obind (if avail then Unserialize_CTxOutCompressor ec rd CTxOut_SetNull s else Some (Inr (CTxOut_SetNull, s)))
       (\<lambda>(out, s). obind (read_outputs ec rd vAvail s) (\<lambda>(outs, s). Some (Inr (out # outs, s))))"

definition Unserialize_CCoins :: "ec_parser \<Rightarrow> 's reader \<Rightarrow> 's \<Rightarrow> (ser_exn + CCoins \<times> 's) option" where
  "Unserialize_CCoins ec rd s =
     obind (ReadVarInt_int rd s) (\<lambda>(ver, s).
     obind (ReadVarInt 32 rd s) (\<lambda>(nCode, s).
     obind (read_mask rd (nCode div 8 + (if nCode AND 6 \<noteq> 0 then 0 else 1)) [nCode AND 2 \<noteq> 0, nCode AND 4 \<noteq> 0] s)
       (\<lambda>(vAvail, s).
     obind (read_outputs ec rd vAvail s) (\<lambda>(outs, s).
     obind (ReadVarInt_int rd s) (\<lambda>(height, s).
       Some (Inr (Cleanup \<lparr>fCoinBase = (nCode AND 1 \<noteq> 0), c_vout = outs, c_nHeight = height, c_nVersion = ver\<rparr>, s)))))))"

subsection \<open>Amounts are read back\<close>

lemma CompressAmount_loop_spec:
  assumes "CompressAmount_loop n e = (n', e')" "n \<noteq> 0" "e \<le> 9"
  shows "e \<le> e' \<and> e' \<le> 9 \<and> n = n' * 10 ^ (e' - e) \<and> n' \<noteq> 0 \<and> (e' < 9 \<longrightarrow> n' mod 10 \<noteq> 0)"
  using assms
proof (induction n e rule: CompressAmount_loop.induct)
  case (1 n e)
  show ?case
  proof (cases "n mod 10 = 0 \<and> e < 9")
    case True
    then have n: "n = n div 10 * 10" by (simp add: mod_eq_0_iff_dvd)
    have "n div 10 \<noteq> 0" using True 1(3) n by (metis mult_zero_left)
    moreover have "CompressAmount_loop (n div 10) (e + 1) = (n', e')"
      using 1(2) True by (subst (asm) CompressAmount_loop.simps) simp
    ultimately have ih: "e + 1 \<le> e' \<and> e' \<le> 9 \<and> n div 10 = n' * 10 ^ (e' - (e + 1)) \<and> n' \<noteq> 0 \<and> (e' < 9 \<longrightarrow> n' mod 10 \<noteq> 0)"
      using 1(1) [OF True] True by simp
    then have "e' - e = Suc (e' - (e + 1))" by linarith
    then have "n = n' * 10 ^ (e' - e)" using ih n by (metis mult.assoc mult.commute power_Suc)
    then show ?thesis using ih by simp
  next
    case False
    then have "n' = n" "e' = e" using 1(2) by (auto simp: CompressAmount_loop.simps [of n e])
    then show ?thesis using False 1(3,4) by auto
  qed
qed

lemma DecompressAmount_loop_eq: "n * 10 ^ e < 2 ^ 64 \<Longrightarrow> DecompressAmount_loop n e = n * 10 ^ e"
proof (induction n e rule: DecompressAmount_loop.induct)
  case (2 n e)
  have eq: "n * 10 * 10 ^ e = n * 10 ^ Suc e" by simp
  have "n * 10 * 1 \<le> n * 10 * 10 ^ e" by (intro mult_le_mono2) simp
  then have "n * 10 < 2 ^ 64" using 2(2) unfolding eq by (simp only: mult_1_right le_less_trans)
  then show ?case using 2 eq by (simp only: DecompressAmount_loop.simps mod_less)
qed simp

text \<open>
  The largest amount whose compact form fits: \<open>(2 ^ 64 - 1) div 9\<close>.
\<close>

definition max_compressible :: nat where
  "max_compressible = 2049638230412172401"

lemma DecompressAmount_Suc:
  "DecompressAmount (1 + x) =
     DecompressAmount_loop (if x mod 10 < 9 then (x div 10 div 9 * 10 + (x div 10 mod 9 + 1)) mod 2 ^ 64
       else (x div 10 + 1) mod 2 ^ 64) (x mod 10)"
  by (simp add: DecompressAmount_def Let_def)

lemma DecompressAmount_digits:
  assumes "e < 9" "k < 9"
  shows "DecompressAmount (1 + ((q * 9 + k) * 10 + e)) = DecompressAmount_loop ((q * 10 + (k + 1)) mod 2 ^ 64) e"
proof -
  have digit: "\<And>b d A. d < b \<Longrightarrow> (A * b + d) mod b = (d :: nat) \<and> (A * b + d) div b = A" by simp
  have "((q * 9 + k) * 10 + e) mod 10 = e" "((q * 9 + k) * 10 + e) div 10 = q * 9 + k"
    using assms digit [of e 10 "q * 9 + k"] by auto
  moreover have "(q * 9 + k) mod 9 = k" "(q * 9 + k) div 9 = q" using assms digit [of k 9 q] by auto
  ultimately show ?thesis unfolding DecompressAmount_Suc using assms by presburger
qed

lemma DecompressAmount_nine:
  "DecompressAmount (1 + (n * 10 + 9)) = DecompressAmount_loop ((n + 1) mod 2 ^ 64) 9"
proof -
  have "(n * 10 + 9) mod 10 = 9" "(n * 10 + 9) div 10 = n" by simp_all
  then show ?thesis unfolding DecompressAmount_Suc by presburger
qed

lemma DecompressAmount_CompressAmount:
  assumes "n \<le> max_compressible"
  shows "DecompressAmount (CompressAmount n) = n"
proof (cases "n = 0")
  case False
  obtain n' e where l: "CompressAmount_loop n 0 = (n', e)" by (cases "CompressAmount_loop n 0")
  have sp: "e \<le> 9" "n = n' * 10 ^ e" "n' \<noteq> 0" "e < 9 \<Longrightarrow> n' mod 10 \<noteq> 0"
    using CompressAmount_loop_spec [OF l False] by auto
  have n': "n' \<le> n" using sp(2) by simp
  have small: "n < 2 ^ 64" using assms by (simp add: max_compressible_def)
  show ?thesis
  proof (cases "e < 9")
    case True
    let ?d = "n' mod 10" let ?q = "n' div 10"
    let ?x = "1 + (?q * 9 + ?d - 1) * 10 + e"
    have d: "1 \<le> ?d" "?d \<le> 9" using sp(4) [OF True] by auto
    have q: "?q * 10 + ?d = n'" by simp
    have x: "?x \<le> 9 * n' + e" using d q by linarith
    have "9 * n' + e \<le> 9 * n"
    proof (cases "e = 0")
      case False
      then have "n' * 10 \<le> n" using sp(2) by (cases e) simp_all
      then show ?thesis using True sp(3) by linarith
    qed (use n' in simp)
    then have fits: "?x < 2 ^ 64" using x assms by (simp add: max_compressible_def)
    then have c: "CompressAmount n = ?x" using False l True by (simp add: CompressAmount_def Let_def)
    obtain k where k: "?d = k + 1" "k < 9" using d by (intro that [of "?d - 1"]) linarith+
    have "?x = 1 + ((?q * 9 + k) * 10 + e)" using k by simp
    then have "DecompressAmount ?x = DecompressAmount_loop ((?q * 10 + (k + 1)) mod 2 ^ 64) e"
      using DecompressAmount_digits [OF True k(2), of ?q] by (simp only:)
    moreover have "?q * 10 + (k + 1) = n'" using k q by simp
    moreover have "n' < 2 ^ 64" using n' small by linarith
    ultimately have "DecompressAmount ?x = DecompressAmount_loop n' e" by (simp only: mod_less)
    then show ?thesis using c DecompressAmount_loop_eq [of n' e] sp(2) small by simp
  next
    case False
    then have e: "e = 9" using sp(1) by simp
    let ?x = "1 + (n' - 1) * 10 + 9"
    have "n' * 10 \<le> n" using sp(2) e by simp
    then have "?x < 2 ^ 64" using small sp(3) by simp
    then have c: "CompressAmount n = ?x" using \<open>n \<noteq> 0\<close> l e by (simp add: CompressAmount_def)
    have "n' < 2 ^ 64" "n' - 1 + 1 = n'" using n' small sp(3) by linarith+
    then have "DecompressAmount ?x = DecompressAmount_loop n' 9"
      using DecompressAmount_nine [of "n' - 1"] by (simp only: mod_less add.assoc)
    then show ?thesis using c DecompressAmount_loop_eq [of n' 9] sp(2) small e by simp
  qed
qed (simp add: CompressAmount_def DecompressAmount_def)

text \<open>Above that, the compact form of an amount in \<open>MoneyRange\<close> wraps, and another amount is read.\<close>

lemma CompressAmount_wraps:
  "MoneyRange (int (max_compressible + 8)) \<and> DecompressAmount (CompressAmount (max_compressible + 8)) \<noteq> max_compressible + 8"
proof -
  have "DecompressAmount (CompressAmount (max_compressible + 8)) = DecompressAmount_loop 7 4"
    by (simp add: max_compressible_def CompressAmount_def CompressAmount_loop.simps DecompressAmount_def Let_def)
  also have "\<dots> = 70000"
  proof -
    have "(4 :: nat) = Suc (Suc (Suc (Suc 0)))" by simp
    then show ?thesis by (simp only:) simp
  qed
  finally show ?thesis by (simp add: MoneyRange_def int_ranges max_compressible_def)
qed

lemma CompressAmount_less: "CompressAmount n < 2 ^ 64"
  by (simp add: CompressAmount_def Let_def split: prod.split)

subsection \<open>Scripts are read back\<close>

text \<open>
  What the library documents: the compressed form of a valid uncompressed key, its first coordinate
  with the parity of the second, is parsed as the same key.
\<close>

definition ec_law :: "ec_parser \<Rightarrow> bool" where
  "ec_law ec \<longleftrightarrow> (\<forall>xy. length xy = 64 \<and> ec (4 # xy) \<noteq> None \<longrightarrow> ec ((2 OR (xy ! 63 AND 1)) # take 32 xy) = Some (4 # xy))"

lemma script_P2PK:
  fixes script :: CScript
  assumes "length script = n + 3" "unat (script ! (n + 2)) = OP_CHECKSIG"
  obtains a b x where "script = [a, b] @ x @ [0xac]" "length x = n"
proof -
  have "length script = 2 + n + 1" using assms(1) by simp
  then obtain as x cs where split: "script = as @ x @ cs" "length as = 2" "length x = n" "length cs = 1"
    by (rule list_split_at)
  then obtain a b d where script: "script = [a, b] @ x @ [d]" using length_2E length_1E by blast
  have "unat d = 0xac" using assms(2) split(3) by (simp add: script nth_append)
  then have "d = 0xac" by (simp add: word_unat_eq_iff)
  then show ?thesis using that script split(3) by blast
qed

text \<open>A special script: the kind \<open>n\<close> and the payload that its compact form has.\<close>

definition special :: "ec_parser \<Rightarrow> CScript \<Rightarrow> nat \<Rightarrow> bytes \<Rightarrow> bool" where
  "special ec script n payload \<longleftrightarrow>
     n < 6 \<and> length payload = GetSpecialSize n \<and> (\<forall>script0. Decompress ec script0 n payload = (True, script))"

lemma special_KeyID: "IsToKeyID script = Some h \<Longrightarrow> special ec script 0 h"
proof -
  assume h: "IsToKeyID script = Some h"
  then have "IsPayToPublicKeyHash script" by (auto simp: IsToKeyID_def IsPayToPublicKeyHash_def split: if_splits)
  then obtain h' where "length h' = 20" "script = [0x76, 0xa9, 0x14] @ h' @ [0x88, 0xac]"
    using IsPayToPublicKeyHash_iff by blast
  then show ?thesis using h by (auto simp: special_def IsToKeyID_def GetSpecialSize_def Decompress_def split: if_splits)
qed

lemma special_ScriptID: "IsToScriptID script = Some h \<Longrightarrow> special ec script 1 h"
proof -
  assume h: "IsToScriptID script = Some h"
  then have "IsPayToScriptHash script" by (auto simp: IsToScriptID_def IsPayToScriptHash_def split: if_splits)
  then obtain h' where "length h' = 20" "script = [0xa9, 0x14] @ h' @ [0x87]"
    using IsPayToScriptHash_iff by blast
  then show ?thesis using h by (auto simp: special_def IsToScriptID_def GetSpecialSize_def Decompress_def split: if_splits)
qed

lemma special_PubKey:
  assumes "ec_law ec" "IsToPubKey ec script = Some k"
  shows "(k ! 0 = 2 \<or> k ! 0 = 3) \<and> special ec script (unat (k ! 0)) (take 32 (drop 1 k)) \<or>
         k ! 0 = 4 \<and> special ec script (unat (4 OR (k ! 64 AND 1))) (take 32 (drop 1 k))"
proof (cases "length script = 35 \<and> script ! 0 = 33 \<and> unat (script ! 34) = OP_CHECKSIG \<and> (script ! 1 = 0x02 \<or> script ! 1 = 0x03)")
  case True
  then obtain a b x where s: "script = [a, b] @ x @ [0xac]" "length x = 32"
    using script_P2PK [of script 32] by auto
  then have ab: "a = 33" "b = 2 \<or> b = 3" using True by auto
  have k: "k = (b # x) @ drop 33 (replicate 65 0)"
    using assms(2) True s ab by (auto simp: IsToPubKey_def CPubKey_of_def CPubKey_Set_def GetLen_def)
  have "special ec script (unat b) x" using s ab by (auto simp: special_def GetSpecialSize_def Decompress_def)
  then show ?thesis using ab s(2) by (auto simp: k)
next
  case False
  then have l: "length script = 67" "script ! 0 = 65" "unat (script ! 66) = OP_CHECKSIG" "script ! 1 = 4"
    and valid: "k = CPubKey_of (take 65 (drop 1 script))" "IsFullyValid ec k"
    using assms(2) by (auto simp: IsToPubKey_def Let_def split: if_splits)
  obtain a b x where s: "script = [a, b] @ x @ [0xac]" "length x = 64"
    using script_P2PK [of script 64] l by auto
  then have ab: "a = 65" "b = 4" using l by auto
  have k: "k = 4 # x" using valid(1) s ab by (simp add: CPubKey_of_def CPubKey_Set_def GetLen_def)
  have "CPubKey_bytes (4 # x) = 4 # x" using s by (simp add: CPubKey_bytes_def CPubKey_size_def GetLen_def)
  then have "ec (4 # x) \<noteq> None" using valid(2) by (auto simp: IsFullyValid_def k split: if_splits)
  then have ec: "ec ((2 OR (x ! 63 AND 1)) # take 32 x) = Some (4 # x)" using assms(1) s by (simp add: ec_law_def)
  define p where "p = x ! 63 AND 1"
  have p: "p = 0 \<or> p = 1" unfolding p_def by (simp add: and_one_eq mod2_eq_if)
  then have n: "unat (4 OR p) = 4 \<or> unat (4 OR p) = 5" "(of_nat (unat (4 OR p) - 2) :: byte) = 2 OR p"
    by auto
  have "CPubKey_Decompress ec (CPubKey_of ((2 OR p) # take 32 x)) = (True, 4 # x)"
  proof -
    let ?c = "(2 OR p) # take 32 x"
    have g: "GetLen (2 OR p) = 33" using p by (auto simp: GetLen_def)
    then have "CPubKey_of ?c = ?c @ drop 33 (replicate 65 0)" using s by (simp add: CPubKey_of_def CPubKey_Set_def)
    moreover then have "CPubKey_IsValid (CPubKey_of ?c)" "CPubKey_bytes (CPubKey_of ?c) = ?c"
      using s g by (simp_all add: CPubKey_IsValid_def CPubKey_size_def CPubKey_bytes_def)
    ultimately show ?thesis using ec s
      by (simp add: CPubKey_Decompress_def p_def [symmetric] CPubKey_Set_def GetLen_def)
  qed
  then have "\<forall>script0. Decompress ec script0 (unat (4 OR p)) (take 32 x) = (True, script)"
    using p s(2) by (elim disjE) (simp_all add: Decompress_def s(1) ab)
  then have "special ec script (unat (4 OR p)) (take 32 x)"
    using n(1) s by (auto simp: special_def GetSpecialSize_def)
  then show ?thesis using s by (simp add: k p_def)
qed

lemma Compress_special:
  assumes "ec_law ec" "Compress ec script = Some out"
  obtains n payload where "out = of_nat n # payload" "special ec script n payload"
proof (cases "IsToKeyID script")
  case (Some h)
  then show ?thesis using that [of 0 h] assms(2) special_KeyID [OF Some] by (simp add: Compress_def)
next
  case noKey: None
  show ?thesis
  proof (cases "IsToScriptID script")
    case (Some h)
    then show ?thesis using that [of 1 h] assms(2) special_ScriptID [OF Some] noKey by (simp add: Compress_def)
  next
    case None
    then obtain k where k: "IsToPubKey ec script = Some k" using assms(2) noKey by (auto simp: Compress_def split: option.splits)
    from special_PubKey [OF assms(1) k] show ?thesis
    proof
      assume "(k ! 0 = 2 \<or> k ! 0 = 3) \<and> special ec script (unat (k ! 0)) (take 32 (drop 1 k))"
      then show ?thesis using that [of "unat (k ! 0)"] assms(2) noKey None k by (auto simp: Compress_def)
    next
      assume "k ! 0 = 4 \<and> special ec script (unat (4 OR (k ! 64 AND 1))) (take 32 (drop 1 k))"
      then show ?thesis using that [of "unat (4 OR (k ! 64 AND 1))"] assms(2) noKey None k by (auto simp: Compress_def)
    qed
  qed
qed

context byte_stream
begin

definition oparses :: "('s \<Rightarrow> (ser_exn + 'a \<times> 's) option) \<Rightarrow> 's \<Rightarrow> 'a \<Rightarrow> bytes \<Rightarrow> bool" where
  "oparses un s x rest \<longleftrightarrow> (\<exists>s'. un s = Some (Inr (x, s')) \<and> unread s' = rest \<and> inv s')"

lemma oparses_obind:
  assumes "oparses un s x r" and "\<And>s'. inv s' \<Longrightarrow> unread s' = r \<Longrightarrow> oparses (k x) s' y rest"
  shows "oparses (\<lambda>s. obind (un s) (\<lambda>(x, s). k x s)) s y rest"
  using assms by (fastforce simp: oparses_def obind_def)

lemma oparses_return: "inv s \<Longrightarrow> unread s = rest \<Longrightarrow> oparses (\<lambda>s. Some (Inr (x, s))) s x rest"
  by (simp add: oparses_def)

lemma oparses_parses: "parses un s x rest \<Longrightarrow> oparses (\<lambda>s. Some (un s)) s x rest"
  by (simp add: oparses_def parses_def)

lemma oparses_VarInt:
  "inv s \<Longrightarrow> unread s = WriteVarInt n @ rest \<Longrightarrow> n < 2 ^ w \<Longrightarrow> oparses (ReadVarInt w rd) s n rest"
  using ReadVarInt_WriteVarInt [of s n rest w] by (auto simp: oparses_def)

lemma oparses_VarInt_int:
  assumes "inv s" "unread s = WriteVarInt_int n @ rest" "0 \<le> n" "n < 2 ^ 31"
  shows "oparses (ReadVarInt_int rd) s n rest"
proof -
  have n: "WriteVarInt_int n = WriteVarInt (nat n)"
  proof (cases "n \<le> 0x7F")
    case True
    have "n AND mask 7 = n" using True assms(3) by (simp add: take_bit_eq_mask [symmetric] take_bit_int_eq_self)
    moreover have "nat n mod 128 = nat n" using True by simp
    moreover have "(word_of_int n :: byte) = of_nat (nat n)" using assms(3) by simp
    ultimately show ?thesis using True assms(3)
      by (simp add: WriteVarInt_int_def WriteVarInt_def varint_tmp.simps and_127_nat mask_eq_exp_minus_1)
  qed (simp add: WriteVarInt_int_def)
  have "nat n < 2 ^ 32" "signed_of 32 (nat n) = n" using assms(3,4) by (auto simp: signed_of_def)
  then show ?thesis unfolding ReadVarInt_int_def
    by (intro oparses_obind [OF oparses_VarInt [OF assms(1) assms(2) [unfolded n]]]) (auto intro: oparses_return)
qed

lemma oparses_CScriptCompressor:
  assumes "ec_law ec" "inv s" "unread s = Serialize_CScriptCompressor ec script @ rest" "length script \<le> MAX_SIZE"
  shows "oparses (Unserialize_CScriptCompressor ec rd script0) s script rest"
proof (cases "Compress ec script")
  case None
  let ?n = "length script + nSpecialScripts"
  have un: "unread s = WriteVarInt ?n @ script @ rest" using assms(3) None by (simp add: Serialize_CScriptCompressor_def)
  have "oparses (\<lambda>s. Some (rd s (?n - nSpecialScripts))) s' script rest" if "inv s'" "unread s' = script @ rest" for s'
    using that assms(4) by (intro oparses_parses parses_read) simp_all
  then show ?thesis unfolding Unserialize_CScriptCompressor_def using assms(2,4) un
    by (intro oparses_obind [OF oparses_VarInt [of s ?n]]) simp_all
next
  case (Some out)
  obtain n payload where out: "out = of_nat n # payload" "special ec script n payload"
    using Compress_special [OF assms(1) Some] by blast
  have n: "n < 6" "length payload = GetSpecialSize n" "\<And>script0. Decompress ec script0 n payload = (True, script)"
    using out(2) by (auto simp: special_def)
  have w: "WriteVarInt n = [of_nat n]" using n(1) by (simp add: WriteVarInt_def varint_tmp.simps and_127_nat)
  have un: "unread s = WriteVarInt n @ payload @ rest" using assms(3) Some by (simp add: Serialize_CScriptCompressor_def out(1) w)
  have p: "parses (\<lambda>s. ebind (rd s (GetSpecialSize n)) (\<lambda>(vch, s). Inr (snd (Decompress ec script0 n vch), s))) s' script rest"
    if "inv s'" "unread s' = payload @ rest" for s'
    by (rule parses_ebind [OF parses_read [OF that]]) (use n in \<open>simp_all add: parses_return GetSpecialSize_def\<close>)
  have p': "oparses (\<lambda>s. Some (ebind (rd s (GetSpecialSize n)) (\<lambda>(vch, s). Inr (snd (Decompress ec script0 n vch), s)))) s' script rest"
    if "inv s'" "unread s' = payload @ rest" for s'
    by (rule oparses_parses [OF p [OF that]])
  show ?thesis unfolding Unserialize_CScriptCompressor_def using assms(2) un n(1) p'
    by (intro oparses_obind [OF oparses_VarInt [of s n]]) simp_all
qed

text \<open>What the compact form of an output can hold.\<close>

lemma oparses_CTxOutCompressor:
  assumes "ec_law ec" "inv s" "unread s = Serialize_CTxOutCompressor ec out @ rest"
    "0 \<le> nValue out" "nValue out \<le> int max_compressible" "length (scriptPubKey out) \<le> MAX_SIZE" "nRounds out = nRounds out0"
  shows "oparses (Unserialize_CTxOutCompressor ec rd out0) s out rest"
proof -
  let ?v = "u64_of (nValue out)"
  have v: "?v = nat (nValue out)"
    using assms(4,5) by (simp add: u64_of_def unsigned_of_def max_compressible_def)
  then have "i64_of (DecompressAmount (CompressAmount ?v)) = nValue out"
    using assms(4,5) DecompressAmount_CompressAmount [of ?v] by (simp add: i64_of_def signed_of_def max_compressible_def)
  then have out: "out0\<lparr>nValue := i64_of (DecompressAmount (CompressAmount ?v)), scriptPubKey := scriptPubKey out\<rparr> = out"
    using assms(7) by simp
  have un: "unread s = WriteVarInt (CompressAmount ?v) @ Serialize_CScriptCompressor ec (scriptPubKey out) @ rest"
    using assms(3) by (simp add: Serialize_CTxOutCompressor_def)
  show ?thesis unfolding Unserialize_CTxOutCompressor_def
    by (intro oparses_obind [OF oparses_VarInt [OF assms(2) un CompressAmount_less]]
          oparses_obind [OF oparses_CScriptCompressor [OF assms(1) _ _ assms(6)]])
      (auto simp: out intro: oparses_return)
qed

end

subsection \<open>The bit mask\<close>

lemma fold_or_bits:
  "k \<le> 8 \<Longrightarrow> p < 8 \<Longrightarrow>
   bit (fold (\<lambda>i chAvail. if P i then chAvail OR push_bit i 1 else chAvail) [0..<k] (0 :: byte)) p \<longleftrightarrow> p < k \<and> P p"
proof (induction k)
  case (Suc k)
  have "bit (push_bit k 1 :: byte) p \<longleftrightarrow> p = k" using Suc.prems by (auto simp: bit_simps)
  then show ?case using Suc by (auto simp: bit_simps less_Suc_eq)
qed simp

definition avail :: "CTxOut list \<Rightarrow> nat \<Rightarrow> bool" where
  "avail outs i \<longleftrightarrow> i < length outs \<and> \<not> CTxOut_IsNull (outs ! i)"

lemma bit_mask_byte: "p < 8 \<Longrightarrow> bit (mask_byte outs b) p \<longleftrightarrow> avail outs (2 + b * 8 + p)"
  using fold_or_bits [of 8 p "\<lambda>i. avail outs (2 + b * 8 + i)"] by (simp only: mask_byte_def avail_def) simp

lemma byte_zero_iff: "(w :: byte) = 0 \<longleftrightarrow> (\<forall>p<8. \<not> bit w p)"
proof
  assume "\<forall>p<8. \<not> bit w p"
  then show "w = 0" by (intro bit_word_eqI) simp
qed simp

lemma mask_byte_zero: "mask_byte outs b = 0 \<longleftrightarrow> list_all CTxOut_IsNull (take 8 (drop (2 + b * 8) outs))"
proof -
  have "mask_byte outs b = 0 \<longleftrightarrow> (\<forall>p<8. \<not> avail outs (2 + b * 8 + p))"
    by (simp add: byte_zero_iff bit_mask_byte)
  also have "\<dots> \<longleftrightarrow> list_all CTxOut_IsNull (take 8 (drop (2 + b * 8) outs))"
    by (auto simp: list_all_length avail_def)
  finally show ?thesis .
qed

definition mask_bytes :: "CTxOut list \<Rightarrow> nat" where
  "mask_bytes outs = (length outs - 2 + 7) div 8"

lemma CalcMaskSize_loop_eq:
  assumes "outs \<noteq> []" "\<not> CTxOut_IsNull (last outs)"
  shows "CalcMaskSize_loop b (drop (2 + b * 8) outs) (l, n) =
    (if drop (2 + b * 8) outs = [] then (l, n)
     else (mask_bytes outs, n + length (filter (\<lambda>i. mask_byte outs i \<noteq> 0) [b..<mask_bytes outs])))"
proof (induction "length outs - (2 + b * 8)" arbitrary: b l n rule: less_induct)
  case less
  show ?case
  proof (cases "drop (2 + b * 8) outs")
    case Nil then show ?thesis by simp
  next
    case (Cons out rest)
    then have len: "2 + b * 8 < length outs" by (metis drop_eq_Nil linorder_not_less list.distinct(1))
    then have bm: "b < mask_bytes outs" by (simp add: mask_bytes_def)
    let ?acc = "if mask_byte outs b \<noteq> 0 then (b + 1, n + 1) else (l, n)"
    have next_drop: "drop 8 (drop (2 + b * 8) outs) = drop (2 + (b + 1) * 8) outs" by (simp add: add.commute)
    have step: "CalcMaskSize_loop b (drop (2 + b * 8) outs) (l, n) = CalcMaskSize_loop (b + 1) (drop (2 + (b + 1) * 8) outs) ?acc"
    proof -
      have "mask_byte outs b = 0 \<longleftrightarrow> list_all CTxOut_IsNull (take 8 (out # rest))"
        unfolding mask_byte_zero Cons ..
      then show ?thesis unfolding next_drop [symmetric] Cons CalcMaskSize_loop.simps Let_def
        by (cases "mask_byte outs b = 0") simp_all
    qed
    have filt: "length (filter (\<lambda>i. mask_byte outs i \<noteq> 0) [b..<mask_bytes outs]) =
      (if mask_byte outs b \<noteq> 0 then 1 else 0) + length (filter (\<lambda>i. mask_byte outs i \<noteq> 0) [b + 1..<mask_bytes outs])"
      using bm by (simp add: upt_conv_Cons)
    show ?thesis
    proof (cases "drop (2 + (b + 1) * 8) outs = []")
      case True
      then have last: "mask_bytes outs = b + 1" using len by (simp add: mask_bytes_def)
      have "length outs - 1 < length outs" "2 + b * 8 \<le> length outs - 1" "length outs - 1 < 2 + b * 8 + 8"
        using len True by auto
      then have "2 + b * 8 + (length outs - 1 - (2 + b * 8)) = length outs - 1" "length outs - 1 - (2 + b * 8) < 8"
        by (simp_all only: le_add_diff_inverse)
      moreover have "avail outs (length outs - 1)" using assms by (simp add: avail_def last_conv_nth)
      ultimately have "avail outs (2 + b * 8 + (length outs - 1 - (2 + b * 8)))" "length outs - 1 - (2 + b * 8) < 8"
        by (simp_all only:)
      then have "mask_byte outs b \<noteq> 0" using byte_zero_iff bit_mask_byte by blast
      then show ?thesis using step True filt last Cons by simp
    next
      case False
      have "length outs - (2 + (b + 1) * 8) < length outs - (2 + b * 8)" using len by simp
      then show ?thesis using step filt Cons False less [of "b + 1" "fst ?acc" "snd ?acc"] by (cases "mask_byte outs b = 0") simp_all
    qed
  qed
qed

lemma CalcMaskSize_eq:
  assumes "cleaned c" "c_vout c \<noteq> []"
  shows "CalcMaskSize c = (mask_bytes (c_vout c), length (filter (\<lambda>i. mask_byte (c_vout c) i \<noteq> 0) [0..<mask_bytes (c_vout c)]))"
proof -
  have "c_vout c \<noteq> []" "\<not> CTxOut_IsNull (last (c_vout c))" using assms by (auto simp: cleaned_def)
  from CalcMaskSize_loop_eq [OF this, of 0 0 0] show ?thesis
    by (auto simp: CalcMaskSize_def mask_bytes_def)
qed

lemma last_mask_byte:
  assumes "outs \<noteq> []" "\<not> CTxOut_IsNull (last outs)" "mask_bytes outs \<noteq> 0"
  shows "mask_byte outs (mask_bytes outs - 1) \<noteq> 0"
proof -
  let ?i = "length outs - 1" let ?b = "mask_bytes outs - 1"
  have "2 + ?b * 8 \<le> ?i" "?i < 2 + ?b * 8 + 8" using assms(3) unfolding mask_bytes_def by presburger+
  moreover have "avail outs ?i" using assms(1,2) by (simp add: avail_def last_conv_nth)
  ultimately have "?i - (2 + ?b * 8) < 8" "avail outs (2 + ?b * 8 + (?i - (2 + ?b * 8)))"
    by (simp, simp only: le_add_diff_inverse)
  then show ?thesis using byte_zero_iff bit_mask_byte by blast
qed

definition byte_bits :: "byte \<Rightarrow> bool list" where
  "byte_bits w = map (bit w) [0..<8]"

lemma mask_bits:
  "[avail outs 0, avail outs 1] @ concat (map (\<lambda>b. byte_bits (mask_byte outs b)) [0..<n]) = map (avail outs) [0..<2 + n * 8]"
proof (induction n)
  case 0 then show ?case by (simp add: upt_rec numeral_2_eq_2)
next
  case (Suc n)
  have "byte_bits (mask_byte outs n) = map (\<lambda>p. avail outs (p + (2 + n * 8))) [0..<8]"
    by (simp add: byte_bits_def bit_mask_byte add.commute add.left_commute)
  also have "\<dots> = map (avail outs) (map (\<lambda>p. p + (2 + n * 8)) [0..<8])" by simp
  also have "map (\<lambda>p. p + (2 + n * 8)) [0..<8] = [2 + n * 8..<2 + n * 8 + 8]"
    by (simp only: map_add_upt) (simp add: add.commute)
  finally have "byte_bits (mask_byte outs n) = map (avail outs) [2 + n * 8..<2 + n * 8 + 8]" .
  moreover have "[0..<2 + Suc n * 8] = [0..<2 + n * 8] @ [2 + n * 8..<2 + n * 8 + 8]"
    using upt_add_eq_append [of 0 "2 + n * 8" 8] by (simp add: add.commute add.left_commute)
  ultimately show ?case using Suc by simp
qed

text \<open>What the compact form of an output can hold.\<close>

definition out_storable :: "CTxOut \<Rightarrow> bool" where
  "out_storable out \<longleftrightarrow>
     (if CTxOut_IsNull out then out = CTxOut_SetNull
      else 0 \<le> nValue out \<and> nValue out \<le> int max_compressible \<and> length (scriptPubKey out) \<le> MAX_SIZE \<and> nRounds out = -10)"

lemma and_push_bit_nat: "unat (w :: byte) AND push_bit p 1 \<noteq> 0 \<longleftrightarrow> p < 8 \<and> bit w p"
proof -
  have "unat w AND 2 ^ p = 0 \<longleftrightarrow> \<not> bit (unat w) p" by (rule and_exp_eq_0_iff_not_bit)
  then show ?thesis by (auto simp: push_bit_eq_mult bit_unsigned_iff dest: bit_imp_le_length)
qed

context byte_stream
begin

lemma oparses_read_mask:
  assumes "inv s" "unread s = bs @ rest" "bs = [] \<or> last bs \<noteq> 0"
  shows "oparses (read_mask rd (length (filter (\<lambda>b. b \<noteq> 0) bs)) vAvail) s (vAvail @ concat (map byte_bits bs)) rest"
  using assms
proof (induction bs arbitrary: s vAvail)
  case Nil then show ?case by (simp add: oparses_def read_mask.simps)
next
  case (Cons b bs)
  obtain s1 where s1: "ser_readdata8 rd s = Inr (unat b, s1)" "unread s1 = bs @ rest" "inv s1"
    using ser_readdata8_Cons [of s b "bs @ rest"] Cons.prems by auto
  have bits: "map (\<lambda>p. unat b AND push_bit p 1 \<noteq> 0) [0..<8] = byte_bits b"
    unfolding byte_bits_def by (rule map_cong [OF refl]) (simp only: and_push_bit_nat set_upt atLeastLessThan_iff simp_thms)
  have "last (b # bs) \<noteq> 0" using Cons.prems(3) by simp
  moreover have "last (b # bs) \<in> set (b # bs)" by (rule last_in_set) simp
  ultimately have pos: "length (filter (\<lambda>b. b \<noteq> 0) (b # bs)) > 0"
    unfolding length_greater_0_conv filter_empty_conv by blast
  have code: "(if unat b \<noteq> 0 then length (filter (\<lambda>b. b \<noteq> 0) (b # bs)) - 1 else length (filter (\<lambda>b. b \<noteq> 0) (b # bs))) =
      length (filter (\<lambda>b. b \<noteq> 0) bs)"
    by (simp add: unat_eq_0)
  have "read_mask rd (length (filter (\<lambda>b. b \<noteq> 0) (b # bs))) vAvail s =
      read_mask rd (length (filter (\<lambda>b. b \<noteq> 0) bs)) (vAvail @ byte_bits b) s1"
    using pos by (subst read_mask.simps) (simp only: s1 if_True sum.case prod.case Let_def bits code)
  moreover have "bs = [] \<or> last bs \<noteq> 0" using Cons.prems(3) by (auto split: if_splits)
  moreover note Cons.IH [OF s1(3,2), of "vAvail @ byte_bits b"]
  ultimately show ?case by (simp only: oparses_def list.map concat.simps append.assoc)
qed

lemma oparses_read_outputs:
  assumes "ec_law ec" "inv s" "list_all out_storable outs"
    "unread s = concat (map (\<lambda>out. if \<not> CTxOut_IsNull out then Serialize_CTxOutCompressor ec out else []) outs) @ rest"
  shows "oparses (read_outputs ec rd (map (\<lambda>out. \<not> CTxOut_IsNull out) outs)) s outs rest"
  using assms(2-4)
proof (induction outs arbitrary: s)
  case Nil then show ?case by (simp add: oparses_def)
next
  case (Cons out outs)
  let ?r = "concat (map (\<lambda>out. if \<not> CTxOut_IsNull out then Serialize_CTxOutCompressor ec out else []) outs) @ rest"
  have first: "oparses (\<lambda>s. if \<not> CTxOut_IsNull out then Unserialize_CTxOutCompressor ec rd CTxOut_SetNull s
      else Some (Inr (CTxOut_SetNull, s))) s out ?r"
  proof (cases "CTxOut_IsNull out")
    case True
    then show ?thesis using Cons.prems by (simp add: out_storable_def oparses_def)
  next
    case False
    then show ?thesis using Cons.prems oparses_CTxOutCompressor [OF assms(1) Cons.prems(1), of out ?r CTxOut_SetNull]
      by (simp add: out_storable_def CTxOut_SetNull_def)
  qed
  show ?case unfolding list.map read_outputs.simps
    by (intro oparses_obind [OF first] oparses_obind [OF Cons.IH]) (use Cons.prems in \<open>auto intro: oparses_return\<close>)
qed

end

subsection \<open>Coins are read back\<close>

definition storable :: "CCoins \<Rightarrow> bool" where
  "storable c \<longleftrightarrow> cleaned c \<and> \<not> IsPruned c \<and> length (c_vout c) \<le> MAX_SIZE \<and> list_all out_storable (c_vout c) \<and>
     0 \<le> c_nHeight c \<and> c_nHeight c < 2 ^ 31 \<and> 0 \<le> c_nVersion c \<and> c_nVersion c < 2 ^ 31"

lemma code_bits:
  fixes m :: nat and cb f g :: bool
  defines "n \<equiv> 8 * m + (if cb then 1 else 0) + (if f then 2 else 0) + (if g then 4 else 0)"
  shows "n AND 1 \<noteq> 0 \<longleftrightarrow> cb" "n AND 2 \<noteq> 0 \<longleftrightarrow> f" "n AND 4 \<noteq> 0 \<longleftrightarrow> g" "n AND 6 \<noteq> 0 \<longleftrightarrow> f \<or> g" "n div 8 = m"
proof -
  have bit: "n AND 2 ^ i = 0 \<longleftrightarrow> even (n div 2 ^ i)" for i
    using and_exp_eq_0_iff_not_bit [of n i] by (simp add: bit_iff_odd)
  show "n AND 1 \<noteq> 0 \<longleftrightarrow> cb" using bit [of 0] by (simp add: n_def)
  have "odd (n div 2) \<longleftrightarrow> f" unfolding n_def by (cases cb; cases f; cases g; simp; presburger)
  then show two: "n AND 2 \<noteq> 0 \<longleftrightarrow> f" using bit [of 1] by simp
  have "odd (n div 4) \<longleftrightarrow> g" unfolding n_def by (cases cb; cases f; cases g; simp; presburger)
  then show four: "n AND 4 \<noteq> 0 \<longleftrightarrow> g" using bit [of 2] by simp
  have "(6 :: nat) = 2 OR 4" by simp
  moreover have "n AND (a OR b) = (n AND a) OR (n AND b)" for a b :: nat
    by (rule bit_eqI) (auto simp: bit_and_iff bit_or_iff)
  ultimately have "n AND 6 = (n AND 2) OR (n AND 4)" by metis
  then show "n AND 6 \<noteq> 0 \<longleftrightarrow> f \<or> g" using two four by (simp add: or_eq_0_iff)
  show "n div 8 = m" unfolding n_def by (cases cb; cases f; cases g; simp; presburger)
qed

lemma map_avail:
  "length outs \<le> k \<Longrightarrow> map (avail outs) [0..<k] = map (\<lambda>out. \<not> CTxOut_IsNull out) (outs @ replicate (k - length outs) CTxOut_SetNull)"
  by (rule nth_equalityI) (simp_all add: avail_def nth_append)

lemma Cleanup_loop_replicate:
  "outs \<noteq> [] \<Longrightarrow> \<not> CTxOut_IsNull (last outs) \<Longrightarrow> Cleanup_loop (outs @ replicate k CTxOut_SetNull) = outs"
  by (simp add: Cleanup_loop_nulls Cleanup_loop_id list_all_length)

context byte_stream
begin

lemma oparses_CCoins:
  assumes "ec_law ec" "inv s" "storable c" "Serialize_CCoins ec c = Some b" "unread s = b @ rest"
  shows "oparses (Unserialize_CCoins ec rd) s c rest"
proof -
  define outs where "outs = c_vout c"
  define B where "B = mask_bytes outs"
  define bs where "bs = map (mask_byte outs) [0..<B]"
  define m where "m = length (filter (\<lambda>b. b \<noteq> 0) bs)"
  define f g where "f = avail outs 0" and "g = avail outs 1"
  define code where "code = 8 * (m - (if f \<or> g then 0 else 1)) + (if fCoinBase c then 1 else 0) + (if f then 2 else 0) + (if g then 4 else 0)"
  let ?sers = "\<lambda>outs. concat (map (\<lambda>out. if \<not> CTxOut_IsNull out then Serialize_CTxOutCompressor ec out else []) outs)"
  have st: "cleaned c" "outs \<noteq> []" "\<not> CTxOut_IsNull (last outs)" "list_all out_storable outs" "length outs \<le> MAX_SIZE"
    "0 \<le> c_nHeight c" "c_nHeight c < 2 ^ 31" "0 \<le> c_nVersion c" "c_nVersion c < 2 ^ 31"
    using assms(3) cleaned_pruned [of c] by (auto simp: storable_def outs_def cleaned_def)
  have mask: "CalcMaskSize c = (B, m)"
    using CalcMaskSize_eq [OF st(1)] st(2)
    by (simp add: B_def m_def bs_def outs_def filter_map o_def)
  have fg: "f = (length outs > 0 \<and> \<not> CTxOut_IsNull (outs ! 0))" "g = (length outs > 1 \<and> \<not> CTxOut_IsNull (outs ! 1))"
    by (auto simp: f_def g_def avail_def)
  have nCode: "CCoins_nCode c = Some code" and ok: "f \<or> g \<or> m \<noteq> 0"
    using assms(4) fg mask
    by (auto simp: Serialize_CCoins_def CCoins_nCode_def code_def outs_def [symmetric] Let_def split: if_splits option.splits)
  note bits = code_bits [of "m - (if f \<or> g then 0 else 1)" "fCoinBase c" f g, folded code_def]
  have m': "code div 8 + (if code AND 6 \<noteq> 0 then 0 else 1) = m" using ok by (simp only: bits) auto
  have "m \<le> B" unfolding m_def bs_def using length_filter_le [of _ "map (mask_byte outs) [0..<B]"] by simp
  moreover have "8 * B \<le> length outs + 7" unfolding B_def mask_bytes_def by presburger
  moreover have "code \<le> 8 * m + 7"
    by (simp add: code_def diff_mult_distrib2) (intro conjI impI; linarith)
  ultimately have code: "code < 2 ^ 32" using st(5) by simp
  have un: "unread s = WriteVarInt_int (c_nVersion c) @ WriteVarInt code @ bs @ ?sers outs @ WriteVarInt_int (c_nHeight c) @ rest"
    using assms(4,5) nCode mask by (auto simp: Serialize_CCoins_def outs_def bs_def)
  have bs: "bs = [] \<or> last bs \<noteq> 0"
    using last_mask_byte [OF st(2,3)] by (auto simp: bs_def B_def [symmetric] last_map)
  let ?pad = "replicate (2 + B * 8 - length outs) CTxOut_SetNull"
  have len: "length outs \<le> 2 + B * 8" unfolding B_def mask_bytes_def by presburger
  have vAvail: "[f, g] @ concat (map byte_bits bs) = map (\<lambda>out. \<not> CTxOut_IsNull out) (outs @ ?pad)"
    using mask_bits [of outs B] map_avail [OF len] by (simp add: f_def g_def bs_def o_def)
  have ser: "?sers (outs @ ?pad) = ?sers outs" by simp
  have sto: "list_all out_storable (outs @ ?pad)" 
  proof -
    have "out_storable CTxOut_SetNull" by (simp add: out_storable_def)
    then show ?thesis using st(4) by (simp add: list_all_iff set_replicate_conv_if)
  qed
  have clean: "Cleanup \<lparr>fCoinBase = fCoinBase c, c_vout = outs @ ?pad, c_nHeight = c_nHeight c, c_nVersion = c_nVersion c\<rparr> = c"
    using Cleanup_loop_replicate [OF st(2,3)] by (simp add: Cleanup_def) (simp add: outs_def)
  have outs: "oparses (read_outputs ec rd ([f, g] @ concat (map byte_bits bs))) s' (outs @ ?pad) (WriteVarInt_int (c_nHeight c) @ rest)"
    if "inv s'" "unread s' = ?sers outs @ WriteVarInt_int (c_nHeight c) @ rest" for s'
    unfolding vAvail by (rule oparses_read_outputs [OF assms(1) that(1) sto]) (simp only: ser that(2))
  have masks: "oparses (read_mask rd m [f, g]) s' ([f, g] @ concat (map byte_bits bs)) (?sers outs @ WriteVarInt_int (c_nHeight c) @ rest)"
    if "inv s'" "unread s' = bs @ ?sers outs @ WriteVarInt_int (c_nHeight c) @ rest" for s'
    unfolding m_def using oparses_read_mask [OF that bs, of "[f, g]"] .
  show ?thesis unfolding Unserialize_CCoins_def
    apply (rule oparses_obind [OF oparses_VarInt_int [OF assms(2) un st(8,9)]])
    apply (rule oparses_obind [OF oparses_VarInt [OF _ _ code]], assumption, assumption)
    apply (unfold m')
    apply (unfold bits)
    apply (rule oparses_obind [OF masks], assumption, assumption)
    apply (rule oparses_obind [OF outs], assumption, assumption)
    apply (rule oparses_obind [OF oparses_VarInt_int [OF _ _ st(6,7)]], assumption, assumption)
    apply (unfold clean)
    apply (rule oparses_return, assumption, assumption)
    done
qed

lemma oparses_CTxInUndo:
  assumes "ec_law ec" "inv s" "unread s = Serialize_CTxInUndo ec u @ rest"
    "out_storable (undo_txout u)" "\<not> CTxOut_IsNull (undo_txout u)" "unat (undo_nHeight u) < 2 ^ 31"
    "0 \<le> undo_nVersion u" "undo_nVersion u < 2 ^ 31" "undo_nHeight u = 0 \<Longrightarrow> undo_nVersion u = 0"
  shows "oparses (Unserialize_CTxInUndo ec rd CTxInUndo_init) s u rest"
proof -
  let ?h = "undo_nHeight u" let ?code = "unat (?h * 2 + (if undo_fCoinBase u then 1 else 0))"
  have "unat (?h * 2) = unat ?h * 2" using assms(6) by (simp add: unat_word_ariths)
  then have code: "?code = unat ?h * 2 + (if undo_fCoinBase u then 1 else 0)" using assms(6) by (simp add: unat_word_ariths)
  have dec: "(of_nat (?code div 2) :: u32) = ?h" "(?code AND 1 \<noteq> 0) = undo_fCoinBase u"
    unfolding code by (simp_all add: and_one_eq)
  have lt: "?code < 2 ^ 32" using assms(6) unfolding code by simp
  let ?r = "Serialize_CTxOutCompressor ec (undo_txout u) @ rest"
  have ver: "oparses (\<lambda>s. if ?h > 0 then ReadVarInt_int rd s else Some (Inr (0, s))) s' (undo_nVersion u) ?r"
    if "inv s'" "unread s' = (if ?h > 0 then WriteVarInt_int (undo_nVersion u) else []) @ ?r" for s'
  proof (cases "?h > 0")
    case True then show ?thesis using oparses_VarInt_int [OF that(1) _ assms(7,8), of ?r] that(2) by simp
  next
    case False
    then have "?h = 0" by (simp add: word_greater_zero_iff)
    then show ?thesis using assms(9) that by (simp add: oparses_def)
  qed
  have out: "oparses (Unserialize_CTxOutCompressor ec rd CTxOut_SetNull) s' (undo_txout u) rest" if "inv s'" "unread s' = ?r" for s'
    using oparses_CTxOutCompressor [OF assms(1) that, of CTxOut_SetNull] assms(4,5) by (simp add: out_storable_def CTxOut_SetNull_def)
  have un: "unread s = WriteVarInt ?code @ (if ?h > 0 then WriteVarInt_int (undo_nVersion u) else []) @ ?r"
    using assms(3) by (simp add: Serialize_CTxInUndo_def)
  have u: "\<lparr>undo_txout = undo_txout u, undo_fCoinBase = undo_fCoinBase u, undo_nHeight = ?h, undo_nVersion = undo_nVersion u\<rparr> = u"
    by simp
  show ?thesis unfolding Unserialize_CTxInUndo_def Let_def
    apply (rule oparses_obind [OF oparses_VarInt [OF assms(2) un lt]])
    apply (unfold dec)
    apply (simp only: CTxInUndo_init_def CTxInUndo.simps)
    apply (rule oparses_obind [OF ver], assumption, assumption)
    apply (rule oparses_obind [OF out], assumption, assumption)
    apply (unfold u)
    apply (rule oparses_return, assumption, assumption)
    done
qed

end

subsection \<open>Properties\<close>


definition example_ec :: ec_parser where
  "example_ec k = (if k = 4 # replicate 64 1 \<or> k = 3 # replicate 32 1 then Some (4 # replicate 64 1) else None)"

lemma example_ec_law: "ec_law example_ec"
proof -
  have "(2 OR (xy ! 63 AND 1)) # take 32 xy = 3 # replicate 32 1" if "4 # xy = 4 # replicate 64 (1 :: byte)" for xy
    using that by simp
  moreover have "4 # xy \<noteq> 3 # replicate 32 (1 :: byte)" for xy by simp
  ultimately show ?thesis by (auto simp: ec_law_def example_ec_def split: if_splits)
qed

definition example_stored :: CCoins where
  "example_stored = \<lparr>fCoinBase = True, c_vout = [mk_CTxOut 5000000000 [0x51]],
     c_nHeight = 1, c_nVersion = 1\<rparr>"

lemma example_stored_bytes: "Serialize_CCoins ec example_stored = Some [1, 3, 50, 7, 0x51, 1]"
proof -
  have "CalcMaskSize example_stored = (0, 0)" by (simp add: CalcMaskSize_def example_stored_def)
  moreover have "CompressAmount 5000000000 = 50"
    by (simp add: CompressAmount_def CompressAmount_loop.simps Let_def)
  moreover have "Compress ec [0x51] = None" by (simp add: Compress_def IsToKeyID_def IsToScriptID_def IsToPubKey_def)
  ultimately show ?thesis
    by (simp add: Serialize_CCoins_def CCoins_nCode_def example_stored_def mk_CTxOut_def CTxOut_IsNull_def WriteVarInt_int_def
        WriteVarInt_def varint_tmp.simps Serialize_CTxOutCompressor_def Serialize_CScriptCompressor_def Let_def u64_of_def
        unsigned_of_def and_127_nat)
qed


end
