(* ===== verification/CoinsDB.thy ===== *)
theory CoinsDB
  imports Compressor
begin

text \<open>
  The coins database, txdb.cpp, on the key-value store of dbwrapper.h and dbwrapper.cpp, and the
  stack that the node runs: a cache on the database.

  LevelDB is a map from byte strings to byte strings: a read gives the value last put, and a batch is
  applied as a whole, in order. A failure of LevelDB is an exception of the wrapper, which ends the
  node; it is not modelled.
\<close>

subsection \<open>The wrapper\<close>

record CDBWrapper =
  pdb :: "bytes \<Rightarrow> bytes option"
  obfuscate_key :: bytes

datatype batch_op = Batch_Put bytes bytes | Batch_Delete bytes

record CDBBatch =
  batch_ops :: "batch_op list"
  batch_key :: bytes

definition CDBBatch_init :: "bytes \<Rightarrow> CDBBatch" where
  "CDBBatch_init key = \<lparr>batch_ops = [], batch_key = key\<rparr>"

text \<open>The key and the value are what the stream holds after they are written to it.\<close>

definition CDBBatch_Write :: "CDBBatch \<Rightarrow> bytes \<Rightarrow> bytes \<Rightarrow> CDBBatch" where
  "CDBBatch_Write b key v =
     (let ssValue = CDataStream_Xor \<lparr>ds_vch = v, nReadPos = 0\<rparr> (batch_key b) in
      b\<lparr>batch_ops := batch_ops b @ [Batch_Put key (ds_vch ssValue)]\<rparr>)"

definition CDBBatch_Erase :: "CDBBatch \<Rightarrow> bytes \<Rightarrow> CDBBatch" where
  "CDBBatch_Erase b key = b\<lparr>batch_ops := batch_ops b @ [Batch_Delete key]\<rparr>"

fun leveldb_apply :: "batch_op \<Rightarrow> (bytes \<Rightarrow> bytes option) \<Rightarrow> (bytes \<Rightarrow> bytes option)" where
  "leveldb_apply (Batch_Put k v) m = m(k \<mapsto> v)"
| "leveldb_apply (Batch_Delete k) m = m(k := None)"

definition WriteBatch :: "CDBWrapper \<Rightarrow> CDBBatch \<Rightarrow> bool \<times> CDBWrapper" where
  "WriteBatch db batch = (True, db\<lparr>pdb := fold leveldb_apply (batch_ops batch) (pdb db)\<rparr>)"

text \<open>
  \<open>un\<close> is the reader of the value. An exception that it throws makes the result \<open>false\<close>; the reading
  of a value of finite size ends, so the endless case is not one.
\<close>

definition DB_Read ::
  "(CDataStream \<Rightarrow> (ser_exn + 'v \<times> CDataStream) option) \<Rightarrow> CDBWrapper \<Rightarrow> bytes \<Rightarrow> 'v option" where
  "DB_Read un db key =
     (case pdb db key of
        None \<Rightarrow> None
      | Some strValue \<Rightarrow>
          (case un (CDataStream_Xor \<lparr>ds_vch = strValue, nReadPos = 0\<rparr> (obfuscate_key db)) of
             Some (Inr (v, s)) \<Rightarrow> Some v
           | _ \<Rightarrow> None))"

definition DB_Exists :: "CDBWrapper \<Rightarrow> bytes \<Rightarrow> bool" where
  "DB_Exists db key \<longleftrightarrow> pdb db key \<noteq> None"

definition DB_Write :: "CDBWrapper \<Rightarrow> bytes \<Rightarrow> bytes \<Rightarrow> bool \<times> CDBWrapper" where
  "DB_Write db key v = WriteBatch db (CDBBatch_Write (CDBBatch_init (obfuscate_key db)) key v)"

definition DB_Erase :: "CDBWrapper \<Rightarrow> bytes \<Rightarrow> bool \<times> CDBWrapper" where
  "DB_Erase db key = WriteBatch db (CDBBatch_Erase (CDBBatch_init (obfuscate_key db)) key)"

subsection \<open>The coins database\<close>

abbreviation (input) DB_COINS :: byte where "DB_COINS \<equiv> 99"
abbreviation (input) DB_BEST_BLOCK :: byte where "DB_BEST_BLOCK \<equiv> 66"

definition coins_key :: "uint256 \<Rightarrow> bytes" where
  "coins_key txid = DB_COINS # txid"

definition CCoinsViewDB_GetCoins :: "ec_parser \<Rightarrow> CDBWrapper \<Rightarrow> uint256 \<Rightarrow> CCoins option" where
  "CCoinsViewDB_GetCoins ec db txid = DB_Read (Unserialize_CCoins ec CDataStream_read) db (coins_key txid)"

definition CCoinsViewDB_HaveCoins :: "CDBWrapper \<Rightarrow> uint256 \<Rightarrow> bool" where
  "CCoinsViewDB_HaveCoins db txid = DB_Exists db (coins_key txid)"

definition CCoinsViewDB_GetBestBlock :: "CDBWrapper \<Rightarrow> uint256" where
  "CCoinsViewDB_GetBestBlock db =
     (case DB_Read (\<lambda>s. Some (CDataStream_read s 32)) db [DB_BEST_BLOCK] of
        None \<Rightarrow> blob_SetNull 32
      | Some hashBestChain \<Rightarrow> hashBestChain)"

text \<open>
  One round of the loop of \<open>BatchWrite\<close>. Coins that are not pruned have a serialization: the branch
  \<open>None\<close> is the failed assertion of pruned ones.
\<close>

definition DB_BatchWrite_entry :: "ec_parser \<Rightarrow> uint256 \<times> CCoinsCacheEntry \<Rightarrow> CDBBatch \<Rightarrow> CDBBatch" where
  "DB_BatchWrite_entry ec it batch =
     (case it of (txid, e) \<Rightarrow>
        if flags e AND DIRTY \<noteq> 0 then
          (if IsPruned (coins e) then CDBBatch_Erase batch (coins_key txid)
           else case Serialize_CCoins ec (coins e) of
               Some b \<Rightarrow> CDBBatch_Write batch (coins_key txid) b
             | None \<Rightarrow> batch)
        else batch)"

definition CCoinsViewDB_BatchWrite :: "ec_parser \<Rightarrow> CDBWrapper \<Rightarrow> CCoinsMap \<Rightarrow> uint256 \<Rightarrow> bool \<times> CDBWrapper" where
  "CCoinsViewDB_BatchWrite ec db mapCoins hashBlock =
     (let batch = fold (DB_BatchWrite_entry ec) mapCoins (CDBBatch_init (obfuscate_key db));
        batch = (if \<not> blob_IsNull hashBlock then CDBBatch_Write batch [DB_BEST_BLOCK] hashBlock else batch) in
      WriteBatch db batch)"

definition CCoinsViewDB_view :: "ec_parser \<Rightarrow> CDBWrapper CCoinsView" where
  "CCoinsViewDB_view ec =
     \<lparr>v_GetCoins = \<lambda>db txid. (CCoinsViewDB_GetCoins ec db txid, db),
      v_HaveCoins = \<lambda>db txid. (CCoinsViewDB_HaveCoins db txid, db),
      v_GetBestBlock = \<lambda>db. (CCoinsViewDB_GetBestBlock db, db),
      v_BatchWrite = CCoinsViewDB_BatchWrite ec\<rparr>"

subsection \<open>Obfuscation\<close>

lemma Xor_loop_involution: "j < length key \<or> True \<Longrightarrow> Xor_loop key (Xor_loop key bs j) j = bs"
  by (induction key bs j rule: Xor_loop.induct) (simp_all add: xor.assoc)

lemma length_Xor_loop [simp]: "length (Xor_loop key bs j) = length bs"
  by (induction key bs j rule: Xor_loop.induct) simp_all

lemma Xor_stream:
  "CDataStream_Xor \<lparr>ds_vch = v, nReadPos = 0\<rparr> key = \<lparr>ds_vch = (if key = [] then v else Xor_loop key v 0), nReadPos = 0\<rparr>"
  by (simp add: CDataStream_Xor_def CDataStream_size_def Let_def)

lemma Xor_Xor:
  "CDataStream_Xor \<lparr>ds_vch = ds_vch (CDataStream_Xor \<lparr>ds_vch = v, nReadPos = 0\<rparr> key), nReadPos = 0\<rparr> key = \<lparr>ds_vch = v, nReadPos = 0\<rparr>"
  by (simp add: Xor_stream Xor_loop_involution)

text \<open>What a batch that was built on the key of the database leaves to be read.\<close>

lemma DB_Read_put:
  assumes "pdb db key = Some (ds_vch (CDataStream_Xor \<lparr>ds_vch = v, nReadPos = 0\<rparr> (obfuscate_key db)))"
    "un \<lparr>ds_vch = v, nReadPos = 0\<rparr> = Some (Inr (x, s))"
  shows "DB_Read un db key = Some x"
  using assms by (simp add: DB_Read_def Xor_Xor)

subsection \<open>The database is a view\<close>

definition db_map :: "ec_parser \<Rightarrow> CDBWrapper \<Rightarrow> coins_map" where
  "db_map ec db txid = CCoinsViewDB_GetCoins ec db txid"

definition db_inv :: "ec_parser \<Rightarrow> CDBWrapper \<Rightarrow> bool" where
  "db_inv ec db \<longleftrightarrow> (\<forall>txid. pdb db (coins_key txid) \<noteq> None \<longrightarrow>
     (\<exists>c. CCoinsViewDB_GetCoins ec db txid = Some c \<and> \<not> IsPruned c))"

text \<open>
  What the database stores: pruned coins are erased, others need the law of the parser of keys and a
  size that the stream can have.
\<close>

definition db_fit :: "ec_parser \<Rightarrow> CCoins \<Rightarrow> bool" where
  "db_fit ec c \<longleftrightarrow> IsPruned c \<or> ec_law ec \<and> storable c \<and> (\<forall>b. Serialize_CCoins ec c = Some b \<longrightarrow> length b < 2 ^ 31)"

lemma Serialize_CCoins_defined: "cleaned c \<Longrightarrow> \<not> IsPruned c \<Longrightarrow> \<exists>b. Serialize_CCoins ec c = Some b"
proof -
  assume c: "cleaned c" "\<not> IsPruned c"
  then have outs: "c_vout c \<noteq> []" "\<not> CTxOut_IsNull (last (c_vout c))" by (auto simp: cleaned_def cleaned_pruned)
  show ?thesis
  proof (cases "mask_bytes (c_vout c) = 0")
    case True
    then have "length (c_vout c) - 2 + 7 < 8" by (simp add: mask_bytes_def div_eq_0_iff)
    moreover have "length (c_vout c) > 0" using outs(1) by simp
    ultimately have "length (c_vout c) = 1 \<or> length (c_vout c) = 2" by linarith
    then show ?thesis using outs
      by (auto simp: Serialize_CCoins_def CCoins_nCode_def Let_def last_conv_nth)
  next
    case False
    have "mask_bytes (c_vout c) - 1 \<in> set (filter (\<lambda>i. mask_byte (c_vout c) i \<noteq> 0) [0..<mask_bytes (c_vout c)])"
      using last_mask_byte [OF outs False] False by simp
    then have "snd (CalcMaskSize c) \<noteq> 0" using CalcMaskSize_eq [OF c(1) outs(1)]
      by (metis length_0_conv list.set_cases snd_conv list.distinct(1))
    then show ?thesis by (simp add: Serialize_CCoins_def CCoins_nCode_def Let_def)
  qed
qed

lemma Unserialize_cleaned: "Unserialize_CCoins ec rd s = Some (Inr (c, s')) \<Longrightarrow> cleaned c"
  by (auto simp: Unserialize_CCoins_def obind_def split: option.splits sum.splits prod.splits)

lemma db_map_cleaned: "CCoinsViewDB_GetCoins ec db k = Some c \<Longrightarrow> cleaned c"
  by (auto simp: CCoinsViewDB_GetCoins_def DB_Read_def dest: Unserialize_cleaned split: option.splits sum.splits)

definition entry_ops :: "ec_parser \<Rightarrow> bytes \<Rightarrow> uint256 \<times> CCoinsCacheEntry \<Rightarrow> batch_op list" where
  "entry_ops ec key it =
     (case it of (txid, e) \<Rightarrow>
        if flags e AND DIRTY = 0 then []
        else if IsPruned (coins e) then [Batch_Delete (coins_key txid)]
        else case Serialize_CCoins ec (coins e) of
            Some b \<Rightarrow> [Batch_Put (coins_key txid) (ds_vch (CDataStream_Xor \<lparr>ds_vch = b, nReadPos = 0\<rparr> key))]
          | None \<Rightarrow> [])"

lemma fold_DB_BatchWrite_entry:
  "batch_ops (fold (DB_BatchWrite_entry ec) m b) = batch_ops b @ concat (map (entry_ops ec (batch_key b)) m) \<and>
   batch_key (fold (DB_BatchWrite_entry ec) m b) = batch_key b"
proof (induction m arbitrary: b)
  case (Cons it m)
  have "batch_ops (DB_BatchWrite_entry ec it b) = batch_ops b @ entry_ops ec (batch_key b) it"
    "batch_key (DB_BatchWrite_entry ec it b) = batch_key b"
    by (auto simp: DB_BatchWrite_entry_def entry_ops_def CDBBatch_Erase_def CDBBatch_Write_def Let_def
        split: prod.splits option.splits)
  then show ?case using Cons.IH [of "DB_BatchWrite_entry ec it b"] by simp
qed simp

lemma coins_key_eq [simp]: "coins_key a = coins_key b \<longleftrightarrow> a = b" "coins_key a \<noteq> [66]" "[66] \<noteq> coins_key a"
  by (auto simp: coins_key_def)

lemma apply_entry_ops:
  "fold leveldb_apply (entry_ops ec key (k, e)) p =
     (if flags e AND DIRTY = 0 then p
      else if IsPruned (coins e) then p(coins_key k := None)
      else case Serialize_CCoins ec (coins e) of
          Some b \<Rightarrow> p(coins_key k \<mapsto> ds_vch (CDataStream_Xor \<lparr>ds_vch = b, nReadPos = 0\<rparr> key))
        | None \<Rightarrow> p)"
  by (auto simp: entry_ops_def split: option.splits)

lemma apply_entry_ops_other: "k' \<noteq> k \<Longrightarrow> fold leveldb_apply (entry_ops ec key (k, e)) p (coins_key k') = p (coins_key k')"
  "fold leveldb_apply (entry_ops ec key (k, e)) p [66] = p [66]"
  by (auto simp: apply_entry_ops split: option.splits)

lemma apply_all_entry_ops:
  "distinct (map fst m) \<Longrightarrow> fold leveldb_apply (concat (map (entry_ops ec key) m)) p (coins_key k) =
     (case map_of m k of None \<Rightarrow> p (coins_key k) | Some e \<Rightarrow> fold leveldb_apply (entry_ops ec key (k, e)) p (coins_key k))"
proof (induction m arbitrary: p)
  case (Cons it m)
  obtain k' e' where it: "it = (k', e')" by (cases it)
  let ?p = "fold leveldb_apply (entry_ops ec key (k', e')) p"
  show ?case
  proof (cases "k' = k")
    case True
    then have "map_of m k = None" using Cons.prems it by (simp add: map_of_eq_None_iff)
    then show ?thesis using Cons True it by simp
  next
    case False
    have "fold leveldb_apply (entry_ops ec key (k, e)) ?p (coins_key k) = fold leveldb_apply (entry_ops ec key (k, e)) p (coins_key k)" for e
      unfolding apply_entry_ops [of ec key k e] using apply_entry_ops_other(1) [of k k' ec key e' p] False
      by (auto split: option.splits)
    then show ?thesis using Cons False it apply_entry_ops_other(1) [of k k' ec key e' p] by (simp split: option.splits)
  qed
qed simp

lemma apply_all_entry_ops_best: "fold leveldb_apply (concat (map (entry_ops ec key) m)) p [66] = p [66]"
proof (induction m arbitrary: p)
  case (Cons it m)
  then show ?case by (cases it) (simp add: apply_entry_ops_other)
qed simp

lemma DB_Read_coins:
  assumes "db_fit ec c" "\<not> IsPruned c" "Serialize_CCoins ec c = Some b"
    "pdb db key = Some (ds_vch (CDataStream_Xor \<lparr>ds_vch = b, nReadPos = 0\<rparr> (obfuscate_key db)))"
  shows "DB_Read (Unserialize_CCoins ec CDataStream_read) db key = Some c"
proof -
  let ?s = "\<lparr>ds_vch = b, nReadPos = 0\<rparr>"
  have st: "storable c" "ec_law ec" "length b < 2 ^ 31" using assms(1-3) unfolding db_fit_def by blast+
  have inv: "CDataStream_inv ?s" using st(3) by (simp add: CDataStream_inv_def)
  have un: "CDataStream_unread ?s = b @ []" by (simp add: CDataStream_unread_def)
  obtain s' where "Unserialize_CCoins ec CDataStream_read ?s = Some (Inr (c, s'))"
    using data_stream.oparses_CCoins [OF st(2) inv st(1) assms(3) un] unfolding data_stream.oparses_def by blast
  then show ?thesis by (rule DB_Read_put [where v = b, OF assms(4)])
qed

lemma CCoinsViewDB_BatchWrite_pdb:
  assumes "CCoinsViewDB_BatchWrite ec db m h = (ok, db')"
  shows "ok" "obfuscate_key db' = obfuscate_key db"
    "distinct (map fst m) \<Longrightarrow> pdb db' (coins_key k) =
       (case map_of m k of None \<Rightarrow> pdb db (coins_key k)
        | Some e \<Rightarrow> fold leveldb_apply (entry_ops ec (obfuscate_key db) (k, e)) (pdb db) (coins_key k))"
    "pdb db' [66] = (if blob_IsNull h then pdb db [66] else Some (ds_vch (CDataStream_Xor \<lparr>ds_vch = h, nReadPos = 0\<rparr> (obfuscate_key db))))"
proof -
  let ?K = "obfuscate_key db"
  let ?ops = "concat (map (entry_ops ec ?K) m) @ (if blob_IsNull h then []
      else [Batch_Put [66] (ds_vch (CDataStream_Xor \<lparr>ds_vch = h, nReadPos = 0\<rparr> ?K))])"
  have "CCoinsViewDB_BatchWrite ec db m h = (True, db\<lparr>pdb := fold leveldb_apply ?ops (pdb db)\<rparr>)"
    using fold_DB_BatchWrite_entry [of ec m "CDBBatch_init ?K"]
    by (simp add: CCoinsViewDB_BatchWrite_def WriteBatch_def CDBBatch_Write_def CDBBatch_init_def Let_def)
  then have eq: "ok" "db' = db\<lparr>pdb := fold leveldb_apply ?ops (pdb db)\<rparr>" using assms by simp_all
  show "ok" "obfuscate_key db' = obfuscate_key db" using eq by simp_all
  have p: "pdb db' = (if blob_IsNull h then fold leveldb_apply (concat (map (entry_ops ec ?K) m)) (pdb db)
      else (fold leveldb_apply (concat (map (entry_ops ec ?K) m)) (pdb db))([66] \<mapsto> ds_vch (CDataStream_Xor \<lparr>ds_vch = h, nReadPos = 0\<rparr> ?K)))"
    by (simp add: eq(2))
  show "pdb db' [66] = (if blob_IsNull h then pdb db [66] else Some (ds_vch (CDataStream_Xor \<lparr>ds_vch = h, nReadPos = 0\<rparr> ?K)))"
    by (simp add: p apply_all_entry_ops_best)
  assume d: "distinct (map fst m)"
  have "pdb db' (coins_key k) = fold leveldb_apply (concat (map (entry_ops ec ?K) m)) (pdb db) (coins_key k)"
    by (simp add: p)
  then show "pdb db' (coins_key k) = (case map_of m k of None \<Rightarrow> pdb db (coins_key k)
      | Some e \<Rightarrow> fold leveldb_apply (entry_ops ec ?K (k, e)) (pdb db) (coins_key k))"
    by (simp only: apply_all_entry_ops [OF d])
qed

lemma db_map_cong:
  "obfuscate_key db' = obfuscate_key db \<Longrightarrow> pdb db' (coins_key k) = pdb db (coins_key k) \<Longrightarrow> db_map ec db' k = db_map ec db k"
  unfolding db_map_def CCoinsViewDB_GetCoins_def DB_Read_def by (simp only:)

lemma db_invD:
  "db_inv ec db \<Longrightarrow> pdb db (coins_key k) = Some b \<Longrightarrow> \<exists>c. db_map ec db k = Some c \<and> \<not> IsPruned c"
  unfolding db_inv_def db_map_def by blast

lemma db_map_None: "pdb db (coins_key k) = None \<Longrightarrow> db_map ec db k = None"
  by (simp add: db_map_def CCoinsViewDB_GetCoins_def DB_Read_def)

lemma db_map_defined: "db_inv ec db \<Longrightarrow> pdb db (coins_key k) \<noteq> None \<longleftrightarrow> db_map ec db k \<noteq> None"
  using db_invD [of ec db k] db_map_None [of db k ec] by (cases "pdb db (coins_key k)") auto

lemma db_map_bind: "db_inv ec db \<Longrightarrow> Option.bind (db_map ec db k) unpruned = db_map ec db k"
  using db_invD [of ec db k] db_map_None [of db k ec] by (cases "pdb db (coins_key k)") fastforce+

lemma db_batch_write:
  assumes inv: "db_inv ec db" and ok: "entries_ok (db_map ec db) m"
    and fit: "\<forall>e \<in> snd ` set m. flags e AND DIRTY \<noteq> 0 \<longrightarrow> db_fit ec (coins e)"
    and w: "CCoinsViewDB_BatchWrite ec db m h = (True, db')"
  shows "db_inv ec db' \<and> db_map ec db' = overlay m (db_map ec db) \<and>
    (length h = 32 \<and> \<not> blob_IsNull h \<longrightarrow> CCoinsViewDB_GetBestBlock db' = h)"
proof -
  note pdb' = CCoinsViewDB_BatchWrite_pdb [OF w]
  have d: "distinct (map fst m)" using ok by (simp add: entries_ok_def)
  have get: "db_map ec db' k = overlay m (db_map ec db) k \<and>
      (pdb db' (coins_key k) \<noteq> None \<longrightarrow> (\<exists>c. db_map ec db' k = Some c \<and> \<not> IsPruned c))" for k
  proof (cases "map_of m k")
    case None
    then have "pdb db' (coins_key k) = pdb db (coins_key k)" using pdb'(3) [OF d, of k] by simp
    then have "db_map ec db' k = db_map ec db k" "pdb db' (coins_key k) \<noteq> None \<longrightarrow> (\<exists>c. db_map ec db k = Some c \<and> \<not> IsPruned c)"
      using db_map_cong [OF pdb'(2)] db_invD [OF inv] by auto
    then show ?thesis using None by (simp add: overlay_apply)
  next
    case (Some e)
    then have p: "pdb db' (coins_key k) = fold leveldb_apply (entry_ops ec (obfuscate_key db) (k, e)) (pdb db) (coins_key k)"
      using pdb'(3) [OF d, of k] by simp
    have e: "entry_ok (db_map ec db k) e" using entries_okD [OF ok Some] .
    show ?thesis
    proof (cases "flags e AND DIRTY = 0")
      case True
      then have "pdb db' (coins_key k) = pdb db (coins_key k)" using p by (simp add: apply_entry_ops)
      then have "db_map ec db' k = db_map ec db k" "pdb db' (coins_key k) \<noteq> None \<longrightarrow> (\<exists>c. db_map ec db k = Some c \<and> \<not> IsPruned c)"
        using db_map_cong [OF pdb'(2)] db_invD [OF inv] by auto
      then show ?thesis using True e Some by (simp add: overlay_apply entry_ok_def)
    next
      case dirty: False
      show ?thesis
      proof (cases "IsPruned (coins e)")
        case True
        then have "pdb db' (coins_key k) = None" using p dirty by (simp add: apply_entry_ops)
        then show ?thesis using True Some by (simp add: overlay_apply db_map_None)
      next
        case False
        obtain b where b: "Serialize_CCoins ec (coins e) = Some b"
          using Serialize_CCoins_defined False e by (auto simp: entry_ok_def)
        have "db_fit ec (coins e)" using fit dirty map_of_SomeD [OF Some] by force
        moreover have "pdb db' (coins_key k) = Some (ds_vch (CDataStream_Xor \<lparr>ds_vch = b, nReadPos = 0\<rparr> (obfuscate_key db')))"
          using p dirty False b pdb'(2) by (simp add: apply_entry_ops)
        ultimately have "db_map ec db' k = Some (coins e)"
          using DB_Read_coins [OF _ False b] by (simp add: db_map_def CCoinsViewDB_GetCoins_def)
        then show ?thesis using Some False by (simp add: overlay_apply)
      qed
    qed
  qed
  have "CCoinsViewDB_GetBestBlock db' = h" if h: "length h = 32" "\<not> blob_IsNull h"
  proof -
    let ?s = "\<lparr>ds_vch = h, nReadPos = 0\<rparr>"
    have "CDataStream_read ?s 32 = Inr (h, ?s\<lparr>nReadPos := 0, ds_vch := []\<rparr>)" using h(1) by (simp add: CDataStream_read_def)
    then have "DB_Read (\<lambda>s. Some (CDataStream_read s 32)) db' [66] = Some h"
      using pdb'(4) h(2) pdb'(2) by (intro DB_Read_put [where v = h]) simp_all
    then show ?thesis by (simp add: CCoinsViewDB_GetBestBlock_def)
  qed
  moreover have "db_inv ec db'" unfolding db_inv_def db_map_def [symmetric] using get by blast
  ultimately show ?thesis using get by blast
qed

interpretation coins_db: coins_view "CCoinsViewDB_view ec" "db_map ec" CCoinsViewDB_GetBestBlock "db_inv ec" "db_fit ec" for ec
proof (unfold_locales, goal_cases)
  case (1 s k r s')
  then have r: "r = db_map ec s k" "s' = s" by (auto simp: CCoinsViewDB_view_def db_map_def)
  have "\<forall>c. r = Some c \<longrightarrow> cleaned c" using db_map_cleaned r by (simp add: db_map_def)
  then show ?case using 1(1) db_map_bind [OF 1(1), of k] unfolding r by blast
next
  case (2 s k h s')
  then have eq: "s = s'" "h = (pdb s (coins_key k) \<noteq> None)"
    by (auto simp: CCoinsViewDB_view_def CCoinsViewDB_HaveCoins_def DB_Exists_def)
  show ?case using 2(1) db_map_defined [OF 2(1), of k] unfolding eq(2) unfolding eq(1) by blast
next
  case (3 s b s') then show ?case by (auto simp: CCoinsViewDB_view_def)
next
  case (4 s m hash s')
  have "CCoinsViewDB_BatchWrite ec s m hash = (True, s')" using 4(4) by (simp add: CCoinsViewDB_view_def)
  then show ?case by (rule db_batch_write [OF 4(1-3)])
qed

text \<open>The caches of the node: the tip on the database, and a cache on the tip.\<close>

interpretation coins_tip: coins_view "CCoinsViewCache_view (CCoinsViewDB_view ec) usage" "cache_abs (db_map ec)"
  "cache_best CCoinsViewDB_GetBestBlock" "cache_inv (db_map ec) (db_inv ec)" "\<lambda>_. True" for ec usage
  by (rule coins_db.cache_is_coins_view)

lemma Flush_DB: "\<exists>s'. Flush (CCoinsViewDB_view ec) s = (True, s')"
  by (simp add: Flush_def CCoinsViewDB_view_def CCoinsViewDB_BatchWrite_def WriteBatch_def Let_def)

lemma cache_init_map: "db_inv ec db \<Longrightarrow> cache_inv (db_map ec) (db_inv ec) (CCoinsViewCache_init db) \<and>
    cache_abs (db_map ec) (CCoinsViewCache_init db) = db_map ec db"
  by (simp add: cache_inv_def cache_abs_def CCoinsViewCache_init_def)

subsection \<open>Properties\<close>

text \<open>C8: The cache on the coins database is the map of unspent outputs, whatever is done with it: after
  a run of lookups, modifications, new entries, batch writes from above, evictions and changes of the
  best block, the map that cache and database stand for is what the operations make of the map of the
  database; every lookup agrees with it; and a flush of storable coins succeeds, empties the cache and
  leaves that map in the database.\<close>

theorem coins_cache_refines_map:
  assumes "db_inv ec db"
    and "cache_run (CCoinsViewDB_view ec) usage (db_map ec) (CCoinsViewCache_init db) ops s"
  shows "map_run (db_map ec db) ops (cache_abs (db_map ec) s) \<and>
    (\<forall>k r s'. AccessCoins (CCoinsViewDB_view ec) usage s k = (r, s') \<longrightarrow> Option.bind r unpruned = cache_abs (db_map ec) s k) \<and>
    (\<forall>k h s'. Cache_HaveCoins (CCoinsViewDB_view ec) usage s k = (h, s') \<longrightarrow> (h \<longleftrightarrow> cache_abs (db_map ec) s k \<noteq> None)) \<and>
    ((\<forall>e \<in> snd ` set (cacheCoins s). flags e AND DIRTY \<noteq> 0 \<longrightarrow> db_fit ec (coins e)) \<longrightarrow>
      (\<exists>s'. Flush (CCoinsViewDB_view ec) s = (True, s') \<and> cacheCoins s' = [] \<and> db_inv ec (base s') \<and>
         db_map ec (base s') = cache_abs (db_map ec) s))"
proof (intro conjI impI allI)
  have run: "cache_inv (db_map ec) (db_inv ec) s \<and> map_run (db_map ec db) ops (cache_abs (db_map ec) s)"
    using coins_db.cache_run_refines [OF assms(2)] cache_init_map [OF assms(1)] by simp
  then show "map_run (db_map ec db) ops (cache_abs (db_map ec) s)" ..
  note inv = run [THEN conjunct1]
  show "Option.bind r unpruned = cache_abs (db_map ec) s k" if "AccessCoins (CCoinsViewDB_view ec) usage s k = (r, s')" for k r s'
    using coins_db.AccessCoins_spec [OF inv that] by blast
  show "h \<longleftrightarrow> cache_abs (db_map ec) s k \<noteq> None" if "Cache_HaveCoins (CCoinsViewDB_view ec) usage s k = (h, s')" for k h s'
    using coins_db.Cache_HaveCoins_spec [OF inv that] by blast
  assume fit: "\<forall>e \<in> snd ` set (cacheCoins s). flags e AND DIRTY \<noteq> 0 \<longrightarrow> db_fit ec (coins e)"
  obtain s' where s': "Flush (CCoinsViewDB_view ec) s = (True, s')" using Flush_DB by blast
  show "\<exists>s'. Flush (CCoinsViewDB_view ec) s = (True, s') \<and> cacheCoins s' = [] \<and> db_inv ec (base s') \<and>
      db_map ec (base s') = cache_abs (db_map ec) s"
    using coins_db.Flush_spec [OF inv fit s'] s' by (auto simp: cache_inv_def)
qed

definition example_coins :: CCoins where
  "example_coins = \<lparr>fCoinBase = True, c_vout = [mk_CTxOut 5000000000 [0x51]], c_nHeight = 7, c_nVersion = 1\<rparr>"

definition example_db :: CDBWrapper where
  "example_db = \<lparr>pdb = Map.empty, obfuscate_key = [1, 2, 3, 4, 5, 6, 7, 8]\<rparr>"

lemma example_db_inv: "db_inv ec example_db" "db_map ec example_db = Map.empty"
  by (simp_all add: db_inv_def example_db_def db_map_def [abs_def] CCoinsViewDB_GetCoins_def DB_Read_def)

lemma example_coins_clean: "cleaned example_coins" "\<not> IsPruned example_coins"
  by (simp_all add: example_coins_def cleaned_def IsPruned_def CTxOut_IsNull_def mk_CTxOut_def)

theorem coins_cache_refines_map_witness:
  "\<exists>A. map_run Map.empty [Op_ModifyNew (replicate 32 9) (\<lambda>_. example_coins)] A \<and> A (replicate 32 9) = Some example_coins"
proof -
  let ?op = "Op_ModifyNew (replicate 32 9) (\<lambda>_. example_coins)" and ?ec = "\<lambda>_ :: bytes. None :: bytes option"
  let ?s = "exec_op (CCoinsViewDB_view ?ec) (\<lambda>_. 0) ?op (CCoinsViewCache_init example_db)"
  have "cache_run (CCoinsViewDB_view ?ec) (\<lambda>_. 0) (db_map ?ec) (CCoinsViewCache_init example_db) ([] @ [?op]) ?s"
    by (rule cache_run.run_step [OF cache_run.run_nil]) (simp add: CCoinsViewCache_init_def example_db_inv)
  then have "map_run Map.empty [?op] (cache_abs (db_map ?ec) ?s)"
    using coins_cache_refines_map [OF example_db_inv(1)] example_db_inv(2) by fastforce
  moreover have "cache_abs (db_map ?ec) ?s (replicate 32 9) = Some example_coins"
    using example_coins_clean
    by (simp add: modifying_def ModifyNewCoins_def CCoinsViewCache_init_def CCoinsModifier_coins_def CCoinsModifier_assign_def
        CCoinsModifier_destroy_def cache_abs_def overlay_def Let_def)
  ultimately show ?thesis by blast
qed

end
