(* ===== verification/Merkle.thy ===== *)
theory Merkle
  imports SigHash
begin

text \<open>
  Merkle trees: consensus/merkle.cpp. \<open>MerkleComputation\<close> computes the root and the branch of a leaf in
  one pass over the leaves, with a constant amount of memory. The reference is the tree level by level,
  as test/merkle_tests.cpp keeps it.

  The array \<open>inner\<close> is a function from its indices; its levels stay below 32 while there are fewer than
  \<open>2 ^ 32\<close> leaves, which is the limit that the code states. The optional outputs are the flag
  \<open>pbranch\<close>, whether a branch is wanted. In the loops the argument \<open>c\<close> is \<open>count >> level\<close>.
\<close>

subsection \<open>Definitions\<close>

definition Hash2 :: "crypto \<Rightarrow> uint256 \<Rightarrow> uint256 \<Rightarrow> uint256" where
  "Hash2 C a b = CHash256 C (a @ b)"

function carry_loop ::
  "crypto \<Rightarrow> bool \<Rightarrow> (nat \<Rightarrow> uint256) \<Rightarrow> nat option \<Rightarrow> nat \<Rightarrow> nat \<Rightarrow> uint256 \<Rightarrow> bool \<Rightarrow> bool \<Rightarrow> uint256 list \<Rightarrow>
   nat \<times> uint256 \<times> bool \<times> bool \<times> uint256 list" where
  "carry_loop C pbranch inner matchlevel c level h matchh mutated branch =
     (if c = 0 \<or> odd c then (level, h, matchh, mutated, branch)
      else
        let (branch, matchh) =
              (if pbranch then
                 (if matchh then (branch @ [inner level], matchh)
                  else if matchlevel = Some level then (branch @ [h], True)
                  else (branch, matchh))
               else (branch, matchh));
            mutated = (mutated \<or> inner level = h) in
        carry_loop C pbranch inner matchlevel (c div 2) (Suc level) (Hash2 C (inner level) h) matchh mutated branch)"
  by pat_completeness auto
termination
  by (relation "measure (\<lambda>(C, pbranch, inner, matchlevel, c, level, h, matchh, mutated, branch). c)") auto

declare carry_loop.simps [simp del]

text \<open>The loop over the leaves: the count, the array, the level of the match, the flag, the branch.\<close>

fun leaves_loop ::
  "crypto \<Rightarrow> bool \<Rightarrow> nat \<Rightarrow> uint256 list \<Rightarrow> nat \<times> (nat \<Rightarrow> uint256) \<times> nat option \<times> bool \<times> uint256 list \<Rightarrow>
   nat \<times> (nat \<Rightarrow> uint256) \<times> nat option \<times> bool \<times> uint256 list" where
  "leaves_loop C pbranch branchpos [] s = s"
| "leaves_loop C pbranch branchpos (h # leaves) (cnt, inner, matchlevel, mutated, branch) =
     (let matchh = (cnt = branchpos);
          (level, h, matchh, mutated, branch) =
            carry_loop C pbranch inner matchlevel (cnt + 1) 0 h matchh mutated branch in
      leaves_loop C pbranch branchpos leaves
        (cnt + 1, inner(level := h), if matchh then Some level else matchlevel, mutated, branch))"

text \<open>
  The final sweep. The two nested loops are one recursion: an odd count above one is a step of the outer
  loop, an even count one of the inner loop.
\<close>

function lowest_level :: "nat \<Rightarrow> nat \<Rightarrow> nat" where
  "lowest_level c level = (if c = 0 \<or> odd c then level else lowest_level (c div 2) (Suc level))"
  by pat_completeness auto
termination
  by (relation "measure (\<lambda>(c, level). c)") auto

declare lowest_level.simps [simp del]

function sweep ::
  "crypto \<Rightarrow> bool \<Rightarrow> (nat \<Rightarrow> uint256) \<Rightarrow> nat option \<Rightarrow> nat \<Rightarrow> nat \<Rightarrow> uint256 \<Rightarrow> bool \<Rightarrow> uint256 list \<Rightarrow>
   uint256 \<times> uint256 list" where
  "sweep C pbranch inner matchlevel c level h matchh branch =
     (if c \<le> 1 then (h, branch)
      else if odd c then
        sweep C pbranch inner matchlevel ((c + 1) div 2) (Suc level) (Hash2 C h h) matchh
          (if pbranch \<and> matchh then branch @ [h] else branch)
      else
        let (branch, matchh) =
              (if pbranch then
                 (if matchh then (branch @ [inner level], matchh)
                  else if matchlevel = Some level then (branch @ [h], True)
                  else (branch, matchh))
               else (branch, matchh)) in
        sweep C pbranch inner matchlevel (c div 2) (Suc level) (Hash2 C (inner level) h) matchh branch)"
  by pat_completeness auto
termination
  by (relation "measure (\<lambda>(C, pbranch, inner, matchlevel, c, level, h, matchh, branch). c)") (simp_all, presburger+)

declare sweep.simps [simp del]

definition MerkleComputation ::
  "crypto \<Rightarrow> uint256 list \<Rightarrow> nat \<Rightarrow> bool \<Rightarrow> uint256 \<times> bool \<times> uint256 list" where
  "MerkleComputation C leaves branchpos pbranch =
     (if length leaves = 0 then (blob_SetNull 32, False, [])
      else
        let (cnt, inner, matchlevel, mutated, branch) =
              leaves_loop C pbranch branchpos leaves (0, \<lambda>_. blob_SetNull 32, None, False, []);
            level = lowest_level cnt 0;
            h = inner level;
            matchh = (matchlevel = Some level);
            (h, branch) = sweep C pbranch inner matchlevel (cnt div 2 ^ level) level h matchh branch in
        (h, mutated, branch))"

definition ComputeMerkleRoot :: "crypto \<Rightarrow> uint256 list \<Rightarrow> uint256 \<times> bool" where
  "ComputeMerkleRoot C leaves =
     (case MerkleComputation C leaves 0xffffffff False of (root, mutated, branch) \<Rightarrow> (root, mutated))"

definition ComputeMerkleBranch :: "crypto \<Rightarrow> uint256 list \<Rightarrow> nat \<Rightarrow> uint256 list" where
  "ComputeMerkleBranch C leaves position =
     (case MerkleComputation C leaves position True of (root, mutated, branch) \<Rightarrow> branch)"

fun ComputeMerkleRootFromBranch :: "crypto \<Rightarrow> uint256 \<Rightarrow> uint256 list \<Rightarrow> nat \<Rightarrow> uint256" where
  "ComputeMerkleRootFromBranch C hash [] nIndex = hash"
| "ComputeMerkleRootFromBranch C hash (b # vMerkleBranch) nIndex =
     ComputeMerkleRootFromBranch C
       (if odd nIndex then Hash2 C b hash else Hash2 C hash b) vMerkleBranch (nIndex div 2)"

text \<open>The leaves of a block are the hashes of its transactions.\<close>

definition GetHash :: "crypto \<Rightarrow> CTransaction \<Rightarrow> uint256" where
  "GetHash C tx = CHash256 C (Serialize_CTransaction tx)"

definition BlockMerkleRoot :: "crypto \<Rightarrow> CTransaction list \<Rightarrow> uint256 \<times> bool" where
  "BlockMerkleRoot C vtx = ComputeMerkleRoot C (map (GetHash C) vtx)"

definition BlockMerkleBranch :: "crypto \<Rightarrow> CTransaction list \<Rightarrow> nat \<Rightarrow> uint256 list" where
  "BlockMerkleBranch C vtx position = ComputeMerkleBranch C (map (GetHash C) vtx) position"

subsection \<open>The tree level by level\<close>

text \<open>The older algorithm of the tests: a level from the one below, where the last entry of a level with an
  odd number of entries is paired with itself.\<close>

fun next_level :: "crypto \<Rightarrow> uint256 list \<Rightarrow> uint256 list" where
  "next_level C [] = []"
| "next_level C [a] = [Hash2 C a a]"
| "next_level C (a # b # rest) = Hash2 C a b # next_level C rest"

lemma length_next_level [simp]: "length (next_level C xs) = (length xs + 1) div 2"
  by (induction C xs rule: next_level.induct) auto

function BuildMerkleTree :: "crypto \<Rightarrow> uint256 list \<Rightarrow> uint256" where
  "BuildMerkleTree C level =
     (case level of [] \<Rightarrow> blob_SetNull 32 | [h] \<Rightarrow> h | _ \<Rightarrow> BuildMerkleTree C (next_level C level))"
  by pat_completeness auto
termination
  by (relation "measure (\<lambda>(C, level). length level)") auto

declare BuildMerkleTree.simps [simp del]

function GetMerkleBranch :: "crypto \<Rightarrow> uint256 list \<Rightarrow> nat \<Rightarrow> uint256 list" where
  "GetMerkleBranch C level nIndex =
     (if length level > 1 then
        level ! min (nIndex XOR 1) (length level - 1) # GetMerkleBranch C (next_level C level) (nIndex div 2)
      else [])"
  by pat_completeness auto
termination
  by (relation "measure (\<lambda>(C, level, nIndex). length level)") auto

declare GetMerkleBranch.simps [simp del]

abbreviation tree_level :: "crypto \<Rightarrow> nat \<Rightarrow> uint256 list \<Rightarrow> uint256 list" where
  "tree_level C k xs \<equiv> (next_level C ^^ k) xs"

lemma nth_next_level:
  "j < length (next_level C xs) \<Longrightarrow> next_level C xs ! j = Hash2 C (xs ! (2 * j)) (xs ! min (2 * j + 1) (length xs - 1))"
proof (induction C xs arbitrary: j rule: next_level.induct)
  case (3 C a b rest)
  show ?case
  proof (cases j)
    case (Suc i)
    then have "i < length (next_level C rest)" using 3(2) by simp
    moreover from this have "min (2 * j + 1) (length (a # b # rest) - 1) = Suc (Suc (min (2 * i + 1) (length rest - 1)))"
      using Suc by simp
    ultimately show ?thesis using 3(1) [of i] Suc by simp
  qed simp
qed auto

lemma tree_level_Suc: "tree_level C (Suc k) xs = next_level C (tree_level C k xs)"
  by simp

lemma tree_level_shift: "tree_level C k (next_level C xs) = tree_level C (Suc k) xs"
  by (simp add: funpow_swap1)

lemma div_mult_le: "(n :: nat) div m * m \<le> n"
  by simp

text \<open>A level has a node for each block of \<open>2 ^ k\<close> leaves, of which the last one may be incomplete.\<close>

lemma node_exists: "q < length (tree_level C k xs) \<longleftrightarrow> q * 2 ^ k < length xs"
proof (induction k arbitrary: q)
  case (Suc k)
  have "q < (length (tree_level C k xs) + 1) div 2 \<longleftrightarrow> 2 * q < length (tree_level C k xs)" by linarith
  then show ?case using Suc.IH [of "2 * q"] by (simp add: mult.assoc mult.commute mult.left_commute)
qed simp

lemma nth_tree_level:
  assumes "j * 2 ^ Suc k < length xs"
  shows "tree_level C (Suc k) xs ! j = Hash2 C (tree_level C k xs ! (2 * j))
    (tree_level C k xs ! min (2 * j + 1) (length (tree_level C k xs) - 1))"
  using nth_next_level [of j C "tree_level C k xs"] assms node_exists [where q = j and k = "Suc k"] by simp

lemma nth_tree_level_pair:
  assumes "(2 * j + 1) * 2 ^ k < length xs"
  shows "tree_level C (Suc k) xs ! j = Hash2 C (tree_level C k xs ! (2 * j)) (tree_level C k xs ! (2 * j + 1))"
proof -
  have "2 * j + 1 < length (tree_level C k xs)" using assms node_exists by blast
  then have "min (2 * j + 1) (length (tree_level C k xs) - 1) = 2 * j + 1" by linarith
  moreover have "j * 2 ^ Suc k < length xs" using assms by (simp add: algebra_simps)
  ultimately show ?thesis by (simp add: nth_tree_level del: funpow.simps)
qed

subsection \<open>The loop over the leaves\<close>

text \<open>The sibling of a node, and the branch of a leaf up to a level.\<close>

definition sibling :: "nat \<Rightarrow> nat \<Rightarrow> nat" where
  "sibling len i = min (i XOR 1) (len - 1)"

definition branch_upto :: "crypto \<Rightarrow> uint256 list \<Rightarrow> nat \<Rightarrow> nat \<Rightarrow> uint256 list" where
  "branch_upto C xs pos k =
     map (\<lambda>j. tree_level C j xs ! sibling (length (tree_level C j xs)) (pos div 2 ^ j)) [0..<k]"

text \<open>Some complete pair below the first \<open>n\<close> leaves has two equal nodes.\<close>

definition equal_pair :: "crypto \<Rightarrow> uint256 list \<Rightarrow> nat \<Rightarrow> bool" where
  "equal_pair C xs n \<longleftrightarrow>
     (\<exists>k j. (2 * j + 2) * 2 ^ k \<le> n \<and> tree_level C k xs ! (2 * j) = tree_level C k xs ! (2 * j + 1))"

text \<open>What the array holds after \<open>n\<close> leaves: for each bit of \<open>n\<close> the last complete node of its level.\<close>

definition holds_nodes :: "crypto \<Rightarrow> uint256 list \<Rightarrow> nat \<Rightarrow> (nat \<Rightarrow> uint256) \<Rightarrow> bool" where
  "holds_nodes C xs n inner \<longleftrightarrow> (\<forall>k. odd (n div 2 ^ k) \<longrightarrow> inner k = tree_level C k xs ! (n div 2 ^ k - 1))"

definition match_state :: "crypto \<Rightarrow> uint256 list \<Rightarrow> nat \<Rightarrow> nat \<Rightarrow> nat option \<Rightarrow> uint256 list \<Rightarrow> bool" where
  "match_state C xs pos n matchlevel branch \<longleftrightarrow>
     (if pos < n then
        \<exists>m. odd (n div 2 ^ m) \<and> Suc (pos div 2 ^ m) = n div 2 ^ m \<and> matchlevel = Some m \<and> branch = branch_upto C xs pos m
      else matchlevel = None \<and> branch = [])"

lemma xor_1 [simp]: "(n :: nat) XOR Suc 0 = (if even n then n + 1 else n - 1)"
  unfolding xor_nat_unfold [of n "Suc 0"] by (auto elim!: evenE oddE)

lemma branch_upto_Suc: "branch_upto C xs pos (Suc k) = branch_upto C xs pos k @
    [tree_level C k xs ! sibling (length (tree_level C k xs)) (pos div 2 ^ k)]"
  by (simp add: branch_upto_def)

lemma div_2_pow_Suc: "n div 2 ^ Suc k = n div 2 ^ k div (2 :: nat)"
  by (metis div_mult2_eq mult.commute power_Suc)

lemma pred_div_2_pow:
  assumes "2 ^ k dvd Suc n"
  shows "Suc (n div 2 ^ k) = Suc n div 2 ^ k"
proof -
  obtain m where m: "Suc n = 2 ^ k * m" using assms by (elim dvdE)
  then have "0 < m" by (cases m) auto
  then obtain i where "m = Suc i" by (cases m) auto
  then have "2 ^ k * i \<le> n" "n < 2 ^ k * Suc i" 
  proof -
    have "1 \<le> (2 :: nat) ^ k" by simp
    then show "2 ^ k * i \<le> n" "n < 2 ^ k * Suc i" using m \<open>m = Suc i\<close> by (simp_all add: algebra_simps, linarith+)
  qed
  then have "n div 2 ^ k = i" by (rule div_nat_eqI)
  then show ?thesis using m \<open>m = Suc i\<close> by simp
qed

lemma carry_high:
  assumes "2 ^ l dvd Suc n" "odd (Suc n div 2 ^ l)" "l < k"
  shows "Suc n div 2 ^ k = n div 2 ^ k"
proof -
  obtain i where k: "k = Suc l + i" using assms(3) less_imp_Suc_add by blast
  have "Suc n div 2 ^ Suc l = n div 2 ^ Suc l"
    unfolding div_2_pow_Suc pred_div_2_pow [OF assms(1), symmetric] using assms(2) pred_div_2_pow [OF assms(1)]
    by (metis even_Suc_div_two even_Suc)
  then show ?thesis unfolding k power_add div_mult2_eq by simp
qed

lemma low_bits_even:
  assumes "2 ^ l dvd m" "k < l"
  shows "even (m div (2 :: nat) ^ k)"
proof -
  have "(2 :: nat) ^ Suc k dvd 2 ^ l" using assms(2) by (intro le_imp_power_dvd) simp
  then have "2 ^ Suc k dvd m" using assms(1) dvd_trans by blast
  then obtain c where "m = 2 ^ k * (2 * c)" by (auto elim!: dvdE)
  then show ?thesis by simp
qed

text \<open>The pair of level \<open>k\<close> that the leaf \<open>n\<close> completes.\<close>

definition new_pair :: "crypto \<Rightarrow> uint256 list \<Rightarrow> nat \<Rightarrow> nat \<Rightarrow> bool" where
  "new_pair C xs n k \<longleftrightarrow> tree_level C k xs ! (Suc n div 2 ^ k - 2) = tree_level C k xs ! (Suc n div 2 ^ k - 1)"

lemma equal_pair_Suc:
  assumes "2 ^ l dvd Suc n" "odd (Suc n div 2 ^ l)"
  shows "equal_pair C xs (Suc n) \<longleftrightarrow> equal_pair C xs n \<or> (\<exists>k<l. new_pair C xs n k)"
proof -
  have "(\<exists>j. (2 * j + 2) * 2 ^ k = Suc n \<and> tree_level C k xs ! (2 * j) = tree_level C k xs ! (2 * j + 1)) \<longleftrightarrow>
      k < l \<and> new_pair C xs n k" for k
  proof
    assume "\<exists>j. (2 * j + 2) * 2 ^ k = Suc n \<and> tree_level C k xs ! (2 * j) = tree_level C k xs ! (2 * j + 1)"
    then obtain j where j: "(2 * j + 2) * 2 ^ k = Suc n" "tree_level C k xs ! (2 * j) = tree_level C k xs ! (2 * j + 1)"
      by blast
    have d: "Suc n div 2 ^ k = 2 * j + 2" unfolding j(1) [symmetric] by simp
    have "k < l"
    proof (rule ccontr)
      assume "\<not> k < l"
      then obtain i where i: "k = l + i" using le_Suc_ex not_less by blast
      have "Suc n = 2 ^ l * (2 ^ i * (2 * j + 2))" using j(1) [symmetric] unfolding i power_add by (simp only: mult_ac)
      then have "Suc n div 2 ^ l = 2 ^ i * (2 * j + 2)" by simp
      then show False using assms(2) by simp
    qed
    then show "k < l \<and> new_pair C xs n k" using j(2) d by (simp add: new_pair_def)
  next
    assume k: "k < l \<and> new_pair C xs n k"
    have "2 ^ Suc k dvd Suc n"
      using dvd_trans [OF le_imp_power_dvd [of "Suc k" l 2] assms(1)] k by simp
    then obtain c where c: "Suc n = 2 ^ Suc k * c" by (elim dvdE)
    then obtain j where j: "c = Suc j" by (cases c) auto
    have n: "(2 * j + 2) * 2 ^ k = Suc n" using c j by (simp add: algebra_simps)
    have "Suc n div 2 ^ k = 2 * j + 2" unfolding n [symmetric] by simp
    then show "\<exists>j. (2 * j + 2) * 2 ^ k = Suc n \<and> tree_level C k xs ! (2 * j) = tree_level C k xs ! (2 * j + 1)"
      using n k by (intro exI [of _ j]) (simp add: new_pair_def)
  qed
  then show ?thesis unfolding equal_pair_def le_Suc_eq by blast
qed

definition carry_match :: "crypto \<Rightarrow> uint256 list \<Rightarrow> nat \<Rightarrow> nat \<Rightarrow> nat \<Rightarrow> nat option \<Rightarrow> bool \<Rightarrow> uint256 list \<Rightarrow> bool" where
  "carry_match C xs pos n l matchlevel matchh branch \<longleftrightarrow>
     (if matchh then Suc (pos div 2 ^ l) = Suc n div 2 ^ l \<and> branch = branch_upto C xs pos l
      else pos \<noteq> n \<and> match_state C xs pos n matchlevel branch \<and> (\<forall>m. matchlevel = Some m \<longrightarrow> l \<le> m))"

text \<open>One step of the carry: the node at the end of level \<open>l\<close> is joined with its left sibling.\<close>

lemma carry_step:
  assumes n: "n < length xs" and l: "2 ^ l dvd Suc n" "even (Suc n div 2 ^ l)"
    and inner: "holds_nodes C xs n inner" and h: "h = tree_level C l xs ! (Suc n div 2 ^ l - 1)"
  shows "2 ^ Suc l dvd Suc n" "inner l = tree_level C l xs ! (Suc n div 2 ^ l - 2)"
    "Hash2 C (inner l) h = tree_level C (Suc l) xs ! (Suc n div 2 ^ Suc l - 1)"
    "carry_match C xs pos n l matchlevel True branch \<Longrightarrow>
       carry_match C xs pos n (Suc l) matchlevel True (branch @ [inner l])"
    "carry_match C xs pos n l (Some l) False branch \<Longrightarrow>
       carry_match C xs pos n (Suc l) (Some l) True (branch @ [h])"
    "carry_match C xs pos n l matchlevel False branch \<Longrightarrow> matchlevel \<noteq> Some l \<Longrightarrow>
       carry_match C xs pos n (Suc l) matchlevel False branch"
proof -
  obtain M where M: "Suc n = 2 ^ l * M" using l(1) by (elim dvdE)
  then have "Suc n div 2 ^ l = M" by simp
  then have "even M" using l(2) by simp
  then obtain c where c: "M = 2 * c" by (elim evenE)
  then have "c \<noteq> 0" using M by (metis mult_0_right nat.distinct(1))
  then obtain j where "c = Suc j" by (cases c) auto
  then have j: "M = 2 * j + 2" using c by simp
  have d: "Suc n div 2 ^ l = 2 * j + 2" using M j by simp
  have p: "n div 2 ^ l = 2 * j + 1" using pred_div_2_pow [OF l(1)] d by simp
  have d': "Suc n div 2 ^ Suc l = Suc j" unfolding div_2_pow_Suc d by simp
  have "Suc n = 2 ^ Suc l * Suc j" using M j by (simp add: algebra_simps)
  then show dvd: "2 ^ Suc l dvd Suc n" by (rule dvdI)
  show in_l: "inner l = tree_level C l xs ! (Suc n div 2 ^ l - 2)"
    using inner p d by (simp add: holds_nodes_def)
  have "(2 * j + 1) * 2 ^ l < length xs"
  proof -
    have "(2 * j + 1) * 2 ^ l < (2 * j + 2) * 2 ^ l" by simp
    also have "\<dots> = Suc n" using M j by (simp add: mult.commute)
    finally show ?thesis using n by simp
  qed
  then have pair: "2 * j + 1 < length (tree_level C l xs)"
    and hash: "tree_level C (Suc l) xs ! j = Hash2 C (tree_level C l xs ! (2 * j)) (tree_level C l xs ! (2 * j + 1))"
    using node_exists [where q = "2 * j + 1"] nth_tree_level_pair [of j l xs C] by simp_all
  show "Hash2 C (inner l) h = tree_level C (Suc l) xs ! (Suc n div 2 ^ Suc l - 1)"
    unfolding d' in_l h d using hash by simp
  show "carry_match C xs pos n l matchlevel True branch \<Longrightarrow>
      carry_match C xs pos n (Suc l) matchlevel True (branch @ [inner l])"
  proof -
    assume "carry_match C xs pos n l matchlevel True branch"
    then have b: "pos div 2 ^ l = 2 * j + 1" "branch = branch_upto C xs pos l" by (simp_all add: carry_match_def d)
    have "sibling (length (tree_level C l xs)) (2 * j + 1) = 2 * j" using pair by (simp add: sibling_def)
    then show ?thesis using b in_l by (simp add: carry_match_def branch_upto_Suc d' div_2_pow_Suc d del: power_Suc)
  qed
  show "carry_match C xs pos n l (Some l) False branch \<Longrightarrow>
      carry_match C xs pos n (Suc l) (Some l) True (branch @ [h])"
  proof -
    assume "carry_match C xs pos n l (Some l) False branch"
    then have b: "pos div 2 ^ l = 2 * j" "branch = branch_upto C xs pos l"
      using p by (auto simp: carry_match_def match_state_def split: if_splits)
    have "sibling (length (tree_level C l xs)) (2 * j) = 2 * j + 1" using pair by (simp add: sibling_def)
    then show ?thesis using b h d by (simp add: carry_match_def branch_upto_Suc d' div_2_pow_Suc del: power_Suc)
  qed
  show "carry_match C xs pos n l matchlevel False branch \<Longrightarrow> matchlevel \<noteq> Some l \<Longrightarrow>
      carry_match C xs pos n (Suc l) matchlevel False branch"
    by (auto simp: carry_match_def le_Suc_eq Suc_le_eq order_le_less)
qed

lemma carry_loop_correct:
  assumes n: "n < length xs" and inner: "holds_nodes C xs n inner"
  shows "2 ^ l dvd Suc n \<Longrightarrow> h = tree_level C l xs ! (Suc n div 2 ^ l - 1) \<Longrightarrow>
    (mutated \<longleftrightarrow> equal_pair C xs n \<or> (\<exists>k<l. new_pair C xs n k)) \<Longrightarrow>
    (pbranch \<Longrightarrow> carry_match C xs pos n l matchlevel matchh branch) \<Longrightarrow>
    \<exists>l' h' matchh' mutated' branch'.
      carry_loop C pbranch inner matchlevel (Suc n div 2 ^ l) l h matchh mutated branch = (l', h', matchh', mutated', branch') \<and>
      2 ^ l' dvd Suc n \<and> odd (Suc n div 2 ^ l') \<and> h' = tree_level C l' xs ! (Suc n div 2 ^ l' - 1) \<and>
      (mutated' \<longleftrightarrow> equal_pair C xs (Suc n)) \<and>
      (pbranch \<longrightarrow> carry_match C xs pos n l' matchlevel matchh' branch')"
proof (induction "Suc n div 2 ^ l" arbitrary: l h matchh mutated branch rule: less_induct)
  case less
  have pos: "Suc n div 2 ^ l \<noteq> 0" using pred_div_2_pow [OF less.prems(1)] by simp
  show ?case
  proof (cases "odd (Suc n div 2 ^ l)")
    case True
    then show ?thesis using less.prems equal_pair_Suc [OF less.prems(1) True]
      by (subst carry_loop.simps) auto
  next
    case False
    then have even: "even (Suc n div 2 ^ l)" by simp
    note step = carry_step [OF n less.prems(1) even inner less.prems(2)]
    let ?mb = "if pbranch then (if matchh then (branch @ [inner l], matchh)
        else if matchlevel = Some l then (branch @ [h], True) else (branch, matchh)) else (branch, matchh)"
    have rec: "carry_loop C pbranch inner matchlevel (Suc n div 2 ^ l) l h matchh mutated branch =
        carry_loop C pbranch inner matchlevel (Suc n div 2 ^ Suc l) (Suc l) (Hash2 C (inner l) h) (snd ?mb)
          (mutated \<or> inner l = h) (fst ?mb)"
      using even pos by (subst carry_loop.simps) (simp add: div_2_pow_Suc Let_def split: prod.split del: power_Suc)
    have "new_pair C xs n l \<longleftrightarrow> inner l = h" unfolding new_pair_def step(2) less.prems(2) ..
    then have mut: "(mutated \<or> inner l = h) \<longleftrightarrow> equal_pair C xs n \<or> (\<exists>k<Suc l. new_pair C xs n k)"
      using less.prems(3) by (auto simp: less_Suc_eq)
    have match: "carry_match C xs pos n (Suc l) matchlevel (snd ?mb) (fst ?mb)" if "pbranch"
      using less.prems(4) [OF that] that step(4) [of pos matchlevel branch] step(5) [of pos branch]
        step(6) [of pos matchlevel branch] by (cases matchh; cases "matchlevel = Some l") auto
    have "Suc n div 2 ^ Suc l < Suc n div 2 ^ l" unfolding div_2_pow_Suc using pos by simp
    from less.hyps [OF this step(1,3) mut match] show ?thesis unfolding rec .
  qed
qed

lemma holds_nodes_update:
  assumes inner: "holds_nodes C xs n inner" and l: "2 ^ l dvd Suc n" "odd (Suc n div 2 ^ l)"
    and h: "h = tree_level C l xs ! (Suc n div 2 ^ l - 1)"
  shows "holds_nodes C xs (Suc n) (inner(l := h))"
  unfolding holds_nodes_def
proof (intro allI impI)
  fix k
  assume odd: "odd (Suc n div 2 ^ k)"
  consider "k < l" | "k = l" | "l < k" by linarith
  then show "(inner(l := h)) k = tree_level C k xs ! (Suc n div 2 ^ k - 1)"
  proof cases
    case 3
    then show ?thesis using carry_high [OF l 3] odd inner by (simp add: holds_nodes_def)
  qed (use low_bits_even [OF l(1)] odd h in auto)
qed

lemma match_state_update:
  assumes l: "2 ^ l dvd Suc n" "odd (Suc n div 2 ^ l)"
    and m: "carry_match C xs pos n l matchlevel matchh branch"
  shows "match_state C xs pos (Suc n) (if matchh then Some l else matchlevel) branch"
proof (cases matchh)
  case True
  then have b: "Suc (pos div 2 ^ l) = Suc n div 2 ^ l" "branch = branch_upto C xs pos l"
    using m by (simp_all add: carry_match_def)
  have "pos < Suc n"
  proof (rule ccontr)
    assume "\<not> pos < Suc n"
    then have "Suc n div 2 ^ l \<le> pos div 2 ^ l" by (intro div_le_mono) simp
    then show False using b(1) by simp
  qed
  then show ?thesis using b l True by (auto simp: match_state_def)
next
  case False
  then have s: "pos \<noteq> n" "match_state C xs pos n matchlevel branch" "\<And>m. matchlevel = Some m \<Longrightarrow> l \<le> m"
    using m by (simp_all add: carry_match_def)
  show ?thesis
  proof (cases "pos < n")
    case True
    then obtain m where m: "odd (n div 2 ^ m)" "Suc (pos div 2 ^ m) = n div 2 ^ m" "matchlevel = Some m"
        "branch = branch_upto C xs pos m"
      using s(2) by (auto simp: match_state_def)
    have "even (n div 2 ^ l)" using pred_div_2_pow [OF l(1)] l(2) by (metis even_Suc)
    then have "l < m" using s(3) [OF m(3)] m(1) by (cases "l = m") auto
    then show ?thesis using True m False carry_high [OF l] by (auto simp: match_state_def)
  next
    case no: False
    then show ?thesis using s False by (simp add: match_state_def)
  qed
qed

lemma leaves_loop_correct:
  "xs = pre @ ys \<Longrightarrow> holds_nodes C xs (length pre) inner \<Longrightarrow> (mutated \<longleftrightarrow> equal_pair C xs (length pre)) \<Longrightarrow>
    (pbranch \<Longrightarrow> match_state C xs pos (length pre) matchlevel branch) \<Longrightarrow>
    \<exists>inner' matchlevel' mutated' branch'.
      leaves_loop C pbranch pos ys (length pre, inner, matchlevel, mutated, branch) =
        (length xs, inner', matchlevel', mutated', branch') \<and>
      holds_nodes C xs (length xs) inner' \<and> (mutated' \<longleftrightarrow> equal_pair C xs (length xs)) \<and>
      (pbranch \<longrightarrow> match_state C xs pos (length xs) matchlevel' branch')"
proof (induction ys arbitrary: pre inner mutated matchlevel branch)
  case (Cons h ys)
  let ?n = "length pre"
  have n: "?n < length xs" and h: "h = tree_level C 0 xs ! (Suc ?n div 2 ^ 0 - 1)" using Cons.prems(1) by simp_all
  have match: "carry_match C xs pos ?n 0 matchlevel (?n = pos) branch" if "pbranch"
    using Cons.prems(4) [OF that] by (auto simp: carry_match_def match_state_def branch_upto_def)
  have mut: "mutated \<longleftrightarrow> equal_pair C xs ?n \<or> (\<exists>k<0. new_pair C xs ?n k)" using Cons.prems(3) by simp
  obtain l h' matchh mutated' branch' where c:
      "carry_loop C pbranch inner matchlevel (Suc ?n div 2 ^ 0) 0 h (?n = pos) mutated branch = (l, h', matchh, mutated', branch')"
      "2 ^ l dvd Suc ?n" "odd (Suc ?n div 2 ^ l)" "h' = tree_level C l xs ! (Suc ?n div 2 ^ l - 1)"
      "mutated' \<longleftrightarrow> equal_pair C xs (Suc ?n)" "pbranch \<longrightarrow> carry_match C xs pos ?n l matchlevel matchh branch'"
    using carry_loop_correct [OF n Cons.prems(2) _ h mut match, of pbranch] by (auto simp del: funpow.simps)
  have "length (pre @ [h]) = Suc ?n" by simp
  moreover have "xs = (pre @ [h]) @ ys" using Cons.prems(1) by simp
  moreover note holds_nodes_update [OF Cons.prems(2) c(2-4)] match_state_update [OF c(2,3)] c(5,6)
  ultimately show ?case
    using Cons.IH [of "pre @ [h]" "inner(l := h')" mutated' "if matchh then Some l else matchlevel" branch'] c(1)
    by (simp add: Let_def del: fun_upd_apply)
qed simp

subsection \<open>The final sweep\<close>

definition sweep_match ::
  "crypto \<Rightarrow> uint256 list \<Rightarrow> nat \<Rightarrow> nat \<Rightarrow> nat \<Rightarrow> nat option \<Rightarrow> bool \<Rightarrow> uint256 list \<Rightarrow> bool" where
  "sweep_match C xs pos c l matchlevel matchh branch \<longleftrightarrow>
     (if matchh then Suc (pos div 2 ^ l) = c \<and> branch = branch_upto C xs pos l
      else match_state C xs pos (length xs) matchlevel branch \<and>
        (\<forall>m. matchlevel = Some m \<longrightarrow> l \<le> m \<and> (length xs = c * 2 ^ l \<longrightarrow> l < m)))"

text \<open>The last node of level \<open>l\<close>: either all nodes are complete and their number is odd, or it is not.\<close>

definition last_node :: "nat \<Rightarrow> nat \<Rightarrow> nat \<Rightarrow> bool" where
  "last_node n c l \<longleftrightarrow> (odd c \<and> n = c * 2 ^ l) \<or> (n < c * 2 ^ l \<and> (c - 1) * 2 ^ l < n)"

lemma last_node_step:
  assumes "last_node n c l" "1 < c"
  shows "n < (c + 1) div 2 * 2 ^ Suc l" "((c + 1) div 2 - 1) * 2 ^ Suc l < n"
proof -
  let ?d = "(c + 1) div 2"
  have "2 * (?d - 1) * 2 ^ l \<le> (c - 1) * 2 ^ l" by (rule mult_le_mono1) linarith
  also have "\<dots> < n" using assms by (auto simp: last_node_def)
  finally show "(?d - 1) * 2 ^ Suc l < n" by (simp only: power_Suc mult_ac)
  have "n < 2 * ?d * 2 ^ l"
  proof (cases "odd c \<and> n = c * 2 ^ l")
    case True
    then have "c < 2 * ?d" by presburger
    then show ?thesis using True by simp
  next
    case False
    then have "n < c * 2 ^ l" using assms(1) by (auto simp: last_node_def)
    also have "\<dots> \<le> 2 * ?d * 2 ^ l" by (rule mult_le_mono1) linarith
    finally show ?thesis .
  qed
  then show "n < ?d * 2 ^ Suc l" by (simp only: power_Suc mult_ac)
qed

lemma last_node_div:
  assumes "(n :: nat) < c * 2 ^ l" "(c - 1) * 2 ^ l < n"
  shows "n div 2 ^ l = c - 1"
proof (rule div_nat_eqI)
  show "2 ^ l * (c - 1) \<le> n" using assms(2) by (simp add: mult.commute)
  have "c \<noteq> 0" using assms by (intro notI) simp
  then show "n < 2 ^ l * Suc (c - 1)" using assms(1) by (simp add: mult.commute)
qed

lemma sweep_correct:
  assumes inner: "holds_nodes C xs (length xs) inner"
  shows "length (tree_level C l xs) = c \<Longrightarrow> 0 < c \<Longrightarrow> last_node (length xs) c l \<Longrightarrow>
    h = tree_level C l xs ! (c - 1) \<Longrightarrow> (\<forall>k<l. 1 < length (tree_level C k xs)) \<Longrightarrow>
    (pbranch \<and> pos < length xs \<Longrightarrow> sweep_match C xs pos c l matchlevel matchh branch) \<Longrightarrow>
    \<exists>l' branch'. sweep C pbranch inner matchlevel c l h matchh branch = (tree_level C l' xs ! 0, branch') \<and>
      length (tree_level C l' xs) = 1 \<and> (\<forall>k<l'. 1 < length (tree_level C k xs)) \<and>
      (pbranch \<and> pos < length xs \<longrightarrow> branch' = branch_upto C xs pos l')"
proof (induction c arbitrary: l h matchh branch rule: less_induct)
  case (less c)
  let ?n = "length xs" and ?T = "tree_level C l xs"
  show ?case
  proof (cases "c \<le> 1")
    case True
    then have c: "c = 1" using less.prems(2) by simp
    have "branch = branch_upto C xs pos l" if m: "pbranch \<and> pos < ?n"
    proof (cases matchh)
      case no: False
      obtain m where m: "odd (?n div 2 ^ m)" "l \<le> m" "?n = 2 ^ l \<longrightarrow> l < m"
        using less.prems(6) [OF m] m no c by (auto simp: sweep_match_def match_state_def)
      have "?n \<le> 2 ^ l" using less.prems(3) c by (auto simp: last_node_def)
      moreover have "(2 :: nat) ^ l \<le> 2 ^ m" using m(2) by simp
      moreover have "(2 :: nat) ^ l < 2 ^ m" if "?n = 2 ^ l" using m(3) that by simp
      ultimately have "?n < 2 ^ m" by linarith
      then show ?thesis using m(1) by simp
    qed (use less.prems(6) [OF m] in \<open>simp add: sweep_match_def\<close>)
    then show ?thesis using c less.prems by (subst sweep.simps) (auto intro!: exI [of _ l])
  next
    case False
    note step = last_node_step [OF less.prems(3)]
    let ?c = "(c + 1) div 2"
    have c': "?c < c" "0 < ?c" "length (tree_level C (Suc l) xs) = ?c" using False less.prems(1) by (simp_all, presburger?)
    have last': "last_node ?n ?c (Suc l)" using step False by (simp add: last_node_def)
    have up: "\<forall>k<Suc l. 1 < length (tree_level C k xs)" using less.prems(1,5) False by (auto simp: less_Suc_eq)
    have node: "tree_level C (Suc l) xs ! (?c - 1) = Hash2 C (?T ! (2 * (?c - 1))) (?T ! min (2 * (?c - 1) + 1) (c - 1))"
      using nth_next_level [of "?c - 1" C ?T] c' less.prems(1) by simp
    have "?n \<noteq> ?c * 2 ^ Suc l" using step(1) False by simp
    show ?thesis
    proof (cases "odd c")
      case True
      then have ix: "2 * (?c - 1) = c - 1" by presburger
      have h': "Hash2 C h h = tree_level C (Suc l) xs ! (?c - 1)" unfolding node ix less.prems(4) by simp
      let ?b = "if pbranch \<and> matchh then branch @ [h] else branch"
      have match: "sweep_match C xs pos ?c (Suc l) matchlevel matchh ?b" if m: "pbranch \<and> pos < ?n"
      proof (cases matchh)
        case yes: True
        then have b: "pos div 2 ^ l = c - 1" "branch = branch_upto C xs pos l"
          using less.prems(6) [OF m] by (auto simp: sweep_match_def)
        have "sibling c (c - 1) = c - 1" using True False by (simp add: sibling_def)
        moreover have "Suc ((c - 1) div 2) = ?c" using True by presburger
        ultimately show ?thesis using yes m b less.prems(1,4)
          by (simp add: sweep_match_def branch_upto_Suc div_2_pow_Suc del: power_Suc)
      next
        case no: False
        then have s: "match_state C xs pos ?n matchlevel branch"
          "\<And>m. matchlevel = Some m \<Longrightarrow> l \<le> m \<and> (?n = c * 2 ^ l \<longrightarrow> l < m)"
          using less.prems(6) [OF m] by (simp_all add: sweep_match_def)
        have "l \<noteq> k" if k: "matchlevel = Some k" for k
        proof
          assume "l = k"
          then have "odd (?n div 2 ^ l)" "?n \<noteq> c * 2 ^ l" using s k m by (auto simp: match_state_def)
          moreover from this(2) have "?n div 2 ^ l = c - 1"
            using less.prems(3) last_node_div by (auto simp: last_node_def)
          ultimately show False using True by simp
        qed
        then show ?thesis using no s \<open>?n \<noteq> ?c * 2 ^ Suc l\<close>
          by (auto simp: sweep_match_def le_less Suc_le_eq)
      qed
      have "sweep C pbranch inner matchlevel c l h matchh branch =
          sweep C pbranch inner matchlevel ?c (Suc l) (Hash2 C h h) matchh ?b"
        using False True by (subst sweep.simps) simp
      then show ?thesis using less.IH [OF c'(1) c'(3,2) last' h' up match] by simp
    next
      case even: False
      then have cc: "?c = c div 2" and ix: "2 * (?c - 1) = c - 2" and ix': "min (2 * (?c - 1) + 1) (c - 1) = c - 1"
        using False by presburger+
      have lt: "?n < c * 2 ^ l" "(c - 1) * 2 ^ l < ?n" using less.prems(3) even by (auto simp: last_node_def)
      have nd: "?n div 2 ^ l = c - 1" by (rule last_node_div [OF lt])
      have in_l: "inner l = ?T ! (c - 2)"
      proof -
        have "odd (?n div 2 ^ l)" using nd even False by simp
        then have "inner l = ?T ! (?n div 2 ^ l - 1)" using inner unfolding holds_nodes_def by blast
        then show ?thesis using nd by (simp add: numeral_2_eq_2)
      qed
      have h': "Hash2 C (inner l) h = tree_level C (Suc l) xs ! (?c - 1)"
        unfolding node ix' unfolding ix less.prems(4) in_l ..
      let ?mb = "if pbranch then (if matchh then (branch @ [inner l], matchh)
        else if matchlevel = Some l then (branch @ [h], True) else (branch, matchh)) else (branch, matchh)"
      have match: "sweep_match C xs pos ?c (Suc l) matchlevel (snd ?mb) (fst ?mb)" if m: "pbranch \<and> pos < ?n"
      proof -
        consider (a) "matchh" | (b) "\<not> matchh" "matchlevel = Some l" | (c) "\<not> matchh" "matchlevel \<noteq> Some l" by blast
        then show ?thesis
        proof cases
          case a
          then have b: "pos div 2 ^ l = c - 1" "branch = branch_upto C xs pos l"
            using less.prems(6) [OF m] by (auto simp: sweep_match_def)
          have "sibling c (c - 1) = c - 2" using even False by (simp add: sibling_def)
          moreover have "Suc ((c - 1) div 2) = ?c" using even False by presburger
          ultimately show ?thesis using a m b in_l less.prems(1)
            by (simp add: sweep_match_def branch_upto_Suc div_2_pow_Suc del: power_Suc)
        next
          case b
          then have p: "Suc (pos div 2 ^ l) = ?n div 2 ^ l" "branch = branch_upto C xs pos l"
            using less.prems(6) [OF m] m by (auto simp: sweep_match_def match_state_def)
          then have "pos div 2 ^ l = c - 2" using nd False by simp
          moreover have "sibling c (c - 2) = c - 1" using even False by (simp add: sibling_def)
          moreover have "Suc ((c - 2) div 2) = ?c" using even False by presburger
          ultimately show ?thesis using b m p(2) less.prems(1,4)
            by (simp add: sweep_match_def branch_upto_Suc div_2_pow_Suc del: power_Suc)
        next
          case c
          then show ?thesis using less.prems(6) [OF m] m \<open>?n \<noteq> ?c * 2 ^ Suc l\<close>
            by (auto simp: sweep_match_def le_less Suc_le_eq)
        qed
      qed
      have "sweep C pbranch inner matchlevel c l h matchh branch =
          sweep C pbranch inner matchlevel ?c (Suc l) (Hash2 C (inner l) h) (snd ?mb) (fst ?mb)"
        using False even unfolding cc by (subst sweep.simps) (simp add: Let_def split: prod.split)
      then show ?thesis using less.IH [OF c'(1) c'(3,2) last' h' up match] by simp
    qed
  qed
qed

subsection \<open>Roots and branches\<close>

lemma lowest_level_correct:
  "c \<noteq> 0 \<Longrightarrow> \<exists>i. lowest_level c l = l + i \<and> 2 ^ i dvd c \<and> odd (c div 2 ^ i)"
proof (induction c l rule: lowest_level.induct)
  case (1 c l)
  show ?case
  proof (cases "odd c")
    case True
    then show ?thesis using 1(2) by (subst lowest_level.simps) (auto intro!: exI [of _ 0])
  next
    case False
    then obtain d where d: "c = 2 * d" by (auto elim: evenE)
    then have "\<exists>i. lowest_level d (Suc l) = Suc l + i \<and> 2 ^ i dvd d \<and> odd (d div 2 ^ i)"
      using 1 False by simp
    then obtain i where i: "lowest_level d (Suc l) = Suc l + i" "2 ^ i dvd d" "odd (d div 2 ^ i)" by blast
    have "lowest_level c l = l + Suc i" using False 1(2) d i(1) by (subst lowest_level.simps) simp
    moreover have "2 ^ Suc i dvd c" "odd (c div 2 ^ Suc i)" using d i(2,3) by simp_all
    ultimately show ?thesis by blast
  qed
qed

lemma length_tree_level_complete: "length xs = c * 2 ^ l \<Longrightarrow> length (tree_level C l xs) = c"
proof -
  assume n: "length xs = c * 2 ^ l"
  have "q < length (tree_level C l xs) \<longleftrightarrow> q < c" for q using node_exists [where q = q] n by simp
  then show ?thesis by (metis less_irrefl linorder_neqE_nat)
qed

lemma MerkleComputation_correct:
  assumes "xs \<noteq> []"
  shows "\<exists>l branch. MerkleComputation C xs pos pbranch = (tree_level C l xs ! 0, equal_pair C xs (length xs), branch) \<and>
    length (tree_level C l xs) = 1 \<and> (\<forall>k<l. 1 < length (tree_level C k xs)) \<and>
    (pbranch \<and> pos < length xs \<longrightarrow> branch = branch_upto C xs pos l)"
proof -
  let ?n = "length xs"
  obtain inner matchlevel mutated branch where s:
      "leaves_loop C pbranch pos xs (0, \<lambda>_. blob_SetNull 32, None, False, []) = (?n, inner, matchlevel, mutated, branch)"
      "holds_nodes C xs ?n inner" "mutated \<longleftrightarrow> equal_pair C xs ?n"
      "pbranch \<longrightarrow> match_state C xs pos ?n matchlevel branch"
    using leaves_loop_correct [of xs "[]" xs C "\<lambda>_. blob_SetNull 32" False pbranch pos None "[]"]
    by (auto simp: holds_nodes_def equal_pair_def match_state_def)
  obtain l where l: "lowest_level ?n 0 = l" "2 ^ l dvd ?n" "odd (?n div 2 ^ l)"
    using lowest_level_correct [of ?n 0] assms by auto
  define c where "c = ?n div 2 ^ l"
  have n: "?n = c * 2 ^ l" using l(2) by (simp add: c_def)
  have c: "odd c" "0 < c" using l(3) by (auto simp: c_def intro: odd_pos)
  have len: "length (tree_level C l xs) = c" by (rule length_tree_level_complete [OF n])
  have up: "\<forall>k<l. 1 < length (tree_level C k xs)"
  proof (intro allI impI)
    fix k
    assume "k < l"
    then have "(2 :: nat) ^ k < 2 ^ l" by simp
    also have "\<dots> \<le> ?n" using n c(2) by simp
    finally show "1 < length (tree_level C k xs)" using node_exists [where q = 1] by simp
  qed
  have h: "inner l = tree_level C l xs ! (c - 1)" using s(2) l(3) by (simp add: holds_nodes_def c_def)
  have match: "sweep_match C xs pos c l matchlevel (matchlevel = Some l) branch" if "pbranch \<and> pos < ?n"
  proof (cases "matchlevel = Some l")
    case True
    then show ?thesis using s(4) that by (auto simp: sweep_match_def match_state_def c_def)
  next
    case False
    have "l < m" if "matchlevel = Some m" for m
    proof -
      have "odd (?n div 2 ^ m)" using s(4) that \<open>pbranch \<and> pos < ?n\<close> by (auto simp: match_state_def)
      then have "\<not> m < l" using low_bits_even [OF l(2)] by blast
      then show ?thesis using False that by (metis linorder_neqE_nat)
    qed
    then show ?thesis using s(4) that False by (auto simp: sweep_match_def intro: less_imp_le)
  qed
  have "last_node ?n c l" using c(1) n by (simp add: last_node_def)
  from sweep_correct [OF s(2) len c(2) this h up, where pbranch = pbranch, OF match]
  obtain l' branch' where "sweep C pbranch inner matchlevel c l (inner l) (matchlevel = Some l) branch =
      (tree_level C l' xs ! 0, branch')"
    "length (tree_level C l' xs) = 1 \<and> (\<forall>k<l'. 1 < length (tree_level C k xs)) \<and>
      (pbranch \<and> pos < ?n \<longrightarrow> branch' = branch_upto C xs pos l')" by blast
  then show ?thesis using assms s(1,3) l(1)
    by (intro exI [of _ l'] exI [of _ branch']) (simp add: MerkleComputation_def c_def Let_def)
qed

lemma BuildMerkleTree_level:
  "length (tree_level C l xs) = 1 \<Longrightarrow> \<forall>k<l. 1 < length (tree_level C k xs) \<Longrightarrow>
    BuildMerkleTree C xs = tree_level C l xs ! 0"
proof (induction l arbitrary: xs)
  case 0
  then show ?case by (subst BuildMerkleTree.simps) (auto simp: length_Suc_conv split: list.split)
next
  case (Suc l)
  have "1 < length xs" using Suc.prems(2) by auto
  then have "BuildMerkleTree C xs = BuildMerkleTree C (next_level C xs)"
    by (subst BuildMerkleTree.simps) (auto split: list.split)
  moreover have "\<forall>k<l. 1 < length (tree_level C k (next_level C xs))"
    unfolding tree_level_shift using Suc.prems(2) by auto
  ultimately show ?case using Suc.IH [of "next_level C xs"] Suc.prems(1) unfolding tree_level_shift by simp
qed

lemma branch_upto_shift: "branch_upto C xs pos (Suc l) =
    xs ! sibling (length xs) pos # branch_upto C (next_level C xs) (pos div 2) l"
proof -
  have "[0..<Suc l] = 0 # map Suc [0..<l]" by (simp add: upt_conv_Cons map_Suc_upt del: upt_Suc)
  moreover have "pos div 2 ^ Suc j = pos div 2 div 2 ^ j" for j by (simp add: div_mult2_eq)
  ultimately show ?thesis unfolding branch_upto_def tree_level_shift by (simp add: comp_def del: upt_Suc funpow.simps power_Suc)
qed

lemma GetMerkleBranch_level:
  "length (tree_level C l xs) = 1 \<Longrightarrow> \<forall>k<l. 1 < length (tree_level C k xs) \<Longrightarrow>
    GetMerkleBranch C xs pos = branch_upto C xs pos l"
proof (induction l arbitrary: xs pos)
  case 0
  then show ?case by (subst GetMerkleBranch.simps) (simp add: branch_upto_def)
next
  case (Suc l)
  have "1 < length xs" using Suc.prems(2) by auto
  moreover have "\<forall>k<l. 1 < length (tree_level C k (next_level C xs))"
    unfolding tree_level_shift using Suc.prems(2) by auto
  moreover have "length (tree_level C l (next_level C xs)) = 1" unfolding tree_level_shift by (rule Suc.prems(1))
  ultimately show ?case
    using Suc.IH [of "next_level C xs" "pos div 2"]
    by (subst GetMerkleBranch.simps) (simp add: branch_upto_shift sibling_def)
qed

lemma branch_upto_root:
  "pos < length xs \<Longrightarrow> ComputeMerkleRootFromBranch C (xs ! pos) (branch_upto C xs pos l) pos =
    tree_level C l xs ! (pos div 2 ^ l)"
proof (induction l arbitrary: xs pos)
  case (Suc l)
  let ?j = "pos div 2"
  have lt: "?j < length (next_level C xs)" using Suc.prems by simp
  have "next_level C xs ! ?j = (if odd pos then Hash2 C (xs ! sibling (length xs) pos) (xs ! pos)
      else Hash2 C (xs ! pos) (xs ! sibling (length xs) pos))"
  proof (cases "odd pos")
    case True
    then have "2 * ?j = pos - 1" "min (2 * ?j + 1) (length xs - 1) = pos" "sibling (length xs) pos = pos - 1"
      using Suc.prems by (simp_all add: sibling_def min_def)
    then show ?thesis using nth_next_level [OF lt] True by simp
  next
    case False
    then have "2 * ?j = pos" "min (2 * ?j + 1) (length xs - 1) = sibling (length xs) pos"
      by (simp_all add: sibling_def)
    then show ?thesis using nth_next_level [OF lt] False by simp
  qed
  moreover have "pos div 2 ^ Suc l = ?j div 2 ^ l" by (simp add: div_mult2_eq)
  ultimately show ?case using Suc.IH [OF lt] unfolding branch_upto_shift tree_level_shift by auto
qed (simp add: branch_upto_def)

subsection \<open>A root binds its leaves\<close>

text \<open>The pairs of nodes that are hashed in the tree of \<open>xs\<close>.\<close>

definition hashed_pairs :: "crypto \<Rightarrow> uint256 list \<Rightarrow> (uint256 \<times> uint256) set" where
  "hashed_pairs C xs = {(tree_level C k xs ! (2 * j), tree_level C k xs ! min (2 * j + 1) (length (tree_level C k xs) - 1)) |
     k j. 1 < length (tree_level C k xs) \<and> 2 * j < length (tree_level C k xs)}"

lemma next_level_pair:
  assumes "2 * j < length (tree_level C k xs)"
  shows "next_level C (tree_level C k xs) ! j = Hash2 C (tree_level C k xs ! (2 * j))
    (tree_level C k xs ! min (2 * j + 1) (length (tree_level C k xs) - 1))"
  using nth_next_level [of j C "tree_level C k xs"] assms by simp

text \<open>Without collisions, two nodes whose pairs are hashed have the same children when they are equal.\<close>

lemma equal_nodes:
  assumes inj: "inj_on (\<lambda>(a, b). Hash2 C a b) (hashed_pairs C xs \<union> hashed_pairs C ys)"
    and p: "2 * p < length (tree_level C k xs)" "1 < length (tree_level C k xs)"
    and q: "2 * q < length (tree_level C k ys)" "1 < length (tree_level C k ys)"
    and eq: "tree_level C (Suc k) xs ! p = tree_level C (Suc k) ys ! q"
  shows "tree_level C k xs ! (2 * p) = tree_level C k ys ! (2 * q)"
    "tree_level C k xs ! min (2 * p + 1) (length (tree_level C k xs) - 1) =
     tree_level C k ys ! min (2 * q + 1) (length (tree_level C k ys) - 1)"
proof -
  let ?P = "(tree_level C k xs ! (2 * p), tree_level C k xs ! min (2 * p + 1) (length (tree_level C k xs) - 1))"
  let ?Q = "(tree_level C k ys ! (2 * q), tree_level C k ys ! min (2 * q + 1) (length (tree_level C k ys) - 1))"
  have "?P \<in> hashed_pairs C xs" "?Q \<in> hashed_pairs C ys" unfolding hashed_pairs_def using p q by blast+
  moreover have "(case ?P of (a, b) \<Rightarrow> Hash2 C a b) = (case ?Q of (a, b) \<Rightarrow> Hash2 C a b)"
    using eq next_level_pair [OF p(1)] next_level_pair [OF q(1)] by simp
  ultimately have "?P = ?Q" by (intro inj_onD [OF inj]) auto
  then show "tree_level C k xs ! (2 * p) = tree_level C k ys ! (2 * q)"
    "tree_level C k xs ! min (2 * p + 1) (length (tree_level C k xs) - 1) =
     tree_level C k ys ! min (2 * q + 1) (length (tree_level C k ys) - 1)" by simp_all
qed

text \<open>A complete node never equals the incomplete one at the end of its level, and siblings differ.\<close>

lemma incomplete_node_differs:
  assumes inj: "inj_on (\<lambda>(a, b). Hash2 C a b) (hashed_pairs C xs)" and no: "\<not> equal_pair C xs (length xs)"
  shows "(p + 1) * 2 ^ k \<le> length xs \<Longrightarrow> q * 2 ^ k < length xs \<Longrightarrow> length xs < (q + 1) * 2 ^ k \<Longrightarrow>
    tree_level C k xs ! p \<noteq> tree_level C k xs ! q"
proof (induction k arbitrary: p q)
  case (Suc k)
  let ?T = "tree_level C k xs"
  have pc: "(2 * p + 1 + 1) * 2 ^ k \<le> length xs" using Suc.prems(1) by (simp add: algebra_simps)
  then have "(2 * p + 1) * 2 ^ k < length xs" 
  proof -
    have "(2 * p + 1) * 2 ^ k < (2 * p + 1 + 1) * 2 ^ k" by simp
    then show ?thesis using pc by linarith
  qed
  then have p: "2 * p + 1 < length ?T" using node_exists [where q = "2 * p + 1"] by blast
  have "2 * q * 2 ^ k < length xs" using Suc.prems(2) by (simp add: algebra_simps)
  then have q: "2 * q < length ?T" using node_exists [where q = "2 * q"] by blast
  show ?case
  proof
    assume eq: "tree_level C (Suc k) xs ! p = tree_level C (Suc k) xs ! q"
    have inj2: "inj_on (\<lambda>(a, b). Hash2 C a b) (hashed_pairs C xs \<union> hashed_pairs C xs)" using inj by simp
    have "min (2 * p + 1) (length ?T - 1) = 2 * p + 1" using p by simp
    then have eqs: "?T ! (2 * p) = ?T ! (2 * q)" "?T ! (2 * p + 1) = ?T ! min (2 * q + 1) (length ?T - 1)"
      using equal_nodes [OF inj2 _ _ _ _ eq] p q by simp_all
    show False
    proof (cases "2 * q + 1 < length ?T")
      case True
      then have "min (2 * q + 1) (length ?T - 1) = 2 * q + 1" by simp
      moreover have "(2 * q + 1) * 2 ^ k < length xs" using True node_exists [where q = "2 * q + 1"] by blast
      moreover have "length xs < (2 * q + 1 + 1) * 2 ^ k" using Suc.prems(3) by (simp add: algebra_simps)
      ultimately show False using Suc.IH [OF pc] eqs(2) by simp
    next
      case False
      then have "min (2 * q + 1) (length ?T - 1) = 2 * q" using q by linarith
      then have "?T ! (2 * p) = ?T ! (2 * p + 1)" using eqs by simp
      moreover have "(2 * p + 2) * 2 ^ k \<le> length xs" using pc by simp
      ultimately show False using no unfolding equal_pair_def by blast
    qed
  qed
qed simp

lemma siblings_differ:
  assumes inj: "inj_on (\<lambda>(a, b). Hash2 C a b) (hashed_pairs C xs)" and no: "\<not> equal_pair C xs (length xs)"
    and j: "2 * j + 1 < length (tree_level C k xs)"
  shows "tree_level C k xs ! (2 * j) \<noteq> tree_level C k xs ! (2 * j + 1)"
proof (cases "(2 * j + 2) * 2 ^ k \<le> length xs")
  case True
  then show ?thesis using no unfolding equal_pair_def by blast
next
  case False
  have "(2 * j + 1) * 2 ^ k < length xs" using j node_exists by blast
  then show ?thesis using incomplete_node_differs [OF inj no, of "2 * j" k "2 * j + 1"] False by simp
qed

lemma half_up: "(a + 1) div 2 = (b + 1) div 2 \<Longrightarrow> a < b \<Longrightarrow> odd a \<and> b = a + 1" for a b :: nat
  by presburger

lemma no_longer_level:
  assumes inj: "inj_on (\<lambda>(a, b). Hash2 C a b) (hashed_pairs C xs \<union> hashed_pairs C ys)"
    and no: "\<not> equal_pair C ys (length ys)"
    and A: "1 < length (tree_level C k xs)" and B: "1 < length (tree_level C k ys)"
    and eq: "tree_level C (Suc k) xs = tree_level C (Suc k) ys"
  shows "length (tree_level C k ys) \<le> length (tree_level C k xs)"
proof (rule ccontr)
  let ?A = "tree_level C k xs" and ?B = "tree_level C k ys"
  assume longer: "\<not> length ?B \<le> length ?A"
  have "(length ?A + 1) div 2 = (length ?B + 1) div 2" using arg_cong [OF eq, of length] by simp
  then have "odd (length ?A) \<and> length ?B = length ?A + 1" using longer by (intro half_up) simp_all
  then obtain j where a: "length ?A = 2 * j + 1" and b: "length ?B = 2 * j + 2" by (auto elim: oddE)
  have "?A ! (2 * j) = ?B ! (2 * j)" "?A ! min (2 * j + 1) (length ?A - 1) = ?B ! min (2 * j + 1) (length ?B - 1)"
    using equal_nodes [OF inj _ A _ B, of j j] a b eq by simp_all
  then have "?B ! (2 * j) = ?B ! (2 * j + 1)" using a b by simp
  moreover have "inj_on (\<lambda>(a, b). Hash2 C a b) (hashed_pairs C ys)" using inj by (simp add: inj_on_Un)
  ultimately show False using siblings_differ [OF _ no, of j k] b by simp
qed

lemma level_below:
  assumes inj: "inj_on (\<lambda>(a, b). Hash2 C a b) (hashed_pairs C xs \<union> hashed_pairs C ys)"
    and no: "\<not> equal_pair C xs (length xs)" "\<not> equal_pair C ys (length ys)"
    and A: "1 < length (tree_level C k xs)" and B: "1 < length (tree_level C k ys)"
    and eq: "tree_level C (Suc k) xs = tree_level C (Suc k) ys"
  shows "tree_level C k xs = tree_level C k ys"
proof -
  let ?A = "tree_level C k xs" and ?B = "tree_level C k ys"
  have len: "length ?A = length ?B"
    using no_longer_level [OF inj no(2) A B eq] no_longer_level [OF _ no(1) B A eq [symmetric]] inj
    by (simp add: Un_commute)
  show ?thesis
  proof (rule nth_equalityI)
    show "length ?A = length ?B" by (rule len)
    fix i
    assume i: "i < length ?A"
    let ?j = "i div 2"
    have j: "2 * ?j < length ?A" using i by linarith
    have e: "?A ! (2 * ?j) = ?B ! (2 * ?j)" "?A ! min (2 * ?j + 1) (length ?A - 1) = ?B ! min (2 * ?j + 1) (length ?B - 1)"
      using equal_nodes [OF inj j A _ B, of ?j] j len eq by simp_all
    show "?A ! i = ?B ! i"
    proof (cases "even i")
      case False
      then have "min (2 * ?j + 1) (length ?A - 1) = i" using i by presburger
      then show ?thesis using e(2) len by simp
    qed (use e(1) in simp)
  qed
qed

lemma same_root_same_leaves:
  assumes inj: "inj_on (\<lambda>(a, b). Hash2 C a b) (hashed_pairs C xs \<union> hashed_pairs C ys)"
    and no: "\<not> equal_pair C xs (length xs)" "\<not> equal_pair C ys (length ys)"
    and up: "\<forall>k<l. 1 < length (tree_level C k xs) \<and> 1 < length (tree_level C k ys)"
    and eq: "tree_level C l xs = tree_level C l ys"
  shows "xs = ys"
  using up eq
proof (induction l)
  case (Suc l)
  then show ?case using level_below [OF inj no] by simp
qed simp

subsection \<open>The properties\<close>


text \<open>C36: The branch that is computed for a leaf in the same pass is the list of the siblings on the way to
  the root, and folding it into the leaf gives the root.\<close>

theorem ComputeMerkleBranch_verifies:
  assumes "pos < length leaves"
  shows "ComputeMerkleBranch C leaves pos = GetMerkleBranch C leaves pos \<and>
    ComputeMerkleRootFromBranch C (leaves ! pos) (ComputeMerkleBranch C leaves pos) pos =
      fst (ComputeMerkleRoot C leaves)"
proof -
  have ne: "leaves \<noteq> []" using assms by auto
  obtain l branch where b: "MerkleComputation C leaves pos True =
      (tree_level C l leaves ! 0, equal_pair C leaves (length leaves), branch)"
    "length (tree_level C l leaves) = 1" "\<forall>k<l. 1 < length (tree_level C k leaves)" "branch = branch_upto C leaves pos l"
    using MerkleComputation_correct [OF ne, where C = C and pos = pos and pbranch = True] assms by blast
  obtain l' branch' where r: "MerkleComputation C leaves 0xffffffff False =
      (tree_level C l' leaves ! 0, equal_pair C leaves (length leaves), branch')"
    "length (tree_level C l' leaves) = 1" "\<forall>k<l'. 1 < length (tree_level C k leaves)"
    using MerkleComputation_correct [OF ne, where C = C and pos = "0xffffffff" and pbranch = False] by blast
  have "pos * 1 < length leaves" "length leaves \<le> 2 ^ l"
    using assms b(2) node_exists [where q = 1 and C = C and k = l and xs = leaves] by simp_all
  then have "pos div 2 ^ l = 0" by simp
  then have "ComputeMerkleRootFromBranch C (leaves ! pos) branch pos = tree_level C l leaves ! 0"
    using branch_upto_root [OF assms] b(4) by simp
  also have "\<dots> = BuildMerkleTree C leaves" using BuildMerkleTree_level [OF b(2,3)] by simp
  also have "\<dots> = fst (ComputeMerkleRoot C leaves)"
    using BuildMerkleTree_level [OF r(2,3)] r(1) by (simp add: ComputeMerkleRoot_def)
  finally show ?thesis
    using b(1,4) GetMerkleBranch_level [OF b(2,3)] by (simp add: ComputeMerkleBranch_def)
qed

theorem ComputeMerkleBranch_verifies_witness:
  "ComputeMerkleRootFromBranch example_crypto [3] (ComputeMerkleBranch example_crypto [[1], [2], [3]] 2) 2 =
    fst (ComputeMerkleRoot example_crypto [[1], [2], [3]])"
proof -
  have "2 < length [[1], [2], [3] :: bytes]" "[[1], [2], [3]] ! 2 = ([3] :: bytes)" by simp_all
  then show ?thesis using ComputeMerkleBranch_verifies [of 2 "[[1], [2], [3]]" example_crypto] by metis
qed

text \<open>C34: A root binds its leaves: two lists of leaves whose trees have the same height and the same root,
  and neither of which is reported as mutated, are equal, unless the hash collides on pairs that are hashed
  in the two trees. The check of the flag excludes the duplicated leaves of CVE-2012-2459.\<close>

theorem ComputeMerkleRoot_binding:
  assumes "inj_on (\<lambda>(a, b). Hash2 C a b) (hashed_pairs C xs \<union> hashed_pairs C ys)"
    and "xs \<noteq> []" "ys \<noteq> []" "length (ComputeMerkleBranch C xs 0) = length (ComputeMerkleBranch C ys 0)"
    and "ComputeMerkleRoot C xs = (root, False)" "ComputeMerkleRoot C ys = (root, False)"
  shows "xs = ys"
proof -
  have level: "\<exists>l. fst (ComputeMerkleRoot C zs) = tree_level C l zs ! 0 \<and> length (tree_level C l zs) = 1 \<and>
      (\<forall>k<l. 1 < length (tree_level C k zs)) \<and> length (ComputeMerkleBranch C zs 0) = l \<and>
      (snd (ComputeMerkleRoot C zs) \<longleftrightarrow> equal_pair C zs (length zs))" if zs: "zs \<noteq> []" for zs
  proof -
    obtain l branch where b: "MerkleComputation C zs 0 True =
        (tree_level C l zs ! 0, equal_pair C zs (length zs), branch)"
      "length (tree_level C l zs) = 1" "\<forall>k<l. 1 < length (tree_level C k zs)" "branch = branch_upto C zs 0 l"
      using MerkleComputation_correct [OF zs, where C = C and pos = 0 and pbranch = True] zs by auto
    obtain l' branch' where r: "MerkleComputation C zs 0xffffffff False =
        (tree_level C l' zs ! 0, equal_pair C zs (length zs), branch')"
      "length (tree_level C l' zs) = 1" "\<forall>k<l'. 1 < length (tree_level C k zs)"
      using MerkleComputation_correct [OF zs, where C = C and pos = "0xffffffff" and pbranch = False] by blast
    have "l' = l" using b(2,3) r(2,3) by (metis less_irrefl linorder_neqE_nat)
    then show ?thesis using b r
      by (intro exI [of _ l]) (simp add: ComputeMerkleRoot_def ComputeMerkleBranch_def branch_upto_def)
  qed
  obtain l where x: "fst (ComputeMerkleRoot C xs) = tree_level C l xs ! 0" "length (tree_level C l xs) = 1"
      "\<forall>k<l. 1 < length (tree_level C k xs)" "length (ComputeMerkleBranch C xs 0) = l" "\<not> equal_pair C xs (length xs)"
    using level [OF assms(2)] assms(5) by auto
  obtain m where y: "fst (ComputeMerkleRoot C ys) = tree_level C m ys ! 0" "length (tree_level C m ys) = 1"
      "\<forall>k<m. 1 < length (tree_level C k ys)" "length (ComputeMerkleBranch C ys 0) = m" "\<not> equal_pair C ys (length ys)"
    using level [OF assms(3)] assms(6) by auto
  have m: "m = l" using assms(4) x(4) y(4) by simp
  have "tree_level C l xs = tree_level C l ys"
    using x(1,2) y(1,2) assms(5,6) unfolding m by (auto simp: length_Suc_conv)
  then show ?thesis
    using same_root_same_leaves [OF assms(1) x(5) y(5), of l] x(3) y(3) unfolding m by blast
qed

theorem ComputeMerkleRoot_binding_witness:
  "\<exists>root. ComputeMerkleRoot example_crypto [[1], [2]] = (root, False) \<and> ([[1], [2]] :: uint256 list) = [[1], [2]]"
proof -
  let ?xs = "[[1], [2]] :: uint256 list"
  have *: "k = 0" if "1 < length (tree_level example_crypto k ?xs)" for k

  proof -
    have "(2 :: nat) ^ k < 2"
      using that node_exists [where q = 1 and C = example_crypto and k = k and xs = ?xs] by simp
    then show ?thesis using self_le_power [of "2 :: nat" k] by (cases "k = 0") auto
  qed
  have "hashed_pairs example_crypto ?xs \<subseteq> {([1], [2])}"
    unfolding hashed_pairs_def
  proof (rule subsetI)
    fix p
    assume "p \<in> {(tree_level example_crypto k ?xs ! (2 * j), tree_level example_crypto k ?xs !
        min (2 * j + 1) (length (tree_level example_crypto k ?xs) - 1)) |k j.
      1 < length (tree_level example_crypto k ?xs) \<and> 2 * j < length (tree_level example_crypto k ?xs)}"
    then obtain k j where kj: "p = (tree_level example_crypto k ?xs ! (2 * j), tree_level example_crypto k ?xs !
        min (2 * j + 1) (length (tree_level example_crypto k ?xs) - 1))"
      "1 < length (tree_level example_crypto k ?xs)" "2 * j < length (tree_level example_crypto k ?xs)" by blast
    then have "k = 0" using * by blast
    then show "p \<in> {([1], [2])}" using kj by (cases j) simp_all
  qed
  then have inj: "inj_on (\<lambda>(a, b). Hash2 example_crypto a b) (hashed_pairs example_crypto ?xs \<union> hashed_pairs example_crypto ?xs)"
    by (auto simp: inj_on_def)
  have root: "ComputeMerkleRoot example_crypto ?xs = (fst (ComputeMerkleRoot example_crypto ?xs), False)"
  proof -
    have "\<not> equal_pair example_crypto ?xs (length ?xs)"
    proof
      assume "equal_pair example_crypto ?xs (length ?xs)"
      then obtain k j where kj: "(2 * j + 2) * 2 ^ k \<le> (2 :: nat)"
        "tree_level example_crypto k ?xs ! (2 * j) = tree_level example_crypto k ?xs ! (2 * j + 1)"
        unfolding equal_pair_def by (metis length_Cons list.size(3) One_nat_def Suc_1)
      have "2 * 2 ^ k \<le> (2 * j + 2) * (2 :: nat) ^ k" by (rule mult_le_mono1) simp
      then have "(2 :: nat) ^ k \<le> 1" using kj(1) by linarith
      then have "k = 0" using self_le_power [of "2 :: nat" k] by (cases "k = 0") auto
      moreover from this have "j = 0" using kj(1) by simp
      ultimately show False using kj(2) by simp
    qed
    then show ?thesis
      using MerkleComputation_correct [of ?xs, where C = example_crypto and pos = "0xffffffff" and pbranch = False]
      by (auto simp: ComputeMerkleRoot_def)
  qed
  have "?xs = ?xs"
    by (rule ComputeMerkleRoot_binding [OF inj _ _ _ root root]) simp_all
  then show ?thesis using root by metis
qed

end
