(* ===== verification/BlockUndo.thy ===== *)
theory BlockUndo
  imports CoinsDB Merkle
begin

text \<open>
  What a block does to the coins and how it is undone: \<open>UpdateCoins\<close>, \<open>ApplyTxInUndo\<close> and
  \<open>DisconnectBlock\<close> of validation.cpp, with the entries that the last collects for the address and
  spent indexes.

  The undo data that \<open>UndoReadFromDisk\<close> gives is an argument (\<open>None\<close> when it is not available), as are
  the flags \<open>fAddressIndex\<close> and \<open>fSpentIndex\<close> of the node.
\<close>

subsection \<open>Spending\<close>

type_synonym CTxUndo = "CTxInUndo list"
type_synonym CBlockUndo = "CTxUndo list"

text \<open>What is done with the coins of one input. The result \<open>None\<close> is the failed assertion.\<close>

definition spend_input :: "nat \<Rightarrow> CCoins \<Rightarrow> CTxInUndo option \<times> CCoins" where
  "spend_input nPos c =
     (if nPos \<ge> length (c_vout c) \<or> CTxOut_IsNull (c_vout c ! nPos) then (None, c)
      else
        let undo = mk_CTxInUndo (c_vout c ! nPos); c = snd (Spend c nPos) in
        if length (c_vout c) = 0 then
          (Some (undo\<lparr>undo_nHeight := of_int (c_nHeight c), undo_fCoinBase := fCoinBase c, undo_nVersion := c_nVersion c\<rparr>), c)
        else (Some undo, c))"

fun UpdateCoins_inputs ::
  "'b CCoinsView \<Rightarrow> (CCoins \<Rightarrow> u64) \<Rightarrow> CTxIn list \<Rightarrow> 'b CCoinsViewCache \<Rightarrow> (CTxUndo \<times> 'b CCoinsViewCache) option" where
  "UpdateCoins_inputs V usage [] s = Some ([], s)"
| "UpdateCoins_inputs V usage (txin # ins) s =
     (case modifying usage (spend_input (unat (op_n (prevout txin)))) (ModifyCoins V usage s (op_hash (prevout txin))) of
        (None, s) \<Rightarrow> None
      | (Some undo, s) \<Rightarrow>
          (case UpdateCoins_inputs V usage ins s of
             None \<Rightarrow> None
           | Some (undos, s) \<Rightarrow> Some (undo # undos, s)))"

definition UpdateCoins ::
  "'b CCoinsView \<Rightarrow> (CCoins \<Rightarrow> u64) \<Rightarrow> crypto \<Rightarrow> CTransaction \<Rightarrow> 'b CCoinsViewCache \<Rightarrow> int \<Rightarrow> (CTxUndo \<times> 'b CCoinsViewCache) option" where
  "UpdateCoins V usage C tx inputs nHeight =
     (if \<not> IsCoinBase tx then
        (case UpdateCoins_inputs V usage (vin tx) inputs of
           None \<Rightarrow> None
         | Some (txundo, inputs) \<Rightarrow>
             Some (txundo, snd (modifying usage (\<lambda>c. ((), FromTx c tx nHeight)) (ModifyNewCoins inputs (GetHash C tx)))))
      else
        Some ([], snd (modifying usage (\<lambda>c. ((), FromTx c tx nHeight)) (ModifyCoins V usage inputs (GetHash C tx)))))"

text \<open>
  The coins part of \<open>ConnectBlock\<close>: the check of BIP30, the loop over the transactions, where the undo
  data of the first is dropped, and the new best block.
\<close>

fun overwrites :: "'b CCoinsView \<Rightarrow> (CCoins \<Rightarrow> u64) \<Rightarrow> crypto \<Rightarrow> CTransaction list \<Rightarrow> 'b CCoinsViewCache \<Rightarrow> bool \<times> 'b CCoinsViewCache" where
  "overwrites V usage C [] view = (False, view)"
| "overwrites V usage C (tx # vtx) view =
     (case AccessCoins V usage view (GetHash C tx) of
        (Some c, view) \<Rightarrow> if \<not> IsPruned c then (True, view) else overwrites V usage C vtx view
      | (None, view) \<Rightarrow> overwrites V usage C vtx view)"

fun connect_txs ::
  "'b CCoinsView \<Rightarrow> (CCoins \<Rightarrow> u64) \<Rightarrow> crypto \<Rightarrow> nat \<Rightarrow> CTransaction list \<Rightarrow> int \<Rightarrow> 'b CCoinsViewCache \<Rightarrow>
     (CBlockUndo \<times> 'b CCoinsViewCache) option" where
  "connect_txs V usage C i [] nHeight view = Some ([], view)"
| "connect_txs V usage C i (tx # vtx) nHeight view =
     (case UpdateCoins V usage C tx view nHeight of
        None \<Rightarrow> None
      | Some (txundo, view) \<Rightarrow>
          (case connect_txs V usage C (i + 1) vtx nHeight view of
             None \<Rightarrow> None
           | Some (vtxundo, view) \<Rightarrow> Some (if i > 0 then txundo # vtxundo else vtxundo, view)))"

subsection \<open>Undoing one input\<close>

text \<open>
  The size that the vector gets is computed with 32 bits; an index that it does not reach is undefined
  behaviour, the result \<open>None\<close>.
\<close>

definition undo_input :: "CTxInUndo \<Rightarrow> u32 \<Rightarrow> CCoins \<Rightarrow> bool option \<times> CCoins" where
  "undo_input undo n c =
     (let (fClean, c) =
        (if undo_nHeight undo \<noteq> 0 then
           (IsPruned c, (CCoins_Clear c)\<lparr>fCoinBase := undo_fCoinBase undo, c_nHeight := sint (undo_nHeight undo),
                                       c_nVersion := undo_nVersion undo\<rparr>)
         else (\<not> IsPruned c, c));
        fClean = (fClean \<and> \<not> IsAvailable c (unat n));
        outs = (if length (c_vout c) < unat (n + 1) then
                  c_vout c @ replicate (unat (n + 1) - length (c_vout c)) CTxOut_SetNull
                else c_vout c) in
      if unat n < length outs then (Some fClean, c\<lparr>c_vout := outs[unat n := undo_txout undo]\<rparr>)
      else (None, c))"

definition ApplyTxInUndo ::
  "'b CCoinsView \<Rightarrow> (CCoins \<Rightarrow> u64) \<Rightarrow> CTxInUndo \<Rightarrow> 'b CCoinsViewCache \<Rightarrow> COutPoint \<Rightarrow> bool option \<times> 'b CCoinsViewCache" where
  "ApplyTxInUndo V usage undo view out =
     modifying usage (undo_input undo (op_n out)) (ModifyCoins V usage view (op_hash out))"

subsection \<open>Index entries\<close>

record CAddressIndexKey =
  ai_type :: nat
  ai_hashBytes :: uint160
  ai_blockHeight :: int
  ai_txindex :: nat
  ai_txhash :: uint256
  ai_index :: nat
  ai_spending :: bool

record CAddressUnspentKey =
  au_type :: nat
  au_hashBytes :: uint160
  au_txhash :: uint256
  au_index :: nat

record CAddressUnspentValue =
  au_satoshis :: CAmount
  au_script :: CScript
  au_blockHeight :: int

definition CAddressUnspentValue_init :: CAddressUnspentValue where
  "CAddressUnspentValue_init = \<lparr>au_satoshis = -1, au_script = [], au_blockHeight = 0\<rparr>"

text \<open>The entries collected so far. The values of the spent index are all null here.\<close>

record index_entries =
  addressIndex :: "(CAddressIndexKey \<times> CAmount) list"
  addressUnspentIndex :: "(CAddressUnspentKey \<times> CAddressUnspentValue) list"
  spentIndex :: "(uint256 \<times> u32) list"

definition no_entries :: index_entries where
  "no_entries = \<lparr>addressIndex = [], addressUnspentIndex = [], spentIndex = []\<rparr>"

text \<open>The type and the hash of the address that a script pays to, if it has one.\<close>

definition script_address :: "CScript \<Rightarrow> (nat \<times> uint160) option" where
  "script_address script =
     (if IsPayToScriptHash script then Some (2, take 20 (drop 2 script))
      else if IsPayToPublicKeyHash script then Some (1, take 20 (drop 3 script))
      else None)"

fun undo_receiving :: "int \<Rightarrow> nat \<Rightarrow> uint256 \<Rightarrow> CTxOut list \<Rightarrow> nat \<Rightarrow> index_entries \<Rightarrow> index_entries" where
  "undo_receiving height i hash outs 0 e = e"
| "undo_receiving height i hash outs (Suc k) e =
     (let out = outs ! k in
      undo_receiving height i hash outs k
        (case script_address (scriptPubKey out) of
           None \<Rightarrow> e
         | Some (ty, hashBytes) \<Rightarrow>
             e\<lparr>addressIndex := addressIndex e @
                 [(\<lparr>ai_type = ty, ai_hashBytes = hashBytes, ai_blockHeight = height, ai_txindex = i, ai_txhash = hash,
                    ai_index = k, ai_spending = False\<rparr>, nValue out)],
               addressUnspentIndex := addressUnspentIndex e @
                 [(\<lparr>au_type = ty, au_hashBytes = hashBytes, au_txhash = hash, au_index = k\<rparr>, CAddressUnspentValue_init)]\<rparr>))"

definition undo_spending ::
  "int \<Rightarrow> nat \<Rightarrow> uint256 \<Rightarrow> nat \<Rightarrow> CTxIn \<Rightarrow> CTxInUndo \<Rightarrow> CTxOut \<Rightarrow> index_entries \<Rightarrow> index_entries" where
  "undo_spending height i hash j txin undo out e =
     (case script_address (scriptPubKey out) of
        None \<Rightarrow> e
      | Some (ty, hashBytes) \<Rightarrow>
          e\<lparr>addressIndex := addressIndex e @
              [(\<lparr>ai_type = ty, ai_hashBytes = hashBytes, ai_blockHeight = height, ai_txindex = i, ai_txhash = hash,
                 ai_index = j, ai_spending = True\<rparr>, nValue out * -1)],
            addressUnspentIndex := addressUnspentIndex e @
              [(\<lparr>au_type = ty, au_hashBytes = hashBytes, au_txhash = op_hash (prevout txin), au_index = unat (op_n (prevout txin))\<rparr>,
                \<lparr>au_satoshis = nValue out, au_script = scriptPubKey out, au_blockHeight = sint (undo_nHeight undo)\<rparr>)]\<rparr>)"

subsection \<open>Disconnecting a block\<close>

text \<open>Checking and removing the outputs of a transaction: the flag says that they were as in the block.\<close>

definition remove_outputs :: "CTransaction \<Rightarrow> int \<Rightarrow> CCoins \<Rightarrow> bool \<times> CCoins" where
  "remove_outputs tx height outs =
     (let outs = ClearUnspendable outs; outsBlock = CCoins_of tx height;
        outs = (if c_nVersion outsBlock < 0 then outs\<lparr>c_nVersion := c_nVersion outsBlock\<rparr> else outs) in
      (CCoins_eq outs outsBlock, CCoins_Clear outs))"

text \<open>The inputs from the last one on: \<open>j\<close> of them are left.\<close>

fun restore_inputs ::
  "'b CCoinsView \<Rightarrow> (CCoins \<Rightarrow> u64) \<Rightarrow> bool \<Rightarrow> bool \<Rightarrow> int \<Rightarrow> nat \<Rightarrow> uint256 \<Rightarrow> CTxIn list \<Rightarrow> CTxUndo \<Rightarrow> nat \<Rightarrow>
     bool \<times> 'b CCoinsViewCache \<times> index_entries \<Rightarrow> cxx_exit + bool \<times> 'b CCoinsViewCache \<times> index_entries" where
  "restore_inputs V usage fAddressIndex fSpentIndex height i hash ins txundo 0 st = Inr st"
| "restore_inputs V usage fAddressIndex fSpentIndex height i hash ins txundo (Suc j) st =
     (case st of (fClean, view, e) \<Rightarrow>
        let txin = ins ! j; undo = txundo ! j in
        (case ApplyTxInUndo V usage undo view (prevout txin) of
           (None, view) \<Rightarrow> Inl Undefined
         | (Some ok, view) \<Rightarrow>
             let fClean = (if \<not> ok then False else fClean);
               e = (if fSpentIndex then e\<lparr>spentIndex := spentIndex e @ [(op_hash (prevout txin), op_n (prevout txin))]\<rparr> else e) in
             ebind
               (if fAddressIndex then
                  (case GetOutputFor V usage view txin of
                     (None, view) \<Rightarrow> Inl AssertFail
                   | (Some out, view) \<Rightarrow> Inr (view, undo_spending height i hash j txin undo out e))
                else Inr (view, e))
               (\<lambda>(view, e). restore_inputs V usage fAddressIndex fSpentIndex height i hash ins txundo j (fClean, view, e))))"

datatype disconnect_result = Disconnect_error | Disconnected bool

text \<open>The transactions from the last one on: \<open>i\<close> of them are left.\<close>

fun disconnect_txs ::
  "'b CCoinsView \<Rightarrow> (CCoins \<Rightarrow> u64) \<Rightarrow> crypto \<Rightarrow> bool \<Rightarrow> bool \<Rightarrow> int \<Rightarrow> CTransaction list \<Rightarrow> CBlockUndo \<Rightarrow> nat \<Rightarrow>
     bool \<times> 'b CCoinsViewCache \<times> index_entries \<Rightarrow>
     cxx_exit + disconnect_result \<times> 'b CCoinsViewCache \<times> index_entries" where
  "disconnect_txs V usage C fAddressIndex fSpentIndex height vtx vtxundo 0 (fClean, view, e) = Inr (Disconnected fClean, view, e)"
| "disconnect_txs V usage C fAddressIndex fSpentIndex height vtx vtxundo (Suc i) (fClean, view, e) =
     (let tx = vtx ! i; hash = GetHash C tx;
        e = (if fAddressIndex then undo_receiving height i hash (vout tx) (length (vout tx)) e else e) in
      case modifying usage (remove_outputs tx height) (ModifyCoins V usage view hash) of
        (same, view) \<Rightarrow>
          let fClean = (if \<not> same then False else fClean) in
          if i > 0 then
            let txundo = vtxundo ! (i - 1) in
            if length txundo \<noteq> length (vin tx) then Inr (Disconnect_error, view, e)
            else
              ebind (restore_inputs V usage fAddressIndex fSpentIndex height i hash (vin tx) txundo (length (vin tx)) (fClean, view, e))
                (\<lambda>st. disconnect_txs V usage C fAddressIndex fSpentIndex height vtx vtxundo i st)
          else disconnect_txs V usage C fAddressIndex fSpentIndex height vtx vtxundo i (fClean, view, e))"

text \<open>
  The flag \<open>pfClean\<close> says whether the caller gave a pointer for the verdict. In the result, the verdict
  \<open>Disconnected fClean\<close> is what is stored there, or what is returned without it, and the entries are
  those that are handed to \<open>EraseAddressIndex\<close> and \<open>UpdateAddressUnspentIndex\<close>: the ones of the spent index
  never are.
\<close>

definition DisconnectBlock ::
  "'b CCoinsView \<Rightarrow> (CCoins \<Rightarrow> u64) \<Rightarrow> crypto \<Rightarrow> bool \<Rightarrow> bool \<Rightarrow> bool \<Rightarrow> CTransaction list \<Rightarrow> uint256 \<Rightarrow> int \<Rightarrow> uint256 \<Rightarrow>
     CBlockUndo option \<Rightarrow> 'b CCoinsViewCache \<Rightarrow> cxx_exit + disconnect_result \<times> 'b CCoinsViewCache \<times> index_entries" where
  "DisconnectBlock V usage C fAddressIndex fSpentIndex pfClean vtx blockHash height prevHash undo view =
     (case Cache_GetBestBlock V view of
        (best, view) \<Rightarrow>
          if blockHash \<noteq> best then Inl AssertFail
          else case undo of
              None \<Rightarrow> Inr (Disconnect_error, view, no_entries)
            | Some vtxundo \<Rightarrow>
                if length vtxundo + 1 \<noteq> length vtx then Inr (Disconnect_error, view, no_entries)
                else
                  ebind (disconnect_txs V usage C fAddressIndex fSpentIndex height vtx vtxundo (length vtx) (True, view, no_entries))
                    (\<lambda>(r, view, e).
                       case r of
                         Disconnect_error \<Rightarrow> Inr (Disconnect_error, view, no_entries)
                       | Disconnected fClean \<Rightarrow>
                           Inr (Disconnected fClean, SetBestBlock view prevHash,
                             if \<not> pfClean \<and> fAddressIndex then e\<lparr>spentIndex := []\<rparr> else no_entries)))"

subsection \<open>Restoring one output\<close>

text \<open>
  The coins that the code builds: no more outputs than an index can name, a height above that of the
  genesis block, and every null output as \<open>SetNull\<close> leaves it.
\<close>

definition exact_nulls :: "CTxOut list \<Rightarrow> bool" where
  "exact_nulls outs = list_all (\<lambda>out. CTxOut_IsNull out \<longrightarrow> out = CTxOut_SetNull) outs"

definition coin_wf :: "CCoins \<Rightarrow> bool" where
  "coin_wf c \<longleftrightarrow> cleaned c \<and> exact_nulls (c_vout c) \<and> length (c_vout c) < 2 ^ 32 \<and> 0 < c_nHeight c \<and> c_nHeight c < 2 ^ 31"

definition map_wf :: "coins_map \<Rightarrow> bool" where
  "map_wf A \<longleftrightarrow> (\<forall>k c. A k = Some c \<longrightarrow> coin_wf c \<and> \<not> IsPruned c)"

lemma exact_nulls_Cleanup_loop: "exact_nulls outs \<Longrightarrow> exact_nulls (Cleanup_loop outs)"
  by (auto simp: exact_nulls_def list_all_length nth_Cleanup_loop)

lemma restore_outputs:
  assumes "exact_nulls outs" "i < length outs" "\<not> CTxOut_IsNull (last outs)"
  defines "left \<equiv> Cleanup_loop (outs[i := CTxOut_SetNull])"
  shows "(left @ replicate (Suc i - length left) CTxOut_SetNull)[i := outs ! i] = outs"
proof (cases "i < length outs - 1")
  case True
  then have "last (outs[i := CTxOut_SetNull]) = last outs" using assms(2)
    by (cases "outs = []") (auto simp: last_conv_nth nth_list_update)
  then have "left = outs[i := CTxOut_SetNull]" unfolding left_def using assms(3) by (simp add: Cleanup_loop_id)
  then show ?thesis using assms(2) by simp
next
  case False
  then have i: "Suc i = length outs" using assms(2) by simp
  have "length left \<le> i"
  proof (rule ccontr)
    assume "\<not> length left \<le> i"
    moreover have "length left \<le> length outs"
      using length_Cleanup_loop [of "outs[i := CTxOut_SetNull]"] by (simp add: left_def)
    ultimately have "length left = length outs" using i by simp
    then have i': "left \<noteq> []" "i = length left - 1" "i < length left" using i by auto
    have "left ! i = outs[i := CTxOut_SetNull] ! i"
      unfolding left_def by (rule nth_Cleanup_loop(1)) (use i'(3) in \<open>simp only: left_def\<close>)
    then have "last left = CTxOut_SetNull" "left \<noteq> []" using i' assms(2) by (simp_all add: last_conv_nth)
    then show False using Cleanup_loop_props [of "outs[i := CTxOut_SetNull]"] by (simp add: left_def)
  qed
  then have len: "length (left @ replicate (Suc i - length left) CTxOut_SetNull) = length outs" using i by simp
  show ?thesis
  proof (rule nth_equalityI)
    show "length ((left @ replicate (Suc i - length left) CTxOut_SetNull)[i := outs ! i]) = length outs" using len by simp
    fix j assume "j < length ((left @ replicate (Suc i - length left) CTxOut_SetNull)[i := outs ! i])"
    then have j: "j < length outs" using len by simp
    show "(left @ replicate (Suc i - length left) CTxOut_SetNull)[i := outs ! i] ! j = outs ! j"
    proof (cases "j = i")
      case False
      show ?thesis
      proof (cases "j < length left")
        case True
        then show ?thesis using False nth_Cleanup_loop(1) [of j "outs[i := CTxOut_SetNull]"]
          by (simp add: left_def [symmetric] nth_append)
      next
        case no: False
        then have "CTxOut_IsNull (outs[i := CTxOut_SetNull] ! j)"
          using nth_Cleanup_loop(3) [of "outs[i := CTxOut_SetNull]" j] j by (simp add: left_def [symmetric])
        then have "outs ! j = CTxOut_SetNull" using assms(1) j False by (simp add: exact_nulls_def list_all_length)
        then show ?thesis using no j i False len by (simp add: nth_append)
      qed
    qed (use j len in simp)
  qed
qed

lemma spend_input_available:
  "IsAvailable c n \<Longrightarrow> snd (spend_input n c) = snd (Spend c n) \<and> fst (spend_input n c) \<noteq> None"
  "\<not> IsAvailable c n \<Longrightarrow> spend_input n c = (None, c)"
  by (auto simp: spend_input_def IsAvailable_def Let_def)

lemma Spend_available: "IsAvailable c n \<Longrightarrow> snd (Spend c n) = Cleanup (c\<lparr>c_vout := (c_vout c)[n := CTxOut_SetNull]\<rparr>)"
  by (auto simp: Spend_def IsAvailable_def)

lemma coin_wf_Spend: "coin_wf c \<Longrightarrow> IsAvailable c n \<Longrightarrow> coin_wf (snd (Spend c n))"
proof -
  assume c: "coin_wf c" "IsAvailable c n"
  let ?outs = "(c_vout c)[n := CTxOut_SetNull]"
  have "exact_nulls ?outs" using c set_update_subset_insert [of "c_vout c" n CTxOut_SetNull]
    by (auto simp: coin_wf_def exact_nulls_def list_all_iff)
  moreover have "length (Cleanup_loop ?outs) \<le> length ?outs"
    by (rule length_Cleanup_loop)
  ultimately show ?thesis using c cleaned_Cleanup [of "c\<lparr>c_vout := ?outs\<rparr>"] exact_nulls_Cleanup_loop [of ?outs]
    by (simp add: Spend_available coin_wf_def) (simp add: Cleanup_def)
qed

lemma undo_spend_input:
  assumes "coin_wf c" "spend_input (unat n) c = (Some undo, c')" "cleaned d" "unpruned d = unpruned c'"
  shows "undo_input undo n d = (Some True, c)"
proof -
  let ?i = "unat (n :: u32)" let ?outs = "(c_vout c)[?i := CTxOut_SetNull]"
  have av: "IsAvailable c ?i" using assms(2) spend_input_available(2) [of c ?i] by fastforce
  then have i: "?i < length (c_vout c)" "\<not> CTxOut_IsNull (c_vout c ! ?i)" by (auto simp: IsAvailable_def)
  have c': "c' = Cleanup (c\<lparr>c_vout := ?outs\<rparr>)"
    using spend_input_available(1) [OF av] assms(2) Spend_available [OF av] by simp
  have last: "\<not> CTxOut_IsNull (last (c_vout c))" using assms(1) i by (auto simp: coin_wf_def cleaned_def)
  have "?i + 1 < 2 ^ 32" using i(1) assms(1) by (simp add: coin_wf_def)
  then have n1: "unat (n + 1) = Suc ?i" by (simp add: unat_word_ariths)
  have "exact_nulls (c_vout c)" using assms(1) by (simp add: coin_wf_def)
  note restore = restore_outputs [OF this i(1) last]
  have cv: "c_vout c' = Cleanup_loop ?outs" by (simp add: c' Cleanup_def)
  have cl: "cleaned c'" unfolding c' by (rule cleaned_Cleanup)
  have pad: "(if length xs < Suc ?i then xs @ replicate (Suc ?i - length xs) CTxOut_SetNull else xs)
      = xs @ replicate (Suc ?i - length xs) CTxOut_SetNull" for xs by simp
  have notav: "\<not> IsAvailable c' ?i" using av Spend_spends(2) [OF av, of ?i] Spend_available [OF av] c' by simp
  show ?thesis
  proof (cases "length (c_vout c') = 0")
    case True
    then have u: "undo = \<lparr>undo_txout = c_vout c ! ?i, undo_fCoinBase = fCoinBase c, undo_nHeight = of_int (c_nHeight c), undo_nVersion = c_nVersion c\<rparr>"
      using assms(2) i c' Spend_available [OF av] by (auto simp: spend_input_def Let_def mk_CTxInUndo_def Cleanup_def)
    have h: "sint (of_int (c_nHeight c) :: u32) = c_nHeight c" "(of_int (c_nHeight c) :: u32) \<noteq> 0"
    proof -
      have r: "- (2 ^ 31) \<le> c_nHeight c" "c_nHeight c < 2 ^ 31" "0 < c_nHeight c" using assms(1) by (auto simp: coin_wf_def)
      then show "sint (of_int (c_nHeight c) :: u32) = c_nHeight c" 
        using signed_take_bit_int_eq_self [of 31 "c_nHeight c"] by (simp add: sint_sbintrunc')
      then show "(of_int (c_nHeight c) :: u32) \<noteq> 0" using r(3) by (metis less_irrefl sint_0)
    qed
    have "IsPruned c'" using True by (simp add: IsPruned_def)
    then have "IsPruned d" using assms(4) by (metis option.distinct(1) unpruned_simps)
    moreover have "(replicate (Suc ?i) CTxOut_SetNull)[?i := c_vout c ! ?i] = c_vout c"
      using restore True by (simp add: cv [symmetric])
    ultimately show ?thesis
      by (simp add: undo_input_def u h n1 pad CCoins_Clear_def IsAvailable_def Let_def del: replicate.simps)
  next
    case False
    then have np: "\<not> IsPruned c'" using cl by (simp add: cleaned_pruned)
    then have d: "d = c'" using assms(4) by (metis option.distinct(1) option.inject unpruned_simps)
    have u: "undo_nHeight undo = 0" "undo_txout undo = c_vout c ! ?i"
      using assms(2) i c' False Spend_available [OF av] by (auto simp: spend_input_def Let_def mk_CTxInUndo_def)
    have "?i < length (c_vout c' @ replicate (Suc ?i - length (c_vout c')) CTxOut_SetNull)" by simp
    moreover have "c'\<lparr>c_vout := c_vout c\<rparr> = c" by (simp add: c' Cleanup_def)
    ultimately show ?thesis unfolding d undo_input_def u n1 pad using np notav restore
      by (simp add: cv [symmetric])
  qed
qed

subsection \<open>Outputs of a transaction\<close>

definition tx_outputs_ok :: "CTransaction \<Rightarrow> bool" where
  "tx_outputs_ok tx \<longleftrightarrow> list_all (\<lambda>out. nValue out \<ge> 0) (vout tx) \<and> length (vout tx) < 2 ^ 32"

lemma FromTx_eq: "FromTx c tx height = CCoins_of tx height"
  by (cases c) (simp add: FromTx_def CCoins_of_def CCoins_init_def)

lemma cleaned_CCoins_of [simp]: "cleaned (CCoins_of tx height)"
  by (simp add: CCoins_of_def FromTx_def ClearUnspendable_def)

lemma set_Cleanup_loop: "set (Cleanup_loop outs) \<subseteq> set outs"
  using Cleanup_loop_props [of outs] by (metis Un_upper1 set_append)

lemma CCoins_of_fields [simp]:
  "c_nHeight (CCoins_of tx height) = height" "c_nVersion (CCoins_of tx height) = nVersion tx" "fCoinBase (CCoins_of tx height) = IsCoinBase tx"
  by (simp_all add: CCoins_of_def FromTx_def ClearUnspendable_def Cleanup_def)

lemma coin_wf_CCoins_of:
  assumes "tx_outputs_ok tx" "0 < height" "height < 2 ^ 31"
  shows "coin_wf (CCoins_of tx height)"
proof -
  let ?outs = "map (\<lambda>out. if IsUnspendable (scriptPubKey out) then CTxOut_SetNull else out) (vout tx)"
  have v: "c_vout (CCoins_of tx height) = Cleanup_loop ?outs"
    by (simp add: CCoins_of_def FromTx_def ClearUnspendable_def Cleanup_def)
  have "exact_nulls ?outs" using assms(1) by (auto simp: exact_nulls_def tx_outputs_ok_def list_all_iff CTxOut_IsNull_def)
  moreover have "length (Cleanup_loop ?outs) \<le> length (vout tx)"
    using length_Cleanup_loop [of ?outs] by simp
  ultimately show ?thesis using assms exact_nulls_Cleanup_loop [of ?outs] by (simp add: coin_wf_def v tx_outputs_ok_def)
qed

lemma ClearUnspendable_CCoins_of [simp]: "ClearUnspendable (CCoins_of tx height) = CCoins_of tx height"
proof -
  let ?f = "\<lambda>out. if IsUnspendable (scriptPubKey out) then CTxOut_SetNull else out"
  let ?K = "CCoins_of tx height"
  have v: "c_vout ?K = Cleanup_loop (map ?f (vout tx))"
    by (simp add: CCoins_of_def FromTx_def ClearUnspendable_def Cleanup_def)
  have "?f x = x" if "x \<in> set (c_vout ?K)" for x
  proof -
    have "x \<in> set (map ?f (vout tx))" using that set_Cleanup_loop [of "map ?f (vout tx)"] unfolding v by blast
    then obtain o' where "x = ?f o'" unfolding set_map by blast
    then show ?thesis by (simp add: IsUnspendable_def CTxOut_SetNull_def)
  qed
  then have "map ?f (c_vout ?K) = c_vout ?K" by (simp add: map_idI)
  then have "ClearUnspendable ?K = Cleanup ?K" unfolding ClearUnspendable_def by simp
  then show ?thesis by simp
qed

lemma remove_outputs_of:
  assumes "cleaned d" "unpruned d = unpruned (CCoins_of tx height)"
  shows "remove_outputs tx height d = (True, CCoins_init)"
proof (cases "IsPruned (CCoins_of tx height)")
  case True
  then have "c_vout d = []" using assms by (metis cleaned_pruned option.distinct(1) unpruned_simps)
  then have "c_vout (ClearUnspendable d) = []" by (simp add: ClearUnspendable_def Cleanup_def Cleanup_loop.simps)
  then show ?thesis using True by (simp add: remove_outputs_def CCoins_eq_def IsPruned_def CCoins_Clear_eq Let_def)
next
  case False
  then have d: "d = CCoins_of tx height" using assms(2) by (metis option.distinct(1) option.inject unpruned_simps)
  have "(CCoins_of tx height)\<lparr>c_nVersion := nVersion tx\<rparr> = CCoins_of tx height" by (metis CCoins.surjective CCoins.update_convs(4) CCoins_of_fields(2))
  then show ?thesis
    by (simp add: remove_outputs_def d CCoins_eq_def CCoins_Clear_eq Let_def list.rel_refl CTxOut_eq_def)
qed

subsection \<open>Undoing what was done\<close>

context coins_view
begin

lemma spend_then_undo:
  assumes inv: "cache_inv amap vinv s" and wf: "map_wf (cache_abs amap s)"
    and sp: "modifying usage (spend_input (unat n)) (ModifyCoins V usage s h) = (Some undo, s1)"
  shows "cache_inv amap vinv s1 \<and> map_wf (cache_abs amap s1) \<and> (\<forall>k. cache_abs amap s k = None \<longrightarrow> cache_abs amap s1 k = None) \<and>
    amap (base s1) = amap (base s) \<and> cache_best best s1 = cache_best best s \<and>
    (\<exists>c. cache_abs amap s h = Some c \<and> IsAvailable c (unat n)) \<and>
    (\<forall>t p. cache_inv amap vinv t \<and> cache_abs amap t = cache_abs amap s1 \<and> op_hash p = h \<and> op_n p = n \<longrightarrow>
      (\<exists>t'. ApplyTxInUndo V usage undo t p = (Some True, t') \<and> cache_inv amap vinv t' \<and> cache_abs amap t' = cache_abs amap s \<and>
        cache_best best t' = cache_best best t))"
proof -
  obtain c where c: "cleaned c" "unpruned c = cache_abs amap s h" "Some undo = fst (spend_input (unat n) c)" "cache_inv amap vinv s1"
      "cache_abs amap s1 = (cache_abs amap s)(h := unpruned (Cleanup (snd (spend_input (unat n) c))))"
      "cache_best best s1 = cache_best best s" "amap (base s1) = amap (base s)"
    using modifying_ModifyCoins [OF inv sp] by blast
  then have av: "IsAvailable c (unat n)" using spend_input_available(2) [of c "unat n"] by fastforce
  then have "\<not> IsPruned c" by (auto simp: IsAvailable_def IsPruned_def list_all_length)
  then have some: "cache_abs amap s h = Some c" using c(2) by simp
  then have cw: "coin_wf c" using wf by (simp add: map_wf_def)
  define c' where "c' = snd (Spend c (unat n))"
  have c': "coin_wf c'" "spend_input (unat n) c = (Some undo, c')"
    using coin_wf_Spend [OF cw av] spend_input_available(1) [OF av] c(3) by (auto simp: c'_def intro: prod_eqI)
  then have cl': "Cleanup c' = c'" by (simp add: coin_wf_def)
  have abs1: "cache_abs amap s1 = (cache_abs amap s)(h := unpruned c')" using c(5) c'(2) cl' by simp
  have wf1: "map_wf (cache_abs amap s1)" using wf c'(1) unfolding abs1 map_wf_def by (auto simp: unpruned_def)
  have undo: "\<exists>t'. ApplyTxInUndo V usage undo t p = (Some True, t') \<and> cache_inv amap vinv t' \<and> cache_abs amap t' = cache_abs amap s \<and>
        cache_best best t' = cache_best best t"
    if t: "cache_inv amap vinv t" "cache_abs amap t = cache_abs amap s1" "op_hash p = h" "op_n p = n" for t p
  proof -
    obtain r t' where a: "ApplyTxInUndo V usage undo t p = (r, t')" by (rule prod.exhaust)
    obtain d where d: "cleaned d" "unpruned d = cache_abs amap t h" "r = fst (undo_input undo n d)" "cache_inv amap vinv t'"
        "cache_abs amap t' = (cache_abs amap t)(h := unpruned (Cleanup (snd (undo_input undo n d))))" "cache_best best t' = cache_best best t"
      using modifying_ModifyCoins [OF t(1) a [unfolded ApplyTxInUndo_def t(3,4)]] by blast
    have u: "undo_input undo n d = (Some True, c)"
      using undo_spend_input [OF cw c'(2) d(1)] d(2) t(2) by (simp add: abs1)
    have "cache_abs amap t' = cache_abs amap s"
      using d(5) u c(1) some \<open>\<not> IsPruned c\<close> by (simp add: t(2) abs1 fun_upd_idem)
    then show ?thesis using a d u by simp
  qed
  show ?thesis using c(4,6,7) wf1 undo some av abs1 by auto
qed

lemma GetOutputFor_available:
  assumes "cache_inv amap vinv s" "cache_abs amap s (op_hash (prevout txin)) = Some c" "IsAvailable c (unat (op_n (prevout txin)))"
  shows "\<exists>s'. GetOutputFor V usage s txin = (Some (c_vout c ! unat (op_n (prevout txin))), s') \<and> cache_inv amap vinv s' \<and>
    cache_abs amap s' = cache_abs amap s \<and> cache_best best s' = cache_best best s"
proof -
  obtain r s' where a: "AccessCoins V usage s (op_hash (prevout txin)) = (r, s')" by (rule prod.exhaust)
  note sp = AccessCoins_spec [OF assms(1) a]
  then have "Option.bind r unpruned = Some c" using assms(2) by simp
  then have "r = Some c" by (cases r) (auto simp: unpruned_def split: if_splits)
  then show ?thesis using a sp assms(3) by (simp add: GetOutputFor_def)
qed

end

lemma UpdateCoins_inputs_snoc:
  "UpdateCoins_inputs V usage (ins @ [txin]) s =
     (case UpdateCoins_inputs V usage ins s of
        None \<Rightarrow> None
      | Some (undos, s) \<Rightarrow>
          (case modifying usage (spend_input (unat (op_n (prevout txin)))) (ModifyCoins V usage s (op_hash (prevout txin))) of
             (None, s) \<Rightarrow> None
           | (Some undo, s) \<Rightarrow> Some (undos @ [undo], s)))"
proof (induction ins arbitrary: s)
  case Nil
  show ?case by (simp split: prod.split option.split)
next
  case (Cons x ins)
  then show ?case by (simp split: prod.split option.split)
qed

lemma restore_inputs_cong:
  "(\<And>i. i < j \<Longrightarrow> ins ! i = ins' ! i \<and> us ! i = us' ! i) \<Longrightarrow>
   restore_inputs V usage fA fS height i hash ins us j st = restore_inputs V usage fA fS height i hash ins' us' j st"
proof (induction j arbitrary: st)
  case (Suc j)
  then have "ins ! j = ins' ! j" "us ! j = us' ! j"
    "\<And>st. restore_inputs V usage fA fS height i hash ins us j st = restore_inputs V usage fA fS height i hash ins' us' j st" by simp_all
  then show ?case by (simp only: restore_inputs.simps)
qed simp

context coins_view
begin

lemma restore_inputs_spec:
  assumes "cache_inv amap vinv s" "map_wf (cache_abs amap s)" "UpdateCoins_inputs V usage ins s = Some (undos, s1)"
  shows "length undos = length ins \<and> cache_inv amap vinv s1 \<and> map_wf (cache_abs amap s1) \<and>
    (\<forall>k. cache_abs amap s k = None \<longrightarrow> cache_abs amap s1 k = None) \<and>
    amap (base s1) = amap (base s) \<and> cache_best best s1 = cache_best best s \<and>
    (\<forall>t fClean e. cache_inv amap vinv t \<and> cache_abs amap t = cache_abs amap s1 \<longrightarrow>
      (\<exists>t' e'. restore_inputs V usage fA fS height i hash ins undos (length ins) (fClean, t, e) = Inr (fClean, t', e') \<and>
        cache_inv amap vinv t' \<and> cache_abs amap t' = cache_abs amap s \<and> cache_best best t' = cache_best best t))"
  using assms(3)
proof (induction ins arbitrary: undos s1 rule: rev_induct)
  case Nil
  then show ?case using assms(1,2) by auto
next
  case (snoc txin ins)
  let ?h = "op_hash (prevout txin)" let ?n = "op_n (prevout txin)"
  obtain us s0 undo where u: "UpdateCoins_inputs V usage ins s = Some (us, s0)"
      "modifying usage (spend_input (unat ?n)) (ModifyCoins V usage s0 ?h) = (Some undo, s1)" "undos = us @ [undo]"
    using snoc.prems by (auto simp: UpdateCoins_inputs_snoc split: option.splits prod.splits)
  note ih = snoc.IH [OF u(1)]
  have s0: "cache_inv amap vinv s0" "map_wf (cache_abs amap s0)" using ih by blast+
  note one = spend_then_undo [OF s0 u(2)]
  have "\<exists>t' e'. restore_inputs V usage fA fS height i hash (ins @ [txin]) undos (length (ins @ [txin])) (fClean, t, e) = Inr (fClean, t', e') \<and>
        cache_inv amap vinv t' \<and> cache_abs amap t' = cache_abs amap s \<and> cache_best best t' = cache_best best t"
    if t: "cache_inv amap vinv t" "cache_abs amap t = cache_abs amap s1" for t fClean e
  proof -
    obtain t1 where t1: "ApplyTxInUndo V usage undo t (prevout txin) = (Some True, t1)" "cache_inv amap vinv t1"
        "cache_abs amap t1 = cache_abs amap s0" "cache_best best t1 = cache_best best t"
      using one t by blast
    obtain c where c: "cache_abs amap s0 ?h = Some c" "IsAvailable c (unat ?n)" using one by blast
    obtain t2 where t2: "GetOutputFor V usage t1 txin = (Some (c_vout c ! unat ?n), t2)" "cache_inv amap vinv t2"
        "cache_abs amap t2 = cache_abs amap t1" "cache_best best t2 = cache_best best t1"
      using GetOutputFor_available [OF t1(2) c(1) [folded t1(3)] c(2)] by blast
    define t3 where "t3 = (if fA then t2 else t1)"
    define e0 where "e0 = (if fS then e\<lparr>spentIndex := spentIndex e @ [(?h, ?n)]\<rparr> else e)"
    define e1 where "e1 = (if fA then undo_spending height i hash (length ins) txin undo (c_vout c ! unat ?n) e0 else e0)"
    have t3: "cache_inv amap vinv t3" "cache_abs amap t3 = cache_abs amap s0" "cache_best best t3 = cache_best best t"
      using t1 t2 by (simp_all add: t3_def)
    have len: "length us = length ins" using ih by blast
    then have nth: "undos ! length ins = undo" by (simp add: u(3) nth_append)
    have "restore_inputs V usage fA fS height i hash (ins @ [txin]) undos (length (ins @ [txin])) (fClean, t, e) =
        restore_inputs V usage fA fS height i hash (ins @ [txin]) undos (length ins) (fClean, t3, e1)"
      using t1(1) t2(1) by (simp add: nth Let_def t3_def e1_def e0_def)
    also have "\<dots> = restore_inputs V usage fA fS height i hash ins us (length ins) (fClean, t3, e1)"
      by (rule restore_inputs_cong) (simp add: u(3) len nth_append)
    finally show ?thesis using ih t3 by metis
  qed
  then show ?case using ih one u(3) by auto
qed

end

context coins_view
begin

text \<open>One transaction: its outputs are added, and removed and its inputs restored.\<close>

lemma UpdateCoins_spec:
  assumes inv: "cache_inv amap vinv s" and wf: "map_wf (cache_abs amap s)"
    and up: "UpdateCoins V usage C tx s height = Some (undos, s1)"
    and tx: "tx_outputs_ok tx" "0 < height" "height < 2 ^ 31" "cache_abs amap s (GetHash C tx) = None"
    and new: "amap (base s) (GetHash C tx) = None"
  shows "cache_inv amap vinv s1 \<and> map_wf (cache_abs amap s1) \<and> amap (base s1) = amap (base s) \<and>
    (\<forall>k. cache_abs amap s k = None \<and> k \<noteq> GetHash C tx \<longrightarrow> cache_abs amap s1 k = None) \<and>
    (if IsCoinBase tx then undos = [] else length undos = length (vin tx)) \<and>
    (\<forall>t. cache_inv amap vinv t \<and> cache_abs amap t = cache_abs amap s1 \<longrightarrow>
      (\<exists>t'. modifying usage (remove_outputs tx height) (ModifyCoins V usage t (GetHash C tx)) = (True, t') \<and>
        cache_inv amap vinv t' \<and>
        (IsCoinBase tx \<longrightarrow> cache_abs amap t' = cache_abs amap s) \<and>
        (\<not> IsCoinBase tx \<longrightarrow> (\<forall>fClean e. \<exists>t'' e'.
           restore_inputs V usage fA fS height i (GetHash C tx) (vin tx) undos (length (vin tx)) (fClean, t', e) = Inr (fClean, t'', e') \<and>
           cache_inv amap vinv t'' \<and> cache_abs amap t'' = cache_abs amap s))))"
proof -
  let ?h = "GetHash C tx" let ?K = "CCoins_of tx height"
  have K: "coin_wf ?K" "Cleanup ?K = ?K" using coin_wf_CCoins_of [OF tx(1-3)] by simp_all
  have wfK: "map_wf (A(?h := unpruned ?K))" if "map_wf A" for A
    using that K(1) by (auto simp: map_wf_def unpruned_def)
  obtain s0 where s0: "cache_inv amap vinv s0" "map_wf (cache_abs amap s0)" "amap (base s0) = amap (base s)"
      "\<And>k. cache_abs amap s k = None \<Longrightarrow> cache_abs amap s0 k = None"
      "cache_inv amap vinv s1" "cache_abs amap s1 = (cache_abs amap s0)(?h := unpruned ?K)" "amap (base s1) = amap (base s)"
      "if IsCoinBase tx then undos = [] \<and> cache_abs amap s0 = cache_abs amap s
       else length undos = length (vin tx) \<and>
         (\<forall>t fClean e. cache_inv amap vinv t \<and> cache_abs amap t = cache_abs amap s0 \<longrightarrow>
           (\<exists>t' e'. restore_inputs V usage fA fS height i ?h (vin tx) undos (length (vin tx)) (fClean, t, e) = Inr (fClean, t', e') \<and>
             cache_inv amap vinv t' \<and> cache_abs amap t' = cache_abs amap s \<and> cache_best best t' = cache_best best t))"
  proof (cases "IsCoinBase tx")
    case True
    let ?m = "modifying usage (\<lambda>c. ((), FromTx c tx height)) (ModifyCoins V usage s ?h)"
    obtain r s' where m: "?m = (r, s')" by (rule prod.exhaust)
    have "undos = []" "s1 = s'" using up True m by (auto simp: UpdateCoins_def)
    then show thesis using that [of s] modifying_ModifyCoins [OF inv m] inv wf True K(2) by (auto simp: FromTx_eq)
  next
    case False
    obtain s0 where ins: "UpdateCoins_inputs V usage (vin tx) s = Some (undos, s0)"
        and s1: "s1 = snd (modifying usage (\<lambda>c. ((), FromTx c tx height)) (ModifyNewCoins s0 ?h))"
      using up False by (auto simp: UpdateCoins_def split: option.splits)
    note sp = restore_inputs_spec [OF inv wf ins, of fA fS height i ?h]
    obtain r s' where m: "modifying usage (\<lambda>c. ((), FromTx c tx height)) (ModifyNewCoins s0 ?h) = (r, s')" by (rule prod.exhaust)
    have s0: "cache_inv amap vinv s0" "amap (base s0) ?h = None" using sp new by auto
    have "s1 = s'" using s1 m by simp
    then have fin: "cache_inv amap vinv s1" "cache_abs amap s1 = (cache_abs amap s0)(?h := unpruned ?K)" "amap (base s1) = amap (base s0)"
      using modifying_ModifyNewCoins [OF s0(1) m s0(2)] K(2) by (simp_all add: FromTx_eq)
    show thesis using that [of s0] sp fin False by auto
  qed
  have h0: "cache_abs amap s0 ?h = None" using s0(4) tx(4) .
  have undo: "\<exists>t'. modifying usage (remove_outputs tx height) (ModifyCoins V usage t ?h) = (True, t') \<and>
      cache_inv amap vinv t' \<and> cache_abs amap t' = cache_abs amap s0"
    if t: "cache_inv amap vinv t" "cache_abs amap t = cache_abs amap s1" for t
  proof -
    obtain r t' where m: "modifying usage (remove_outputs tx height) (ModifyCoins V usage t ?h) = (r, t')" by (rule prod.exhaust)
    obtain d where d: "cleaned d" "unpruned d = cache_abs amap t ?h" "r = fst (remove_outputs tx height d)" "cache_inv amap vinv t'"
        "cache_abs amap t' = (cache_abs amap t)(?h := unpruned (Cleanup (snd (remove_outputs tx height d))))"
      using modifying_ModifyCoins [OF t(1) m] by blast
    have "remove_outputs tx height d = (True, CCoins_init)"
      using d(2) by (intro remove_outputs_of [OF d(1)]) (simp add: t(2) s0(6))
    then show ?thesis using m d h0 by (simp add: t(2) s0(6) fun_upd_idem)
  qed
  have "\<exists>t'. modifying usage (remove_outputs tx height) (ModifyCoins V usage t ?h) = (True, t') \<and>
      cache_inv amap vinv t' \<and> (IsCoinBase tx \<longrightarrow> cache_abs amap t' = cache_abs amap s) \<and>
      (\<not> IsCoinBase tx \<longrightarrow> (\<forall>fClean e. \<exists>t'' e'.
         restore_inputs V usage fA fS height i ?h (vin tx) undos (length (vin tx)) (fClean, t', e) = Inr (fClean, t'', e') \<and>
         cache_inv amap vinv t'' \<and> cache_abs amap t'' = cache_abs amap s))"
    if t: "cache_inv amap vinv t \<and> cache_abs amap t = cache_abs amap s1" for t
  proof -
    obtain t' where t': "modifying usage (remove_outputs tx height) (ModifyCoins V usage t ?h) = (True, t')"
        "cache_inv amap vinv t'" "cache_abs amap t' = cache_abs amap s0"
      using undo t by blast
    show ?thesis
    proof (cases "IsCoinBase tx")
      case True
      then show ?thesis using t' s0(8) by auto
    next
      case False
      then have "\<forall>fClean e. \<exists>t'' e'.
         restore_inputs V usage fA fS height i ?h (vin tx) undos (length (vin tx)) (fClean, t', e) = Inr (fClean, t'', e') \<and>
         cache_inv amap vinv t'' \<and> cache_abs amap t'' = cache_abs amap s"
        using t'(2,3) s0(8) unfolding if_not_P [OF False] by blast
      then show ?thesis using t'(1,2) False by blast
    qed
  qed
  moreover have "map_wf (cache_abs amap s1)" unfolding s0(6) by (rule wfK [OF s0(2)])
  moreover have "\<forall>k. cache_abs amap s k = None \<and> k \<noteq> ?h \<longrightarrow> cache_abs amap s1 k = None"
    using s0(4) by (simp add: s0(6))
  moreover have "if IsCoinBase tx then undos = [] else length undos = length (vin tx)" using s0(8) by (simp split: if_splits)
  ultimately show ?thesis using s0(5,7) by blast
qed

end

subsection \<open>Connecting and disconnecting a block\<close>

lemma connect_txs_snoc:
  "connect_txs V usage C i (vtx @ [tx]) height view =
     (case connect_txs V usage C i vtx height view of
        None \<Rightarrow> None
      | Some (us, view) \<Rightarrow>
          (case UpdateCoins V usage C tx view height of
             None \<Rightarrow> None
           | Some (txundo, view) \<Rightarrow> Some (us @ (if i + length vtx > 0 then [txundo] else []), view)))"
proof (induction vtx arbitrary: i view)
  case Nil
  show ?case by (simp split: option.split prod.split)
next
  case (Cons a vtx)
  then show ?case by (simp split: option.split prod.split)
qed

lemma disconnect_txs_cong:
  "(\<And>i. i < j \<Longrightarrow> vtx ! i = vtx' ! i) \<Longrightarrow> (\<And>i. i + 1 < j \<Longrightarrow> us ! i = us' ! i) \<Longrightarrow>
   disconnect_txs V usage C fA fS height vtx us j st = disconnect_txs V usage C fA fS height vtx' us' j st"
proof (induction j arbitrary: st)
  case 0
  then show ?case by (cases st) simp
next
  case (Suc j)
  obtain fClean view e where st: "st = (fClean, view, e)" by (cases st)
  have "vtx ! j = vtx' ! j" "0 < j \<Longrightarrow> us ! (j - 1) = us' ! (j - 1)"
    "disconnect_txs V usage C fA fS height vtx us j = disconnect_txs V usage C fA fS height vtx' us' j"
    using Suc by (simp_all add: fun_eq_iff)
  then show ?case unfolding st disconnect_txs.simps by (cases "0 < j") (simp_all only: Let_def if_True if_False)
qed

text \<open>
  What is known of a block when it is connected: the first transaction, and no other, is a coinbase,
  the values of the outputs are not negative, and no two transactions have one hash.
\<close>

definition block_ok :: "crypto \<Rightarrow> CTransaction list \<Rightarrow> bool" where
  "block_ok C vtx \<longleftrightarrow> (\<forall>i < length vtx. IsCoinBase (vtx ! i) \<longleftrightarrow> i = 0) \<and> list_all tx_outputs_ok vtx \<and>
     distinct (map (GetHash C) vtx)"

lemma block_ok_snoc: "block_ok C (vtx @ [tx]) \<longleftrightarrow> block_ok C vtx \<and> (IsCoinBase tx \<longleftrightarrow> vtx = []) \<and> tx_outputs_ok tx \<and>
    GetHash C tx \<notin> GetHash C ` set vtx"
  by (auto simp: block_ok_def nth_append less_Suc_eq)

context coins_view
begin

lemma connect_then_disconnect:
  assumes inv: "cache_inv amap vinv s" "map_wf (cache_abs amap s)" and h: "0 < height" "height < 2 ^ 31"
    and ok: "block_ok C vtx" "\<forall>tx \<in> set vtx. cache_abs amap s (GetHash C tx) = None \<and> amap (base s) (GetHash C tx) = None"
    and con: "connect_txs V usage C 0 vtx height s = Some (us, s1)"
  shows "length us = length vtx - 1 \<and> cache_inv amap vinv s1 \<and> map_wf (cache_abs amap s1) \<and> amap (base s1) = amap (base s) \<and>
    (\<forall>k. cache_abs amap s k = None \<and> k \<notin> GetHash C ` set vtx \<longrightarrow> cache_abs amap s1 k = None) \<and>
    (\<forall>t fClean e. cache_inv amap vinv t \<and> cache_abs amap t = cache_abs amap s1 \<longrightarrow>
      (\<exists>t' e'. disconnect_txs V usage C fA fS height vtx us (length vtx) (fClean, t, e) = Inr (Disconnected fClean, t', e') \<and>
        cache_inv amap vinv t' \<and> cache_abs amap t' = cache_abs amap s))"
  using ok con
proof (induction vtx arbitrary: us s1 rule: rev_induct)
  case Nil
  then show ?case using inv by auto
next
  case (snoc tx vtx)
  obtain us0 s0 u where c: "connect_txs V usage C 0 vtx height s = Some (us0, s0)"
      "UpdateCoins V usage C tx s0 height = Some (u, s1)" "us = us0 @ (if vtx \<noteq> [] then [u] else [])"
    using snoc.prems(3) by (auto simp: connect_txs_snoc split: option.splits)
  have tx: "block_ok C vtx" "IsCoinBase tx \<longleftrightarrow> vtx = []" "tx_outputs_ok tx" "GetHash C tx \<notin> GetHash C ` set vtx"
    using snoc.prems(1) by (simp_all add: block_ok_snoc)
  have ih: "length us0 = length vtx - 1 \<and> cache_inv amap vinv s0 \<and> map_wf (cache_abs amap s0) \<and> amap (base s0) = amap (base s) \<and>
    (\<forall>k. cache_abs amap s k = None \<and> k \<notin> GetHash C ` set vtx \<longrightarrow> cache_abs amap s0 k = None) \<and>
    (\<forall>t fClean e. cache_inv amap vinv t \<and> cache_abs amap t = cache_abs amap s0 \<longrightarrow>
      (\<exists>t' e'. disconnect_txs V usage C fA fS height vtx us0 (length vtx) (fClean, t, e) = Inr (Disconnected fClean, t', e') \<and>
        cache_inv amap vinv t' \<and> cache_abs amap t' = cache_abs amap s))"
    using snoc.IH [OF tx(1) _ c(1)] snoc.prems(2) by simp
  have new: "cache_abs amap s0 (GetHash C tx) = None" "amap (base s0) (GetHash C tx) = None"
    using ih snoc.prems(2) tx(4) by auto
  have s0: "cache_inv amap vinv s0" "map_wf (cache_abs amap s0)" using ih by blast+
  note up = UpdateCoins_spec [OF s0 c(2) tx(3) h new, of fA fS "length vtx"]
  have undo: "\<exists>t' e'. disconnect_txs V usage C fA fS height (vtx @ [tx]) us (length (vtx @ [tx])) (fClean, t, e) = Inr (Disconnected fClean, t', e') \<and>
        cache_inv amap vinv t' \<and> cache_abs amap t' = cache_abs amap s"
    if t: "cache_inv amap vinv t" "cache_abs amap t = cache_abs amap s1" for t fClean e
  proof -
    define e0 where "e0 = (if fA then undo_receiving height (length vtx) (GetHash C tx) (vout tx) (length (vout tx)) e else e)"
    obtain t1 where t1: "modifying usage (remove_outputs tx height) (ModifyCoins V usage t (GetHash C tx)) = (True, t1)" "cache_inv amap vinv t1"
        "IsCoinBase tx \<longrightarrow> cache_abs amap t1 = cache_abs amap s0"
        "\<not> IsCoinBase tx \<longrightarrow> (\<forall>fClean e. \<exists>t'' e'.
           restore_inputs V usage fA fS height (length vtx) (GetHash C tx) (vin tx) u (length (vin tx)) (fClean, t1, e) = Inr (fClean, t'', e') \<and>
           cache_inv amap vinv t'' \<and> cache_abs amap t'' = cache_abs amap s0)"
      using up t by blast
    show ?thesis
    proof (cases "vtx = []")
      case True
      have "s0 = s" "us0 = []" using c(1) True by simp_all
      then show ?thesis using True t1 tx(2) by (simp add: Let_def)
    next
      case False
      then have nc: "\<not> IsCoinBase tx" using tx(2) by simp
      then obtain t2 e2 where t2: "restore_inputs V usage fA fS height (length vtx) (GetHash C tx) (vin tx) u (length (vin tx)) (fClean, t1, e0) = Inr (fClean, t2, e2)"
          "cache_inv amap vinv t2" "cache_abs amap t2 = cache_abs amap s0"
        using t1(4) by blast
      have len: "length us0 = length vtx - 1" using ih by blast
      have u: "us ! (length vtx - 1) = u" "length u = length (vin tx)" using c(3) False len up nc by (simp_all add: nth_append)
      have "disconnect_txs V usage C fA fS height (vtx @ [tx]) us (length (vtx @ [tx])) (fClean, t, e) =
          disconnect_txs V usage C fA fS height (vtx @ [tx]) us (length vtx) (fClean, t2, e2)"
        using False t1(1) t2(1) u by (simp add: Let_def e0_def)
      also have "\<dots> = disconnect_txs V usage C fA fS height vtx us0 (length vtx) (fClean, t2, e2)"
        by (rule disconnect_txs_cong) (use c(3) len in \<open>auto simp: nth_append\<close>)
      finally show ?thesis using ih t2(2,3) by metis
    qed
  qed
  show ?case using ih up undo c(3) tx(2) by (auto simp: Suc_pred)
qed

lemma AccessCoins_base:
  assumes "cache_inv amap vinv s" "AccessCoins V usage s k = (r, s')"
  shows "amap (base s') = amap (base s)"
proof -
  obtain r0 where f: "FetchCoins V usage s k = (r0, s')"
    using assms(2) by (cases "FetchCoins V usage s k") (auto simp: AccessCoins_def split: option.splits)
  obtain g b where "v_GetCoins V (base s) k = (g, b)" by (rule prod.exhaust)
  moreover from this have "amap b = amap (base s)" using get assms(1) by (simp add: cache_inv_def)
  ultimately show ?thesis using f by (auto simp: FetchCoins_def Let_def split: option.splits)
qed

lemma overwrites_False:
  assumes "cache_inv amap vinv s" "overwrites V usage C vtx s = (False, s')"
  shows "cache_inv amap vinv s' \<and> cache_abs amap s' = cache_abs amap s \<and> amap (base s') = amap (base s) \<and>
    (\<forall>tx \<in> set vtx. cache_abs amap s (GetHash C tx) = None)"
  using assms
proof (induction vtx arbitrary: s)
  case (Cons tx vtx)
  obtain r s1 where a: "AccessCoins V usage s (GetHash C tx) = (r, s1)" by (rule prod.exhaust)
  note sp = AccessCoins_spec [OF Cons.prems(1) a] and b = AccessCoins_base [OF Cons.prems(1) a]
  have o: "overwrites V usage C vtx s1 = (False, s')" "\<And>c. r = Some c \<Longrightarrow> IsPruned c"
    using Cons.prems(2) a by (auto split: option.splits if_splits)
  then have "cache_abs amap s (GetHash C tx) = None" using sp by (cases r) auto
  then show ?case using Cons.IH [OF _ o(1)] sp b by simp
qed simp

end

subsection \<open>Properties\<close>

abbreviation (input) tip_view :: "ec_parser \<Rightarrow> (CCoins \<Rightarrow> u64) \<Rightarrow> CDBWrapper CCoinsViewCache CCoinsView" where
  "tip_view ec usage \<equiv> CCoinsViewCache_view (CCoinsViewDB_view ec) usage"

lemma SetBestBlock_map:
  "cache_inv amap vinv (SetBestBlock s h) \<longleftrightarrow> cache_inv amap vinv s" "cache_abs amap (SetBestBlock s h) = cache_abs amap s"
  by (simp_all add: SetBestBlock_def cache_inv_def cache_abs_def)

text \<open>C2: A block that is connected on a cache over the tip and flushed, and then disconnected with the
  undo data that the connection made, on another cache, leaves the coins as they were before: the
  disconnection reports that it was clean, its cache stands for the map of the tip before the block,
  and flushing it gives the tip that map. The block has passed the check of BIP30, its first
  transaction and no other is a coinbase, and no transaction of it fails to find its inputs.\<close>

theorem disconnect_restores_coins:
  assumes tip: "cache_inv (db_map ec) (db_inv ec) tip" "map_wf (cache_abs (db_map ec) tip)"
    and block: "block_ok C vtx" "vtx \<noteq> []" "0 < height" "height < 2 ^ 31" "length blockHash = 32" "\<not> blob_IsNull blockHash"
    and bip30: "overwrites (tip_view ec usage) usage C vtx (CCoinsViewCache_init tip) = (False, view0)"
    and connect: "connect_txs (tip_view ec usage) usage C 0 vtx height view0 = Some (undo, view1)"
    and flush: "Flush (tip_view ec usage) (SetBestBlock view1 blockHash) = (True, view2)"
  shows "\<exists>view3 e view4.
    DisconnectBlock (tip_view ec usage) usage C fAddressIndex fSpentIndex pfClean vtx blockHash height prevHash (Some undo)
      (CCoinsViewCache_init (base view2)) = Inr (Disconnected True, view3, e) \<and>
    cache_abs (cache_abs (db_map ec)) view3 = cache_abs (db_map ec) tip \<and>
    Flush (tip_view ec usage) view3 = (True, view4) \<and>
    cache_abs (db_map ec) (base view4) = cache_abs (db_map ec) tip"
proof -
  let ?V = "tip_view ec usage" let ?M = "cache_abs (db_map ec)" let ?I = "cache_inv (db_map ec) (db_inv ec)"
  let ?B = "cache_best CCoinsViewDB_GetBestBlock"
  have init: "cache_inv ?M ?I (CCoinsViewCache_init t) \<and> cache_abs ?M (CCoinsViewCache_init t) = ?M t" if "?I t" for t
    using that by (simp add: cache_inv_def [of ?M] cache_abs_def [of ?M] CCoinsViewCache_init_def)
  note o = coins_tip.overwrites_False [OF conjunct1 [OF init [OF tip(1)]] bip30]
  have v0: "cache_inv ?M ?I view0" "cache_abs ?M view0 = ?M tip" "?M (base view0) = ?M tip"
    "\<forall>tx \<in> set vtx. cache_abs ?M view0 (GetHash C tx) = None \<and> ?M (base view0) (GetHash C tx) = None"
    using o init [OF tip(1)] by (auto simp: CCoinsViewCache_init_def)
  have wf0: "map_wf (cache_abs ?M view0)" using tip(2) v0(2) by simp
  note c = coins_tip.connect_then_disconnect [OF v0(1) wf0 block(3,4,1) v0(4) connect]
  have v1: "cache_inv ?M ?I view1" using c by blast
  note sb = coins_tip.SetBestBlock_spec [OF v1 block(6)]
  have fit: "\<forall>e \<in> snd ` set (cacheCoins (SetBestBlock view1 blockHash)). flags e AND DIRTY \<noteq> 0 \<longrightarrow> True" by simp
  note f = coins_tip.Flush_spec [OF conjunct1 [OF sb] fit flush]
  have tip2: "?I (base view2)" "?M (base view2) = cache_abs ?M view1" "?B (base view2) = blockHash"
    using f sb block(5,6) by (auto simp: cache_inv_def [of ?M] SetBestBlock_def cache_best_def [of ?B])
  let ?t = "CCoinsViewCache_init (base view2)"
  note t = init [OF tip2(1)]
  obtain h t1 where g: "Cache_GetBestBlock ?V ?t = (h, t1)" by (rule prod.exhaust)
  note gs = coins_tip.Cache_GetBestBlock_spec [OF conjunct1 [OF t] g]
  have h: "h = blockHash" using gs tip2(3) by (simp add: cache_best_def [of ?B] CCoinsViewCache_init_def blob_IsNull_def blob_SetNull_def list_all_length)
  have "cache_inv ?M ?I t1 \<and> cache_abs ?M t1 = cache_abs ?M view1" using gs t tip2(2) by simp
  then obtain t2 e2 where d: "disconnect_txs ?V usage C fAddressIndex fSpentIndex height vtx undo (length vtx) (True, t1, no_entries) =
      Inr (Disconnected True, t2, e2)" "cache_inv ?M ?I t2" "cache_abs ?M t2 = cache_abs ?M view0"
    using c by blast
  define view3 where "view3 = SetBestBlock t2 prevHash"
  have v3: "cache_inv ?M ?I view3" "cache_abs ?M view3 = ?M tip"
    using d(2,3) v0(2) by (simp_all add: view3_def SetBestBlock_map)
  have "length undo + 1 = length vtx" using c block(2) by (cases vtx) simp_all
  then have dis: "DisconnectBlock ?V usage C fAddressIndex fSpentIndex pfClean vtx blockHash height prevHash (Some undo) ?t =
      Inr (Disconnected True, view3, if \<not> pfClean \<and> fAddressIndex then e2\<lparr>spentIndex := []\<rparr> else no_entries)"
    using g h d(1) by (simp add: DisconnectBlock_def view3_def)
  obtain view4 where f4: "Flush ?V view3 = (True, view4)"
    by (simp add: Flush_def CCoinsViewCache_view_def Cache_BatchWrite_def)
  have fit3: "\<forall>e \<in> snd ` set (cacheCoins view3). flags e AND DIRTY \<noteq> 0 \<longrightarrow> True" by simp
  show ?thesis using dis v3 f4 coins_tip.Flush_spec [OF v3(1) fit3 f4] by auto
qed

definition prefix_crypto :: crypto where
  "prefix_crypto = example_crypto\<lparr>CSHA256 := \<lambda>m. take 32 (m @ replicate 32 0)\<rparr>"

definition example_prev :: uint256 where
  "example_prev = replicate 32 9"

definition example_spender :: CTransaction where
  "example_spender = \<lparr>nVersion = 2, vin = [mk_CTxIn \<lparr>op_hash = example_prev, op_n = 0\<rparr> [] 0], vout = [mk_CTxOut 4 [0x52]], nLockTime = 0\<rparr>"

definition example_coinbase :: CTransaction where
  "example_coinbase = \<lparr>nVersion = 1, vin = [mk_CTxIn COutPoint_SetNull [1, 2] 0], vout = [mk_CTxOut 50 [0x51]], nLockTime = 0\<rparr>"

definition example_tip :: "CDBWrapper CCoinsViewCache" where
  "example_tip = (CCoinsViewCache_init example_db)\<lparr>cacheCoins := [(example_prev, \<lparr>coins = example_coins, flags = 3\<rparr>)]\<rparr>"

lemma example_tip_inv: "cache_inv (db_map ec) (db_inv ec) example_tip" "cache_abs (db_map ec) example_tip = [example_prev \<mapsto> example_coins]"
  using example_coins_clean by (auto simp: cache_inv_def cache_abs_def example_tip_def CCoinsViewCache_init_def example_db_inv entries_ok_def
      entry_ok_def overlay_def split: if_splits)

lemma example_tip_wf: "map_wf (cache_abs (db_map ec) example_tip)"
  using example_coins_clean by (auto simp: map_wf_def example_tip_inv coin_wf_def exact_nulls_def example_coins_def
      mk_CTxOut_def CTxOut_IsNull_def split: if_splits)

lemma GetHash_prefix: "GetHash prefix_crypto tx = take 32 (Serialize_CTransaction tx @ replicate 32 0)"
  by (simp add: GetHash_def CHash256_def prefix_crypto_def take_append)

lemma le_bytes_numeral: "le_bytes (numeral k) n = word_of_nat n # le_bytes (pred_numeral k) (n div 256)"
  unfolding numeral_eq_Suc [of k] by simp

lemma example_hashes:
  "\<exists>r. GetHash prefix_crypto example_coinbase = 1 # r" "\<exists>r. GetHash prefix_crypto example_spender = 2 # r" "example_prev = 9 # replicate 31 9"
  using replicate_Suc [of 31 "9 :: byte"] by (simp_all add: GetHash_prefix Serialize_CTransaction_def example_coinbase_def example_spender_def ser_writedata32_def
      unsigned_of_def example_prev_def le_bytes_numeral)

lemma example_kinds: "IsCoinBase example_coinbase" "\<not> IsCoinBase example_spender" "tx_outputs_ok example_coinbase" "tx_outputs_ok example_spender"
  by (simp_all add: IsCoinBase_def COutPoint_IsNull_def example_coinbase_def example_spender_def COutPoint_SetNull_def mk_CTxIn_def
      blob_IsNull_def blob_SetNull_def list_all_length tx_outputs_ok_def mk_CTxOut_def)

lemma example_block_ok: "block_ok prefix_crypto [example_coinbase, example_spender]"
  using example_hashes example_kinds by (auto simp: block_ok_def less_Suc_eq)

lemma example_tip_get:
  "v_GetCoins (tip_view ec (\<lambda>_. 0)) example_tip k = (if k = example_prev then Some example_coins else None, example_tip)"
  by (simp add: CCoinsViewCache_view_def Cache_GetCoins_def FetchCoins_def example_tip_def CCoinsViewCache_init_def
      CCoinsViewDB_view_def CCoinsViewDB_GetCoins_def DB_Read_def example_db_def)

lemma example_overwrites:
  "overwrites (tip_view ec (\<lambda>_. 0)) (\<lambda>_. 0) prefix_crypto [example_coinbase, example_spender] (CCoinsViewCache_init example_tip) =
     (False, CCoinsViewCache_init example_tip)"
proof -
  obtain r1 r2 where h: "GetHash prefix_crypto example_coinbase = 1 # r1" "GetHash prefix_crypto example_spender = 2 # r2"
    using example_hashes by blast
  have "GetHash prefix_crypto example_coinbase \<noteq> example_prev" "GetHash prefix_crypto example_spender \<noteq> example_prev"
    by (simp_all add: h example_hashes(3))
  then show ?thesis by (simp add: AccessCoins_def FetchCoins_def example_tip_get CCoinsViewCache_init_def)
qed

lemma example_connect:
  "connect_txs (tip_view ec (\<lambda>_. 0)) (\<lambda>_. 0) prefix_crypto 0 [example_coinbase, example_spender] 8 (CCoinsViewCache_init example_tip) \<noteq> None"
proof -
  obtain r1 r2 where h: "GetHash prefix_crypto example_coinbase = 1 # r1" "GetHash prefix_crypto example_spender = 2 # r2"
    using example_hashes by blast
  obtain view1 where up1: "UpdateCoins (tip_view ec (\<lambda>_. 0)) (\<lambda>_. 0) prefix_crypto example_coinbase (CCoinsViewCache_init example_tip) 8 = Some ([], view1)"
      "base view1 = example_tip" "map_of (cacheCoins view1) example_prev = None"
    using example_kinds(1)
    by (simp add: UpdateCoins_def modifying_def ModifyCoins_def CCoinsViewCache_init_def example_tip_get h example_hashes(3) Let_def
        CCoinsModifier_coins_def CCoinsModifier_assign_def CCoinsModifier_destroy_def)
  have "UpdateCoins_inputs (tip_view ec (\<lambda>_. 0)) (\<lambda>_. 0) (vin example_spender) view1 \<noteq> None"
    by (simp add: example_spender_def mk_CTxIn_def modifying_def ModifyCoins_def up1 example_tip_get Let_def update_conv'
        CCoinsModifier_coins_def spend_input_def example_coins_def mk_CTxOut_def CTxOut_IsNull_def split: prod.split)
  then show ?thesis using up1(1) example_kinds(2) by (auto simp: UpdateCoins_def)
qed

theorem disconnect_restores_coins_witness:
  "\<exists>undo view1 view2 view3 e view4.
    connect_txs (tip_view example_ec (\<lambda>_. 0)) (\<lambda>_. 0) prefix_crypto 0 [example_coinbase, example_spender] 8
      (CCoinsViewCache_init example_tip) = Some (undo, view1) \<and>
    Flush (tip_view example_ec (\<lambda>_. 0)) (SetBestBlock view1 (replicate 32 7)) = (True, view2) \<and>
    DisconnectBlock (tip_view example_ec (\<lambda>_. 0)) (\<lambda>_. 0) prefix_crypto True True False [example_coinbase, example_spender]
      (replicate 32 7) 8 (replicate 32 6) (Some undo) (CCoinsViewCache_init (base view2)) = Inr (Disconnected True, view3, e) \<and>
    Flush (tip_view example_ec (\<lambda>_. 0)) view3 = (True, view4) \<and>
    cache_abs (db_map example_ec) (base view4) = [example_prev \<mapsto> example_coins]"
proof -
  obtain undo view1 where con: "connect_txs (tip_view example_ec (\<lambda>_. 0)) (\<lambda>_. 0) prefix_crypto 0 [example_coinbase, example_spender] 8
      (CCoinsViewCache_init example_tip) = Some (undo, view1)"
    using example_connect by fastforce
  obtain view2 where fl: "Flush (tip_view example_ec (\<lambda>_. 0)) (SetBestBlock view1 (replicate 32 7)) = (True, view2)"
    by (simp add: Flush_def CCoinsViewCache_view_def Cache_BatchWrite_def)
  have h: "(0 :: int) < 8" "(8 :: int) < 2 ^ 31" "[example_coinbase, example_spender] \<noteq> []"
    "length (replicate 32 7 :: uint256) = 32" "\<not> blob_IsNull (replicate 32 7)"
    by (simp_all add: blob_IsNull_def list_all_iff)
  show ?thesis
    using con fl disconnect_restores_coins [OF example_tip_inv(1) example_tip_wf example_block_ok h(3,1,2,4,5) example_overwrites con fl,
      where pfClean = False and fAddressIndex = True and fSpentIndex = True and prevHash = "replicate 32 6"]
    unfolding example_tip_inv(2) by blast
qed

end
