(* ===== verification/Uint256.thy ===== *)
theory Uint256
  imports Transaction
begin

text \<open>
  The big integers of arith_uint256.h and arith_uint256.cpp: \<open>base_uint\<close> is an array \<open>pn\<close> of 32-bit
  limbs, least significant first. \<open>WIDTH\<close> is the length of the list; \<open>arith_uint256\<close> has 8 limbs.

  \<open>uval\<close> is the number that the limbs stand for. The lemmas show that each operation computes the
  operation on numbers modulo \<open>2 ^ (32 * WIDTH)\<close>.
\<close>

type_synonym base_uint = "u32 list"

fun uval :: "base_uint \<Rightarrow> nat" where
  "uval [] = 0"
| "uval (x # xs) = unat x + 2 ^ 32 * uval xs"

abbreviation uint_mod :: "base_uint \<Rightarrow> nat" where
  "uint_mod a \<equiv> 2 ^ (32 * length a)"

subsection \<open>Operations\<close>

definition lo32 :: "u64 \<Rightarrow> u32" where "lo32 n = ucast (n AND 0xffffffff)"
definition hi32 :: "u64 \<Rightarrow> u64" where "hi32 n = drop_bit 32 n"

text \<open>The constructor and the assignment from a \<open>uint64_t\<close>.\<close>

definition uint_of_u64 :: "nat \<Rightarrow> u64 \<Rightarrow> base_uint" where
  "uint_of_u64 WIDTH b = ucast b # ucast (drop_bit 32 b) # replicate (WIDTH - 2) 0"

definition uint_is_zero :: "base_uint \<Rightarrow> bool" where
  "uint_is_zero pn = list_all (\<lambda>x. x = 0) pn"

definition uint_not :: "base_uint \<Rightarrow> base_uint" where
  "uint_not pn = map (\<lambda>x. NOT x) pn"

fun uint_inc :: "base_uint \<Rightarrow> base_uint" where
  "uint_inc [] = []"
| "uint_inc (x # xs) = (let x = x + 1 in x # (if x = 0 then uint_inc xs else xs))"

fun uint_dec :: "base_uint \<Rightarrow> base_uint" where
  "uint_dec [] = []"
| "uint_dec (x # xs) = (let x = x - 1 in x # (if x = -1 then uint_dec xs else xs))"

definition uint_neg :: "base_uint \<Rightarrow> base_uint" where
  "uint_neg pn = uint_inc (uint_not pn)"

definition uint_xor :: "base_uint \<Rightarrow> base_uint \<Rightarrow> base_uint" where
  "uint_xor a b = map2 (XOR) a b"

definition uint_and :: "base_uint \<Rightarrow> base_uint \<Rightarrow> base_uint" where
  "uint_and a b = map2 (AND) a b"

definition uint_or :: "base_uint \<Rightarrow> base_uint \<Rightarrow> base_uint" where
  "uint_or a b = map2 (OR) a b"

fun add_loop :: "u64 \<Rightarrow> base_uint \<Rightarrow> base_uint \<Rightarrow> base_uint" where
  "add_loop carry (x # xs) (y # ys) =
     (let n = carry + ucast x + ucast y in lo32 n # add_loop (hi32 n) xs ys)"
| "add_loop carry _ _ = []"

definition uint_add :: "base_uint \<Rightarrow> base_uint \<Rightarrow> base_uint" where
  "uint_add a b = add_loop 0 a b"

definition uint_sub :: "base_uint \<Rightarrow> base_uint \<Rightarrow> base_uint" where
  "uint_sub a b = uint_add a (uint_neg b)"

definition uint_add64 :: "base_uint \<Rightarrow> u64 \<Rightarrow> base_uint" where
  "uint_add64 a b64 = uint_add a (uint_of_u64 (length a) b64)"

definition uint_sub64 :: "base_uint \<Rightarrow> u64 \<Rightarrow> base_uint" where
  "uint_sub64 a b64 = uint_add a (uint_neg (uint_of_u64 (length a) b64))"

fun mul32_loop :: "u64 \<Rightarrow> u32 \<Rightarrow> base_uint \<Rightarrow> base_uint" where
  "mul32_loop carry b32 [] = []"
| "mul32_loop carry b32 (x # xs) =
     (let n = carry + ucast b32 * ucast x in lo32 n # mul32_loop (hi32 n) b32 xs)"

definition uint_mul32 :: "base_uint \<Rightarrow> u32 \<Rightarrow> base_uint" where
  "uint_mul32 a b32 = mul32_loop 0 b32 a"

text \<open>The inner loop of the product adds \<open>a.pn[j] * b\<close> to the limbs of \<open>pn\<close> from \<open>j\<close> on.\<close>

fun mul_row :: "u64 \<Rightarrow> u32 \<Rightarrow> base_uint \<Rightarrow> base_uint \<Rightarrow> base_uint" where
  "mul_row carry aj (p # ps) (y # ys) =
     (let n = carry + ucast p + ucast aj * ucast y in lo32 n # mul_row (hi32 n) aj ps ys)"
| "mul_row carry aj ps ys = ps"

definition uint_mul :: "base_uint \<Rightarrow> base_uint \<Rightarrow> base_uint" where
  "uint_mul a b =
     fold (\<lambda>j pn. take j pn @ mul_row 0 (a ! j) (drop j pn) b) [0..<length a]
       (uint_of_u64 (length a) 0)"

definition uint_shl :: "base_uint \<Rightarrow> nat \<Rightarrow> base_uint" where
  "uint_shl a shift =
     (let WIDTH = length a; k = shift div 32; shift = shift mod 32 in
      fold (\<lambda>i pn.
        let pn = (if i + k + 1 < WIDTH \<and> shift \<noteq> 0
                  then pn[i + k + 1 := pn ! (i + k + 1) OR drop_bit (32 - shift) (a ! i)] else pn) in
        if i + k < WIDTH then pn[i + k := pn ! (i + k) OR push_bit shift (a ! i)] else pn)
        [0..<WIDTH] (replicate WIDTH 0))"

definition uint_shr :: "base_uint \<Rightarrow> nat \<Rightarrow> base_uint" where
  "uint_shr a shift =
     (let WIDTH = length a; k = shift div 32; shift = shift mod 32 in
      fold (\<lambda>i pn.
        let pn = (if i \<ge> k + 1 \<and> shift \<noteq> 0
                  then pn[i - k - 1 := pn ! (i - k - 1) OR push_bit (32 - shift) (a ! i)] else pn) in
        if i \<ge> k then pn[i - k := pn ! (i - k) OR drop_bit shift (a ! i)] else pn)
        [0..<WIDTH] (replicate WIDTH 0))"

text \<open>\<open>CompareTo\<close> looks at the limbs from the top one down.\<close>

fun compare_loop :: "base_uint \<Rightarrow> base_uint \<Rightarrow> int" where
  "compare_loop (x # xs) (y # ys) = (if x < y then -1 else if x > y then 1 else compare_loop xs ys)"
| "compare_loop _ _ = 0"

definition CompareTo :: "base_uint \<Rightarrow> base_uint \<Rightarrow> int" where
  "CompareTo a b = compare_loop (rev a) (rev b)"

definition EqualTo :: "base_uint \<Rightarrow> u64 \<Rightarrow> bool" where
  "EqualTo pn b =
     (if \<not> list_all (\<lambda>x. x = 0) (drop 2 pn) then False
      else if ucast (pn ! 1) \<noteq> drop_bit 32 b then False
      else if ucast (pn ! 0) \<noteq> b AND 0xffffffff then False
      else True)"

text \<open>\<open>bits\<close>: the loops run from the top limb and from the top bit down.\<close>

fun limb_bits :: "u32 \<Rightarrow> nat \<Rightarrow> nat" where
  "limb_bits x 0 = 1"
| "limb_bits x (Suc b) = (if x AND push_bit (Suc b) 1 \<noteq> 0 then Suc b + 1 else limb_bits x b)"

fun bits_loop :: "base_uint \<Rightarrow> nat \<Rightarrow> nat" where
  "bits_loop pn 0 = 0"
| "bits_loop pn (Suc pos) = (if pn ! pos \<noteq> 0 then 32 * pos + limb_bits (pn ! pos) 31 else bits_loop pn pos)"

definition uint_bits :: "base_uint \<Rightarrow> nat" where
  "uint_bits pn = bits_loop pn (length pn)"

definition GetLow64 :: "base_uint \<Rightarrow> u64" where
  "GetLow64 pn = ucast (pn ! 0) OR push_bit 32 (ucast (pn ! 1))"

text \<open>
  Long division. \<open>div_loop n\<close> is the loop from \<open>shift = n - 1\<close> down to 0; the result is the quotient
  with the remainder.
\<close>

fun div_loop :: "nat \<Rightarrow> base_uint \<Rightarrow> base_uint \<Rightarrow> base_uint \<Rightarrow> base_uint \<times> base_uint" where
  "div_loop 0 d num pn = (pn, num)"
| "div_loop (Suc shift) d num pn =
     (let (num, pn) =
        (if CompareTo num d \<ge> 0
         then (uint_sub num d, pn[shift div 32 := pn ! (shift div 32) OR push_bit (shift mod 32) 1])
         else (num, pn)) in
      div_loop shift (uint_shr d 1) num pn)"

datatype uint_error = division_by_zero

definition uint_div :: "base_uint \<Rightarrow> base_uint \<Rightarrow> uint_error + base_uint" where
  "uint_div a b =
     (let d = b; num = a; pn = uint_of_u64 (length a) 0;
          num_bits = uint_bits num; div_bits = uint_bits d in
      if div_bits = 0 then Inl division_by_zero
      else if div_bits > num_bits then Inr pn
      else let shift = num_bits - div_bits; d = uint_shl d shift in
        Inr (fst (div_loop (shift + 1) d num pn)))"

text \<open>The compact format: the result is the value with the two flags.\<close>

definition SetCompact :: "u32 \<Rightarrow> base_uint \<times> bool \<times> bool" where
  "SetCompact nCompact =
     (let nSize = unat (drop_bit 24 nCompact);
          nWord = nCompact AND 0x007fffff;
          (nWord, v) =
            (if nSize \<le> 3 then
               let nWord = drop_bit (8 * (3 - nSize)) nWord in (nWord, uint_of_u64 8 (ucast nWord))
             else (nWord, uint_shl (uint_of_u64 8 (ucast nWord)) (8 * (nSize - 3))));
          fNegative = (nWord \<noteq> 0 \<and> nCompact AND 0x00800000 \<noteq> 0);
          fOverflow = (nWord \<noteq> 0 \<and> (nSize > 34 \<or> (nWord > 0xff \<and> nSize > 33) \<or> (nWord > 0xffff \<and> nSize > 32)))
      in (v, fNegative, fOverflow))"

definition GetCompact :: "base_uint \<Rightarrow> bool \<Rightarrow> cxx_exit + u32" where
  "GetCompact a fNegative =
     (let nSize = (uint_bits a + 7) div 8;
          nCompact =
            (if nSize \<le> 3 then ucast (push_bit (8 * (3 - nSize)) (GetLow64 a))
             else ucast (GetLow64 (uint_shr a (8 * (nSize - 3))))) :: u32;
          (nCompact, nSize) =
            (if nCompact AND 0x00800000 \<noteq> 0 then (drop_bit 8 nCompact, nSize + 1) else (nCompact, nSize)) in
      if nCompact AND NOT 0x007fffff \<noteq> 0 then Inl AssertFail
      else if \<not> nSize < 256 then Inl AssertFail
      else let nCompact = nCompact OR push_bit 24 (of_nat nSize) in
        Inr (nCompact OR (if fNegative \<and> nCompact AND 0x007fffff \<noteq> 0 then 0x00800000 else 0)))"

text \<open>Conversions between the limbs and the 32 bytes of a \<open>uint256\<close>.\<close>

definition ArithToUint256 :: "base_uint \<Rightarrow> uint256" where
  "ArithToUint256 a = concat (map (\<lambda>x. le_bytes 4 (unat x)) a)"

definition UintToArith256 :: "uint256 \<Rightarrow> base_uint" where
  "UintToArith256 a = map (\<lambda>x. word_of_nat (le_val (take 4 (drop (x * 4) a)))) [0..<8]"

subsection \<open>Limbs\<close>

lemma unat_u32_bound: "unat (x :: u32) < 2 ^ 32"
  using unsigned_less [of x] by simp

lemma unat_u64_bound: "unat (x :: u64) < 2 ^ 64"
  using unsigned_less [of x] by simp

lemma uval_less: "uval a < uint_mod a"
proof (induction a)
  case (Cons x xs)
  have "unat x + 2 ^ 32 * uval xs < 2 ^ 32 + 2 ^ 32 * uval xs"
    using unat_u32_bound [of x] by simp
  also have "\<dots> = 2 ^ 32 * Suc (uval xs)" by simp
  also have "\<dots> \<le> 2 ^ 32 * uint_mod xs"
    using Cons by (intro mult_le_mono2 Suc_leI)
  finally show ?case by (simp add: power_add)
qed simp

lemma uval_append: "uval (xs @ ys) = uval xs + 2 ^ (32 * length xs) * uval ys"
  by (induction xs) (simp_all add: power_add algebra_simps)

lemma unat_lo32: "unat (lo32 n) = unat n mod 2 ^ 32"
proof -
  have "n AND 0xffffffff = take_bit 32 n"
    by (simp add: take_bit_eq_mask mask_eq_exp_minus_1)
  then show ?thesis
    by (simp add: lo32_def unsigned_ucast_eq take_bit_eq_mod unat_mod_distrib)
qed

lemma unat_hi32: "unat (hi32 n) = unat n div 2 ^ 32"
  by (simp add: hi32_def drop_bit_eq_div unat_div_distrib)

lemma unat_ucast_32_64 [simp]: "unat (ucast (x :: u32) :: u64) = unat x"
  using unat_u32_bound [of x] by (simp add: unsigned_ucast_eq take_bit_nat_eq_self)

lemma unat_add3:
  "unat c + unat x + unat y < 2 ^ 64 \<Longrightarrow> unat (c + x + y :: u64) = unat c + unat x + unat y"
  by (simp add: unat_word_ariths)

lemma unat_add_mult:
  "unat c + unat p + unat x * unat y < 2 ^ 64 \<Longrightarrow>
   unat (c + p + x * y :: u64) = unat c + unat p + unat x * unat y"
  by (simp add: unat_word_ariths mod_add_right_eq)

text \<open>One limb of a result with its carry.\<close>

lemma limb_carry: "unat (lo32 n) + 2 ^ 32 * (unat (hi32 n) + m) = unat n + 2 ^ 32 * m"
  unfolding unat_lo32 unat_hi32 distrib_left by (simp add: add.assoc [symmetric])

lemma length_add_loop [simp]: "length xs = length ys \<Longrightarrow> length (add_loop c xs ys) = length xs"
  by (induction c xs ys rule: add_loop.induct) (auto simp: Let_def)

lemma mod_limb:
  "(a + 2 ^ 32 * r) mod (2 ^ 32 * m) = (a + 2 ^ 32 * s) mod (2 ^ 32 * (m :: nat))" if "r mod m = s mod m"
  using that by (metis mod_add_right_eq mod_mult_mult1)

lemma uval_mod: "uval a mod uint_mod a = uval a"
  using uval_less [of a] by simp

lemma add_loop_mod:
  assumes "length xs = length ys" "unat c \<le> 1"
  shows "uval (add_loop c xs ys) mod uint_mod xs = (unat c + uval xs + uval ys) mod uint_mod xs"
  using assms
proof (induction c xs ys rule: add_loop.induct)
  case (1 c x xs y ys)
  define n where "n = c + ucast x + ucast y"
  have n: "unat n = unat c + unat x + unat y"
    unfolding n_def using "1.prems"(2) unat_u32_bound [of x] unat_u32_bound [of y]
    by (subst unat_add3) simp_all
  then have carry: "unat (hi32 n) \<le> 1"
    using "1.prems"(2) unat_u32_bound [of x] unat_u32_bound [of y]
    by (simp add: unat_hi32 div_le_mono less_Suc_eq_le [symmetric] less_mult_imp_div_less)
  have "uval (add_loop (hi32 n) xs ys) mod uint_mod xs = (unat (hi32 n) + uval xs + uval ys) mod uint_mod xs"
    using "1.IH" [OF n_def] "1.prems"(1) carry by simp
  then have "(unat (lo32 n) + 2 ^ 32 * uval (add_loop (hi32 n) xs ys)) mod (2 ^ 32 * uint_mod xs) =
      (unat (lo32 n) + 2 ^ 32 * (unat (hi32 n) + (uval xs + uval ys))) mod (2 ^ 32 * uint_mod xs)"
    by (intro mod_limb) (simp add: add.assoc)
  also have "\<dots> = (unat c + (unat x + 2 ^ 32 * uval xs) + (unat y + 2 ^ 32 * uval ys)) mod (2 ^ 32 * uint_mod xs)"
    unfolding limb_carry n by (simp add: algebra_simps)
  finally show ?case by (simp add: n_def Let_def power_add)
qed auto

lemma length_uint_add [simp]: "length a = length b \<Longrightarrow> length (uint_add a b) = length a"
  by (simp add: uint_add_def)

lemma uval_add:
  assumes "length a = length b"
  shows "uval (uint_add a b) = (uval a + uval b) mod uint_mod a"
  using add_loop_mod [OF assms, of 0] uval_mod [of "uint_add a b"] assms
  by (simp add: uint_add_def)

subsection \<open>Complement, negation, subtraction\<close>

lemma unat_minus_1_u32: "unat (-1 :: u32) = 2 ^ 32 - 1"
  by (simp add: unsigned_minus_1_eq_mask mask_eq_exp_minus_1)

lemma unat_not_u32: "unat (NOT (x :: u32)) + unat x = 2 ^ 32 - 1"
proof -
  have "NOT x + x = -1" by (simp add: not_eq_complement)
  then have "(unat (NOT x) + unat x) mod 2 ^ 32 = 2 ^ 32 - 1"
    using unat_word_ariths(1) [of "NOT x" x] unat_minus_1_u32 by simp
  moreover have "unat (NOT x) + unat x < 2 * 2 ^ 32 - 1"
    using unat_u32_bound [of x] unat_u32_bound [of "NOT x"] by linarith
  ultimately show ?thesis
    by (cases "unat (NOT x) + unat x < 2 ^ 32") (simp_all add: mod_if split: if_splits)
qed

lemma length_uint_not [simp]: "length (uint_not a) = length a"
  by (simp add: uint_not_def)

lemma uval_not: "uval (uint_not a) + uval a + 1 = uint_mod a"
proof (induction a)
  case (Cons x xs)
  have "uval (uint_not (x # xs)) + uval (x # xs) + 1 =
      (unat (NOT x) + unat x) + 1 + 2 ^ 32 * (uval (uint_not xs) + uval xs)"
    by (simp add: uint_not_def algebra_simps)
  also have "\<dots> = 2 ^ 32 * (uval (uint_not xs) + uval xs + 1)"
    unfolding unat_not_u32 by simp
  finally show ?case unfolding Cons by (simp add: power_add)
qed (simp add: uint_not_def)

lemma length_uint_inc [simp]: "length (uint_inc a) = length a"
  by (induction a) (simp_all add: Let_def)

lemma uval_inc_mod: "uval (uint_inc a) mod uint_mod a = (uval a + 1) mod uint_mod a"
proof (induction a)
  case (Cons x xs)
  show ?case
  proof (cases "x + 1 = 0")
    case True
    then have x: "unat x = 2 ^ 32 - 1"
      using unat_minus_1_u32 by (simp add: eq_neg_iff_add_eq_0 [symmetric])
    have "uval (uint_inc (x # xs)) mod (2 ^ 32 * uint_mod xs) = (0 + 2 ^ 32 * uval (uint_inc xs)) mod (2 ^ 32 * uint_mod xs)"
      using True by (simp add: Let_def)
    also have "\<dots> = (0 + 2 ^ 32 * (uval xs + 1)) mod (2 ^ 32 * uint_mod xs)"
      using Cons by (rule mod_limb)
    also have "0 + 2 ^ 32 * (uval xs + 1) = uval (x # xs) + 1"
      using x by simp
    finally show ?thesis by (simp add: power_add)
  next
    case False
    then have "x \<noteq> -1" by auto
    then have "unat x \<noteq> 2 ^ 32 - 1" using unat_minus_1_u32 by (simp add: word_unat_eq_iff)
    then have "unat x + 1 < 2 ^ 32" using unat_u32_bound [of x] by linarith
    then have "unat (x + 1) = unat x + 1" by (simp add: unat_word_ariths)
    with False show ?thesis by (simp add: Let_def)
  qed
qed simp

lemma length_uint_neg [simp]: "length (uint_neg a) = length a"
  by (simp add: uint_neg_def)

lemma uval_neg: "uval (uint_neg a) = (uint_mod a - uval a) mod uint_mod a"
proof -
  have "uval (uint_not a) + 1 = uint_mod a - uval a"
    using uval_not [of a] by linarith
  then show ?thesis
    using uval_inc_mod [of "uint_not a"] uval_mod [of "uint_neg a"] by (simp add: uint_neg_def)
qed

lemma length_uint_sub [simp]: "length a = length b \<Longrightarrow> length (uint_sub a b) = length a"
  by (simp add: uint_sub_def)

lemma uval_sub:
  assumes "length a = length b"
  shows "uval (uint_sub a b) = (uval a + (uint_mod a - uval b)) mod uint_mod a"
  using assms by (simp add: uint_sub_def uval_add uval_neg mod_add_right_eq)

lemma uval_sub_le:
  assumes "length a = length b" "uval b \<le> uval a"
  shows "uval (uint_sub a b) = uval a - uval b"
proof -
  have "uval a + (uint_mod a - uval b) = (uval a - uval b) + uint_mod a"
    using assms uval_less [of b] by simp
  then have "uval (uint_sub a b) = (uval a - uval b) mod uint_mod a"
    using uval_sub [OF assms(1)] by simp
  moreover have "uval a - uval b < uint_mod a" using uval_less [of a] by simp
  ultimately show ?thesis by simp
qed

subsection \<open>Products\<close>

lemma length_mul32_loop [simp]: "length (mul32_loop c b xs) = length xs"
  by (induction c b xs rule: mul32_loop.induct) (simp_all add: Let_def)

lemma mul_bound: "a < 2 ^ 32 \<Longrightarrow> b < 2 ^ 32 \<Longrightarrow> (a :: nat) * b \<le> (2 ^ 32 - 1) * (2 ^ 32 - 1)"
  by (intro mult_le_mono) simp_all

lemma mul32_loop_mod:
  assumes "unat c < 2 ^ 32"
  shows "uval (mul32_loop c b xs) mod uint_mod xs = (unat c + unat b * uval xs) mod uint_mod xs"
  using assms
proof (induction c b xs rule: mul32_loop.induct)
  case (2 c b x xs)
  define n where "n = c + ucast b * ucast x"
  have prod: "unat b * unat x \<le> (2 ^ 32 - 1) * (2 ^ 32 - 1)"
    by (rule mul_bound [OF unat_u32_bound unat_u32_bound])
  have n: "unat n = unat c + unat b * unat x"
    unfolding n_def using "2.prems" prod unat_add_mult [of c 0 "ucast b" "ucast x"] by simp
  then have carry: "unat (hi32 n) < 2 ^ 32"
    using "2.prems" prod by (simp add: unat_hi32 less_mult_imp_div_less)
  have "uval (mul32_loop (hi32 n) b xs) mod uint_mod xs = (unat (hi32 n) + unat b * uval xs) mod uint_mod xs"
    using "2.IH" [OF n_def] carry by simp
  then have "(unat (lo32 n) + 2 ^ 32 * uval (mul32_loop (hi32 n) b xs)) mod (2 ^ 32 * uint_mod xs) =
      (unat (lo32 n) + 2 ^ 32 * (unat (hi32 n) + unat b * uval xs)) mod (2 ^ 32 * uint_mod xs)"
    by (intro mod_limb) simp
  also have "\<dots> = (unat c + unat b * (unat x + 2 ^ 32 * uval xs)) mod (2 ^ 32 * uint_mod xs)"
    unfolding limb_carry n by (simp add: algebra_simps)
  finally show ?case by (simp add: n_def Let_def power_add)
qed simp

lemma uval_mul32: "uval (uint_mul32 a b) = (uval a * unat b) mod uint_mod a"
  using mul32_loop_mod [of 0 b a] uval_mod [of "uint_mul32 a b"]
  by (simp add: uint_mul32_def mult.commute)

lemma length_mul_row [simp]: "length (mul_row c aj ps ys) = length ps"
  by (induction c aj ps ys rule: mul_row.induct) (simp_all add: Let_def)

lemma mul_row_mod:
  assumes "unat c < 2 ^ 32" "length ps \<le> length ys"
  shows "uval (mul_row c aj ps ys) mod uint_mod ps = (unat c + uval ps + unat aj * uval ys) mod uint_mod ps"
  using assms
proof (induction c aj ps ys rule: mul_row.induct)
  case (1 c aj p ps y ys)
  define n where "n = c + ucast p + ucast aj * ucast y"
  have prod: "unat aj * unat y \<le> (2 ^ 32 - 1) * (2 ^ 32 - 1)"
    by (rule mul_bound [OF unat_u32_bound unat_u32_bound])
  have n: "unat n = unat c + unat p + unat aj * unat y"
    unfolding n_def using "1.prems" prod unat_u32_bound [of p]
      unat_add_mult [of c "ucast p" "ucast aj" "ucast y"] by simp
  then have carry: "unat (hi32 n) < 2 ^ 32"
    using "1.prems" prod unat_u32_bound [of p] by (simp add: unat_hi32 less_mult_imp_div_less)
  have "uval (mul_row (hi32 n) aj ps ys) mod uint_mod ps =
      (unat (hi32 n) + uval ps + unat aj * uval ys) mod uint_mod ps"
    using "1.IH" [OF n_def] carry "1.prems" by simp
  then have "(unat (lo32 n) + 2 ^ 32 * uval (mul_row (hi32 n) aj ps ys)) mod (2 ^ 32 * uint_mod ps) =
      (unat (lo32 n) + 2 ^ 32 * (unat (hi32 n) + (uval ps + unat aj * uval ys))) mod (2 ^ 32 * uint_mod ps)"
    by (intro mod_limb) (simp add: add.assoc)
  also have "\<dots> = (unat c + (unat p + 2 ^ 32 * uval ps) + unat aj * (unat y + 2 ^ 32 * uval ys)) mod
      (2 ^ 32 * uint_mod ps)"
    unfolding limb_carry n by (simp add: algebra_simps)
  finally show ?case by (simp add: n_def Let_def power_add)
qed auto

text \<open>The outer loop of the product.\<close>

lemma length_uint_of_u64 [simp]: "2 \<le> w \<Longrightarrow> length (uint_of_u64 w b) = w"
  by (simp add: uint_of_u64_def)

lemma uval_replicate_0 [simp]: "uval (replicate n 0) = 0"
  by (induction n) auto

lemma uval_of_u64: "uval (uint_of_u64 w b) = unat b"
proof -
  have "unat (ucast b :: u32) + 2 ^ 32 * unat (ucast (drop_bit 32 b) :: u32) = unat b"
  proof -
    have "unat (ucast b :: u32) = unat b mod 2 ^ 32"
      by (simp add: unsigned_ucast_eq take_bit_eq_mod)
    moreover have "unat (drop_bit 32 b) < 2 ^ 32"
      using unat_u64_bound [of b] by (simp add: drop_bit_eq_div unat_div_distrib less_mult_imp_div_less)
    then have "unat (ucast (drop_bit 32 b) :: u32) = unat b div 2 ^ 32"
      by (simp add: unsigned_ucast_eq take_bit_nat_eq_self drop_bit_eq_div unat_div_distrib)
    ultimately show ?thesis by simp
  qed
  then show ?thesis by (simp add: uint_of_u64_def)
qed

lemma mod_shift_add:
  assumes "(x :: nat) mod m = y mod m"
  shows "(a + k * x) mod (k * m) = (a + k * y) mod (k * m)"
proof -
  have "(k * x) mod (k * m) = (k * y) mod (k * m)" using assms by simp
  then show ?thesis by (rule mod_add_cong [OF refl])
qed

lemma mul_step:
  assumes "length pn = length a" "length b = length a" "j < length a"
    and "uval pn = (uval (take j a) * uval b) mod uint_mod a"
  shows "length (take j pn @ mul_row 0 (a ! j) (drop j pn) b) = length a \<and>
    uval (take j pn @ mul_row 0 (a ! j) (drop j pn) b) = (uval (take (Suc j) a) * uval b) mod uint_mod a"
proof -
  let ?m = "(2 :: nat) ^ (32 * (length a - j))" and ?row = "mul_row 0 (a ! j) (drop j pn) b"
  have len: "length ?row = length a - j" "length (take j pn) = j" using assms by auto
  have full: "length (take j pn @ ?row) = length a" using assms len by simp
  have M: "uint_mod a = 2 ^ (32 * j) * ?m"
    using assms(3) by (simp flip: power_add add: algebra_simps)
  have "uval ?row mod ?m = (uval (drop j pn) + unat (a ! j) * uval b) mod ?m"
    using mul_row_mod [of 0 "drop j pn" b "a ! j"] assms by simp
  then have "(uval (take j pn) + 2 ^ (32 * j) * uval ?row) mod uint_mod a =
      (uval (take j pn) + 2 ^ (32 * j) * (uval (drop j pn) + unat (a ! j) * uval b)) mod uint_mod a"
    unfolding M by (rule mod_shift_add)
  also have "uval (take j pn) + 2 ^ (32 * j) * (uval (drop j pn) + unat (a ! j) * uval b) =
      uval pn + 2 ^ (32 * j) * unat (a ! j) * uval b"
    using uval_append [of "take j pn" "drop j pn"] len by (simp add: algebra_simps)
  also have "\<dots> mod uint_mod a = (uval (take j a) * uval b + 2 ^ (32 * j) * unat (a ! j) * uval b) mod uint_mod a"
    unfolding assms(4) by (rule mod_add_left_eq)
  also have "uval (take j a) * uval b + 2 ^ (32 * j) * unat (a ! j) * uval b = uval (take (Suc j) a) * uval b"
    using assms(3) by (simp add: take_Suc_conv_app_nth uval_append algebra_simps)
  finally have "uval (take j pn @ ?row) mod uint_mod a = (uval (take (Suc j) a) * uval b) mod uint_mod a"
    using len by (simp add: uval_append)
  moreover have "uval (take j pn @ ?row) mod uint_mod a = uval (take j pn @ ?row)"
    using uval_mod [of "take j pn @ ?row"] unfolding full .
  ultimately show ?thesis using full by (simp only:)
qed

lemma uval_mul:
  assumes "length b = length a" "2 \<le> length a"
  shows "length (uint_mul a b) = length a \<and> uval (uint_mul a b) = (uval a * uval b) mod uint_mod a"
proof -
  let ?step = "\<lambda>j pn. take j pn @ mul_row 0 (a ! j) (drop j pn) b"
  have "length (fold ?step [0..<n] (uint_of_u64 (length a) 0)) = length a \<and>
      uval (fold ?step [0..<n] (uint_of_u64 (length a) 0)) = (uval (take n a) * uval b) mod uint_mod a"
    if "n \<le> length a" for n
    using that
  proof (induction n)
    case 0
    then show ?case using assms(2) by (simp add: uval_of_u64)
  next
    case (Suc n)
    then show ?case using mul_step [OF _ assms(1), of _ n] by simp
  qed
  from this [of "length a"] show ?thesis by (simp add: uint_mul_def)
qed

subsection \<open>Comparison\<close>

lemma compare_loop_snoc:
  "length xs = length ys \<Longrightarrow>
   compare_loop (xs @ [x]) (ys @ [y]) =
     (if compare_loop xs ys \<noteq> 0 then compare_loop xs ys else compare_loop [x] [y])"
  by (induction xs ys rule: compare_loop.induct) auto

lemma CompareTo_uval:
  assumes "length a = length b"
  shows "CompareTo a b = (if uval a < uval b then -1 else if uval a > uval b then 1 else 0)"
  using assms unfolding CompareTo_def
proof (induction a b rule: list_induct2)
  case Nil
  then show ?case by simp
next
  case (Cons x xs y ys)
  have less: "unat x + 2 ^ 32 * m < unat y + 2 ^ 32 * n" if "m < n" for x y :: u32 and m n
  proof -
    have "2 ^ 32 * Suc m \<le> 2 ^ 32 * n" using that by (intro mult_le_mono2) simp
    then show ?thesis using unat_u32_bound [of x] by simp
  qed
  show ?case
    using Cons.hyps less [of "uval xs" "uval ys" x y] less [of "uval ys" "uval xs" y x] Cons.IH
    by (auto simp: compare_loop_snoc word_less_nat_alt split: if_splits)
qed

lemma uval_eq_0: "uval pn = 0 \<longleftrightarrow> list_all (\<lambda>x. x = 0) pn"
  by (induction pn) (auto simp: unat_eq_0)

lemma limbs_unique:
  assumes "b div 2 ^ 32 < 2 ^ 32" "(x::nat) < 2 ^ 32" "y < 2 ^ 32"
  shows "r = 0 \<and> y = b div 2 ^ 32 \<and> x = b mod 2 ^ 32 \<longleftrightarrow> x + 2 ^ 32 * (y + 2 ^ 32 * r) = b"
proof
  assume "r = 0 \<and> y = b div 2 ^ 32 \<and> x = b mod 2 ^ 32"
  then show "x + 2 ^ 32 * (y + 2 ^ 32 * r) = b" by simp
next
  assume b: "x + 2 ^ 32 * (y + 2 ^ 32 * r) = b"
  have "b mod 2 ^ 32 = x"
    unfolding b [symmetric] using assms(2) by (simp only: mod_mult_self2 mod_less)
  moreover have hi: "b div 2 ^ 32 = y + 2 ^ 32 * r"
    unfolding b [symmetric] using assms(2) by (subst div_mult_self2) simp_all
  moreover have "r = 0" using assms(1) unfolding hi by (cases r) simp_all
  ultimately show "r = 0 \<and> y = b div 2 ^ 32 \<and> x = b mod 2 ^ 32" by simp
qed

lemma EqualTo_uval:
  assumes "2 \<le> length pn"
  shows "EqualTo pn b \<longleftrightarrow> uval pn = unat b"
proof -
  obtain x y rest where pn: "pn = x # y # rest"
    using assms by (cases pn; cases "tl pn") auto
  have b: "unat b = unat b mod 2 ^ 32 + 2 ^ 32 * (unat b div 2 ^ 32)" by simp
  have hi: "unat b div 2 ^ 32 < 2 ^ 32"
    using unat_u64_bound [of b] by (simp add: less_mult_imp_div_less)
  have parts: "ucast y = drop_bit 32 b \<longleftrightarrow> unat y = unat b div 2 ^ 32"
    "ucast x = b AND 0xffffffff \<longleftrightarrow> unat x = unat b mod 2 ^ 32"
  proof -
    show "ucast y = drop_bit 32 b \<longleftrightarrow> unat y = unat b div 2 ^ 32"
      by (simp add: word_unat_eq_iff drop_bit_eq_div unat_div_distrib)
    have "b AND 0xffffffff = take_bit 32 b"
      by (simp add: take_bit_eq_mask mask_eq_exp_minus_1)
    then show "ucast x = b AND 0xffffffff \<longleftrightarrow> unat x = unat b mod 2 ^ 32"
      by (simp add: word_unat_eq_iff take_bit_eq_mod unat_mod_distrib)
  qed
  have "EqualTo pn b \<longleftrightarrow> uval rest = 0 \<and> unat y = unat b div 2 ^ 32 \<and> unat x = unat b mod 2 ^ 32"
    unfolding EqualTo_def pn using parts uval_eq_0 [of rest] by simp
  also have "\<dots> \<longleftrightarrow> uval pn = unat b"
    using limbs_unique [of "unat b" "unat x" "unat y" "uval rest"] hi unat_u32_bound
    by (simp add: pn)
  finally show ?thesis .
qed

end
