(* ===== verification/UintBits.thy ===== *)
theory UintBits
  imports Uint256
begin

text \<open>
  The shifts, the division and the compact format of arith_uint256.cpp, on numbers.
\<close>



subsection \<open>Bits of a number in limbs\<close>

lemma uval_Cons_or: "uval (x # xs) = unat x OR push_bit 32 (uval xs)"
  using or_disjoint_add_nat [of "unat x" 32 "uval xs"] unat_u32_bound [of x]
  by (simp add: push_bit_eq_mult mult.commute)

lemma bit_uval: "bit (uval pn) n \<longleftrightarrow> n div 32 < length pn \<and> bit (pn ! (n div 32)) (n mod 32)"
proof (induction pn arbitrary: n)
  case (Cons x xs)
  show ?case
  proof (cases "n < 32")
    case True
    then show ?thesis
      by (simp add: uval_Cons_or bit_or_iff bit_push_bit_iff bit_unsigned_iff del: uval.simps)
  next
    case False
    then have "bit (uval (x # xs)) n = bit (uval xs) (n - 32)"
      using bit_imp_le_length [of x n]
      by (auto simp: uval_Cons_or bit_or_iff bit_push_bit_iff bit_unsigned_iff simp del: uval.simps)
    also have "\<dots> \<longleftrightarrow> n div 32 < length (x # xs) \<and> bit ((x # xs) ! (n div 32)) (n mod 32)"
      using False Cons.IH [of "n - 32"] by (simp add: le_div_geq le_mod_geq)
    finally show ?thesis .
  qed
qed simp

lemma uval_eqI:
  assumes "\<And>i. i < length pn \<Longrightarrow> pn ! i = qn ! i" "length pn = length qn"
  shows "pn = qn"
  using assms by (simp add: nth_equalityI)

subsection \<open>Shifts\<close>

definition shl_limb :: "base_uint \<Rightarrow> nat \<Rightarrow> nat \<Rightarrow> nat \<Rightarrow> nat \<Rightarrow> u32" where
  "shl_limb a k s m j =
     (if k \<le> j \<and> j - k < m then push_bit s (a ! (j - k)) else 0) OR
     (if k + 1 \<le> j \<and> j - k - 1 < m \<and> s \<noteq> 0 then drop_bit (32 - s) (a ! (j - k - 1)) else 0)"

lemma uint_shl_nth:
  assumes "shift = 32 * k + s" "s < 32"
  shows "length (uint_shl a shift) = length a \<and>
    (\<forall>j < length a. uint_shl a shift ! j = shl_limb a k s (length a) j)"
proof -
  let ?W = "length a"
  let ?step = "\<lambda>i pn. let pn = (if i + k + 1 < ?W \<and> s \<noteq> 0
      then pn[i + k + 1 := pn ! (i + k + 1) OR drop_bit (32 - s) (a ! i)] else pn) in
    if i + k < ?W then pn[i + k := pn ! (i + k) OR push_bit s (a ! i)] else pn"
  have "length (fold ?step [0..<m] (replicate ?W 0)) = ?W \<and>
      (\<forall>j < ?W. fold ?step [0..<m] (replicate ?W 0) ! j = shl_limb a k s m j)" if "m \<le> ?W" for m
    using that
  proof (induction m)
    case 0
    then show ?case by (simp add: shl_limb_def)
  next
    case (Suc m)
    define pn where "pn = fold ?step [0..<m] (replicate ?W 0)"
    have len: "length pn = ?W" and nth: "\<And>j. j < ?W \<Longrightarrow> pn ! j = shl_limb a k s m j"
      using Suc unfolding pn_def by auto
    have step: "fold ?step [0..<Suc m] (replicate ?W 0) = ?step m pn" by (simp add: pn_def)
    have "?step m pn ! j = shl_limb a k s (Suc m) j" if "j < ?W" for j
    proof -
      consider "j = m + k" | "j = m + k + 1" | "j \<noteq> m + k" "j \<noteq> m + k + 1" by blast
      then show ?thesis
        using that len nth [of j]
        by cases (auto simp: Let_def nth_list_update shl_limb_def ac_simps)
    qed
    moreover have "length (?step m pn) = ?W" using len by (simp add: Let_def)
    ultimately show ?case unfolding step by blast
  qed
  from this [of ?W] show ?thesis
    using assms by (simp add: uint_shl_def Let_def)
qed

lemma limb_div_mod: "(n :: nat) = 32 * q + t \<Longrightarrow> t < 32 \<Longrightarrow> n div 32 = q \<and> n mod 32 = t"
  by simp

lemma bit_u32_ge: "32 \<le> n \<Longrightarrow> \<not> bit (w :: u32) n"
  using bit_imp_le_length [of w n] by auto

lemma bit_shl_limb:
  assumes "r < 32" "s < 32"
  shows "bit (shl_limb a k s m q) r \<longleftrightarrow>
    (if s \<le> r then k \<le> q \<and> q - k < m \<and> bit (a ! (q - k)) (r - s)
     else k + 1 \<le> q \<and> q - k - 1 < m \<and> bit (a ! (q - k - 1)) (32 + r - s))"
proof (cases "s \<le> r")
  case True
  have "\<not> bit (drop_bit (32 - s) w) r" if "s \<noteq> 0" for w :: u32
    using True that by (simp add: bit_drop_bit_eq bit_u32_ge)
  with True assms show ?thesis by (auto simp: shl_limb_def bit_or_iff bit_push_bit_iff)
next
  case False
  then have "32 - s + r = 32 + r - s" using assms by simp
  with False assms show ?thesis by (auto simp: shl_limb_def bit_or_iff bit_push_bit_iff bit_drop_bit_eq)
qed

lemma uval_shl:
  "length (uint_shl a shift) = length a" "uval (uint_shl a shift) = (uval a * 2 ^ shift) mod uint_mod a"
proof -
  define k s where "k = shift div 32" and "s = shift mod 32"
  have shift: "shift = 32 * k + s" "s < 32" by (simp_all add: k_def s_def)
  note nth = uint_shl_nth [OF shift, of a]
  then show len: "length (uint_shl a shift) = length a" by simp
  have "uval (uint_shl a shift) = take_bit (32 * length a) (push_bit shift (uval a))"
  proof (rule bit_eqI)
    fix n :: nat
    define q where "q = n div 32"
    define r where "r = n mod 32"
    have n: "n = 32 * q + r" "r < 32" by (simp_all add: q_def r_def)
    have lt: "n < 32 * length a \<longleftrightarrow> q < length a" using n by auto
    have "bit (uval (uint_shl a shift)) n \<longleftrightarrow> q < length a \<and> bit (shl_limb a k s (length a) q) r"
      using nth len unfolding bit_uval q_def [symmetric] r_def [symmetric] by auto
    also have "\<dots> \<longleftrightarrow> q < length a \<and> shift \<le> n \<and> bit (uval a) (n - shift)"
    proof (cases "s \<le> r")
      case True
      define t where "t = r - s"
      have t: "r = s + t" "t < 32" using True n(2) by (simp_all add: t_def)
      then have "shift \<le> n \<longleftrightarrow> k \<le> q" using n(1) shift by auto
      moreover have "(n - shift) div 32 = q - k" "(n - shift) mod 32 = r - s" if "k \<le> q"
      proof -
        have "n - shift = 32 * (q - k) + t" using that n(1) shift(1) t(1) by simp
        then show "(n - shift) div 32 = q - k" "(n - shift) mod 32 = r - s" using t by simp_all
      qed
      ultimately show ?thesis
        unfolding bit_shl_limb [OF n(2) shift(2)] bit_uval using True by (cases "k \<le> q") simp_all
    next
      case False
      then have "shift \<le> n \<longleftrightarrow> k + 1 \<le> q" using n shift by auto
      moreover have "(n - shift) div 32 = q - k - 1" "(n - shift) mod 32 = 32 + r - s" if le: "k + 1 \<le> q"
      proof -
        obtain j where q: "q = k + 1 + j" using le_Suc_ex [OF le] by blast
        define t where "t = 32 + r - s"
        have t: "32 + r = s + t" "t < 32" using False shift(2) by (simp_all add: t_def)
        have "n - shift = 32 * j + t" using n(1) shift(1) t(1) q by simp
        then show "(n - shift) div 32 = q - k - 1" "(n - shift) mod 32 = 32 + r - s" using t q by simp_all
      qed
      ultimately show ?thesis
        unfolding bit_shl_limb [OF n(2) shift(2)] bit_uval using False by (cases "k + 1 \<le> q") simp_all
    qed
    also have "\<dots> \<longleftrightarrow> bit (take_bit (32 * length a) (push_bit shift (uval a))) n"
      by (auto simp: bit_take_bit_iff bit_push_bit_iff lt)
    finally show "bit (uval (uint_shl a shift)) n = bit (take_bit (32 * length a) (push_bit shift (uval a))) n" .
  qed
  then show "uval (uint_shl a shift) = (uval a * 2 ^ shift) mod uint_mod a"
    by (simp add: take_bit_eq_mod push_bit_eq_mult)
qed

definition shr_limb :: "base_uint \<Rightarrow> nat \<Rightarrow> nat \<Rightarrow> nat \<Rightarrow> nat \<Rightarrow> u32" where
  "shr_limb a k s m j =
     (if j + k < m then drop_bit s (a ! (j + k)) else 0) OR
     (if j + k + 1 < m \<and> s \<noteq> 0 then push_bit (32 - s) (a ! (j + k + 1)) else 0)"

lemma uint_shr_nth:
  assumes "shift = 32 * k + s" "s < 32"
  shows "length (uint_shr a shift) = length a \<and>
    (\<forall>j < length a. uint_shr a shift ! j = shr_limb a k s (length a) j)"
proof -
  let ?W = "length a"
  let ?step = "\<lambda>i pn. let pn = (if i \<ge> k + 1 \<and> s \<noteq> 0
      then pn[i - k - 1 := pn ! (i - k - 1) OR push_bit (32 - s) (a ! i)] else pn) in
    if i \<ge> k then pn[i - k := pn ! (i - k) OR drop_bit s (a ! i)] else pn"
  have "length (fold ?step [0..<m] (replicate ?W 0)) = ?W \<and>
      (\<forall>j < ?W. fold ?step [0..<m] (replicate ?W 0) ! j = shr_limb a k s m j)" if "m \<le> ?W" for m
    using that
  proof (induction m)
    case 0
    then show ?case by (simp add: shr_limb_def)
  next
    case (Suc m)
    define pn where "pn = fold ?step [0..<m] (replicate ?W 0)"
    have len: "length pn = ?W" and nth: "\<And>j. j < ?W \<Longrightarrow> pn ! j = shr_limb a k s m j"
      using Suc unfolding pn_def by auto
    have step: "fold ?step [0..<Suc m] (replicate ?W 0) = ?step m pn" by (simp add: pn_def)
    have "?step m pn ! j = shr_limb a k s (Suc m) j" if "j < ?W" for j
    proof -
      consider "m = j + k" | "m = j + k + 1" | "m \<noteq> j + k" "m \<noteq> j + k + 1" by blast
      then show ?thesis
        using that len nth [of j]
        by cases (auto simp: Let_def nth_list_update shr_limb_def ac_simps)
    qed
    moreover have "length (?step m pn) = ?W" using len by (simp add: Let_def)
    ultimately show ?case unfolding step by blast
  qed
  from this [of ?W] show ?thesis
    using assms by (simp add: uint_shr_def Let_def)
qed

lemma bit_shr_limb:
  assumes "r < 32" "s < 32"
  shows "bit (shr_limb a k s m q) r \<longleftrightarrow>
    (if r + s < 32 then q + k < m \<and> bit (a ! (q + k)) (r + s)
     else q + k + 1 < m \<and> bit (a ! (q + k + 1)) (r + s - 32))"
proof (cases "r + s < 32")
  case True
  then have "\<not> 32 - s \<le> r" by simp
  then have "\<not> bit (push_bit (32 - s) w) r" for w :: u32
    by (simp only: bit_push_bit_iff simp_thms)
  with True assms show ?thesis
    by (auto simp: shr_limb_def bit_or_iff bit_drop_bit_eq add.commute)
next
  case False
  then have "\<not> bit (drop_bit s w) r" for w :: u32
    by (simp add: bit_drop_bit_eq bit_u32_ge add.commute)
  moreover have "r - (32 - s) = r + s - 32" "32 - s \<le> r" "s \<noteq> 0" using False assms by simp_all
  ultimately show ?thesis using False assms by (auto simp: shr_limb_def bit_or_iff bit_push_bit_iff)
qed

lemma uval_shr:
  "length (uint_shr a shift) = length a" "uval (uint_shr a shift) = uval a div 2 ^ shift"
proof -
  define k s where "k = shift div 32" and "s = shift mod 32"
  have shift: "shift = 32 * k + s" "s < 32" by (simp_all add: k_def s_def)
  note nth = uint_shr_nth [OF shift, of a]
  then show len: "length (uint_shr a shift) = length a" by simp
  have "uval (uint_shr a shift) = drop_bit shift (uval a)"
  proof (rule bit_eqI)
    fix n :: nat
    define q where "q = n div 32"
    define r where "r = n mod 32"
    have n: "n = 32 * q + r" "r < 32" by (simp_all add: q_def r_def)
    have "bit (uval (uint_shr a shift)) n \<longleftrightarrow> q < length a \<and> bit (shr_limb a k s (length a) q) r"
      using nth len unfolding bit_uval q_def [symmetric] r_def [symmetric] by auto
    also have "\<dots> \<longleftrightarrow> bit (uval a) (shift + n)"
    proof (cases "r + s < 32")
      case True
      define t where "t = r + s"
      have "shift + n = 32 * (q + k) + t" using n(1) shift(1) by (simp add: t_def)
      moreover have "t < 32" using True by (simp add: t_def)
      ultimately have "(shift + n) div 32 = q + k" "(shift + n) mod 32 = r + s"
        using limb_div_mod unfolding t_def by blast+
      then show ?thesis
        unfolding bit_shr_limb [OF n(2) shift(2)] bit_uval using True by auto
    next
      case False
      define t where "t = r + s - 32"
      have t: "r + s = 32 + t" "t < 32" using False n(2) shift(2) by (simp_all add: t_def)
      then have "shift + n = 32 * (q + k + 1) + t" using n(1) shift(1) by simp
      then have "(shift + n) div 32 = q + k + 1 \<and> (shift + n) mod 32 = t" using t(2) by (rule limb_div_mod)
      then have "(shift + n) div 32 = q + k + 1" "(shift + n) mod 32 = r + s - 32" by (simp_all only: t_def)
      then show ?thesis
        unfolding bit_shr_limb [OF n(2) shift(2)] bit_uval using False by auto
    qed
    also have "\<dots> \<longleftrightarrow> bit (drop_bit shift (uval a)) n"
      by (simp add: bit_drop_bit_eq)
    finally show "bit (uval (uint_shr a shift)) n = bit (drop_bit shift (uval a)) n" .
  qed
  then show "uval (uint_shr a shift) = uval a div 2 ^ shift"
    by (simp add: drop_bit_eq_div)
qed

subsection \<open>The position of the highest bit\<close>

lemma and_bit_u32: "n < 32 \<Longrightarrow> (x :: u32) AND push_bit n 1 \<noteq> 0 \<longleftrightarrow> bit x n"
proof -
  assume n: "n < 32"
  have "(x AND push_bit n 1 = 0) = (\<not> bit x n)"
  proof
    assume "x AND push_bit n 1 = 0"
    then have "\<not> bit (x AND push_bit n 1) n" by simp
    then show "\<not> bit x n" using n by (simp add: bit_and_iff bit_push_bit_iff del: push_bit_of_1)
  next
    assume "\<not> bit x n"
    then show "x AND push_bit n 1 = 0"
      by (auto intro!: bit_eqI simp: bit_and_iff bit_push_bit_iff bit_1_iff simp del: push_bit_of_1)
  qed
  then show ?thesis by simp
qed

lemma bit_top_u32: "unat x < 2 ^ Suc n \<Longrightarrow> bit (x :: u32) n \<longleftrightarrow> 2 ^ n \<le> unat x"
proof -
  assume x: "unat x < 2 ^ Suc n"
  have "bit x n \<longleftrightarrow> bit (unat x) n" by (auto simp: bit_unsigned_iff dest: bit_imp_le_length)
  also have "\<dots> \<longleftrightarrow> odd (unat x div 2 ^ n)" by (simp add: bit_iff_odd)
  also have "\<dots> \<longleftrightarrow> 2 ^ n \<le> unat x"
  proof (cases "2 ^ n \<le> unat x")
    case True
    then have "unat x div 2 ^ n = 1" using x by (intro div_nat_eqI) simp_all
    with True show ?thesis by simp
  qed simp
  finally show ?thesis .
qed

lemma limb_bits_bound:
  "n < 32 \<Longrightarrow> x \<noteq> 0 \<Longrightarrow> unat x < 2 ^ Suc n \<Longrightarrow>
   0 < limb_bits x n \<and> 2 ^ (limb_bits x n - 1) \<le> unat x \<and> unat x < 2 ^ limb_bits x n"
proof (induction n)
  case 0
  then have "unat x \<noteq> 0" "unat x < 2" by (simp_all add: unat_eq_0)
  then show ?case by simp
next
  case (Suc n)
  then show ?case
    using and_bit_u32 [of "Suc n" x] bit_top_u32 [of x "Suc n"] by (simp add: not_le)
qed

lemma uval_top:
  assumes "pos < length pn" "\<forall>i. pos < i \<and> i < length pn \<longrightarrow> pn ! i = 0"
  shows "uval pn = uval (take pos pn) + 2 ^ (32 * pos) * unat (pn ! pos)"
proof -
  have "uval (drop (Suc pos) pn) = 0"
    using assms(2) by (auto simp: uval_eq_0 list_all_iff in_set_conv_nth)
  moreover have "pn = take pos pn @ pn ! pos # drop (Suc pos) pn"
    using assms(1) by (rule id_take_nth_drop)
  then have "uval pn = uval (take pos pn @ pn ! pos # drop (Suc pos) pn)" by simp
  ultimately show ?thesis using assms(1) by (simp add: uval_append)
qed

lemma uint_bits_bound:
  assumes "uval pn \<noteq> 0"
  shows "0 < uint_bits pn \<and> 2 ^ (uint_bits pn - 1) \<le> uval pn \<and> uval pn < 2 ^ uint_bits pn"
proof -
  have "0 < bits_loop pn m \<and> 2 ^ (bits_loop pn m - 1) \<le> uval pn \<and> uval pn < 2 ^ bits_loop pn m"
    if "m \<le> length pn" "\<forall>i. m \<le> i \<and> i < length pn \<longrightarrow> pn ! i = 0" for m
    using that
  proof (induction m)
    case 0
    then have "uval pn = 0" by (auto simp: uval_eq_0 list_all_iff in_set_conv_nth)
    with assms show ?case by simp
  next
    case (Suc m)
    show ?case
    proof (cases "pn ! m = 0")
      case True
      then show ?thesis
        using Suc by (auto simp: Suc_le_eq dest: le_neq_implies_less)
    next
      case False
      define b where "b = limb_bits (pn ! m) 31"
      have b: "0 < b" "2 ^ (b - 1) \<le> unat (pn ! m)" "unat (pn ! m) + 1 \<le> 2 ^ b"
        using limb_bits_bound [of 31 "pn ! m"] False unat_u32_bound [of "pn ! m"] by (auto simp: b_def)
      have u: "uval pn = uval (take m pn) + 2 ^ (32 * m) * unat (pn ! m)"
        using Suc.prems by (intro uval_top) auto
      have lt: "uval (take m pn) < 2 ^ (32 * m)"
        using uval_less [of "take m pn"] Suc.prems(1) by simp
      have "2 ^ (32 * m + b - 1) = 2 ^ (32 * m) * (2 :: nat) ^ (b - 1)"
        using b(1) by (simp flip: power_add)
      also have "\<dots> \<le> uval pn"
        unfolding u using mult_le_mono2 [OF b(2), of "2 ^ (32 * m)"] by linarith
      finally have low: "2 ^ (32 * m + b - 1) \<le> uval pn" .
      have "uval pn < 2 ^ (32 * m) * (unat (pn ! m) + 1)"
        unfolding u using lt by simp
      also have "\<dots> \<le> 2 ^ (32 * m) * 2 ^ b" using b(3) by (rule mult_le_mono2)
      finally have "uval pn < 2 ^ (32 * m + b)" by (simp add: power_add)
      with low b(1) False show ?thesis by (simp add: b_def)
    qed
  qed
  moreover have "\<forall>i. length pn \<le> i \<and> i < length pn \<longrightarrow> pn ! i = 0" by (meson not_le)
  ultimately show ?thesis unfolding uint_bits_def by blast
qed

lemma uint_bits_0: "uval pn = 0 \<Longrightarrow> uint_bits pn = 0"
proof -
  assume "uval pn = 0"
  then have "m \<le> length pn \<Longrightarrow> bits_loop pn m = 0" for m
    by (induction m) (auto simp: uval_eq_0 list_all_iff)
  then show ?thesis by (simp add: uint_bits_def)
qed

lemma uint_bits_eq_0: "uint_bits pn = 0 \<longleftrightarrow> uval pn = 0"
  using uint_bits_0 uint_bits_bound by (cases "uval pn = 0") auto

subsection \<open>Division\<close>

text \<open>Setting a bit that is above all bits of the remaining shifts adds a power of two.\<close>

lemma uval_update:
  assumes "i < length pn"
  shows "uval (pn[i := x]) + 2 ^ (32 * i) * unat (pn ! i) = uval pn + 2 ^ (32 * i) * unat x"
proof -
  have "pn = take i pn @ pn ! i # drop (Suc i) pn" using assms by (rule id_take_nth_drop)
  then have "uval pn = uval (take i pn @ pn ! i # drop (Suc i) pn)" by simp
  moreover have "pn[i := x] = take i pn @ x # drop (Suc i) pn" using assms by (rule upd_conv_take_nth_drop)
  ultimately show ?thesis using assms by (simp add: uval_append algebra_simps)
qed

lemma unat_set_bit:
  assumes "n < 32" "\<not> bit (x :: u32) n"
  shows "unat (x OR push_bit n 1) = unat x + 2 ^ n"
proof -
  have "unat (push_bit n 1 :: u32) = unat (word_of_nat (2 ^ n) :: u32)" by simp
  also have "\<dots> = 2 ^ n"
    using assms(1) power_strict_increasing [of n 32 "2 :: nat"]
    by (simp add: unsigned_of_nat take_bit_nat_eq_self del: of_nat_power)
  finally have "unat (push_bit n 1 :: u32) = 2 ^ n" .
  moreover have "\<not> bit (unat x) n" using assms by (simp add: bit_unsigned_iff)
  then have "unat x OR 2 ^ n = unat x + 2 ^ n"
    using set_bit_eq [of n "unat x"] set_bit_eq_or [of n "unat x"] by simp
  ultimately show ?thesis by (simp add: unsigned_or_eq)
qed

lemma uval_set_bit:
  assumes "shift < 32 * length pn" "2 ^ Suc shift dvd uval pn"
  shows "uval (pn[shift div 32 := pn ! (shift div 32) OR push_bit (shift mod 32) 1]) = uval pn + 2 ^ shift"
proof -
  let ?i = "shift div 32" and ?r = "shift mod 32"
  have i: "?i < length pn" using assms(1) by auto
  have "\<not> bit (uval pn) shift"
    using assms(2) by (auto simp: bit_iff_odd elim!: dvdE)
  then have "\<not> bit (pn ! ?i) ?r" using i by (simp add: bit_uval)
  then have "unat (pn ! ?i OR push_bit ?r 1) = unat (pn ! ?i) + 2 ^ ?r"
    by (intro unat_set_bit) simp_all
  then have "uval (pn[?i := pn ! ?i OR push_bit ?r 1]) = uval pn + 2 ^ (32 * ?i) * 2 ^ ?r"
    using uval_update [OF i, of "pn ! ?i OR push_bit ?r 1"] by (simp add: algebra_simps)
  also have "(2 :: nat) ^ (32 * ?i) * 2 ^ ?r = 2 ^ shift"
    by (simp flip: power_add)
  finally show ?thesis .
qed

lemma div_loop_invariant:
  assumes "length d = length num" "length pn = length num" "n \<le> 32 * length num"
    and "0 < n \<Longrightarrow> uval d = D * 2 ^ (n - 1)" "uval num < D * 2 ^ n" "2 ^ n dvd uval pn"
    and "div_loop n d num pn = (q, r)"
  shows "length q = length num \<and> uval q * D + uval r = uval pn * D + uval num \<and> uval r < D"
  using assms
proof (induction n d num pn rule: div_loop.induct)
  case (1 d num pn)
  then show ?case by simp
next
  case (2 shift d num pn)
  define ge where "ge = (CompareTo num d \<ge> 0)"
  define num' where "num' = (if ge then uint_sub num d else num)"
  define pn' where "pn' = (if ge then pn[shift div 32 := pn ! (shift div 32) OR push_bit (shift mod 32) 1] else pn)"
  have d: "uval d = D * 2 ^ shift" using "2.prems"(4) by simp
  have ge: "ge \<longleftrightarrow> uval d \<le> uval num"
    using CompareTo_uval [of num d] "2.prems"(1) by (auto simp: ge_def)
  have num': "uval num' = (if ge then uval num - uval d else uval num)" "length num' = length num"
    using uval_sub_le [of num d] ge "2.prems"(1) by (auto simp: num'_def)
  have pn': "uval pn' = (if ge then uval pn + 2 ^ shift else uval pn)" "length pn' = length num"
    using uval_set_bit [of shift pn] "2.prems"(2,3,6) by (auto simp: pn'_def)
  have "uval num < 2 * (D * 2 ^ shift)" using "2.prems"(5) by simp
  then have lt: "uval num' < D * 2 ^ shift" unfolding num' using ge d by auto
  have dvd: "2 ^ shift dvd uval pn'"
    using "2.prems"(6) unfolding pn' by (auto intro: dvd_trans [OF le_imp_power_dvd])
  have d': "uval (uint_shr d 1) = D * 2 ^ (shift - 1)" if "0 < shift"
    using that d by (cases shift) (simp_all add: uval_shr)
  have rest: "div_loop shift (uint_shr d 1) num' pn' = (q, r)"
    using "2.prems"(7) by (auto simp: num'_def pn'_def ge_def Let_def split: if_splits)
  have sum: "uval pn' * D + uval num' = uval pn * D + uval num"
    unfolding pn' num' using ge d by (auto simp: algebra_simps)
  have "length q = length num' \<and> uval q * D + uval r = uval pn' * D + uval num' \<and> uval r < D"
    using "2.IH" [of "(num', pn')" num' pn'] "2.prems"(1,3) rest lt dvd d' num'(2) pn'(2)
    by (simp add: num'_def pn'_def ge_def uval_shr)
  then show ?case using sum num'(2) by simp
qed

lemma uval_div:
  assumes "length a = length b" "2 \<le> length a" "uval b \<noteq> 0"
  shows "\<exists>q. uint_div a b = Inr q \<and> length q = length a \<and> uval q = uval a div uval b"
proof (cases "uint_bits b > uint_bits a")
  case True
  have "uval a < uval b"
  proof (cases "uval a = 0")
    case False
    have "uval a < 2 ^ uint_bits a" using uint_bits_bound [OF False] by simp
    also have "\<dots> \<le> 2 ^ (uint_bits b - 1)" using True by (intro power_increasing) simp_all
    also have "\<dots> \<le> uval b" using uint_bits_bound [OF assms(3)] by simp
    finally show ?thesis .
  qed (use assms(3) in simp)
  then show ?thesis
    using True assms by (simp add: uint_div_def Let_def uval_of_u64)
next
  case False
  define shift where "shift = uint_bits a - uint_bits b"
  have b: "0 < uint_bits b" "2 ^ (uint_bits b - 1) \<le> uval b" "uval b < 2 ^ uint_bits b"
    using uint_bits_bound [OF assms(3)] by auto
  then have "uval a \<noteq> 0" using False uint_bits_0 [of a] by linarith
  then have a: "2 ^ (uint_bits a - 1) \<le> uval a" "uval a < 2 ^ uint_bits a"
    using uint_bits_bound by auto
  have bits: "uint_bits a = uint_bits b + shift" using False by (simp add: shift_def)
  have W: "uint_bits a \<le> 32 * length a"
  proof (rule ccontr)
    assume "\<not> ?thesis"
    then have "(2 :: nat) ^ (32 * length a) \<le> 2 ^ (uint_bits a - 1)" by (intro power_increasing) simp_all
    with a(1) uval_less [of a] show False by linarith
  qed
  have "uval b * 2 ^ shift < 2 ^ uint_bits b * 2 ^ shift" using b(3) by simp
  also have "\<dots> \<le> uint_mod b"
    using W bits assms(1) by (simp flip: power_add)
  finally have d: "uval (uint_shl b shift) = uval b * 2 ^ shift" by (simp add: uval_shl)
  have "uval a < 2 ^ (uint_bits b - 1) * 2 ^ Suc shift"
    using a(2) b(1) bits by (simp flip: power_add power_Suc)
  also have "\<dots> \<le> uval b * 2 ^ Suc shift" using b(2) by simp
  finally have num: "uval a < uval b * 2 ^ Suc shift" .
  obtain q r where loop: "div_loop (Suc shift) (uint_shl b shift) a (uint_of_u64 (length a) 0) = (q, r)"
    by fastforce
  have "length q = length a \<and> uval q * uval b + uval r = 0 * uval b + uval a \<and> uval r < uval b"
    using div_loop_invariant [OF _ _ _ _ num _ loop] d W b(1) bits assms by (simp add: uval_shl uval_of_u64)
  then have "length q = length a" "uval q = uval a div uval b"
    by (auto intro: div_nat_eqI [symmetric] simp: algebra_simps)
  then show ?thesis
    using False b(1) loop by (simp add: uint_div_def Let_def shift_def [symmetric])
qed

subsection \<open>The compact format\<close>

lemma unat_and_mask23: "unat ((c :: u32) AND 0x007fffff) = unat c mod 2 ^ 23"
proof -
  have "c AND 0x007fffff = take_bit 23 c" by (simp add: take_bit_eq_mask mask_eq_exp_minus_1)
  then have "unat (c AND 0x007fffff) = take_bit 23 (unat c)" by (simp only: unsigned_take_bit_eq)
  then show ?thesis by (simp only: take_bit_eq_mod)
qed

lemma unat_GetLow64: "2 \<le> length pn \<Longrightarrow> unat (GetLow64 pn) = uval pn mod 2 ^ 64"
proof -
  assume "2 \<le> length pn"
  then obtain x y rest where pn: "pn = x # y # rest" by (cases pn; cases "tl pn") auto
  have "unat (push_bit 32 (ucast y) :: u64) = take_bit 64 (push_bit 32 (unat y))"
    by (simp add: unsigned_push_bit_eq)
  then have y: "unat (push_bit 32 (ucast y) :: u64) = push_bit 32 (unat y)"
    using unat_u32_bound [of y] by (simp add: take_bit_nat_eq_self push_bit_eq_mult)
  have "unat (GetLow64 pn) = unat x OR push_bit 32 (unat y)"
    unfolding GetLow64_def pn by (simp add: unsigned_or_eq y)
  also have "\<dots> = unat x + 2 ^ 32 * unat y"
    using unat_u32_bound [of x] by (intro or_disjoint_add_nat) simp
  also have "\<dots> = uval pn mod 2 ^ 64"
  proof -
    have "uval pn = (unat x + 2 ^ 32 * unat y) + 2 ^ 64 * uval rest" by (simp add: pn algebra_simps)
    moreover have "unat x + 2 ^ 32 * unat y < 2 ^ 64"
      using unat_u32_bound [of x] unat_u32_bound [of y] by simp
    ultimately show ?thesis by simp
  qed
  finally show ?thesis .
qed

text \<open>
  On numbers: the size in bytes, and the mantissa and the exponent that \<open>GetCompact\<close> gives.
\<close>

definition byte_size :: "nat \<Rightarrow> nat \<Rightarrow> bool" where
  "byte_size n s \<longleftrightarrow> (if n = 0 then s = 0 else 0 < s \<and> 256 ^ (s - 1) \<le> n \<and> n < 256 ^ s)"

lemma byte_size_unique:
  assumes "byte_size n s" "byte_size n t"
  shows "s = t"
proof (cases "n = 0")
  case False
  have "\<not> u < v" if "byte_size n u" "byte_size n v" for u v
  proof
    assume "u < v"
    then have "(256 :: nat) ^ u \<le> 256 ^ (v - 1)" by (intro power_increasing) simp_all
    moreover have "256 ^ (v - 1) \<le> n" "n < 256 ^ u" using that False by (simp_all add: byte_size_def)
    ultimately show False by linarith
  qed
  with assms show ?thesis by (meson linorder_neqE_nat)
qed (use assms in \<open>simp add: byte_size_def\<close>)

lemma byte_size_bits: "byte_size (uval a) ((uint_bits a + 7) div 8)"
proof (cases "uval a = 0")
  case True
  then show ?thesis by (simp add: byte_size_def uint_bits_0)
next
  case False
  define b s where "b = uint_bits a" and "s = (b + 7) div 8"
  have b: "0 < b" "2 ^ (b - 1) \<le> uval a" "uval a < 2 ^ b"
    using uint_bits_bound [OF False] by (simp_all add: b_def)
  have s: "0 < s" "8 * (s - 1) \<le> b - 1" "b \<le> 8 * s" using b(1) by (auto simp: s_def)
  have "(256 :: nat) ^ (s - 1) = 2 ^ (8 * (s - 1))" "(256 :: nat) ^ s = 2 ^ (8 * s)"
    by (simp_all add: power_mult)
  moreover have "(2 :: nat) ^ (8 * (s - 1)) \<le> 2 ^ (b - 1)" "(2 :: nat) ^ b \<le> 2 ^ (8 * s)"
    using s(2,3) by (simp_all only: one_le_numeral power_increasing)
  ultimately have "256 ^ (s - 1) \<le> uval a" "uval a < 256 ^ s" using b(2,3) by linarith+
  then show ?thesis
    using False s(1) by (simp add: byte_size_def b_def [symmetric] s_def [symmetric])
qed

definition compact_raw :: "nat \<Rightarrow> nat \<Rightarrow> nat" where
  "compact_raw n s = (if s \<le> 3 then n * 256 ^ (3 - s) else n div 256 ^ (s - 3))"

lemma compact_raw_bounds:
  assumes "byte_size n s"
  shows "compact_raw n s < 2 ^ 24" "n \<noteq> 0 \<Longrightarrow> 2 ^ 16 \<le> compact_raw n s"
proof -
  show "compact_raw n s < 2 ^ 24"
  proof (cases "s \<le> 3")
    case True
    have "n < 256 ^ s" using assms by (auto simp: byte_size_def split: if_splits)
    then have "n * 256 ^ (3 - s) < 256 ^ s * 256 ^ (3 - s)" by simp
    then show ?thesis using True by (simp add: compact_raw_def flip: power_add)
  next
    case False
    then have "(256 :: nat) ^ s = 256 ^ (s - 3) * 256 ^ 3" by (simp only: power_add [symmetric]) simp
    then have "n < 256 ^ (s - 3) * 256 ^ 3"
      using assms by (auto simp: byte_size_def split: if_splits)
    then have "n div 256 ^ (s - 3) < 256 ^ 3" by (simp add: less_mult_imp_div_less mult.commute)
    then show ?thesis using False by (simp add: compact_raw_def)
  qed
  assume "n \<noteq> 0"
  then have n: "0 < s" "256 ^ (s - 1) \<le> n" using assms by (auto simp: byte_size_def)
  show "2 ^ 16 \<le> compact_raw n s"
  proof (cases "s \<le> 3")
    case True
    have "(256 :: nat) ^ (s - 1) * 256 ^ (3 - s) \<le> n * 256 ^ (3 - s)" using n(2) by simp
    then show ?thesis using True n(1) by (simp add: compact_raw_def flip: power_add)
  next
    case False
    then have "s - 1 = 2 + (s - 3)" by simp
    then have "(256 :: nat) ^ (s - 1) = 256 ^ 2 * 256 ^ (s - 3)" by (simp only: power_add)
    then have "256 ^ 2 * 256 ^ (s - 3) \<le> n" using n(2) by simp
    then show ?thesis using False by (simp add: compact_raw_def less_eq_div_iff_mult_less_eq)
  qed
qed

definition compact_mantissa :: "nat \<Rightarrow> nat \<Rightarrow> nat" where
  "compact_mantissa n s = (if 2 ^ 23 \<le> compact_raw n s then compact_raw n s div 256 else compact_raw n s)"

definition compact_exponent :: "nat \<Rightarrow> nat \<Rightarrow> nat" where
  "compact_exponent n s = (if 2 ^ 23 \<le> compact_raw n s then s + 1 else s)"

definition compact_value :: "nat \<Rightarrow> nat \<Rightarrow> nat" where
  "compact_value m e = (if e \<le> 3 then m div 256 ^ (3 - e) else m * 256 ^ (e - 3))"

lemma compact_mantissa_less: "byte_size n s \<Longrightarrow> compact_mantissa n s < 2 ^ 23"
  using compact_raw_bounds(1) [of n s] by (simp add: compact_mantissa_def less_mult_imp_div_less)

text \<open>What is encoded is the number without its low bytes.\<close>

lemma compact_value_truncates:
  assumes "byte_size n s"
  shows "compact_value (compact_mantissa n s) (compact_exponent n s) =
    n div 256 ^ (compact_exponent n s - 3) * 256 ^ (compact_exponent n s - 3)"
proof -
  consider "compact_raw n s < 2 ^ 23" "s \<le> 3" | "compact_raw n s < 2 ^ 23" "3 < s"
    | "2 ^ 23 \<le> compact_raw n s" "s < 3" | "2 ^ 23 \<le> compact_raw n s" "3 \<le> s" by linarith
  then show ?thesis
  proof cases
    case 3
    have "compact_raw n s = n * 256 ^ (2 - s) * 256"
      using 3 by (simp add: compact_raw_def Suc_diff_le numeral_3_eq_3 numeral_2_eq_2)
    then show ?thesis using 3 by (simp add: compact_value_def compact_mantissa_def compact_exponent_def numeral_3_eq_3 numeral_2_eq_2)
  next
    case 4
    then obtain t where "s = t + 3" using le_Suc_ex by (metis add.commute)
    with 4 show ?thesis
      by (auto simp: compact_value_def compact_mantissa_def compact_exponent_def compact_raw_def
          div_mult2_eq [symmetric] mult.commute)
  qed (auto simp: compact_value_def compact_mantissa_def compact_exponent_def compact_raw_def)
qed

lemma unat_drop_bit: "unat (drop_bit n (w :: 'a :: len word)) = unat w div 2 ^ n"
  unfolding unat_drop_bit_eq by (rule drop_bit_eq_div)

lemma unat_compact_raw:
  fixes a :: base_uint
  defines "s \<equiv> (uint_bits a + 7) div 8"
  assumes "2 \<le> length a"
  shows "unat ((if s \<le> 3 then ucast (push_bit (8 * (3 - s)) (GetLow64 a))
      else ucast (GetLow64 (uint_shr a (8 * (s - 3))))) :: u32) = compact_raw (uval a) s"
proof -
  have raw: "compact_raw (uval a) s < 2 ^ 24"
    using compact_raw_bounds(1) [OF byte_size_bits] by (simp add: s_def)
  show ?thesis
  proof (cases "s \<le> 3")
    case True
    have "uval a \<le> uval a * 256 ^ (3 - s)" by simp
    then have "uval a < 2 ^ 24" using raw unfolding compact_raw_def if_P [OF True] by (rule le_less_trans)
    then have low: "unat (GetLow64 a) = uval a" using assms(2) by (simp add: unat_GetLow64)
    have "push_bit (8 * (3 - s)) (uval a) = compact_raw (uval a) s"
      using True by (simp add: compact_raw_def push_bit_eq_mult power_mult)
    then have "unat (push_bit (8 * (3 - s)) (GetLow64 a)) = compact_raw (uval a) s"
      using raw unfolding unsigned_push_bit_eq low by (simp add: take_bit_nat_eq_self)
    then have "unat (ucast (push_bit (8 * (3 - s)) (GetLow64 a)) :: u32) = compact_raw (uval a) s"
      using raw unfolding unsigned_ucast_eq by (simp add: take_bit_nat_eq_self)
    with True show ?thesis by simp
  next
    case False
    then have "uval (uint_shr a (8 * (s - 3))) = compact_raw (uval a) s"
      by (simp add: uval_shr compact_raw_def power_mult)
    then have "unat (GetLow64 (uint_shr a (8 * (s - 3)))) = compact_raw (uval a) s"
      using raw assms(2) by (simp add: unat_GetLow64 uval_shr)
    then have "unat (ucast (GetLow64 (uint_shr a (8 * (s - 3)))) :: u32) = compact_raw (uval a) s"
      using raw unfolding unsigned_ucast_eq by (simp add: take_bit_nat_eq_self)
    with False show ?thesis by simp
  qed
qed

lemma unat_compact_pack:
  assumes "unat (m :: u32) < 2 ^ 23" "e < 256"
  shows "unat (m OR push_bit 24 (word_of_nat e)) = unat m + 2 ^ 24 * e" "m AND NOT 0x007fffff = 0"
proof -
  have "push_bit 24 (unat (word_of_nat e :: u32)) < 2 ^ 32"
    using assms(2) by (simp add: push_bit_eq_mult unsigned_of_nat take_bit_nat_eq_self)
  then have "unat (push_bit 24 (word_of_nat e) :: u32) = push_bit 24 e"
    using assms(2) by (simp add: unsigned_push_bit_eq take_bit_nat_eq_self unsigned_of_nat)
  then have "unat (m OR push_bit 24 (word_of_nat e)) = unat m OR push_bit 24 e"
    by (simp add: unsigned_or_eq)
  also have "\<dots> = unat m + 2 ^ 24 * e"
    using assms(1) by (intro or_disjoint_add_nat) simp
  finally show "unat (m OR push_bit 24 (word_of_nat e)) = unat m + 2 ^ 24 * e" .
  have "m = m AND 0x007fffff"
    using assms(1) by (simp add: word_unat_eq_iff unat_and_mask23)
  then have "m AND NOT 0x007fffff = m AND (0x007fffff AND NOT 0x007fffff)"
    by (metis and.assoc)
  then show "m AND NOT 0x007fffff = 0" by simp
qed

lemma GetCompact_eq:
  assumes "2 \<le> length a" "byte_size (uval a) s" "s < 255"
  shows "\<exists>c. GetCompact a False = Inr c \<and>
    unat c = compact_mantissa (uval a) s + 2 ^ 24 * compact_exponent (uval a) s"
proof -
  have s: "s = (uint_bits a + 7) div 8"
    using byte_size_unique [OF assms(2) byte_size_bits] .
  define w :: u32 where "w = (if s \<le> 3 then ucast (push_bit (8 * (3 - s)) (GetLow64 a))
      else ucast (GetLow64 (uint_shr a (8 * (s - 3)))))"
  have w: "unat w = compact_raw (uval a) s"
    using unat_compact_raw [OF assms(1)] unfolding w_def s .
  have top: "w AND 0x00800000 \<noteq> 0 \<longleftrightarrow> 2 ^ 23 \<le> compact_raw (uval a) s"
    using and_bit_u32 [of 23 w] bit_top_u32 [of w 23] compact_raw_bounds(1) [OF assms(2)] w by simp
  define m where "m = (if w AND 0x00800000 \<noteq> 0 then drop_bit 8 w else w)"
  define e where "e = (if w AND 0x00800000 \<noteq> 0 then s + 1 else s)"
  have me: "unat m = compact_mantissa (uval a) s" "e = compact_exponent (uval a) s"
    using top w unat_drop_bit [of 8 w]
    by (simp_all add: m_def e_def compact_mantissa_def compact_exponent_def)
  have e: "e < 256" using assms(3) by (simp add: e_def)
  have m: "unat m < 2 ^ 23" using me(1) compact_mantissa_less [OF assms(2)] by simp
  have "GetCompact a False = Inr (m OR push_bit 24 (word_of_nat e))"
    using unat_compact_pack(2) [OF m e] e
    unfolding GetCompact_def Let_def s [symmetric] w_def [symmetric]
    by (auto simp: m_def e_def split: if_splits)
  then show ?thesis using unat_compact_pack(1) [OF m e] me by simp
qed

lemma SetCompact_eq:
  assumes "unat c = m + 2 ^ 24 * e" "m < 2 ^ 23" "e < 256"
    and "e \<le> 32 \<or> (e = 33 \<and> m \<le> 0xffff)"
  shows "\<exists>v. SetCompact c = (v, False, False) \<and> length v = 8 \<and> uval v = compact_value m e mod 2 ^ 256"
proof -
  have e: "unat (drop_bit 24 c) = e"
    unfolding unat_drop_bit assms(1) using assms(2) by simp
  have c: "unat c = m + 2 ^ 23 * (2 * e)" using assms(1) by simp
  then have m: "unat (c AND 0x007fffff) = m"
    unfolding unat_and_mask23 using assms(2) by (simp only: mod_mult_self2 mod_less)
  have "unat c div 2 ^ 23 = 2 * e"
    unfolding c using assms(2) by (subst div_mult_self2) simp_all
  then have "\<not> bit (unat c) 23" by (simp add: bit_iff_odd)
  then have sign: "c AND 0x00800000 = 0"
    using and_bit_u32 [of 23 c] by (simp add: bit_unsigned_iff)
  show ?thesis
  proof (cases "e \<le> 3")
    case True
    have "unat (drop_bit (8 * (3 - e)) (c AND 0x007fffff)) = m div 256 ^ (3 - e)"
      unfolding unat_drop_bit m by (simp add: power_mult)
    moreover have "m div 256 ^ (3 - e) < 2 ^ 256"
      by (rule le_less_trans [OF div_le_dividend less_trans [OF assms(2)]]) simp
    ultimately show ?thesis
      using True sign e by (simp add: SetCompact_def Let_def uval_of_u64 compact_value_def)
  next
    case False
    have "uval (uint_shl (uint_of_u64 8 (ucast (c AND 0x007fffff))) (8 * (e - 3))) =
        m * 256 ^ (e - 3) mod 2 ^ 256"
      by (simp add: uval_shl uval_of_u64 m power_mult)
    moreover have "c AND 0x007fffff > 0xff \<longleftrightarrow> m > 0xff" "c AND 0x007fffff > 0xffff \<longleftrightarrow> m > 0xffff"
      by (simp_all add: word_less_nat_alt m)
    ultimately show ?thesis
      using False sign e assms(4) by (auto simp: SetCompact_def Let_def compact_value_def uval_shl)
  qed
qed

lemma compact_value_bound:
  assumes "byte_size n s" "3 < compact_exponent n s"
  shows "2 ^ 15 \<le> n div 256 ^ (compact_exponent n s - 3)"
proof -
  have "n \<noteq> 0" using assms by (auto simp: byte_size_def compact_exponent_def compact_raw_def split: if_splits)
  then have raw: "2 ^ 16 \<le> compact_raw n s" using compact_raw_bounds(2) [OF assms(1)] by simp
  have s: "3 \<le> s" using assms(2) by (auto simp: compact_exponent_def split: if_splits)
  then have r: "compact_raw n s = n div 256 ^ (s - 3)" by (auto simp: compact_raw_def)
  show ?thesis
  proof (cases "2 ^ 23 \<le> compact_raw n s")
    case True
    then have "2 ^ 23 div 256 \<le> n div 256 ^ (s - 3) div 256" unfolding r by (rule div_le_mono)
    moreover have "s + 1 - 3 = Suc (s - 3)" using s by simp
    ultimately show ?thesis
      using True by (simp add: compact_exponent_def div_mult2_eq [symmetric] mult.commute)
  next
    case False
    then show ?thesis using raw r by (simp add: compact_exponent_def)
  qed
qed

lemma compact_truncation_size:
  assumes "byte_size n s" "e = compact_exponent n s"
  shows "byte_size (n div 256 ^ (e - 3) * 256 ^ (e - 3)) s"
proof (cases "n = 0")
  case False
  let ?k = "e - 3"
  have n: "0 < s" "256 ^ (s - 1) \<le> n" "n < 256 ^ s" using assms(1) False by (simp_all add: byte_size_def)
  have k: "?k \<le> s - 1" using assms(2) n(1) by (auto simp: compact_exponent_def)
  then have split: "(256 :: nat) ^ (s - 1) = 256 ^ (s - 1 - ?k) * 256 ^ ?k"
    by (simp only: power_add [symmetric]) simp
  then have "256 ^ (s - 1 - ?k) \<le> n div 256 ^ ?k"
    using n(2) by (simp add: less_eq_div_iff_mult_less_eq)
  then have "256 ^ (s - 1) \<le> n div 256 ^ ?k * 256 ^ ?k"
    unfolding split by (rule mult_le_mono1)
  moreover have "n div 256 ^ ?k * 256 ^ ?k < 256 ^ s"
    using n(3) div_times_less_eq_dividend [of n "256 ^ ?k"] by linarith
  moreover have "0 < (256 :: nat) ^ (s - 1)" by simp
  ultimately have "n div 256 ^ ?k * 256 ^ ?k \<noteq> 0" "256 ^ (s - 1) \<le> n div 256 ^ ?k * 256 ^ ?k"
    "n div 256 ^ ?k * 256 ^ ?k < 256 ^ s" by linarith+
  then show ?thesis using n(1) unfolding byte_size_def by (simp only: if_False simp_thms)
qed (use assms(1) in \<open>simp add: byte_size_def\<close>)

lemma compact_truncation_same:
  assumes "byte_size n s" "v = n div 256 ^ (compact_exponent n s - 3) * 256 ^ (compact_exponent n s - 3)"
  shows "compact_mantissa v s = compact_mantissa n s \<and> compact_exponent v s = compact_exponent n s"
proof (cases "2 ^ 23 \<le> compact_raw n s")
  case False
  then have "compact_raw v s = compact_raw n s"
    using assms(2) by (auto simp: compact_exponent_def compact_raw_def)
  then show ?thesis by (simp add: compact_mantissa_def compact_exponent_def)
next
  case True
  show ?thesis
  proof (cases "s \<le> 2")
    case True
    then show ?thesis using assms(2) by (simp add: compact_exponent_def)
  next
    case False
    then obtain t where s: "s = t + 3" using le_Suc_ex [of 3 s] by (auto simp: add.commute)
    have raw: "compact_raw n s = n div 256 ^ t" by (simp add: compact_raw_def s)
    have v: "v = n div 256 ^ t div 256 * 256 * 256 ^ t"
      using True assms(2) by (simp add: compact_exponent_def s div_mult2_eq [symmetric] mult.commute)
    then have raw_v: "compact_raw v s = n div 256 ^ t div 256 * 256" by (simp add: compact_raw_def s)
    have "2 ^ 23 div 256 * 256 \<le> n div 256 ^ t div 256 * (256 :: nat)"
      using True unfolding raw by (intro mult_le_mono1 div_le_mono)
    then show ?thesis
      using True by (simp add: compact_mantissa_def compact_exponent_def raw raw_v)
  qed
qed

lemma compact_representation:
  assumes "length a = 8"
  shows "\<exists>c v k. GetCompact a False = Inr c \<and> SetCompact c = (v, False, False) \<and>
    length v = 8 \<and> uval v = uval a div 256 ^ k * 256 ^ k \<and> (uval a - uval v) * 2 ^ 15 \<le> uval a \<and>
    GetCompact v False = Inr c"
proof -
  obtain s where s: "byte_size (uval a) s" using byte_size_bits by blast
  let ?n = "uval a" and ?m = "compact_mantissa (uval a) s" and ?e = "compact_exponent (uval a) s"
  have n: "?n < 256 ^ 32" using uval_less [of a] assms by simp
  have "s \<le> 32"
  proof (rule ccontr)
    assume "\<not> s \<le> 32"
    then have "(256 :: nat) ^ 32 \<le> 256 ^ (s - 1)" by (intro power_increasing) simp_all
    with s n \<open>\<not> s \<le> 32\<close> show False by (simp add: byte_size_def split: if_splits)
  qed
  then obtain c where c: "GetCompact a False = Inr c" "unat c = ?m + 2 ^ 24 * ?e"
    using GetCompact_eq [of a s] s assms by auto
  have "?m \<le> 0xffff" if "?e = 33"
    using that \<open>s \<le> 32\<close> compact_raw_bounds(1) [OF s]
    by (auto simp: compact_exponent_def compact_mantissa_def split: if_splits)
  moreover have "?e \<le> 33" using \<open>s \<le> 32\<close> by (simp add: compact_exponent_def)
  ultimately obtain v where v: "SetCompact c = (v, False, False)" "length v = 8"
      "uval v = compact_value ?m ?e mod 2 ^ 256"
    using SetCompact_eq [OF c(2) compact_mantissa_less [OF s]] by fastforce
  define k where "k = ?e - 3"
  have trunc: "compact_value ?m ?e = ?n div 256 ^ k * 256 ^ k"
    using compact_value_truncates [OF s] by (simp add: k_def)
  have le: "?n div 256 ^ k * 256 ^ k \<le> ?n" by (rule div_times_less_eq_dividend)
  also have "?n < 2 ^ 256" using n by simp
  finally have uv: "uval v = ?n div 256 ^ k * 256 ^ k"
    unfolding v(3) trunc by (rule mod_less)
  have "byte_size (uval v) s" unfolding uv k_def by (rule compact_truncation_size [OF s refl])
  then obtain c' where c': "GetCompact v False = Inr c'"
      "unat c' = compact_mantissa (uval v) s + 2 ^ 24 * compact_exponent (uval v) s"
    using GetCompact_eq [of v s] v(2) \<open>s \<le> 32\<close> by auto
  have "c' = c"
    using compact_truncation_same [OF s uv [unfolded k_def]] c(2) c'(2) by (simp add: word_unat_eq_iff)
  moreover have "(?n - uval v) * 2 ^ 15 \<le> ?n"
  proof (cases "k = 0")
    case False
    then have "2 ^ 15 \<le> ?n div 256 ^ k"
      using compact_value_bound [OF s] by (simp add: k_def)
    then have "2 ^ 15 * 256 ^ k \<le> ?n" by (simp add: less_eq_div_iff_mult_less_eq)
    moreover have "?n - uval v < 256 ^ k" unfolding uv by (simp add: minus_div_mult_eq_mod)
    ultimately show ?thesis by simp
  qed (simp add: uv)
  ultimately show ?thesis using c(1) v(1,2) c'(1) uv by blast
qed

subsection \<open>Properties\<close>

text \<open>C22: The big integers are the integers modulo \<open>2 ^ (32 * WIDTH)\<close>: addition, subtraction,
  negation, both products and the left shift compute the result modulo that number, the right shift
  divides, and the comparison is that of the numbers.\<close>

theorem base_uint_arithmetic:
  assumes "length b = length a" "2 \<le> length a"
  shows "uval (uint_add a b) = (uval a + uval b) mod uint_mod a \<and>
    uval (uint_sub a b) = (uval a + (uint_mod a - uval b)) mod uint_mod a \<and>
    uval (uint_neg a) = (uint_mod a - uval a) mod uint_mod a \<and>
    uval (uint_mul a b) = (uval a * uval b) mod uint_mod a \<and>
    uval (uint_mul32 a c) = (uval a * unat c) mod uint_mod a \<and>
    uval (uint_shl a n) = (uval a * 2 ^ n) mod uint_mod a \<and>
    uval (uint_shr a n) = uval a div 2 ^ n \<and>
    CompareTo a b = (if uval a < uval b then -1 else if uval a > uval b then 1 else 0)"
  using assms
  by (simp add: uval_add uval_sub uval_neg uval_mul uval_mul32 uval_shl uval_shr CompareTo_uval)

theorem base_uint_arithmetic_witness: "uval (uint_mul [5, 1, 0] [7, 0, 2]) = (4294967301 * 36893488147419103239) mod 2 ^ 96"
  using base_uint_arithmetic [of "[7, 0, 2]" "[5, 1, 0]"] by simp

text \<open>C23: Division returns the quotient rounded down for every divisor that is not zero, and throws
  for zero.\<close>

theorem uint_div_correct:
  assumes "length a = length b" "2 \<le> length a"
  shows "if uval b = 0 then uint_div a b = Inl division_by_zero
    else \<exists>q. uint_div a b = Inr q \<and> length q = length a \<and> uval q = uval a div uval b"
  using uval_div [OF assms] by (simp add: uint_div_def Let_def uint_bits_0)

theorem uint_div_correct_witness:
  "\<exists>q. uint_div [0, 100, 7] [10, 0, 0] = Inr q \<and> uval q = (429496729600 + 7 * 2 ^ 64) div 10"
  using uint_div_correct [of "[0, 100, 7]" "[10, 0, 0]"] by auto

text \<open>C24: The compact form of a 256-bit number is never negative and never overflows, decodes to the
  number without its low bytes, with an error below one part in \<open>2 ^ 15\<close>, and encoding the decoded
  number gives the same compact form again.\<close>

theorem compact_roundtrip:
  assumes "length a = 8"
  shows "\<exists>c v k. GetCompact a False = Inr c \<and> SetCompact c = (v, False, False) \<and>
    uval v = uval a div 256 ^ k * 256 ^ k \<and> (uval a - uval v) * 2 ^ 15 \<le> uval a \<and>
    GetCompact v False = Inr c"
  using compact_representation [OF assms] by blast

theorem compact_roundtrip_witness:
  "\<exists>c v k. GetCompact [0x12345678, 0xff, 0, 0, 0, 0, 0, 0] False = Inr c \<and> SetCompact c = (v, False, False) \<and>
     uval v = 0xff12345678 div 256 ^ k * 256 ^ k"
  using compact_roundtrip [of "[0x12345678, 0xff, 0, 0, 0, 0, 0, 0]"] by auto

end
