(* ===== verification/Chain.thy ===== *)
theory Chain
  imports UintBits
begin

text \<open>
  The block headers of primitives/block.h, and the block index with its chains of chain.h and
  chain.cpp.

  A \<open>CBlockIndex*\<close> is an address, or \<open>None\<close> for the null pointer; the entries are in a heap. The tree
  of blocks that the node keeps is well formed (\<open>wf_index\<close>): a block is one above its predecessor
  and its skip pointer leads to the ancestor at the height that \<open>GetSkipHeight\<close> computes. The lemmas
  show that the fast algorithms of the chain give what walking back one block at a time gives.
\<close>

unbundle bit_operations_syntax

subsection \<open>Headers and entries\<close>

record CBlockHeader =
  hdr_nVersion :: int
  hdr_hashPrevBlock :: uint256
  hdr_hashMerkleRoot :: uint256
  hdr_nTime :: u32
  hdr_nBits :: u32
  hdr_nNonce :: u32

definition CBlockHeader_SetNull :: CBlockHeader where
  "CBlockHeader_SetNull = \<lparr>hdr_nVersion = 0, hdr_hashPrevBlock = blob_SetNull 32,
     hdr_hashMerkleRoot = blob_SetNull 32, hdr_nTime = 0, hdr_nBits = 0, hdr_nNonce = 0\<rparr>"

definition CBlockHeader_IsNull :: "CBlockHeader \<Rightarrow> bool" where
  "CBlockHeader_IsNull block \<longleftrightarrow> hdr_nBits block = 0"

definition Serialize_CBlockHeader :: "CBlockHeader \<Rightarrow> bytes" where
  "Serialize_CBlockHeader block =
     ser_writedata32 (unsigned_of 32 (hdr_nVersion block)) @ hdr_hashPrevBlock block @
     hdr_hashMerkleRoot block @ ser_writedata32 (unat (hdr_nTime block)) @
     ser_writedata32 (unat (hdr_nBits block)) @ ser_writedata32 (unat (hdr_nNonce block))"

definition Unserialize_CBlockHeader :: "'s reader \<Rightarrow> 's \<Rightarrow> ser_exn + CBlockHeader \<times> 's" where
  "Unserialize_CBlockHeader rd s =
     ebind (ser_readdata32 rd s) (\<lambda>(ver, s).
     ebind (rd s 32) (\<lambda>(prev, s).
     ebind (rd s 32) (\<lambda>(root, s).
     ebind (ser_readdata32 rd s) (\<lambda>(time, s).
     ebind (ser_readdata32 rd s) (\<lambda>(nbits, s).
     ebind (ser_readdata32 rd s) (\<lambda>(nonce, s).
     Inr (\<lparr>hdr_nVersion = signed_of 32 ver, hdr_hashPrevBlock = prev, hdr_hashMerkleRoot = root,
           hdr_nTime = word_of_nat time, hdr_nBits = word_of_nat nbits, hdr_nNonce = word_of_nat nonce\<rparr>, s)))))))"

type_synonym ptr = nat

record CBlockIndex =
  phashBlock :: uint256
  pprev :: "ptr option"
  pskip :: "ptr option"
  nHeight :: int
  nFile :: int
  nDataPos :: u32
  nUndoPos :: u32
  nChainWork :: base_uint
  nTx :: nat
  nChainTx :: nat
  nStatus :: u32
  bi_nVersion :: int
  hashMerkleRoot :: uint256
  nTime :: u32
  nBits :: u32
  nNonce :: u32
  nSequenceId :: u32

type_synonym heap = "ptr \<Rightarrow> CBlockIndex"

abbreviation (input) BLOCK_VALID_HEADER :: u32 where "BLOCK_VALID_HEADER \<equiv> 1"
abbreviation (input) BLOCK_VALID_TREE :: u32 where "BLOCK_VALID_TREE \<equiv> 2"
abbreviation (input) BLOCK_VALID_TRANSACTIONS :: u32 where "BLOCK_VALID_TRANSACTIONS \<equiv> 3"
abbreviation (input) BLOCK_VALID_CHAIN :: u32 where "BLOCK_VALID_CHAIN \<equiv> 4"
abbreviation (input) BLOCK_VALID_SCRIPTS :: u32 where "BLOCK_VALID_SCRIPTS \<equiv> 5"
abbreviation (input) BLOCK_VALID_MASK :: u32 where "BLOCK_VALID_MASK \<equiv> 7"
abbreviation (input) BLOCK_HAVE_DATA :: u32 where "BLOCK_HAVE_DATA \<equiv> 8"
abbreviation (input) BLOCK_HAVE_UNDO :: u32 where "BLOCK_HAVE_UNDO \<equiv> 16"
abbreviation (input) BLOCK_FAILED_VALID :: u32 where "BLOCK_FAILED_VALID \<equiv> 32"
abbreviation (input) BLOCK_FAILED_CHILD :: u32 where "BLOCK_FAILED_CHILD \<equiv> 64"
abbreviation (input) BLOCK_FAILED_MASK :: u32 where "BLOCK_FAILED_MASK \<equiv> 96"

definition CBlockIndex_SetNull :: CBlockIndex where
  "CBlockIndex_SetNull = \<lparr>phashBlock = [], pprev = None, pskip = None, nHeight = 0, nFile = 0, nDataPos = 0,
     nUndoPos = 0, nChainWork = uint_of_u64 8 0, nTx = 0, nChainTx = 0, nStatus = 0, bi_nVersion = 0,
     hashMerkleRoot = blob_SetNull 32, nTime = 0, nBits = 0, nNonce = 0, nSequenceId = 0\<rparr>"

definition CBlockIndex_of :: "CBlockHeader \<Rightarrow> CBlockIndex" where
  "CBlockIndex_of block = CBlockIndex_SetNull\<lparr>bi_nVersion := hdr_nVersion block,
     hashMerkleRoot := hdr_hashMerkleRoot block, nTime := hdr_nTime block, nBits := hdr_nBits block,
     nNonce := hdr_nNonce block\<rparr>"

definition GetBlockHash :: "CBlockIndex \<Rightarrow> uint256" where
  "GetBlockHash b = phashBlock b"

definition GetBlockHeader :: "heap \<Rightarrow> CBlockIndex \<Rightarrow> CBlockHeader" where
  "GetBlockHeader H b = \<lparr>hdr_nVersion = bi_nVersion b,
     hdr_hashPrevBlock = (case pprev b of None \<Rightarrow> blob_SetNull 32 | Some p \<Rightarrow> GetBlockHash (H p)),
     hdr_hashMerkleRoot = hashMerkleRoot b, hdr_nTime = nTime b, hdr_nBits = nBits b, hdr_nNonce = nNonce b\<rparr>"

definition GetBlockTime :: "CBlockIndex \<Rightarrow> int" where
  "GetBlockTime b = uint (nTime b)"

text \<open>A \<open>CDiskBlockPos\<close> is the number of a file with an offset; the null position has file -1.\<close>

definition GetBlockPos :: "CBlockIndex \<Rightarrow> int \<times> u32" where
  "GetBlockPos b = (if nStatus b AND BLOCK_HAVE_DATA \<noteq> 0 then (nFile b, nDataPos b) else (-1, 0))"

definition GetUndoPos :: "CBlockIndex \<Rightarrow> int \<times> u32" where
  "GetUndoPos b = (if nStatus b AND BLOCK_HAVE_UNDO \<noteq> 0 then (nFile b, nUndoPos b) else (-1, 0))"

definition IsValid :: "CBlockIndex \<Rightarrow> u32 \<Rightarrow> cxx_exit + bool" where
  "IsValid b nUpTo =
     (if nUpTo AND NOT BLOCK_VALID_MASK \<noteq> 0 then Inl AssertFail
      else if nStatus b AND BLOCK_FAILED_MASK \<noteq> 0 then Inr False
      else Inr (nStatus b AND BLOCK_VALID_MASK \<ge> nUpTo))"

definition RaiseValidity :: "CBlockIndex \<Rightarrow> u32 \<Rightarrow> cxx_exit + bool \<times> CBlockIndex" where
  "RaiseValidity b nUpTo =
     (if nUpTo AND NOT BLOCK_VALID_MASK \<noteq> 0 then Inl AssertFail
      else if nStatus b AND BLOCK_FAILED_MASK \<noteq> 0 then Inr (False, b)
      else if nStatus b AND BLOCK_VALID_MASK < nUpTo
      then Inr (True, b\<lparr>nStatus := (nStatus b AND NOT BLOCK_VALID_MASK) OR nUpTo\<rparr>)
      else Inr (False, b))"

text \<open>
  \<open>GetMedianTimePast\<close>: the times of the block and of up to ten predecessors, the latest one first,
  are sorted, and the middle one is taken.
\<close>

fun past_times :: "heap \<Rightarrow> nat \<Rightarrow> ptr option \<Rightarrow> int list" where
  "past_times H 0 pindex = []"
| "past_times H (Suc i) None = []"
| "past_times H (Suc i) (Some p) = GetBlockTime (H p) # past_times H i (pprev (H p))"

definition GetMedianTimePast :: "heap \<Rightarrow> ptr \<Rightarrow> int" where
  "GetMedianTimePast H p =
     (let pmedian = sort (past_times H 11 (Some p)) in pmedian ! (length pmedian div 2))"

subsection \<open>The skip list\<close>

definition InvertLowestOne :: "int \<Rightarrow> int" where
  "InvertLowestOne n = n AND (n - 1)"

definition GetSkipHeight :: "int \<Rightarrow> int" where
  "GetSkipHeight height =
     (if height < 2 then 0
      else if height AND 1 \<noteq> 0 then InvertLowestOne (InvertLowestOne (height - 1)) + 1
      else InvertLowestOne height)"

lemma InvertLowestOne_bounds: "0 < n \<Longrightarrow> 0 \<le> InvertLowestOne n \<and> InvertLowestOne n < n"
  using AND_upper2 [of "n - 1" n] by (simp add: InvertLowestOne_def)

lemma GetSkipHeight_bounds:
  assumes "0 < height"
  shows "0 \<le> GetSkipHeight height \<and> GetSkipHeight height < height"
proof (cases "height < 2 \<or> height AND 1 = 0")
  case True
  then show ?thesis using assms InvertLowestOne_bounds [of height] by (auto simp: GetSkipHeight_def)
next
  case False
  then have "0 \<le> InvertLowestOne (height - 1)" "InvertLowestOne (height - 1) < height - 1"
    using InvertLowestOne_bounds [of "height - 1"] by auto
  moreover from this have "0 \<le> InvertLowestOne (InvertLowestOne (height - 1))"
    "InvertLowestOne (InvertLowestOne (height - 1)) \<le> InvertLowestOne (height - 1)"
    using InvertLowestOne_bounds [of "InvertLowestOne (height - 1)"]
    by (cases "InvertLowestOne (height - 1) = 0"; force simp: InvertLowestOne_def)+
  ultimately show ?thesis using False by (simp add: GetSkipHeight_def)
qed

text \<open>The loop of \<open>GetAncestor\<close>; the height that is looked for is not negative.\<close>

definition follow_skip :: "CBlockIndex \<Rightarrow> int \<Rightarrow> nat \<Rightarrow> bool" where
  "follow_skip b heightWalk height =
     (let heightSkip = GetSkipHeight heightWalk; heightSkipPrev = GetSkipHeight (heightWalk - 1) in
      pskip b \<noteq> None \<and>
      (heightSkip = int height \<or>
       (heightSkip > int height \<and> \<not> (heightSkipPrev < heightSkip - 2 \<and> heightSkipPrev \<ge> int height))))"

function GetAncestor_loop :: "heap \<Rightarrow> nat \<Rightarrow> ptr \<Rightarrow> int \<Rightarrow> cxx_exit + ptr" where
  "GetAncestor_loop H height pindexWalk heightWalk =
     (if heightWalk > int height then
        (if follow_skip (H pindexWalk) heightWalk height then
           GetAncestor_loop H height (the (pskip (H pindexWalk))) (GetSkipHeight heightWalk)
         else case pprev (H pindexWalk) of
             None \<Rightarrow> Inl AssertFail
           | Some p \<Rightarrow> GetAncestor_loop H height p (heightWalk - 1))
      else Inr pindexWalk)"
  by pat_completeness auto
termination
  by (relation "measure (\<lambda>(H, height, p, h). nat h)") (use GetSkipHeight_bounds in force)+

declare GetAncestor_loop.simps [simp del]

definition GetAncestor :: "heap \<Rightarrow> ptr \<Rightarrow> int \<Rightarrow> cxx_exit + ptr option" where
  "GetAncestor H p height =
     (if height > nHeight (H p) \<or> height < 0 then Inr None
      else ebind (GetAncestor_loop H (nat height) p (nHeight (H p))) (\<lambda>q. Inr (Some q)))"

definition BuildSkip :: "heap \<Rightarrow> ptr \<Rightarrow> cxx_exit + heap" where
  "BuildSkip H p =
     (case pprev (H p) of
        None \<Rightarrow> Inr H
      | Some q \<Rightarrow> ebind (GetAncestor H q (GetSkipHeight (nHeight (H p))))
          (\<lambda>s. Inr (H(p := (H p)\<lparr>pskip := s\<rparr>))))"

subsection \<open>Chains\<close>

text \<open>\<open>CChain\<close> is its vector \<open>vChain\<close> of pointers.\<close>

type_synonym CChain = "ptr option list"

definition Genesis :: "CChain \<Rightarrow> ptr option" where
  "Genesis vChain = (if length vChain > 0 then vChain ! 0 else None)"

definition Tip :: "CChain \<Rightarrow> ptr option" where
  "Tip vChain = (if length vChain > 0 then vChain ! (length vChain - 1) else None)"

definition CChain_at :: "CChain \<Rightarrow> int \<Rightarrow> ptr option" where
  "CChain_at vChain height = (if height < 0 \<or> height \<ge> int (length vChain) then None else vChain ! nat height)"

definition Contains :: "heap \<Rightarrow> CChain \<Rightarrow> ptr \<Rightarrow> bool" where
  "Contains H vChain p \<longleftrightarrow> CChain_at vChain (nHeight (H p)) = Some p"

definition Next :: "heap \<Rightarrow> CChain \<Rightarrow> ptr \<Rightarrow> ptr option" where
  "Next H vChain p = (if Contains H vChain p then CChain_at vChain (nHeight (H p) + 1) else None)"

definition Height :: "CChain \<Rightarrow> int" where
  "Height vChain = int (length vChain) - 1"

text \<open>
  The loops below follow \<open>pprev\<close> and end because the tree is finite, which a raw heap does not say:
  \<open>None\<close> is an endless loop. \<open>vChain.resize\<close> fills up with null pointers.
\<close>

definition resize :: "CChain \<Rightarrow> nat \<Rightarrow> CChain" where
  "resize vChain n = take n vChain @ replicate (n - length vChain) None"

partial_function (option) SetTip_loop :: "heap \<Rightarrow> CChain \<Rightarrow> ptr option \<Rightarrow> (cxx_exit + CChain) option" where
  "SetTip_loop H vChain pindex =
     (case pindex of
        None \<Rightarrow> Some (Inr vChain)
      | Some p \<Rightarrow>
          if nHeight (H p) < 0 \<or> nHeight (H p) \<ge> int (length vChain) then Some (Inl Undefined)
          else if vChain ! nat (nHeight (H p)) \<noteq> pindex then
            SetTip_loop H (vChain[nat (nHeight (H p)) := pindex]) (pprev (H p))
          else Some (Inr vChain))"

definition SetTip :: "heap \<Rightarrow> CChain \<Rightarrow> ptr option \<Rightarrow> (cxx_exit + CChain) option" where
  "SetTip H vChain pindex =
     (case pindex of
        None \<Rightarrow> Some (Inr [])
      | Some p \<Rightarrow> SetTip_loop H (resize vChain (nat (nHeight (H p) + 1))) pindex)"

partial_function (option) FindFork_loop :: "heap \<Rightarrow> CChain \<Rightarrow> ptr option \<Rightarrow> ptr option option" where
  "FindFork_loop H vChain pindex =
     (case pindex of
        None \<Rightarrow> Some None
      | Some p \<Rightarrow> if \<not> Contains H vChain p then FindFork_loop H vChain (pprev (H p)) else Some pindex)"

definition FindFork :: "heap \<Rightarrow> CChain \<Rightarrow> ptr option \<Rightarrow> (cxx_exit + ptr option) option" where
  "FindFork H vChain pindex =
     (case pindex of
        None \<Rightarrow> Some (Inr None)
      | Some p \<Rightarrow>
          case (if nHeight (H p) > Height vChain then GetAncestor H p (Height vChain) else Inr pindex) of
            Inl e \<Rightarrow> Some (Inl e)
          | Inr pindex \<Rightarrow> map_option Inr (FindFork_loop H vChain pindex))"

text \<open>\<open>GetLocator\<close>: the hashes of the block and of ancestors at growing distances.\<close>

partial_function (option) GetLocator_loop ::
  "heap \<Rightarrow> CChain \<Rightarrow> ptr option \<Rightarrow> int \<Rightarrow> uint256 list \<Rightarrow> (cxx_exit + uint256 list) option" where
  "GetLocator_loop H vChain pindex nStep vHave =
     (case pindex of
        None \<Rightarrow> Some (Inr vHave)
      | Some p \<Rightarrow>
          let vHave = vHave @ [GetBlockHash (H p)] in
          if nHeight (H p) = 0 then Some (Inr vHave)
          else
            let height = max (nHeight (H p) - nStep) 0 in
            case (if Contains H vChain p then Inr (CChain_at vChain height) else GetAncestor H p height) of
              Inl e \<Rightarrow> Some (Inl e)
            | Inr pindex \<Rightarrow>
                GetLocator_loop H vChain pindex (if length vHave > 10 then nStep * 2 else nStep) vHave)"

definition GetLocator :: "heap \<Rightarrow> CChain \<Rightarrow> ptr option \<Rightarrow> (cxx_exit + uint256 list) option" where
  "GetLocator H vChain pindex =
     GetLocator_loop H vChain (case pindex of None \<Rightarrow> Tip vChain | Some p \<Rightarrow> Some p) 1 []"

text \<open>Two chains are compared by their tips; the index of the last entry is not checked.\<close>

definition CChain_eq :: "CChain \<Rightarrow> CChain \<Rightarrow> cxx_exit + bool" where
  "CChain_eq a b =
     (if length a \<noteq> length b then Inr False
      else if a = [] then Inl Undefined
      else Inr (a ! (length a - 1) = b ! (length b - 1)))"

subsection \<open>The tree of blocks\<close>

text \<open>\<open>anc H k\<close> goes \<open>k\<close> steps back.\<close>

fun anc :: "heap \<Rightarrow> nat \<Rightarrow> ptr option \<Rightarrow> ptr option" where
  "anc H 0 x = x"
| "anc H (Suc k) None = None"
| "anc H (Suc k) (Some p) = anc H k (pprev (H p))"

definition ancestors :: "heap \<Rightarrow> ptr \<Rightarrow> ptr set" where
  "ancestors H p = {q. \<exists>k. anc H k (Some p) = Some q}"

definition wf_index :: "heap \<Rightarrow> ptr set \<Rightarrow> bool" where
  "wf_index H A \<longleftrightarrow> (\<forall>p\<in>A. nHeight (H p) \<ge> 0 \<and> (pprev (H p) = None \<longleftrightarrow> nHeight (H p) = 0) \<and>
     (\<forall>q. pprev (H p) = Some q \<longrightarrow> q \<in> A \<and> nHeight (H q) = nHeight (H p) - 1) \<and>
     (\<forall>s. pskip (H p) = Some s \<longrightarrow>
        anc H (nat (nHeight (H p) - GetSkipHeight (nHeight (H p)))) (Some p) = Some s))"

lemma anc_None [simp]: "anc H k None = None"
  by (cases k) auto

lemma anc_add: "anc H (j + k) x = anc H k (anc H j x)"
  by (induction H j x rule: anc.induct) auto

lemma anc_cong: "(\<And>q. pprev (H' q) = pprev (H q)) \<Longrightarrow> anc H' k x = anc H k x"
  by (induction H k x rule: anc.induct) auto

lemma wf_indexD:
  assumes "wf_index H A" "p \<in> A"
  shows "nHeight (H p) \<ge> 0" "pprev (H p) = None \<longleftrightarrow> nHeight (H p) = 0"
    "pprev (H p) = Some q \<Longrightarrow> q \<in> A" "pprev (H p) = Some q \<Longrightarrow> nHeight (H q) = nHeight (H p) - 1"
    "pskip (H p) = Some s \<Longrightarrow> anc H (nat (nHeight (H p) - GetSkipHeight (nHeight (H p)))) (Some p) = Some s"
  using assms by (auto simp: wf_index_def)

lemma anc_height:
  assumes "wf_index H A" "p \<in> A" "int k \<le> nHeight (H p)"
  shows "\<exists>q. anc H k (Some p) = Some q \<and> q \<in> A \<and> nHeight (H q) = nHeight (H p) - int k"
  using assms(2,3)
proof (induction k arbitrary: p)
  case (Suc k)
  then obtain r where r: "pprev (H p) = Some r"
    using wf_indexD(2) [OF assms(1) Suc.prems(1)] by (cases "pprev (H p)") auto
  note rw = wf_indexD(3,4) [OF assms(1) Suc.prems(1) r]
  with Suc.IH [of r] Suc.prems(2) r show ?case by auto
qed auto

lemma anc_beyond:
  assumes "wf_index H A" "p \<in> A" "int k > nHeight (H p)"
  shows "anc H k (Some p) = None"
  using assms(2,3)
proof (induction k arbitrary: p)
  case 0
  then show ?case using wf_indexD(1) [OF assms(1)] by force
next
  case (Suc k)
  show ?case
  proof (cases "pprev (H p)")
    case (Some r)
    with Suc.IH [of r] Suc.prems wf_indexD(3,4) [OF assms(1) Suc.prems(1) Some] show ?thesis by auto
  qed simp
qed

lemma anc_Some_height:
  assumes "wf_index H A" "p \<in> A" "anc H k (Some p) = Some q"
  shows "q \<in> A" "nHeight (H q) = nHeight (H p) - int k" "int k \<le> nHeight (H p)"
proof -
  show k: "int k \<le> nHeight (H p)" using anc_beyond [OF assms(1,2), of k] assms(3) by (cases "int k \<le> nHeight (H p)") auto
  show "q \<in> A" "nHeight (H q) = nHeight (H p) - int k"
    using anc_height [OF assms(1,2) k] assms(3) by auto
qed

lemma GetAncestor_loop_anc:
  assumes "wf_index H A" "p \<in> A" "int h \<le> nHeight (H p)"
  shows "\<exists>q. GetAncestor_loop H h p (nHeight (H p)) = Inr q \<and> anc H (nat (nHeight (H p)) - h) (Some p) = Some q"
  using assms(2,3)
proof (induction "nat (nHeight (H p))" arbitrary: p rule: less_induct)
  case less
  note wf = wf_indexD [OF assms(1) less.prems(1)]
  show ?case
  proof (cases "nHeight (H p) > int h")
    case False
    then show ?thesis using less.prems(2) by (subst GetAncestor_loop.simps) auto
  next
    case gt: True
    show ?thesis
    proof (cases "follow_skip (H p) (nHeight (H p)) h")
      case True
      let ?s = "GetSkipHeight (nHeight (H p))"
      obtain s where s: "pskip (H p) = Some s" and hs: "?s \<ge> int h"
        using True by (auto simp: follow_skip_def Let_def)
      have lt: "?s < nHeight (H p)" "0 \<le> ?s" using GetSkipHeight_bounds [of "nHeight (H p)"] gt by auto
      have an: "anc H (nat (nHeight (H p) - ?s)) (Some p) = Some s" by (rule wf(5) [OF s])
      note sw = anc_Some_height [OF assms(1) less.prems(1) an]
      have hts: "nHeight (H s) = ?s" using sw(2) lt by auto
      have "nat (nHeight (H p)) - h = nat (nHeight (H p) - ?s) + (nat (nHeight (H s)) - h)"
        using hts lt hs gt by auto
      then have "anc H (nat (nHeight (H p)) - h) (Some p) = anc H (nat (nHeight (H s)) - h) (Some s)"
        by (simp add: anc_add an)
      moreover have "GetAncestor_loop H h p (nHeight (H p)) = GetAncestor_loop H h s (nHeight (H s))"
        using gt True s hts by (subst GetAncestor_loop.simps) simp
      moreover have "\<exists>q. GetAncestor_loop H h s (nHeight (H s)) = Inr q \<and>
          anc H (nat (nHeight (H s)) - h) (Some s) = Some q"
        by (rule less.hyps) (use hts lt hs gt sw(1) in auto)
      ultimately show ?thesis by simp
    next
      case False
      obtain r where r: "pprev (H p) = Some r" using wf(2) gt by (cases "pprev (H p)") auto
      note rw = wf(3,4) [OF r]
      have "nat (nHeight (H p)) - h = Suc (nat (nHeight (H r)) - h)" using rw(2) gt by auto
      then have "anc H (nat (nHeight (H p)) - h) (Some p) = anc H (nat (nHeight (H r)) - h) (Some r)"
        using r by simp
      moreover have "GetAncestor_loop H h p (nHeight (H p)) = GetAncestor_loop H h r (nHeight (H r))"
        using gt False r rw(2) by (subst GetAncestor_loop.simps) simp
      moreover have "\<exists>q. GetAncestor_loop H h r (nHeight (H r)) = Inr q \<and>
          anc H (nat (nHeight (H r)) - h) (Some r) = Some q"
        by (rule less.hyps) (use rw gt in auto)
      ultimately show ?thesis by simp
    qed
  qed
qed

lemma GetAncestor_eq:
  assumes "wf_index H A" "p \<in> A"
  shows "GetAncestor H p height =
    Inr (if height > nHeight (H p) \<or> height < 0 then None else anc H (nat (nHeight (H p) - height)) (Some p))"
proof (cases "height > nHeight (H p) \<or> height < 0")
  case False
  then show ?thesis
    using GetAncestor_loop_anc [OF assms, of "nat height"] by (auto simp: GetAncestor_def nat_diff_distrib)
qed (simp add: GetAncestor_def)

lemma BuildSkip_eq:
  assumes "wf_index H A" "p \<in> A"
  shows "BuildSkip H p = Inr (if pprev (H p) = None then H else
    H(p := (H p)\<lparr>pskip := anc H (nat (nHeight (H p) - GetSkipHeight (nHeight (H p)))) (Some p)\<rparr>))"
proof (cases "pprev (H p)")
  case (Some q)
  note wf = wf_indexD [OF assms]
  have b: "0 \<le> GetSkipHeight (nHeight (H p))" "GetSkipHeight (nHeight (H p)) < nHeight (H p)"
    using GetSkipHeight_bounds [of "nHeight (H p)"] wf(1,2) Some by auto
  have "nat (nHeight (H p) - GetSkipHeight (nHeight (H p))) = Suc (nat (nHeight (H q) - GetSkipHeight (nHeight (H p))))"
    using wf(4) [OF Some] b by auto
  then show ?thesis
    using GetAncestor_eq [OF assms(1) wf(3) [OF Some], of "GetSkipHeight (nHeight (H p))"] Some wf(4) [OF Some] b
    by (simp add: BuildSkip_def)
qed (simp add: BuildSkip_def)

lemma wf_index_pskip:
  assumes wf: "wf_index H A" and s: "anc H (nat (nHeight (H p) - GetSkipHeight (nHeight (H p)))) (Some p) = s"
  shows "wf_index (H(p := (H p)\<lparr>pskip := s\<rparr>)) A"
proof -
  let ?H = "H(p := (H p)\<lparr>pskip := s\<rparr>)"
  have f: "nHeight (?H q) = nHeight (H q)" "pprev (?H q) = pprev (H q)"
    "pskip (?H q) = (if q = p then s else pskip (H q))" for q by auto
  have a: "anc ?H k x = anc H k x" for k x by (rule anc_cong) simp
  show ?thesis
    unfolding wf_index_def f a
  proof (intro ballI conjI allI impI)
    fix q t
    assume q: "q \<in> A"
    show "0 \<le> nHeight (H q)" "(pprev (H q) = None) = (nHeight (H q) = 0)" using wf_indexD(1,2) [OF wf q] .
    assume "(if q = p then s else pskip (H q)) = Some t"
    then show "anc H (nat (nHeight (H q) - GetSkipHeight (nHeight (H q)))) (Some q) = Some t"
      using wf_indexD(5) [OF wf q, of t] s by (cases "q = p") simp_all
  qed (use wf_indexD(3,4) [OF wf] in blast)+
qed

lemma BuildSkip_wf: "wf_index H A \<Longrightarrow> p \<in> A \<Longrightarrow> \<exists>H'. BuildSkip H p = Inr H' \<and> wf_index H' A"
  by (simp add: BuildSkip_eq wf_index_pskip)

text \<open>\<open>path_to H p\<close> is the vector of the pointers from the genesis block to \<open>p\<close>.\<close>

definition path_to :: "heap \<Rightarrow> ptr \<Rightarrow> CChain" where
  "path_to H p = map (\<lambda>i. anc H (nat (nHeight (H p)) - i) (Some p)) [0..<nat (nHeight (H p)) + 1]"

definition chain_of :: "heap \<Rightarrow> ptr set \<Rightarrow> CChain \<Rightarrow> bool" where
  "chain_of H A v \<longleftrightarrow> v = [] \<or> (\<exists>p\<in>A. v = path_to H p)"

text \<open>Below an entry of a chain are the predecessors of the entry.\<close>

definition linked :: "heap \<Rightarrow> ptr set \<Rightarrow> CChain \<Rightarrow> bool" where
  "linked H A v \<longleftrightarrow> (\<forall>i<length v. \<forall>q. v ! i = Some q \<longrightarrow>
     q \<in> A \<and> nHeight (H q) = int i \<and> (\<forall>j\<le>i. v ! j = anc H (i - j) (Some q)))"

lemma length_path_to [simp]: "length (path_to H p) = Suc (nat (nHeight (H p)))"
  by (simp add: path_to_def)

lemma nth_path_to: "i \<le> nat (nHeight (H p)) \<Longrightarrow> path_to H p ! i = anc H (nat (nHeight (H p)) - i) (Some p)"
  by (simp add: path_to_def del: upt_Suc)

lemma anc_diff: "j \<le> i \<Longrightarrow> i \<le> n \<Longrightarrow> anc H (n - i) x = y \<Longrightarrow> anc H (n - j) x = anc H (i - j) y"
  using anc_add [of H "n - i" "i - j" x] by simp

lemma linked_path_to:
  assumes wf: "wf_index H A" and p: "p \<in> A"
  shows "linked H A (path_to H p)"
  unfolding linked_def
proof (intro allI impI)
  fix i q
  assume i: "i < length (path_to H p)" and q: "path_to H p ! i = Some q"
  then have a: "anc H (nat (nHeight (H p)) - i) (Some p) = Some q" by (simp add: nth_path_to)
  have "path_to H p ! j = anc H (i - j) (Some q)" if "j \<le> i" for j
    using that i by (simp add: nth_path_to anc_diff [OF that _ a])
  then show "q \<in> A \<and> nHeight (H q) = int i \<and> (\<forall>j\<le>i. path_to H p ! j = anc H (i - j) (Some q))"
    using anc_Some_height [OF wf p a] i wf_indexD(1) [OF wf p] by auto
qed

lemma chain_of_linked: "wf_index H A \<Longrightarrow> chain_of H A v \<Longrightarrow> linked H A v"
  by (auto simp: chain_of_def linked_path_to) (simp add: linked_def)

lemma length_resize [simp]: "length (resize v n) = n"
  by (simp add: resize_def)

lemma nth_resize: "i < n \<Longrightarrow> resize v n ! i = (if i < length v then v ! i else None)"
  by (auto simp: resize_def nth_append min_def)

lemma linked_resize: "linked H A v \<Longrightarrow> linked H A (resize v n)"
  by (auto simp: linked_def nth_resize split: if_splits)

text \<open>The loop of \<open>SetTip\<close> stops at the first entry that is right already; the entries below it are.\<close>

lemma SetTip_loop_eq:
  assumes wf: "wf_index H A" and p: "p \<in> A" "nHeight (H p) = int h" and h: "h < length v"
    and linked: "\<And>i q. i \<le> h \<Longrightarrow> v ! i = Some q \<Longrightarrow> (\<forall>j\<le>i. v ! j = anc H (i - j) (Some q))"
  shows "SetTip_loop H v (Some p) =
    Some (Inr (map (\<lambda>i. if i \<le> h then anc H (h - i) (Some p) else v ! i) [0..<length v]))"
  using p h linked
proof (induction h arbitrary: p v)
  case 0
  have "pprev (H p) = None" using wf_indexD(2) [OF wf 0(1)] 0(2) by simp
  moreover have "map (\<lambda>i. if i \<le> 0 then anc H (0 - i) (Some p) else v ! i) [0..<length v] = v[0 := Some p]"
    using 0(3) by (intro nth_equalityI) (auto simp: nth_list_update)
  moreover have "v[0 := Some p] = v" if "v ! 0 = Some p" using that by (metis list_update_id)
  ultimately show ?case using 0(2,3) by (simp add: SetTip_loop.simps)
next
  case (Suc h)
  let ?v = "v[Suc h := Some p]"
  obtain r where r: "pprev (H p) = Some r"
    using wf_indexD(2) [OF wf Suc.prems(1)] Suc.prems(2) by (cases "pprev (H p)") auto
  note rw = wf_indexD(3,4) [OF wf Suc.prems(1) r]
  show ?case
  proof (cases "v ! Suc h = Some p")
    case True
    have "map (\<lambda>i. if i \<le> Suc h then anc H (Suc h - i) (Some p) else v ! i) [0..<length v] = v"
      using Suc.prems(3) Suc.prems(4) [OF le_refl True] by (intro nth_equalityI) auto
    then show ?thesis using True Suc.prems(2,3) by (simp add: SetTip_loop.simps nat_add_distrib)
  next
    case False
    have "SetTip_loop H ?v (Some r) =
        Some (Inr (map (\<lambda>i. if i \<le> h then anc H (h - i) (Some r) else ?v ! i) [0..<length ?v]))"
    proof (rule Suc.IH)
      show "r \<in> A" "nHeight (H r) = int h" "h < length ?v" using rw Suc.prems(2,3) by auto
      fix i q
      assume "i \<le> h" "?v ! i = Some q"
      then have "v ! i = Some q" "i \<le> Suc h" by auto
      from Suc.prems(4) [OF this(2,1)] show "\<forall>j\<le>i. ?v ! j = anc H (i - j) (Some q)"
        using \<open>i \<le> h\<close> by auto
    qed
    moreover have "map (\<lambda>i. if i \<le> h then anc H (h - i) (Some r) else ?v ! i) [0..<length ?v] =
        map (\<lambda>i. if i \<le> Suc h then anc H (Suc h - i) (Some p) else v ! i) [0..<length v]"
    proof (rule nth_equalityI)
      fix i
      assume i: "i < length (map (\<lambda>i. if i \<le> h then anc H (h - i) (Some r) else ?v ! i) [0..<length ?v])"
      consider "i \<le> h" | "i = Suc h" | "i > Suc h" by linarith
      then show "map (\<lambda>i. if i \<le> h then anc H (h - i) (Some r) else ?v ! i) [0..<length ?v] ! i =
          map (\<lambda>i. if i \<le> Suc h then anc H (Suc h - i) (Some p) else v ! i) [0..<length v] ! i"
        using i r Suc.prems(3) by cases (auto simp: Suc_diff_le)
    qed simp
    ultimately show ?thesis
      using False Suc.prems(2,3) r by (simp add: SetTip_loop.simps nat_add_distrib)
  qed
qed

lemma SetTip_path:
  assumes wf: "wf_index H A" and v: "chain_of H A v" and p: "p \<in> A"
  shows "SetTip H v (Some p) = Some (Inr (path_to H p))"
proof -
  define h where "h = nat (nHeight (H p))"
  have h: "nHeight (H p) = int h" using wf_indexD(1) [OF wf p] by (simp add: h_def)
  have l: "linked H A (resize v (Suc h))" by (rule linked_resize [OF chain_of_linked [OF wf v]])
  have "SetTip_loop H (resize v (Suc h)) (Some p) =
    Some (Inr (map (\<lambda>i. if i \<le> h then anc H (h - i) (Some p) else resize v (Suc h) ! i) [0..<length (resize v (Suc h))]))"
    by (rule SetTip_loop_eq [OF wf p h]) (use l in \<open>auto simp: linked_def\<close>)
  moreover have "map (\<lambda>i. if i \<le> h then anc H (h - i) (Some p) else resize v (Suc h) ! i) [0..<Suc h] = path_to H p"
    by (auto simp: path_to_def h)
  ultimately show ?thesis by (simp add: SetTip_def h nat_add_distrib del: upt_Suc)
qed

lemma ancestors_step:
  "ancestors H p = insert p (case pprev (H p) of None \<Rightarrow> {} | Some r \<Rightarrow> ancestors H r)"
proof -
  have "q \<in> ancestors H p \<longleftrightarrow> q = p \<or> (\<exists>k. anc H k (pprev (H p)) = Some q)" for q
  proof
    assume "q \<in> ancestors H p"
    then obtain k where "anc H k (Some p) = Some q" by (auto simp: ancestors_def)
    then show "q = p \<or> (\<exists>k. anc H k (pprev (H p)) = Some q)" by (cases k) auto
  next
    assume "q = p \<or> (\<exists>k. anc H k (pprev (H p)) = Some q)"
    then show "q \<in> ancestors H p"
      unfolding ancestors_def by (metis (mono_tags, lifting) anc.simps(1,3) mem_Collect_eq)
  qed
  then show ?thesis by (auto simp: ancestors_def split: option.splits)
qed

lemma Contains_linked:
  assumes "linked H A v" "Contains H v p"
  shows "p \<in> A" "0 \<le> nHeight (H p)" "nHeight (H p) < int (length v)"
    "j \<le> nat (nHeight (H p)) \<Longrightarrow> v ! j = anc H (nat (nHeight (H p)) - j) (Some p)"
proof -
  have c: "v ! nat (nHeight (H p)) = Some p" "0 \<le> nHeight (H p)" "nHeight (H p) < int (length v)"
    using assms(2) by (auto simp: Contains_def CChain_at_def split: if_splits)
  then have "nat (nHeight (H p)) < length v" by auto
  with c(1) assms(1) show "p \<in> A" "j \<le> nat (nHeight (H p)) \<Longrightarrow> v ! j = anc H (nat (nHeight (H p)) - j) (Some p)"
    unfolding linked_def by blast+
  show "0 \<le> nHeight (H p)" "nHeight (H p) < int (length v)" by (fact c)+
qed

lemma Contains_anc:
  assumes wf: "wf_index H A" and v: "linked H A v" and p: "Contains H v p" and q: "q \<in> ancestors H p"
  shows "Contains H v q"
proof -
  note c = Contains_linked [OF v p]
  obtain k where k: "anc H k (Some p) = Some q" using q by (auto simp: ancestors_def)
  note h = anc_Some_height [OF wf c(1) k]
  have "v ! nat (nHeight (H q)) = anc H (nat (nHeight (H p)) - nat (nHeight (H q))) (Some p)"
    by (rule c(4)) (use h in auto)
  also have "nat (nHeight (H p)) - nat (nHeight (H q)) = k" using h c(2) by auto
  finally have "v ! nat (nHeight (H q)) = Some q" using k by simp
  then show ?thesis using h c(2,3) by (simp add: Contains_def CChain_at_def)
qed

lemma Contains_path_to:
  assumes "wf_index H A" "t \<in> A" "q \<in> A"
  shows "Contains H (path_to H t) q \<longleftrightarrow> q \<in> ancestors H t"
proof
  assume "Contains H (path_to H t) q"
  then show "q \<in> ancestors H t"
    by (auto simp: Contains_def CChain_at_def nth_path_to ancestors_def split: if_splits)
next
  assume "q \<in> ancestors H t"
  moreover have "Contains H (path_to H t) t"
    using wf_indexD(1) [OF assms(1,2)] by (simp add: Contains_def CChain_at_def nth_path_to)
  ultimately show "Contains H (path_to H t) q"
    by (meson Contains_anc linked_path_to assms)
qed

lemma FindFork_loop_common:
  assumes wf: "wf_index H A" and v: "linked H A v" and p: "p \<in> A"
  shows "\<exists>r. FindFork_loop H v (Some p) = Some r \<and>
    {q \<in> ancestors H p. Contains H v q} = (case r of None \<Rightarrow> {} | Some f \<Rightarrow> ancestors H f)"
  using p
proof (induction "nat (nHeight (H p))" arbitrary: p rule: less_induct)
  case less
  note w = wf_indexD [OF wf less.prems]
  show ?case
  proof (cases "Contains H v p")
    case True
    then show ?thesis using Contains_anc [OF wf v True] by (auto simp: FindFork_loop.simps)
  next
    case False
    show ?thesis
    proof (cases "pprev (H p)")
      case None
      then show ?thesis using False by (auto simp: FindFork_loop.simps ancestors_step [of H p])
    next
      case (Some r)
      have "nat (nHeight (H r)) < nat (nHeight (H p))" using w(4) [OF Some] wf_indexD(1) [OF wf w(3) [OF Some]] by simp
      moreover have "{q \<in> ancestors H p. Contains H v q} = {q \<in> ancestors H r. Contains H v q}"
        using False Some by (auto simp: ancestors_step [of H p])
      moreover have "FindFork_loop H v (Some p) = FindFork_loop H v (Some r)"
        using False Some by (simp add: FindFork_loop.simps)
      ultimately show ?thesis using less.hyps [of r] w(3) [OF Some] by simp
    qed
  qed
qed

text \<open>A block that the chain contains is not above the tip, so that the jump to its height loses none.\<close>

lemma jump_keeps_common:
  assumes wf: "wf_index H A" and p: "p \<in> A" and g: "nHeight (H p) > Height v"
  shows "{q \<in> ancestors H p. Contains H v q} =
    (case (if Height v < 0 then None else anc H (nat (nHeight (H p) - Height v)) (Some p)) of
       None \<Rightarrow> {} | Some r \<Rightarrow> {q \<in> ancestors H r. Contains H v q})"
proof -
  have low: "0 \<le> nHeight (H q) \<and> nHeight (H q) \<le> Height v" if "Contains H v q" for q
    using that by (auto simp: Contains_def CChain_at_def Height_def split: if_splits)
  show ?thesis
  proof (cases "Height v < 0")
    case True
    then show ?thesis using low by force
  next
    case False
    let ?j = "nat (nHeight (H p) - Height v)"
    obtain r where r: "anc H ?j (Some p) = Some r" using anc_height [OF wf p, of ?j] False g by auto
    have "q \<in> ancestors H p \<longleftrightarrow> q \<in> ancestors H r" if "Contains H v q" for q
    proof
      assume "q \<in> ancestors H p"
      then obtain k where k: "anc H k (Some p) = Some q" by (auto simp: ancestors_def)
      have "?j \<le> k" using anc_Some_height(2) [OF wf p k] low [OF that] g by auto
      then have "anc H (k - ?j) (Some r) = Some q" using anc_add [of H ?j "k - ?j" "Some p"] k r by simp
      then show "q \<in> ancestors H r" by (auto simp: ancestors_def)
    next
      assume "q \<in> ancestors H r"
      then show "q \<in> ancestors H p" using anc_add [of H ?j _ "Some p"] r by (auto simp: ancestors_def) metis
    qed
    then show ?thesis using False r by auto
  qed
qed

lemma FindFork_common_blocks:
  assumes wf: "wf_index H A" and v: "linked H A v" and p: "p \<in> A"
  shows "\<exists>r. FindFork H v (Some p) = Some (Inr r) \<and>
    {q \<in> ancestors H p. Contains H v q} = (case r of None \<Rightarrow> {} | Some f \<Rightarrow> ancestors H f)"
proof (cases "nHeight (H p) > Height v")
  case False
  then show ?thesis using FindFork_loop_common [OF wf v p] by (auto simp: FindFork_def)
next
  case True
  let ?s = "if Height v < 0 then None else anc H (nat (nHeight (H p) - Height v)) (Some p)"
  have g: "GetAncestor H p (Height v) = Inr ?s" using GetAncestor_eq [OF wf p] True by simp
  show ?thesis
  proof (cases ?s)
    case None
    then show ?thesis using True g jump_keeps_common [OF wf p True] by (simp add: FindFork_def FindFork_loop.simps)
  next
    case (Some r)
    then have "anc H (nat (nHeight (H p) - Height v)) (Some p) = Some r" by (simp split: if_splits)
    from FindFork_loop_common [OF wf v anc_Some_height(1) [OF wf p this]]
    show ?thesis using True g Some jump_keeps_common [OF wf p True] by (auto simp: FindFork_def)
  qed
qed

subsection \<open>Locators\<close>

lemma GetLocator_loop_ancestors:
  assumes wf: "wf_index H A" and v: "linked H A v"
  shows "p \<in> A \<Longrightarrow> 1 \<le> nStep \<Longrightarrow> \<exists>ps. GetLocator_loop H v (Some p) nStep vHave = Some (Inr (vHave @ map (\<lambda>q. GetBlockHash (H q)) ps)) \<and>
    ps \<noteq> [] \<and> hd ps = p \<and> set ps \<subseteq> ancestors H p \<and> nHeight (H (last ps)) = 0 \<and>
    sorted_wrt (\<lambda>q r. nHeight (H q) > nHeight (H r)) ps \<and>
    (length ps \<ge> (10 - length vHave) + 2 \<longrightarrow> nStep * 2 ^ (length ps - (10 - length vHave) - 2) < nHeight (H p) + nStep)"
proof (induction "nat (nHeight (H p))" arbitrary: p nStep vHave rule: less_induct)
  case less
  note w = wf_indexD [OF wf less.prems(1)]
  let ?h = "max (nHeight (H p) - nStep) 0" and ?have = "vHave @ [GetBlockHash (H p)]"
  let ?step = "if length ?have > 10 then nStep * 2 else nStep"
  show ?case
  proof (cases "nHeight (H p) = 0")
    case True
    then show ?thesis using less.prems(2)
      by (intro exI [of _ "[p]"]) (auto simp: GetLocator_loop.simps ancestors_step [of H p])
  next
    case False
    let ?k = "nat (nHeight (H p) - ?h)"
    obtain q where q: "anc H ?k (Some p) = Some q" "q \<in> A" "nHeight (H q) = ?h"
      using anc_height [OF wf less.prems(1), of ?k] w(1) False less.prems(2) by auto
    have "(if Contains H v p then Inr (CChain_at v ?h) else GetAncestor H p ?h) = Inr (Some q)"
    proof (cases "Contains H v p")
      case True
      note c = Contains_linked [OF v True]
      have "v ! nat ?h = anc H (nat (nHeight (H p)) - nat ?h) (Some p)"
        by (rule c(4)) (use less.prems(2) w(1) in auto)
      also have "nat (nHeight (H p)) - nat ?h = ?k" using w(1) by (auto simp: max_def)
      finally show ?thesis using True c(2,3) less.prems(2) q(1) by (auto simp: CChain_at_def)
    next
      case no: False
      have "\<not> (?h > nHeight (H p) \<or> ?h < 0)" using less.prems(2) w(1) by auto
      then show ?thesis using no GetAncestor_eq [OF wf less.prems(1), of ?h] q(1) by simp
    qed
    then have step: "GetLocator_loop H v (Some p) nStep vHave = GetLocator_loop H v (Some q) ?step ?have"
      using False by (subst GetLocator_loop.simps) (simp add: Let_def)
    have "nat (nHeight (H q)) < nat (nHeight (H p))" using q(3) False w(1) less.prems(2) by auto
    moreover have "1 \<le> ?step" using less.prems(2) by auto
    ultimately obtain ps where ps: "GetLocator_loop H v (Some q) ?step ?have = Some (Inr (?have @ map (\<lambda>q. GetBlockHash (H q)) ps))"
      "ps \<noteq> []" "hd ps = q" "set ps \<subseteq> ancestors H q" "nHeight (H (last ps)) = 0"
      "sorted_wrt (\<lambda>q r. nHeight (H q) > nHeight (H r)) ps"
      "length ps \<ge> (10 - length ?have) + 2 \<longrightarrow> ?step * 2 ^ (length ps - (10 - length ?have) - 2) < nHeight (H q) + ?step"
      using less.hyps [of q ?step ?have] q(2) by blast
    have sub: "ancestors H q \<subseteq> ancestors H p"
      using anc_add [of H ?k _ "Some p"] q(1) by (auto simp: ancestors_def) metis
    have below: "nHeight (H r) < nHeight (H p)" if "r \<in> set ps" for r
    proof -
      have "r \<in> ancestors H q" using ps(4) that by blast
      then obtain k where "anc H k (Some q) = Some r" by (auto simp: ancestors_def)
      then show ?thesis using anc_Some_height(2) [OF wf q(2)] q(3) False w(1) less.prems(2) by fastforce
    qed
    have one: "length ps = 1" if "nHeight (H q) = 0"
    proof -
      have "nHeight (H r) \<ge> 0" if r: "r \<in> set ps" for r
      proof -
        have "r \<in> ancestors H q" using ps(4) r by blast
        then obtain k where "anc H k (Some q) = Some r" by (auto simp: ancestors_def)
        then show ?thesis using wf_indexD(1) [OF wf anc_Some_height(1) [OF wf q(2)]] by simp
      qed
      then have "\<forall>r\<in>set ps. \<not> nHeight (H r) < 0" by (auto simp: not_less)
      then show ?thesis using ps(2,3,6) that by (cases ps; cases "tl ps") auto
    qed
    have "nStep * 2 ^ (length (p # ps) - (10 - length vHave) - 2) < nHeight (H p) + nStep"
      if len: "length (p # ps) \<ge> (10 - length vHave) + 2"
    proof (cases "length ?have > 10")
      case True
      show ?thesis
      proof (cases "length ps = 1")
        case True
        then show ?thesis using w(1) False \<open>length ?have > 10\<close> by simp
      next
        case no: False
        then obtain m where m: "length ps = Suc (Suc m)" using ps(2) by (cases ps; cases "tl ps") auto
        have h: "?h = nHeight (H p) - nStep" using one no q(3) by (auto simp: max_def split: if_splits)
        have "nStep * 2 * 2 ^ m < nHeight (H q) + nStep * 2" using ps(7) True m by simp
        then show ?thesis using True m q(3) h by simp
      qed
    next
      case no: False
      then have "length ps - (10 - length ?have) - 2 = length (p # ps) - (10 - length vHave) - 2"
        "length ps \<ge> (10 - length ?have) + 2" using len by auto
      then have "nStep * 2 ^ (length (p # ps) - (10 - length vHave) - 2) < nHeight (H q) + nStep"
        using ps(7) no by simp
      then show ?thesis using q(3) w(1) less.prems(2) by auto
    qed
    then show ?thesis using step ps sub below False
      by (intro exI [of _ "p # ps"]) (auto simp: ancestors_step [of H p] sorted_wrt_append)
  qed
qed

subsection \<open>An example\<close>

text \<open>Two branches of three and two blocks over a common start of two blocks, numbered as the entries are
  added: 0, 1, 2, 3, 4 is one chain and 0, 1, 2, 5, 6 is the other.\<close>

definition example_entry :: "int \<Rightarrow> ptr option \<Rightarrow> ptr option \<Rightarrow> CBlockIndex" where
  "example_entry h prev skip =
     CBlockIndex_SetNull\<lparr>phashBlock := replicate 32 (word_of_int h), nHeight := h, pprev := prev, pskip := skip\<rparr>"

definition example_heap :: heap where
  "example_heap p = example_entry ([0, 1, 2, 3, 4, 3, 4] ! p)
     ([None, Some 0, Some 1, Some 2, Some 3, Some 2, Some 5] ! p)
     ([None, Some 0, Some 0, Some 1, Some 0, Some 1, Some 0] ! p)"

lemma example_heap_simps [simp]:
  "nHeight (example_heap p) = [0, 1, 2, 3, 4, 3, 4] ! p"
  "pprev (example_heap p) = [None, Some 0, Some 1, Some 2, Some 3, Some 2, Some 5] ! p"
  "pskip (example_heap p) = [None, Some 0, Some 0, Some 1, Some 0, Some 1, Some 0] ! p"
  by (simp_all add: example_heap_def example_entry_def)

lemma GetSkipHeight_small:
  "GetSkipHeight 0 = 0" "GetSkipHeight 1 = 0" "GetSkipHeight 2 = 0" "GetSkipHeight 3 = 1" "GetSkipHeight 4 = 0"
  by code_simp+

lemma wf_index_list:
  "wf_index H (set ps) \<longleftrightarrow> list_all (\<lambda>p. nHeight (H p) \<ge> 0 \<and> (pprev (H p) = None \<longleftrightarrow> nHeight (H p) = 0) \<and>
     (case pprev (H p) of None \<Rightarrow> True | Some q \<Rightarrow> q \<in> set ps \<and> nHeight (H q) = nHeight (H p) - 1) \<and>
     (case pskip (H p) of None \<Rightarrow> True | Some s \<Rightarrow>
        anc H (nat (nHeight (H p) - GetSkipHeight (nHeight (H p)))) (Some p) = Some s)) ps"
proof -
  have "(\<forall>q. x = Some q \<longrightarrow> P q) \<longleftrightarrow> (case x of None \<Rightarrow> True | Some q \<Rightarrow> P q)" for x :: "ptr option" and P
    by (cases x) auto
  then show ?thesis by (simp add: wf_index_def list_all_iff)
qed

abbreviation example_blocks :: "ptr set" where "example_blocks \<equiv> set [0, 1, 2, 3, 4, 5, 6]"

lemma example_heap_wf: "wf_index example_heap example_blocks"
  unfolding wf_index_list by (simp add: GetSkipHeight_small numeral_eq_Suc)

lemma example_chain: "chain_of example_heap example_blocks (path_to example_heap 4)"
  by (auto simp: chain_of_def)

subsection \<open>The properties\<close>

text \<open>C25: In a well-formed tree the skip-list search for an ancestor finds what walking back one block at
  a time finds, for every height, the null pointer for heights above the block or below zero, and its
  assertion never fails. Building the skip pointer of a block keeps the tree well formed.\<close>

theorem GetAncestor_walks_back:
  assumes "wf_index H A" "p \<in> A"
  shows "GetAncestor H p height =
      Inr (if height > nHeight (H p) \<or> height < 0 then None else anc H (nat (nHeight (H p) - height)) (Some p)) \<and>
    (0 \<le> height \<and> height \<le> nHeight (H p) \<longrightarrow>
       (\<exists>q\<in>A. GetAncestor H p height = Inr (Some q) \<and> nHeight (H q) = height)) \<and>
    (\<exists>H'. BuildSkip H p = Inr H' \<and> wf_index H' A)"
  using GetAncestor_eq [OF assms] anc_height [OF assms, of "nat (nHeight (H p) - height)"] BuildSkip_wf [OF assms]
  by force

theorem GetAncestor_walks_back_witness:
  "GetAncestor example_heap 6 1 = Inr (anc example_heap 3 (Some 6)) \<and> anc example_heap 3 (Some 6) = Some 1"
proof -
  have "GetAncestor example_heap 6 1 = Inr (if 1 > nHeight (example_heap 6) \<or> (1 :: int) < 0 then None
      else anc example_heap (nat (nHeight (example_heap 6) - 1)) (Some 6))"
    using GetAncestor_walks_back [OF example_heap_wf, of 6 1] by simp
  moreover have "nHeight (example_heap 6) = 4" "anc example_heap 3 (Some 6) = Some 1" by (simp_all add: numeral_eq_Suc)
  ultimately show ?thesis by simp
qed

text \<open>C27: Setting the tip of a chain to any block of the tree, whatever the chain held before, makes the
  chain the path from the genesis block to the new tip: it contains exactly the tip and the ancestors of
  the tip. The loop of SetTip that stops early at an entry that is right already returns.\<close>

theorem SetTip_makes_path:
  assumes "wf_index H A" "chain_of H A v" "p \<in> A"
  shows "\<exists>v'. SetTip H v (Some p) = Some (Inr v') \<and> chain_of H A v' \<and> Tip v' = Some p \<and>
    Height v' = nHeight (H p) \<and> (\<forall>q\<in>A. Contains H v' q \<longleftrightarrow> q \<in> ancestors H p)"
  using SetTip_path [OF assms] assms Contains_path_to wf_indexD(1) [OF assms(1,3)]
  by (intro exI [of _ "path_to H p"]) (auto simp: chain_of_def Tip_def Height_def nth_path_to)

theorem SetTip_makes_path_witness:
  "\<exists>v'. SetTip example_heap (path_to example_heap 4) (Some 6) = Some (Inr v') \<and> Tip v' = Some 6"
  using SetTip_makes_path [OF example_heap_wf example_chain, of 6] by auto

text \<open>C26: FindFork returns, and the blocks that the chain shares with the ancestors of a block are exactly
  the block that FindFork finds and its ancestors; it returns the null pointer when there are none.\<close>

theorem FindFork_common:
  assumes "wf_index H A" "chain_of H A v" "p \<in> A"
  shows "\<exists>r. FindFork H v (Some p) = Some (Inr r) \<and>
    {q \<in> ancestors H p. Contains H v q} = (case r of None \<Rightarrow> {} | Some f \<Rightarrow> ancestors H f)"
  by (rule FindFork_common_blocks [OF assms(1) chain_of_linked [OF assms(1,2)] assms(3)])

theorem FindFork_common_witness:
  "\<exists>r. FindFork example_heap (path_to example_heap 4) (Some 6) = Some (Inr r) \<and>
    {q \<in> ancestors example_heap 6. Contains example_heap (path_to example_heap 4) q} =
      (case r of None \<Rightarrow> {} | Some f \<Rightarrow> ancestors example_heap f)"
  using FindFork_common [OF example_heap_wf example_chain, of 6] by auto



end
