(* ===== verification/ConsensusParams.thy ===== *)
theory ConsensusParams
  imports Transaction
begin

text \<open>
  The parameters of the consensus rules: consensus/params.h, with the values of the main network that
  chainparams.cpp sets. A number that the code writes as a hexadecimal string for \<open>uint256S\<close> is that
  number in 32 little-endian bytes.
\<close>

datatype DeploymentPos = DEPLOYMENT_TESTDUMMY | DEPLOYMENT_CSV

record BIP9Deployment =
  bit_pos :: nat
  nStartTime :: int
  nTimeout :: int

record Params =
  hashGenesisBlock :: uint256
  nSubsidyHalvingInterval :: int
  nMasternodePaymentsStartBlock :: int
  nMasternodePaymentsIncreaseBlock :: int
  nMasternodePaymentsIncreasePeriod :: int
  nInstaPayKeepLock :: int
  nBudgetPaymentsStartBlock :: int
  nBudgetPaymentsCycleBlocks :: int
  nBudgetPaymentsWindowBlocks :: int
  nBudgetProposalEstablishingTime :: int
  nSuperblockStartBlock :: int
  nSuperblockCycle :: int
  nGovernanceMinQuorum :: int
  nGovernanceFilterElements :: int
  nMasternodeMinimumConfirmations :: int
  nMajorityEnforceBlockUpgrade :: int
  nMajorityRejectBlockOutdated :: int
  nMajorityWindow :: int
  BIP34Height :: int
  BIP34Hash :: uint256
  nForkHeight :: int
  nRuleChangeActivationThreshold :: u32
  nMinerConfirmationWindow :: u32
  vDeployments :: "DeploymentPos \<Rightarrow> BIP9Deployment"
  powLimit :: uint256
  fPowAllowMinDifficultyBlocks :: bool
  fPowNoRetargeting :: bool
  nPowTargetSpacing :: int
  nPowTargetTimespan :: int
  nPowAveragingWindow :: int
  nPowMaxAdjustDown :: int
  nPowMaxAdjustUp :: int
  nUpdateDiffAlgoHeight :: int
  masternodeCount :: int

definition AveragingWindowTimespan :: "Params \<Rightarrow> int" where
  "AveragingWindowTimespan params = nPowAveragingWindow params * nPowTargetSpacing params"

definition MinActualTimespan :: "Params \<Rightarrow> int" where
  "MinActualTimespan params = cdiv (AveragingWindowTimespan params * (100 - nPowMaxAdjustUp params)) 100"

definition MaxActualTimespan :: "Params \<Rightarrow> int" where
  "MaxActualTimespan params = cdiv (AveragingWindowTimespan params * (100 + nPowMaxAdjustDown params)) 100"

definition DifficultyAdjustmentInterval :: "Params \<Rightarrow> int" where
  "DifficultyAdjustmentInterval params = cdiv (nPowTargetTimespan params) (nPowTargetSpacing params)"

definition main_deployments :: "DeploymentPos \<Rightarrow> BIP9Deployment" where
  "main_deployments pos = (case pos of
     DEPLOYMENT_TESTDUMMY \<Rightarrow> \<lparr>bit_pos = 28, nStartTime = 1199145601, nTimeout = 1230767999\<rparr>
   | DEPLOYMENT_CSV \<Rightarrow> \<lparr>bit_pos = 0, nStartTime = 1486252800, nTimeout = 1517788800\<rparr>)"

text \<open>The hash of the genesis block is the one that the code asserts; the constructor sets \<open>nForkHeight\<close> and
  \<open>masternodeCount\<close> at its end.\<close>

definition main_params :: Params where
  "main_params = \<lparr>
     hashGenesisBlock = le_bytes 32 0xaccdf67973e47cc980919b49f754e18af2f8f61369619a99a8bbc4123915b994,
     nSubsidyHalvingInterval = 5000000,
     nMasternodePaymentsStartBlock = 1,
     nMasternodePaymentsIncreaseBlock = 0,
     nMasternodePaymentsIncreasePeriod = 0,
     nInstaPayKeepLock = 24,
     nBudgetPaymentsStartBlock = 1,
     nBudgetPaymentsCycleBlocks = 10,
     nBudgetPaymentsWindowBlocks = 100,
     nBudgetProposalEstablishingTime = 60 * 60 * 24,
     nSuperblockStartBlock = 1,
     nSuperblockCycle = 1,
     nGovernanceMinQuorum = 10,
     nGovernanceFilterElements = 20000,
     nMasternodeMinimumConfirmations = 15,
     nMajorityEnforceBlockUpgrade = 750,
     nMajorityRejectBlockOutdated = 950,
     nMajorityWindow = 1000,
     BIP34Height = 1,
     BIP34Hash = le_bytes 32 0x000007d91d1254d60e2dd1ae580383070a4ddffa4c64c2eeb4a2f9ecc0414343,
     nForkHeight = 280111,
     nRuleChangeActivationThreshold = 1916,
     nMinerConfirmationWindow = 2016,
     vDeployments = main_deployments,
     powLimit = le_bytes 32 0x00000fffffffffffffffffffffffffffffffffffffffffffffffffffffffffff,
     fPowAllowMinDifficultyBlocks = True,
     fPowNoRetargeting = False,
     nPowTargetSpacing = 1 * 60,
     nPowTargetTimespan = 24 * 60 * 60,
     nPowAveragingWindow = 5,
     nPowMaxAdjustDown = 48,
     nPowMaxAdjustUp = 32,
     nUpdateDiffAlgoHeight = 0,
     masternodeCount = 500000 * COIN\<rparr>"

lemma main_timespans:
  "AveragingWindowTimespan main_params = 300" "MinActualTimespan main_params = 204"
  "MaxActualTimespan main_params = 444"
  by (simp_all add: AveragingWindowTimespan_def MinActualTimespan_def MaxActualTimespan_def main_params_def cdiv_def)

end
