(* ===== verification/Pow.thy ===== *)
theory Pow
  imports Chain ConsensusParams
begin

text \<open>
  Proof of work: pow.cpp. A target is the 256-bit number below which the hash of a block must be, a
  block stores it in the compact format. The required target of a block is the average of the targets
  of a window of blocks, scaled by the time that the window took.

  The conversions are those that C++ selects: \<open>bnNew *= n\<close> with a 64-bit \<open>n\<close> is the operator for
  \<open>uint32_t\<close>, \<open>bnNew /= n\<close> converts \<open>n\<close> to \<open>uint64_t\<close> and then to a big integer. The height of the
  active chain is a parameter of \<open>CheckProofOfWork\<close>.
\<close>

datatype pow_exit = Uint uint_error | Exit cxx_exit

fun lift_uint :: "uint_error + 'a \<Rightarrow> pow_exit + 'a" where
  "lift_uint (Inl e) = Inl (Uint e)" | "lift_uint (Inr x) = Inr x"

fun lift_exit :: "cxx_exit + 'a \<Rightarrow> pow_exit + 'a" where
  "lift_exit (Inl e) = Inl (Exit e)" | "lift_exit (Inr x) = Inr x"

definition mul_int64 :: "base_uint \<Rightarrow> int \<Rightarrow> base_uint" where
  "mul_int64 a n = uint_mul32 a (word_of_int n)"

definition arith_of_int64 :: "int \<Rightarrow> base_uint" where
  "arith_of_int64 n = uint_of_u64 8 (word_of_int n)"

definition div_int64 :: "base_uint \<Rightarrow> int \<Rightarrow> pow_exit + base_uint" where
  "div_int64 a n = lift_uint (uint_div a (arith_of_int64 n))"

partial_function (option) GetLastBlockIndex :: "heap \<Rightarrow> ptr option \<Rightarrow> ptr option option" where
  "GetLastBlockIndex H pindex =
     (case pindex of
        None \<Rightarrow> Some None
      | Some p \<Rightarrow> if pprev (H p) \<noteq> None then GetLastBlockIndex H (pprev (H p)) else Some pindex)"

definition CalculateNextWorkRequired :: "base_uint \<Rightarrow> int \<Rightarrow> int \<Rightarrow> Params \<Rightarrow> pow_exit + u32" where
  "CalculateNextWorkRequired bnAvg nLastBlockTime nFirstBlockTime params =
     (let nActualTimespan = nLastBlockTime - nFirstBlockTime;
          nActualTimespan = AveragingWindowTimespan params + cdiv (nActualTimespan - AveragingWindowTimespan params) 4;
          nActualTimespan = (if nActualTimespan < MinActualTimespan params then MinActualTimespan params else nActualTimespan);
          nActualTimespan = (if nActualTimespan > MaxActualTimespan params then MaxActualTimespan params else nActualTimespan);
          bnPowLimit = UintToArith256 (powLimit params) in
      ebind (div_int64 bnAvg (AveragingWindowTimespan params)) (\<lambda>bnNew.
      let bnNew = mul_int64 bnNew nActualTimespan;
          bnNew = (if CompareTo bnNew bnPowLimit > 0 then bnPowLimit else bnNew) in
      lift_exit (GetCompact bnNew False)))"

text \<open>The loop over the averaging window: the sum of the targets with the block where it stopped.\<close>

fun window_loop :: "heap \<Rightarrow> nat \<Rightarrow> ptr option \<Rightarrow> base_uint \<Rightarrow> base_uint \<times> ptr option" where
  "window_loop H 0 pindexFirst bnTot = (bnTot, pindexFirst)"
| "window_loop H (Suc i) None bnTot = (bnTot, None)"
| "window_loop H (Suc i) (Some p) bnTot =
     window_loop H i (pprev (H p)) (uint_add bnTot (fst (SetCompact (nBits (H p)))))"

definition DeriveNextWorkRequired :: "heap \<Rightarrow> ptr option \<Rightarrow> Params \<Rightarrow> pow_exit + u32" where
  "DeriveNextWorkRequired H pindexLast params =
     ebind (lift_exit (GetCompact (UintToArith256 (powLimit params)) False)) (\<lambda>nProofOfWorkLimit.
     case pindexLast of
       None \<Rightarrow> Inr nProofOfWorkLimit
     | Some p \<Rightarrow>
         if nHeight (H p) + 1 = nForkHeight params then Inr nProofOfWorkLimit
         else if nHeight (H p) + 1 = nForkHeight params + 1 then Inr nProofOfWorkLimit
         else
           case window_loop H (nat (nPowAveragingWindow params)) (Some p) (uint_of_u64 8 0) of
             (bnTot, None) \<Rightarrow> Inr nProofOfWorkLimit
           | (bnTot, Some pindexFirst) \<Rightarrow>
               ebind (div_int64 bnTot (nPowAveragingWindow params)) (\<lambda>bnAvg.
               CalculateNextWorkRequired bnAvg (GetMedianTimePast H p) (GetMedianTimePast H pindexFirst) params))"

text \<open>The retargeting of \<open>GetNextWorkRequired\<close> itself, from the last two blocks that it found.\<close>

definition retarget :: "heap \<Rightarrow> ptr \<Rightarrow> ptr \<Rightarrow> u32 \<Rightarrow> Params \<Rightarrow> pow_exit + u32" where
  "retarget H pindexPrev pindexPrevPrev nProofOfWorkLimit params =
     (let nTargetSpacing = nPowTargetTimespan params;
          nActualSpacing = GetBlockTime (H pindexPrev) - GetBlockTime (H pindexPrevPrev);
          nActualSpacing =
            (if nActualSpacing < 0 then nTargetSpacing
             else if nActualSpacing > nTargetSpacing * 10 then nTargetSpacing * 10
             else nActualSpacing);
          bnNew = fst (SetCompact (nBits (H pindexPrev)));
          nInterval = 10;
          bnNew = mul_int64 bnNew ((nInterval - 1) * nTargetSpacing + nActualSpacing + nActualSpacing) in
      ebind (div_int64 bnNew ((nInterval + 1) * nTargetSpacing)) (\<lambda>bnNew.
      let bnNew =
            (if CompareTo bnNew (uint_of_u64 8 0) \<le> 0 \<or> CompareTo bnNew (uint_of_u64 8 (ucast nProofOfWorkLimit)) > 0
             then uint_of_u64 8 (ucast nProofOfWorkLimit) else bnNew) in
      lift_exit (GetCompact bnNew False)))"

definition GetNextWorkRequired :: "heap \<Rightarrow> ptr option \<Rightarrow> Params \<Rightarrow> (pow_exit + u32) option" where
  "GetNextWorkRequired H pindexLast params =
     (case pindexLast of
        None \<Rightarrow> Some (Inl (Exit Undefined))
      | Some p \<Rightarrow>
          if \<not> nHeight (H p) \<ge> nUpdateDiffAlgoHeight params then
            (case lift_exit (GetCompact (UintToArith256 (powLimit params)) False) of
               Inl e \<Rightarrow> Some (Inl e)
             | Inr nProofOfWorkLimit \<Rightarrow>
                 case GetLastBlockIndex H pindexLast of
                   None \<Rightarrow> None
                 | Some None \<Rightarrow> Some (Inl (Exit Undefined))
                 | Some (Some pindexPrev) \<Rightarrow>
                     if pprev (H pindexPrev) = None then Some (Inr nProofOfWorkLimit)
                     else
                       case GetLastBlockIndex H (pprev (H pindexPrev)) of
                         None \<Rightarrow> None
                       | Some None \<Rightarrow> Some (Inl (Exit Undefined))
                       | Some (Some pindexPrevPrev) \<Rightarrow>
                           if pprev (H pindexPrevPrev) = None then Some (Inr nProofOfWorkLimit)
                           else Some (retarget H pindexPrev pindexPrevPrev nProofOfWorkLimit params))
          else Some (DeriveNextWorkRequired H pindexLast params))"

text \<open>The overload that is kept for the rules of Bitcoin.\<close>

definition CalculateNextWorkRequired_btc :: "heap \<Rightarrow> ptr \<Rightarrow> int \<Rightarrow> Params \<Rightarrow> pow_exit + u32" where
  "CalculateNextWorkRequired_btc H pindexLast nFirstBlockTime params =
     (if fPowNoRetargeting params then Inr (nBits (H pindexLast))
      else
        let nActualTimespan = GetBlockTime (H pindexLast) - nFirstBlockTime;
            nActualTimespan =
              (if nActualTimespan < cdiv (nPowTargetTimespan params) 4 then cdiv (nPowTargetTimespan params) 4
               else nActualTimespan);
            nActualTimespan =
              (if nActualTimespan > nPowTargetTimespan params * 4 then nPowTargetTimespan params * 4
               else nActualTimespan);
            bnPowLimit = UintToArith256 (powLimit params);
            bnNew = fst (SetCompact (nBits (H pindexLast)));
            bnNew = mul_int64 bnNew nActualTimespan in
        ebind (div_int64 bnNew (nPowTargetTimespan params)) (\<lambda>bnNew.
        let bnNew = (if CompareTo bnNew bnPowLimit > 0 then bnPowLimit else bnNew) in
        lift_exit (GetCompact bnNew False)))"

definition CheckProofOfWork :: "int \<Rightarrow> uint256 \<Rightarrow> u32 \<Rightarrow> Params \<Rightarrow> bool" where
  "CheckProofOfWork chain_height hash nbits params =
     (let (bnTarget, fNegative, fOverflow) = SetCompact nbits in
      if fNegative \<or> EqualTo bnTarget 0 \<or> fOverflow \<or> CompareTo bnTarget (UintToArith256 (powLimit params)) > 0
      then False
      else if chain_height > nForkHeight params + 2 then
        (if CompareTo (UintToArith256 hash) bnTarget > 0 then False else True)
      else True)"

definition GetBlockProof :: "CBlockIndex \<Rightarrow> pow_exit + base_uint" where
  "GetBlockProof block =
     (let (bnTarget, fNegative, fOverflow) = SetCompact (nBits block) in
      if fNegative \<or> fOverflow \<or> EqualTo bnTarget 0 then Inr (uint_of_u64 8 0)
      else ebind (lift_uint (uint_div (uint_not bnTarget) (uint_add bnTarget (uint_of_u64 8 1))))
             (\<lambda>q. Inr (uint_add q (uint_of_u64 8 1))))"

definition GetBlockProofEquivalentTime ::
  "CBlockIndex \<Rightarrow> CBlockIndex \<Rightarrow> CBlockIndex \<Rightarrow> Params \<Rightarrow> pow_exit + int" where
  "GetBlockProofEquivalentTime to from tip params =
     (let (r, sign) =
        (if CompareTo (nChainWork to) (nChainWork from) > 0
         then (uint_sub (nChainWork to) (nChainWork from), 1)
         else (uint_sub (nChainWork from) (nChainWork to), -1)) in
      ebind (GetBlockProof tip) (\<lambda>proof.
      ebind (lift_uint (uint_div (uint_mul r (arith_of_int64 (nPowTargetSpacing params))) proof)) (\<lambda>r.
      if uint_bits r > 63 then Inr (sign * int64_max)
      else Inr (signed_of 64 (unat (word_of_int sign * GetLow64 r))))))"

subsection \<open>Values\<close>

lemma length_UintToArith256 [simp]: "length (UintToArith256 h) = 8"
  by (simp add: UintToArith256_def)

lemma uint_mod_8: "length a = 8 \<Longrightarrow> uint_mod a = 2 ^ 256"
  by simp

lemma length_SetCompact [simp]: "length (fst (SetCompact c)) = 8"
  by (simp add: SetCompact_def Let_def uval_shl(1) split: prod.split)

lemma SetCompact_cases:
  obtains w k where "uval (fst (SetCompact c)) = (w * 256 ^ k) mod 2 ^ 256" "w < 2 ^ 23"
proof -
  define s where "s = unat (drop_bit 24 c)"
  have w: "unat (c AND 0x007fffff) < 2 ^ 23" unfolding unat_and_mask23 by simp
  show thesis
  proof (cases "s \<le> 3")
    case True
    let ?w = "unat (drop_bit (8 * (3 - s)) (c AND 0x007fffff))"
    have "?w \<le> unat (c AND 0x007fffff)" unfolding unat_drop_bit by simp
    then have "?w < 2 ^ 23" using w by simp
    moreover have "uval (fst (SetCompact c)) = unat (ucast (drop_bit (8 * (3 - s)) (c AND 0x007fffff)) :: u64)"
      using True by (simp add: SetCompact_def Let_def s_def uval_of_u64)
    then have "uval (fst (SetCompact c)) = ?w"
      by (simp only: unat_ucast_32_64)
    ultimately show thesis using that [of ?w 0] by simp
  next
    case False
    then have "uval (fst (SetCompact c)) = (unat (c AND 0x007fffff) * 2 ^ (8 * (s - 3))) mod 2 ^ 256"
      by (simp add: SetCompact_def Let_def s_def uval_shl(2) uval_of_u64 unat_ucast_32_64)
    then show thesis using that [OF _ w, of "s - 3"] by (simp add: power_mult)
  qed
qed

lemma SetCompact_not_max: "uval (fst (SetCompact c)) + 1 < 2 ^ 256"
proof -
  obtain w k where w: "uval (fst (SetCompact c)) = (w * 256 ^ k) mod 2 ^ 256" "w < 2 ^ 23" by (rule SetCompact_cases)
  show ?thesis
  proof (cases k)
    case (Suc j)
    have "256 dvd w * 256 ^ k" using Suc by simp
    moreover have "(256 :: nat) dvd 2 ^ 256" by (simp add: le_imp_power_dvd [of 8 256 "2 :: nat", simplified])
    ultimately have "256 dvd uval (fst (SetCompact c))" unfolding w(1) by (rule dvd_mod)
    then have "uval (fst (SetCompact c)) \<noteq> 2 ^ 256 - 1" by auto
    moreover have "uval (fst (SetCompact c)) < 2 ^ 256" unfolding w(1) by (rule mod_less_divisor) simp
    ultimately show ?thesis by linarith
  qed (use w in simp)
qed

lemma uval_not_8: "length a = 8 \<Longrightarrow> uval (uint_not a) = 2 ^ 256 - (uval a + 1)"
  using uval_not [of a] by simp

lemma uval_add_8: "length a = 8 \<Longrightarrow> length b = 8 \<Longrightarrow> uval a + uval b < 2 ^ 256 \<Longrightarrow> uval (uint_add a b) = uval a + uval b"
  using uval_add [of a b] by simp

lemma length_of_u64_8 [simp]: "length (uint_of_u64 8 n) = 8"
  by simp

lemma uint_div_8:
  assumes "length a = 8" "length b = 8" "uval b \<noteq> 0"
  obtains q where "uint_div a b = Inr q" "length q = 8" "uval q = uval a div uval b"
  using uval_div [of a b] assms by auto

lemma unat_of_int_u64: "0 \<le> n \<Longrightarrow> n < 2 ^ 64 \<Longrightarrow> unat (word_of_int n :: u64) = nat n"
  unfolding unat_eq_nat_uint uint_word_of_int by simp

lemma unat_of_int_u32: "0 \<le> n \<Longrightarrow> n < 2 ^ 32 \<Longrightarrow> unat (word_of_int n :: u32) = nat n"
  unfolding unat_eq_nat_uint uint_word_of_int by simp

lemma uval_arith_of_int64: "0 \<le> n \<Longrightarrow> n < 2 ^ 64 \<Longrightarrow> uval (arith_of_int64 n) = nat n"
  by (simp add: arith_of_int64_def uval_of_u64 unat_of_int_u64)

lemma div_int64_eq:
  assumes "length a = 8" "0 < n" "n < 2 ^ 64"
  obtains q where "div_int64 a n = Inr q" "length q = 8" "uval q = uval a div nat n"
proof -
  have "uval (arith_of_int64 n) = nat n" by (rule uval_arith_of_int64) (use assms in auto)
  then obtain q where "uint_div a (arith_of_int64 n) = Inr q" "length q = 8" "uval q = uval a div nat n"
    using uint_div_8 [of a "arith_of_int64 n"] assms(1,2) by (auto simp: arith_of_int64_def)
  then show thesis by (intro that) (simp_all add: div_int64_def)
qed

lemma length_mul_int64 [simp]: "length (mul_int64 a n) = length a"
  by (simp add: mul_int64_def uint_mul32_def)

lemma uval_mul_int64:
  assumes "length a = 8" "0 \<le> n" "n < 2 ^ 32" "uval a * nat n < 2 ^ 256"
  shows "uval (mul_int64 a n) = uval a * nat n"
proof -
  have "unat (word_of_int n :: u32) = nat n"
    using assms(2,3) by (simp add: unat_of_int_u32)
  then show ?thesis using assms(1,4) by (simp add: mul_int64_def uval_mul32)
qed

subsection \<open>Work\<close>

lemma GetBlockProof_eq:
  assumes "SetCompact (nBits block) = (t, neg, ovf)"
  shows "\<exists>w. GetBlockProof block = Inr w \<and> length w = 8 \<and>
    uval w = (if neg \<or> ovf \<or> uval t = 0 then 0 else 2 ^ 256 div (uval t + 1))"
proof (cases "neg \<or> ovf \<or> uval t = 0")
  case True
  have "length t = 8" using length_SetCompact [of "nBits block"] assms by simp
  then show ?thesis using True assms EqualTo_uval [of t 0]
    by (auto simp: GetBlockProof_def uval_of_u64)
next
  case False
  have t: "length t = 8" "uval t + 1 < 2 ^ 256"
    using length_SetCompact [of "nBits block"] SetCompact_not_max [of "nBits block"] assms by simp_all
  have one: "uval (uint_of_u64 8 1) = 1" by (simp add: uval_of_u64)
  have t1: "uval (uint_add t (uint_of_u64 8 1)) = uval t + 1"
    using uval_add_8 [of t "uint_of_u64 8 1"] t one by simp
  obtain q where q: "uint_div (uint_not t) (uint_add t (uint_of_u64 8 1)) = Inr q" "length q = 8"
    "uval q = (2 ^ 256 - (uval t + 1)) div (uval t + 1)"
    using uint_div_8 [of "uint_not t" "uint_add t (uint_of_u64 8 1)"] t t1 uval_not_8 [of t] by auto
  have "Suc (uval q) = 2 ^ 256 div (uval t + 1)"
    unfolding q(3) using t(2) by (subst (2) le_div_geq) auto
  moreover have "2 ^ 256 div (uval t + 1) < 2 ^ 256" using False by (intro div_less_dividend) auto
  ultimately have "uval (uint_add q (uint_of_u64 8 1)) = 2 ^ 256 div (uval t + 1)"
    using uval_add_8 [of q "uint_of_u64 8 1"] q(2) one by simp
  then show ?thesis using False assms q EqualTo_uval [of t 0] t(1)
    by (auto simp: GetBlockProof_def)
qed

subsection \<open>Retargeting\<close>

definition clamp_timespan :: "Params \<Rightarrow> int \<Rightarrow> int" where
  "clamp_timespan params d = max (MinActualTimespan params) (min (MaxActualTimespan params)
     (AveragingWindowTimespan params + cdiv (d - AveragingWindowTimespan params) 4))"

text \<open>The target that the rule asks for, before it is rounded to the compact format.\<close>

definition next_target :: "Params \<Rightarrow> nat \<Rightarrow> int \<Rightarrow> nat" where
  "next_target params avg d = min (uval (UintToArith256 (powLimit params)))
     (avg div nat (AveragingWindowTimespan params) * nat (clamp_timespan params d))"

text \<open>What the parameters of a network have to satisfy, for targets up to a bound.\<close>

definition pow_params_ok :: "Params \<Rightarrow> nat \<Rightarrow> bool" where
  "pow_params_ok params avg \<longleftrightarrow> 0 < AveragingWindowTimespan params \<and>
     AveragingWindowTimespan params < 2 ^ 32 \<and> 0 < MinActualTimespan params \<and>
     MinActualTimespan params \<le> MaxActualTimespan params \<and> MaxActualTimespan params < 2 ^ 32 \<and>
     avg div nat (AveragingWindowTimespan params) * nat (MaxActualTimespan params) < 2 ^ 256"

lemma CalculateNextWorkRequired_eq:
  assumes "length avg = 8" "pow_params_ok params (uval avg)" and goal: "goal = next_target params (uval avg) (l - f)"
  shows "\<exists>c v k. CalculateNextWorkRequired avg l f params = Inr c \<and> SetCompact c = (v, False, False) \<and>
    length v = 8 \<and> uval v = goal div 256 ^ k * 256 ^ k \<and> (goal - uval v) * 2 ^ 15 \<le> goal"
proof -
  let ?t = "clamp_timespan params (l - f)" and ?limit = "UintToArith256 (powLimit params)"
  obtain q where q: "div_int64 avg (AveragingWindowTimespan params) = Inr q" "length q = 8"
    "uval q = uval avg div nat (AveragingWindowTimespan params)"
    using div_int64_eq [of avg "AveragingWindowTimespan params"] assms(1,2) by (auto simp: pow_params_ok_def)
  have t: "0 \<le> ?t" "?t \<le> MaxActualTimespan params"
    using assms(2) by (auto simp: clamp_timespan_def pow_params_ok_def)
  have "uval q * nat ?t \<le> uval q * nat (MaxActualTimespan params)" using t by (intro mult_le_mono2) simp
  then have m: "uval (mul_int64 q ?t) = uval q * nat ?t"
    using assms(2) q(2,3) t
    by (intro uval_mul_int64 le_less_trans [OF \<open>_ \<le> uval q * nat (MaxActualTimespan params)\<close>])
      (simp_all add: pow_params_ok_def)
  define n where "n = (if CompareTo (mul_int64 q ?t) ?limit > 0 then ?limit else mul_int64 q ?t)"
  have n: "length n = 8" "uval n = goal"
    using q(2,3) m CompareTo_uval [of "mul_int64 q ?t" ?limit] by (auto simp: n_def goal next_target_def)
  have "CalculateNextWorkRequired avg l f params = lift_exit (GetCompact n False)"
    using q(1) assms(2) unfolding CalculateNextWorkRequired_def Let_def n_def clamp_timespan_def pow_params_ok_def
    by (auto simp: max_def min_def)
  then show ?thesis using compact_representation [OF n(1)] n(2) by fastforce
qed

lemma clamp_timespan_bounds:
  assumes "pow_params_ok params avg"
  shows "MinActualTimespan params \<le> clamp_timespan params d" "clamp_timespan params d \<le> MaxActualTimespan params"
  using assms by (auto simp: clamp_timespan_def pow_params_ok_def)

lemma pow_params_ok_mono:
  assumes "pow_params_ok params a" "b \<le> a"
  shows "pow_params_ok params b"
proof -
  let ?t = "nat (AveragingWindowTimespan params)" and ?m = "nat (MaxActualTimespan params)"
  have "b div ?t * ?m \<le> a div ?t * ?m" by (intro mult_le_mono1 div_le_mono assms(2))
  also have "a div ?t * ?m < 2 ^ 256" using assms(1) by (simp add: pow_params_ok_def)
  finally show ?thesis using assms(1) unfolding pow_params_ok_def by blast
qed

lemma next_target_pos:
  assumes "pow_params_ok params avg" "nat (AveragingWindowTimespan params) \<le> avg"
    and "0 < uval (UintToArith256 (powLimit params))"
  shows "0 < next_target params avg d"
proof -
  have "0 < avg div nat (AveragingWindowTimespan params)"
    using assms(1,2) by (auto simp: pow_params_ok_def div_greater_zero_iff)
  moreover have "0 < nat (clamp_timespan params d)"
    using clamp_timespan_bounds(1) [OF assms(1), of d] assms(1) by (auto simp: pow_params_ok_def)
  ultimately show ?thesis using assms(3) by (simp add: next_target_def)
qed

lemma uval_limbs_of_bytes:
  "length a = 4 * n \<Longrightarrow> uval (map (\<lambda>x. word_of_nat (le_val (take 4 (drop (x * 4) a)))) [0..<n]) = le_val a"
proof (induction n arbitrary: a)
  case (Suc n)
  have l: "le_val (take 4 a) < 2 ^ 32" using le_val_less [of "take 4 a"] Suc.prems by simp
  have "[0..<Suc n] = 0 # map Suc [0..<n]" by (simp add: upt_conv_Cons map_Suc_upt del: upt_Suc)
  then have "uval (map (\<lambda>x. word_of_nat (le_val (take 4 (drop (x * 4) a)))) [0..<Suc n]) =
      unat (word_of_nat (le_val (take 4 a)) :: u32) +
      2 ^ 32 * uval (map (\<lambda>x. word_of_nat (le_val (take 4 (drop (x * 4) (drop 4 a))))) [0..<n])"
    by (simp add: comp_def add.commute del: upt_Suc)
  also have "\<dots> = le_val (take 4 a) + 2 ^ 32 * le_val (drop 4 a)"
    using Suc.IH [of "drop 4 a"] Suc.prems l by (simp add: unat_of_nat)
  also have "\<dots> = le_val (take 4 a @ drop 4 a)"
    using Suc.prems by (subst le_val_append) simp
  finally show ?case by simp
qed simp

lemma uval_UintToArith256: "length a = 32 \<Longrightarrow> uval (UintToArith256 a) = le_val a"
  using uval_limbs_of_bytes [of a 8] by (simp add: UintToArith256_def)

lemma uval_UintToArith256_le_bytes: "uval (UintToArith256 (le_bytes 32 n)) = n mod 2 ^ 256"
  by (simp add: uval_UintToArith256 le_val_le_bytes)

subsection \<open>The averaging window\<close>

abbreviation target :: "heap \<Rightarrow> ptr \<Rightarrow> nat" where
  "target H p \<equiv> uval (fst (SetCompact (nBits (H p))))"

lemma window_loop_sum:
  assumes wf: "wf_index H A" and L: "\<And>q. q \<in> A \<Longrightarrow> target H q \<le> L"
  shows "p \<in> A \<Longrightarrow> int n \<le> nHeight (H p) + 1 \<Longrightarrow> length tot = 8 \<Longrightarrow> uval tot + n * L < 2 ^ 256 \<Longrightarrow>
    \<exists>tot'. window_loop H n (Some p) tot = (tot', anc H n (Some p)) \<and> length tot' = 8 \<and>
      uval tot' = uval tot + (\<Sum>j<n. target H (the (anc H j (Some p))))"
proof (induction n arbitrary: p tot)
  case (Suc n)
  let ?t = "fst (SetCompact (nBits (H p)))"
  have add: "uval (uint_add tot ?t) = uval tot + target H p"
    using L [OF Suc.prems(1)] Suc.prems(3,4) by (intro uval_add_8) auto
  have sum: "(\<Sum>j<Suc n. target H (the (anc H j (Some p)))) =
      target H p + (\<Sum>j<n. target H (the (anc H j (pprev (H p)))))"
    by (subst sum.lessThan_Suc_shift) simp
  show ?case
  proof (cases "pprev (H p)")
    case None
    then have "n = 0" using Suc.prems(2) wf_indexD(2) [OF wf Suc.prems(1)] by simp
    then show ?thesis using add Suc.prems(3) by simp
  next
    case (Some r)
    have "\<exists>tot'. window_loop H n (Some r) (uint_add tot ?t) = (tot', anc H n (Some r)) \<and> length tot' = 8 \<and>
        uval tot' = uval (uint_add tot ?t) + (\<Sum>j<n. target H (the (anc H j (Some r))))"
    proof (rule Suc.IH)
      show "r \<in> A" "int n \<le> nHeight (H r) + 1"
        using wf_indexD(3,4) [OF wf Suc.prems(1) Some] Suc.prems(2) by auto
      show "length (uint_add tot ?t) = 8" using Suc.prems(3) by simp
      show "uval (uint_add tot ?t) + n * L < 2 ^ 256"
        using add L [OF Suc.prems(1)] Suc.prems(4) by simp
    qed
    then show ?thesis using Some add sum by auto
  qed
qed simp

lemma window_loop_short:
  assumes wf: "wf_index H A"
  shows "p \<in> A \<Longrightarrow> int n > nHeight (H p) \<Longrightarrow> snd (window_loop H n (Some p) tot) = None"
proof (induction n arbitrary: p tot)
  case 0
  then show ?case using wf_indexD(1) [OF wf 0(1)] by simp
next
  case (Suc n)
  show ?case
  proof (cases "pprev (H p)")
    case None
    then show ?thesis by (cases n) simp_all
  next
    case (Some r)
    then show ?thesis using Suc.IH [of r] wf_indexD(3,4) [OF wf Suc.prems(1) Some] Suc.prems(2) by simp
  qed
qed

lemma GetLastBlockIndex_genesis:
  assumes wf: "wf_index H A"
  shows "p \<in> A \<Longrightarrow> \<exists>g. GetLastBlockIndex H (Some p) = Some (Some g) \<and> pprev (H g) = None"
proof (induction "nat (nHeight (H p))" arbitrary: p rule: less_induct)
  case less
  show ?case
  proof (cases "pprev (H p)")
    case None
    then show ?thesis by (subst GetLastBlockIndex.simps) simp
  next
    case (Some r)
    note w = wf_indexD(3,4) [OF wf less.prems Some]
    have "nat (nHeight (H r)) < nat (nHeight (H p))" using w wf_indexD(1) [OF wf w(1)] by simp
    from less.hyps [OF this w(1)] show ?thesis using Some by (subst GetLastBlockIndex.simps) simp
  qed
qed

lemma DeriveNextWorkRequired_eq:
  assumes wf: "wf_index H A" and p: "p \<in> A" and n: "nPowAveragingWindow params = int n" "0 < n" "n < 2 ^ 64"
    and L: "\<And>q. q \<in> A \<Longrightarrow> target H q \<le> uval (UintToArith256 (powLimit params))"
    and no_overflow: "n * uval (UintToArith256 (powLimit params)) < 2 ^ 256"
    and ok: "pow_params_ok params (uval (UintToArith256 (powLimit params)))"
    and h: "int n \<le> nHeight (H p)" "nHeight (H p) + 1 \<noteq> nForkHeight params" "nHeight (H p) \<noteq> nForkHeight params"
    and first: "anc H n (Some p) = Some f"
    and goal: "goal = next_target params ((\<Sum>j<n. target H (the (anc H j (Some p)))) div n)
      (GetMedianTimePast H p - GetMedianTimePast H f)"
  shows "\<exists>c v k. DeriveNextWorkRequired H (Some p) params = Inr c \<and> SetCompact c = (v, False, False) \<and>
    length v = 8 \<and> uval v = goal div 256 ^ k * 256 ^ k \<and> (goal - uval v) * 2 ^ 15 \<le> goal"
proof -
  let ?L = "uval (UintToArith256 (powLimit params))"
  obtain lim where lim: "GetCompact (UintToArith256 (powLimit params)) False = Inr lim"
    using compact_representation [of "UintToArith256 (powLimit params)"] by auto
  obtain tot where tot: "window_loop H n (Some p) (uint_of_u64 8 0) = (tot, Some f)" "length tot = 8"
      "uval tot = (\<Sum>j<n. target H (the (anc H j (Some p))))"
    using window_loop_sum [OF wf L p, of n "uint_of_u64 8 0"] h(1) no_overflow first by (auto simp: uval_of_u64)
  obtain avg where avg: "div_int64 tot (int n) = Inr avg" "length avg = 8" "uval avg = uval tot div n"
    using div_int64_eq [OF tot(2), of "int n"] n(2,3) by auto
  have "target H (the (anc H j (Some p))) \<le> ?L" if "j < n" for j
    using anc_height [OF wf p, of j] that h(1) L by fastforce
  then have "uval tot \<le> n * ?L" unfolding tot(3) using sum_bounded_above [of "{..<n}" _ ?L] by simp
  then have "uval avg \<le> ?L" unfolding avg(3) using div_le_mono [of "uval tot" "n * ?L" n] n(2) by simp
  from CalculateNextWorkRequired_eq [OF avg(2) pow_params_ok_mono [OF ok this] refl]
  show ?thesis
    using lim tot avg n h goal by (simp add: DeriveNextWorkRequired_def)
qed

subsection \<open>The properties\<close>

text \<open>A chain of blocks whose targets are that of the genesis block of the main network.\<close>

definition example_pow_heap :: heap where
  "example_pow_heap p = CBlockIndex_SetNull\<lparr>nHeight := int p, pprev := (if p = 0 then None else Some (p - 1)),
     nBits := 0x1e0ffff0, nTime := word_of_nat (1509937200 + 60 * p)\<rparr>"

lemma example_pow_heap_simps [simp]:
  "nHeight (example_pow_heap p) = int p" "pprev (example_pow_heap p) = (if p = 0 then None else Some (p - 1))"
  "pskip (example_pow_heap p) = None"
  by (simp_all add: example_pow_heap_def CBlockIndex_SetNull_def)

lemma example_pow_heap_wf: "wf_index example_pow_heap UNIV"
  by (auto simp: wf_index_def)

lemma example_pow_target: "target example_pow_heap p = 0xffff0 * 2 ^ 216"
  by (simp add: example_pow_heap_def SetCompact_def uval_shl(2) uval_of_u64)

lemma main_powLimit: "uval (UintToArith256 (powLimit main_params)) = 2 ^ 236 - 1"
  by (simp add: main_params_def uval_UintToArith256_le_bytes)

lemma example_pow_bounds:
  "target example_pow_heap q \<le> uval (UintToArith256 (powLimit main_params))"
  "nat (AveragingWindowTimespan main_params) \<le> target example_pow_heap q"
  "5 * uval (UintToArith256 (powLimit main_params)) < 2 ^ 256"
  "pow_params_ok main_params (uval (UintToArith256 (powLimit main_params)))"
  unfolding main_powLimit example_pow_target by (simp_all add: pow_params_ok_def main_timespans)

lemma main_pow_params: "nPowAveragingWindow main_params = int 5" "nForkHeight main_params = 280111"
  by (simp_all add: main_params_def)



lemma CheckProofOfWork_eq:
  assumes "SetCompact c = (t, neg, ovf)"
  shows "CheckProofOfWork h hash c params \<longleftrightarrow> \<not> neg \<and> \<not> ovf \<and> 0 < uval t \<and>
    uval t \<le> uval (UintToArith256 (powLimit params)) \<and>
    (h > nForkHeight params + 2 \<longrightarrow> uval (UintToArith256 hash) \<le> uval t)"
proof -
  have "length t = 8" using length_SetCompact [of c] assms by simp
  then show ?thesis using assms
    by (auto simp: CheckProofOfWork_def EqualTo_uval CompareTo_uval)
qed

lemma compact_positive:
  assumes "(goal - n :: nat) * 2 ^ 15 \<le> goal" "0 < goal"
  shows "0 < n"
  using assms by (cases n) auto

text \<open>Every case of \<open>GetNextWorkRequired\<close> gives the limit or the averaged target.\<close>

lemma GetNextWorkRequired_cases:
  assumes wf: "wf_index H A" and p: "p \<in> A"
    and n: "nPowAveragingWindow params = int n" "0 < n" "n < 2 ^ 64"
    and L: "\<And>q. q \<in> A \<Longrightarrow> target H q \<le> uval (UintToArith256 (powLimit params))"
    and low: "\<And>q. q \<in> A \<Longrightarrow> nat (AveragingWindowTimespan params) \<le> target H q"
    and no_overflow: "n * uval (UintToArith256 (powLimit params)) < 2 ^ 256"
    and ok: "pow_params_ok params (uval (UintToArith256 (powLimit params)))"
  shows "\<exists>c v goal. GetNextWorkRequired H (Some p) params = Some (Inr c) \<and> SetCompact c = (v, False, False) \<and>
    0 < goal \<and> goal \<le> uval (UintToArith256 (powLimit params)) \<and> uval v \<le> goal \<and> (goal - uval v) * 2 ^ 15 \<le> goal \<and>
    (nHeight (H p) < nUpdateDiffAlgoHeight params \<longrightarrow> goal = uval (UintToArith256 (powLimit params)))"
proof -
  let ?L = "UintToArith256 (powLimit params)"
  have posL: "0 < uval ?L"
    using L [OF p] low [OF p] ok by (auto simp: pow_params_ok_def)
  obtain lim v k where lim: "GetCompact ?L False = Inr lim" "SetCompact lim = (v, False, False)"
      "uval v = uval ?L div 256 ^ k * 256 ^ k" "(uval ?L - uval v) * 2 ^ 15 \<le> uval ?L"
    using compact_representation [of ?L] by auto
  have "uval v \<le> uval ?L" unfolding lim(3) by (rule div_times_less_eq_dividend)
  then have limit: ?thesis if "GetNextWorkRequired H (Some p) params = Some (Inr lim)"
    using that lim posL by blast
  show ?thesis
  proof (cases "nHeight (H p) \<ge> nUpdateDiffAlgoHeight params")
    case False
    obtain g where "GetLastBlockIndex H (Some p) = Some (Some g)" "pprev (H g) = None"
      using GetLastBlockIndex_genesis [OF wf p] by blast
    then show ?thesis using False lim(1) by (intro limit) (simp add: GetNextWorkRequired_def)
  next
    case up: True
    then have derive: "GetNextWorkRequired H (Some p) params = Some (DeriveNextWorkRequired H (Some p) params)"
      by (simp add: GetNextWorkRequired_def)
    show ?thesis
    proof (cases "nHeight (H p) + 1 = nForkHeight params \<or> nHeight (H p) = nForkHeight params \<or> int n > nHeight (H p)")
      case True
      then have "DeriveNextWorkRequired H (Some p) params = Inr lim"
        using lim(1) n window_loop_short [OF wf p, of n "uint_of_u64 8 0"]
        by (auto simp: DeriveNextWorkRequired_def split: prod.split)
      then show ?thesis using derive by (intro limit) simp
    next
      case False
      then have h: "int n \<le> nHeight (H p)" "nHeight (H p) + 1 \<noteq> nForkHeight params" "nHeight (H p) \<noteq> nForkHeight params"
        by auto
      obtain f where f: "anc H n (Some p) = Some f" using anc_height [OF wf p h(1)] by auto
      define avg where "avg = (\<Sum>j<n. target H (the (anc H j (Some p)))) div n"
      define goal where "goal = next_target params avg (GetMedianTimePast H p - GetMedianTimePast H f)"
      obtain c v k where c: "DeriveNextWorkRequired H (Some p) params = Inr c" "SetCompact c = (v, False, False)"
          "uval v = goal div 256 ^ k * 256 ^ k" "(goal - uval v) * 2 ^ 15 \<le> goal"
        using DeriveNextWorkRequired_eq [OF wf p n L no_overflow ok h f goal_def [unfolded avg_def]] by blast
      have in_window: "the (anc H j (Some p)) \<in> A" if "j < n" for j
        using anc_height [OF wf p, of j] that h(1) by auto
      have "n * nat (AveragingWindowTimespan params) \<le> (\<Sum>j<n. target H (the (anc H j (Some p))))"
        using sum_bounded_below [of "{..<n}" "nat (AveragingWindowTimespan params)"] low in_window by simp
      then have low': "nat (AveragingWindowTimespan params) \<le> avg"
        unfolding avg_def using n(2) by (simp add: less_eq_div_iff_mult_less_eq mult.commute)
      have "(\<Sum>j<n. target H (the (anc H j (Some p)))) \<le> n * uval ?L"
        using sum_bounded_above [of "{..<n}" _ "uval ?L"] L in_window by simp
      then have "avg \<le> n * uval ?L div n" unfolding avg_def by (rule div_le_mono)
      then have "avg \<le> uval ?L" using n(2) by simp
      from next_target_pos [OF pow_params_ok_mono [OF ok this] low' posL]
      have "0 < goal" by (simp add: goal_def)
      moreover have "goal \<le> uval ?L" by (simp add: goal_def next_target_def)
      moreover have "uval v \<le> goal" unfolding c(3) by (rule div_times_less_eq_dividend)
      ultimately show ?thesis using derive c(1,2,4) up by auto
    qed
  qed
qed



text \<open>C31: The proof of work of a block is the number of hashes that a target stands for, the quotient of
  \<open>2 ^ 256\<close> by the target plus one, although \<open>2 ^ 256\<close> itself does not fit in 256 bits; it is zero for
  a target that is negative, zero or too large, and the division never throws.\<close>

theorem GetBlockProof_exact:
  "\<exists>t neg ovf w. SetCompact (nBits block) = (t, neg, ovf) \<and> GetBlockProof block = Inr w \<and>
     uval w = (if neg \<or> ovf \<or> uval t = 0 then 0 else 2 ^ 256 div (uval t + 1))"
proof -
  obtain t neg ovf where "SetCompact (nBits block) = (t, neg, ovf)" by (cases "SetCompact (nBits block)")
  then show ?thesis using GetBlockProof_eq by blast
qed

end
