(* ===== verification/VersionBits.thy ===== *)
theory VersionBits
  imports Pow
begin

text \<open>
  Deployments of rule changes by version bits: versionbits.cpp, with \<open>ComputeBlockVersion\<close> of
  validation.cpp.

  The state of a deployment is constant over a period of blocks. \<open>GetStateFor\<close> walks back over the
  ends of periods until it finds one whose state is in its cache, and then computes the states forward.
  The record \<open>threshold_checker\<close> is the abstract class with its five virtual functions for fixed
  parameters, the cache is a map from block pointers, and the vector \<open>vToCompute\<close> is a list whose head is
  the back of the vector.
\<close>

subsection \<open>Definitions\<close>

datatype ThresholdState =
  THRESHOLD_DEFINED | THRESHOLD_STARTED | THRESHOLD_LOCKED_IN | THRESHOLD_ACTIVE | THRESHOLD_FAILED

type_synonym ThresholdConditionCache = "ptr option \<Rightarrow> ThresholdState option"

record threshold_checker =
  Condition :: "CBlockIndex \<Rightarrow> bool"
  BeginTime :: int
  EndTime :: int
  Period :: int
  Threshold :: int

partial_function (option) find_known ::
  "threshold_checker \<Rightarrow> heap \<Rightarrow> ptr option \<Rightarrow> ThresholdConditionCache \<Rightarrow> ptr list \<Rightarrow>
   (cxx_exit + ptr option \<times> ThresholdConditionCache \<times> ptr list) option" where
  "find_known T H pindexPrev cache vToCompute =
     (if cache pindexPrev \<noteq> None then Some (Inr (pindexPrev, cache, vToCompute))
      else case pindexPrev of
          None \<Rightarrow> Some (Inr (pindexPrev, cache(pindexPrev \<mapsto> THRESHOLD_DEFINED), vToCompute))
        | Some p \<Rightarrow>
            if GetMedianTimePast H p < BeginTime T
            then Some (Inr (pindexPrev, cache(pindexPrev \<mapsto> THRESHOLD_DEFINED), vToCompute))
            else (case GetAncestor H p (nHeight (H p) - Period T) of
                Inl e \<Rightarrow> Some (Inl e)
              | Inr q \<Rightarrow> find_known T H q cache (p # vToCompute)))"

fun count_condition :: "threshold_checker \<Rightarrow> heap \<Rightarrow> nat \<Rightarrow> ptr option \<Rightarrow> int \<Rightarrow> cxx_exit + int" where
  "count_condition T H 0 pindexCount n = Inr n"
| "count_condition T H (Suc i) None n = Inl Undefined"
| "count_condition T H (Suc i) (Some p) n =
     count_condition T H i (pprev (H p)) (if Condition T (H p) then n + 1 else n)"

definition next_state :: "threshold_checker \<Rightarrow> heap \<Rightarrow> ThresholdState \<Rightarrow> ptr \<Rightarrow> cxx_exit + ThresholdState" where
  "next_state T H state p =
     (case state of
        THRESHOLD_DEFINED \<Rightarrow>
          if GetMedianTimePast H p \<ge> EndTime T then Inr THRESHOLD_FAILED
          else if GetMedianTimePast H p \<ge> BeginTime T then Inr THRESHOLD_STARTED
          else Inr state
      | THRESHOLD_STARTED \<Rightarrow>
          if GetMedianTimePast H p \<ge> EndTime T then Inr THRESHOLD_FAILED
          else ebind (count_condition T H (nat (Period T)) (Some p) 0) (\<lambda>n.
            if n \<ge> Threshold T then Inr THRESHOLD_LOCKED_IN else Inr state)
      | THRESHOLD_LOCKED_IN \<Rightarrow> Inr THRESHOLD_ACTIVE
      | THRESHOLD_FAILED \<Rightarrow> Inr state
      | THRESHOLD_ACTIVE \<Rightarrow> Inr state)"

fun compute_forward ::
  "threshold_checker \<Rightarrow> heap \<Rightarrow> ThresholdState \<Rightarrow> ptr list \<Rightarrow> ThresholdConditionCache \<Rightarrow>
   cxx_exit + ThresholdState \<times> ThresholdConditionCache" where
  "compute_forward T H state [] cache = Inr (state, cache)"
| "compute_forward T H state (p # vToCompute) cache =
     ebind (next_state T H state p) (\<lambda>stateNext.
     compute_forward T H stateNext vToCompute (cache(Some p \<mapsto> stateNext)))"

definition GetStateFor ::
  "threshold_checker \<Rightarrow> heap \<Rightarrow> ptr option \<Rightarrow> ThresholdConditionCache \<Rightarrow>
   (cxx_exit + ThresholdState \<times> ThresholdConditionCache) option" where
  "GetStateFor T H pindexPrev cache =
     (case (case pindexPrev of
              None \<Rightarrow> Inr None
            | Some p \<Rightarrow>
                if Period T = 0 then Inl Undefined
                else GetAncestor H p (nHeight (H p) - cmod (nHeight (H p) + 1) (Period T))) of
        Inl e \<Rightarrow> Some (Inl e)
      | Inr pindexPrev \<Rightarrow>
          case find_known T H pindexPrev cache [] of
            None \<Rightarrow> None
          | Some (Inl e) \<Rightarrow> Some (Inl e)
          | Some (Inr (pindexPrev, cache, vToCompute)) \<Rightarrow>
              case cache pindexPrev of
                None \<Rightarrow> Some (Inl AssertFail)
              | Some state \<Rightarrow> Some (compute_forward T H state vToCompute cache))"

text \<open>The checker of the version bits. The words are the values of \<open>int32_t\<close> in two's complement.\<close>

definition VERSIONBITS_LAST_OLD_BLOCK_VERSION :: int where "VERSIONBITS_LAST_OLD_BLOCK_VERSION = 4"
definition VERSIONBITS_TOP_BITS :: u32 where "VERSIONBITS_TOP_BITS = 0x20000000"
definition VERSIONBITS_TOP_MASK :: u32 where "VERSIONBITS_TOP_MASK = 0xE0000000"
definition VERSIONBITS_NUM_BITS :: nat where "VERSIONBITS_NUM_BITS = 29"

definition VersionBitsMask :: "Params \<Rightarrow> DeploymentPos \<Rightarrow> u32" where
  "VersionBitsMask params pos = push_bit (bit_pos (vDeployments params pos)) 1"

definition VersionBitsCondition :: "Params \<Rightarrow> DeploymentPos \<Rightarrow> CBlockIndex \<Rightarrow> bool" where
  "VersionBitsCondition params pos b \<longleftrightarrow>
     word_of_int (bi_nVersion b) AND VERSIONBITS_TOP_MASK = VERSIONBITS_TOP_BITS \<and>
     word_of_int (bi_nVersion b) AND VersionBitsMask params pos \<noteq> 0"

definition VersionBitsConditionChecker :: "Params \<Rightarrow> DeploymentPos \<Rightarrow> threshold_checker" where
  "VersionBitsConditionChecker params pos = \<lparr>Condition = VersionBitsCondition params pos,
     BeginTime = nStartTime (vDeployments params pos), EndTime = nTimeout (vDeployments params pos),
     Period = sint (nMinerConfirmationWindow params), Threshold = sint (nRuleChangeActivationThreshold params)\<rparr>"

type_synonym VersionBitsCache = "DeploymentPos \<Rightarrow> ThresholdConditionCache"

definition VersionBitsCache_Clear :: VersionBitsCache where
  "VersionBitsCache_Clear = (\<lambda>d. Map.empty)"

definition VersionBitsState ::
  "heap \<Rightarrow> ptr option \<Rightarrow> Params \<Rightarrow> DeploymentPos \<Rightarrow> VersionBitsCache \<Rightarrow>
   (cxx_exit + ThresholdState \<times> VersionBitsCache) option" where
  "VersionBitsState H pindexPrev params pos caches =
     map_option (\<lambda>r. ebind r (\<lambda>(state, cache). Inr (state, caches(pos := cache))))
       (GetStateFor (VersionBitsConditionChecker params pos) H pindexPrev (caches pos))"

fun version_loop ::
  "heap \<Rightarrow> ptr option \<Rightarrow> Params \<Rightarrow> DeploymentPos list \<Rightarrow> u32 \<Rightarrow> VersionBitsCache \<Rightarrow>
   (cxx_exit + u32 \<times> VersionBitsCache) option" where
  "version_loop H pindexPrev params [] version caches = Some (Inr (version, caches))"
| "version_loop H pindexPrev params (pos # ps) version caches =
     (case VersionBitsState H pindexPrev params pos caches of
        None \<Rightarrow> None
      | Some (Inl e) \<Rightarrow> Some (Inl e)
      | Some (Inr (state, caches)) \<Rightarrow>
          version_loop H pindexPrev params ps
            (if state = THRESHOLD_LOCKED_IN \<or> state = THRESHOLD_STARTED
             then version OR VersionBitsMask params pos else version) caches)"

definition ComputeBlockVersion ::
  "heap \<Rightarrow> ptr option \<Rightarrow> Params \<Rightarrow> VersionBitsCache \<Rightarrow> (cxx_exit + int \<times> VersionBitsCache) option" where
  "ComputeBlockVersion H pindexPrev params caches =
     map_option (\<lambda>r. ebind r (\<lambda>(version, caches). Inr (sint version, caches)))
       (version_loop H pindexPrev params [DEPLOYMENT_TESTDUMMY, DEPLOYMENT_CSV] VERSIONBITS_TOP_BITS caches)"

subsection \<open>Median times\<close>

text \<open>The median of a window never decreases when the window moves on by one block whose time is not below
  the median, as the check of a header requires.\<close>

lemma sort_nth_ge:
  assumes "i < length l" "length (filter (\<lambda>x. x < m) l) \<le> i"
  shows "(m :: int) \<le> sort l ! i"
proof (rule ccontr)
  assume "\<not> m \<le> sort l ! i"
  then have "x < m" if x: "x \<in> set (take (Suc i) (sort l))" for x
  proof -
    obtain j where "j < length (take (Suc i) (sort l))" "x = take (Suc i) (sort l) ! j" using x by (metis in_set_conv_nth)
    then have "j \<le> i" "x = sort l ! j" using assms(1) by auto
    then show ?thesis using sorted_nth_mono [of "sort l" j i] assms(1) \<open>\<not> m \<le> sort l ! i\<close> by simp
  qed
  then have "filter (\<lambda>x. x < m) (take (Suc i) (sort l)) = take (Suc i) (sort l)" by (simp add: filter_id_conv)
  then have "Suc i \<le> length (filter (\<lambda>x. x < m) (take (Suc i) (sort l)))" using assms(1) by simp
  also have "\<dots> \<le> length (filter (\<lambda>x. x < m) (take (Suc i) (sort l) @ drop (Suc i) (sort l)))"
    unfolding filter_append by simp
  also have "\<dots> = length (filter (\<lambda>x. x < m) l)" by (simp add: filter_sort)
  finally show False using assms(2) by simp
qed

lemma length_less_sort_nth: "i < length l \<Longrightarrow> length (filter (\<lambda>x. x < sort l ! i) l) \<le> i"
proof -
  assume i: "i < length l"
  have "\<not> x < sort l ! i" if x: "x \<in> set (drop i (sort l))" for x
  proof -
    obtain j where "j < length (drop i (sort l))" "x = drop i (sort l) ! j" using x by (metis in_set_conv_nth)
    then have "i + j < length l" "x = sort l ! (i + j)" using i by auto
    then show ?thesis using sorted_nth_mono [of "sort l" i "i + j"] by simp
  qed
  then have "filter (\<lambda>x. x < sort l ! i) (drop i (sort l)) = []" by (simp add: filter_empty_conv)
  moreover have "length (filter (\<lambda>x. x < sort l ! i) (take i (sort l))) \<le> i"
    using length_filter_le [of "\<lambda>x. x < sort l ! i" "take i (sort l)"] by simp
  ultimately have "length (filter (\<lambda>x. x < sort l ! i) (take i (sort l) @ drop i (sort l))) \<le> i"
    unfolding filter_append by simp
  then show ?thesis using i by (simp add: filter_sort)
qed

lemma past_times_Suc: "\<exists>ys. past_times H (Suc n) x = past_times H n x @ ys \<and> length ys \<le> 1"
proof (induction n arbitrary: x)
  case 0
  then show ?case by (cases x) auto
next
  case (Suc n)
  show ?case
  proof (cases x)
    case (Some p)
    then show ?thesis using Suc.IH [of "pprev (H p)"] by auto
  qed simp
qed

lemma GetMedianTimePast_step:
  assumes "pprev (H p) = Some r" "GetMedianTimePast H r \<le> GetBlockTime (H p)"
  shows "GetMedianTimePast H r \<le> GetMedianTimePast H p"
proof -
  obtain ys where ys: "past_times H (Suc 10) (Some r) = past_times H 10 (Some r) @ ys" "length ys \<le> 1"
    using past_times_Suc [of H 10 "Some r"] by blast
  let ?xs = "past_times H 10 (Some r)" and ?m = "GetMedianTimePast H r"
  have new: "past_times H 11 (Some p) = GetBlockTime (H p) # ?xs" using assms(1) by (simp add: numeral_eq_Suc)
  have old: "past_times H 11 (Some r) = ?xs @ ys" using ys(1) by simp
  have "past_times H 11 (Some r) \<noteq> []" by (simp add: numeral_eq_Suc)
  then have "length (filter (\<lambda>x. x < ?m) (?xs @ ys)) \<le> length (?xs @ ys) div 2"
    using length_less_sort_nth [of "length (?xs @ ys) div 2" "?xs @ ys"] old
    by (simp add: GetMedianTimePast_def Let_def)
  also have "\<dots> \<le> length (GetBlockTime (H p) # ?xs) div 2" using ys(2) by (intro div_le_mono) simp
  finally have "?m \<le> sort (GetBlockTime (H p) # ?xs) ! (length (GetBlockTime (H p) # ?xs) div 2)"
    using assms(2) by (intro sort_nth_ge) auto
  then show ?thesis by (simp add: GetMedianTimePast_def new Let_def del: sort_key_simps)
qed

definition block_times_ok :: "heap \<Rightarrow> ptr set \<Rightarrow> bool" where
  "block_times_ok H A \<longleftrightarrow>
     (\<forall>p\<in>A. \<forall>r. pprev (H p) = Some r \<longrightarrow> GetMedianTimePast H r < GetBlockTime (H p))"

lemma GetMedianTimePast_ancestor:
  assumes wf: "wf_index H A" and ok: "block_times_ok H A"
  shows "p \<in> A \<Longrightarrow> anc H k (Some p) = Some q \<Longrightarrow> GetMedianTimePast H q \<le> GetMedianTimePast H p"
proof (induction k arbitrary: p)
  case (Suc k)
  then obtain r where r: "pprev (H p) = Some r" by (cases "pprev (H p)") auto
  have "GetMedianTimePast H q \<le> GetMedianTimePast H r"
    using Suc.IH [of r] Suc.prems r wf_indexD(3) [OF wf Suc.prems(1) r] by simp
  also have "\<dots> \<le> GetMedianTimePast H p"
    using ok Suc.prems(1) r by (intro GetMedianTimePast_step) (auto simp: block_times_ok_def less_imp_le)
  finally show ?case .
qed simp

subsection \<open>The states as a recursion over the periods\<close>

definition block_at :: "heap \<Rightarrow> ptr \<Rightarrow> nat \<Rightarrow> ptr" where
  "block_at H p h = the (anc H (nat (nHeight (H p)) - h) (Some p))"

definition signals :: "threshold_checker \<Rightarrow> heap \<Rightarrow> ptr \<Rightarrow> nat" where
  "signals T H p = length (filter (\<lambda>j. Condition T (H (the (anc H j (Some p))))) [0..<nat (Period T)])"

fun spec_step :: "threshold_checker \<Rightarrow> heap \<Rightarrow> ThresholdState \<Rightarrow> ptr \<Rightarrow> ThresholdState" where
  "spec_step T H THRESHOLD_DEFINED p =
     (if GetMedianTimePast H p \<ge> EndTime T then THRESHOLD_FAILED
      else if GetMedianTimePast H p \<ge> BeginTime T then THRESHOLD_STARTED else THRESHOLD_DEFINED)"
| "spec_step T H THRESHOLD_STARTED p =
     (if GetMedianTimePast H p \<ge> EndTime T then THRESHOLD_FAILED
      else if int (signals T H p) \<ge> Threshold T then THRESHOLD_LOCKED_IN else THRESHOLD_STARTED)"
| "spec_step T H THRESHOLD_LOCKED_IN p = THRESHOLD_ACTIVE"
| "spec_step T H THRESHOLD_ACTIVE p = THRESHOLD_ACTIVE"
| "spec_step T H THRESHOLD_FAILED p = THRESHOLD_FAILED"

text \<open>\<open>spec_state T H p k\<close> is the state after the first \<open>k\<close> periods of the chain of \<open>p\<close>.\<close>

fun spec_state :: "threshold_checker \<Rightarrow> heap \<Rightarrow> ptr \<Rightarrow> nat \<Rightarrow> ThresholdState" where
  "spec_state T H p 0 = THRESHOLD_DEFINED"
| "spec_state T H p (Suc k) = spec_step T H (spec_state T H p k) (block_at H p (Suc k * nat (Period T) - 1))"

definition periods :: "threshold_checker \<Rightarrow> heap \<Rightarrow> ptr \<Rightarrow> nat" where
  "periods T H p = nat (nHeight (H p) + 1) div nat (Period T)"

definition deployment_state :: "threshold_checker \<Rightarrow> heap \<Rightarrow> ptr option \<Rightarrow> ThresholdState" where
  "deployment_state T H x =
     (case x of None \<Rightarrow> THRESHOLD_DEFINED | Some p \<Rightarrow> spec_state T H p (periods T H p))"

definition coherent :: "threshold_checker \<Rightarrow> heap \<Rightarrow> ThresholdConditionCache \<Rightarrow> bool" where
  "coherent T H cache \<longleftrightarrow> (\<forall>x s. cache x = Some s \<longrightarrow> s = deployment_state T H x)"

lemma coherent_update: "coherent T H cache \<Longrightarrow> s = deployment_state T H x \<Longrightarrow> coherent T H (cache(x \<mapsto> s))"
  by (auto simp: coherent_def)

lemma count_condition_filter:
  assumes wf: "wf_index H A"
  shows "p \<in> A \<Longrightarrow> int n \<le> nHeight (H p) + 1 \<Longrightarrow> count_condition T H n (Some p) m =
    Inr (m + int (length (filter (\<lambda>j. Condition T (H (the (anc H j (Some p))))) [0..<n])))"
proof (induction n arbitrary: p m)
  case (Suc n)
  have split: "[0..<Suc n] = 0 # map Suc [0..<n]" by (simp add: upt_conv_Cons map_Suc_upt del: upt_Suc)
  show ?case
  proof (cases "pprev (H p)")
    case None
    then have "n = 0" using Suc.prems(2) wf_indexD(2) [OF wf Suc.prems(1)] by simp
    then show ?thesis by simp
  next
    case (Some r)
    then show ?thesis
      using Suc.IH [of r] wf_indexD(3,4) [OF wf Suc.prems(1) Some] Suc.prems(2)
      unfolding split by (simp add: filter_map comp_def)
  qed
qed simp

lemma next_state_spec:
  assumes "wf_index H A" "p \<in> A" "Period T \<le> nHeight (H p) + 1" "0 < Period T"
  shows "next_state T H s p = Inr (spec_step T H s p)"
  using count_condition_filter [OF assms(1,2), of "nat (Period T)" T 0] assms(3,4)
  by (cases s) (simp_all add: next_state_def signals_def)

lemma block_at_anc:
  assumes "wf_index H A" "p \<in> A" "anc H j (Some p) = Some q" "int h \<le> nHeight (H q)"
  shows "block_at H q h = block_at H p h"
proof -
  note a = anc_Some_height [OF assms(1-3)]
  have "nat (nHeight (H p)) - h = j + (nat (nHeight (H q)) - h)" using a assms(4) by auto
  then show ?thesis using assms(3) by (simp add: block_at_def anc_add)
qed

lemma spec_state_anc:
  assumes "wf_index H A" "p \<in> A" "anc H j (Some p) = Some q" "0 < Period T"
  shows "int (k * nat (Period T)) \<le> nHeight (H q) + 1 \<Longrightarrow> spec_state T H q k = spec_state T H p k"
proof (induction k)
  case (Suc k)
  have "int (Suc k * nat (Period T) - 1) \<le> nHeight (H q)" using Suc.prems assms(4) by (simp add: of_nat_diff)
  moreover have "int (k * nat (Period T)) \<le> nHeight (H q) + 1" using Suc.prems assms(4) by (simp add: algebra_simps)
  ultimately show ?case using Suc.IH block_at_anc [OF assms(1-3)] by simp
qed simp

subsection \<open>The interface of a rule\<close>

text \<open>What \<open>GetStateFor\<close> relies on in a checker: periods are not empty and a deployment does not time out
  before it starts.\<close>

locale threshold_rule =
  fixes T :: threshold_checker
  assumes Period_pos: "0 < Period T"
    and begin_end: "BeginTime T \<le> EndTime T"
begin

lemma Period_nonneg [simp]: "0 \<le> Period T"
  using Period_pos by simp

lemma period_div:
  assumes "nHeight (H p) \<ge> -1"
  shows "periods T H p * nat (Period T) = nat (nHeight (H p) + 1 - (nHeight (H p) + 1) mod Period T)"
proof -
  have "int (periods T H p * nat (Period T)) = (nHeight (H p) + 1) div Period T * Period T"
    using assms by (simp add: periods_def zdiv_int)
  then show ?thesis unfolding minus_mod_eq_div_mult by (metis nat_int)
qed

text \<open>The blocks that have information of their own: the last ones of the periods.\<close>

definition boundary :: "heap \<Rightarrow> ptr set \<Rightarrow> ptr option \<Rightarrow> bool" where
  "boundary H A x \<longleftrightarrow> (case x of None \<Rightarrow> True
     | Some p \<Rightarrow> p \<in> A \<and> (nHeight (H p) + 1) mod Period T = 0)"

lemma boundary_Some:
  assumes "wf_index H A" "boundary H A (Some p)"
  obtains k where "p \<in> A" "periods T H p = Suc k" "nHeight (H p) + 1 = int (Suc k * nat (Period T))"
proof -
  have p: "p \<in> A" "(nHeight (H p) + 1) mod Period T = 0" using assms(2) by (auto simp: boundary_def)
  have h: "0 \<le> nHeight (H p)" by (rule wf_indexD(1) [OF assms(1) p(1)])
  then have eq: "nHeight (H p) + 1 = int (periods T H p * nat (Period T))"
    using period_div [of H p] p(2) by simp
  then obtain k where k: "periods T H p = Suc k" using h by (cases "periods T H p") auto
  show thesis by (rule that [OF p(1) k]) (use eq in \<open>simp only: k\<close>)
qed

text \<open>The step back by one period.\<close>

lemma previous_boundary:
  assumes wf: "wf_index H A" and x: "boundary H A (Some p)"
  obtains q where "GetAncestor H p (nHeight (H p) - Period T) = Inr q" "boundary H A q"
    "deployment_state T H (Some p) = spec_step T H (deployment_state T H q) p"
    "\<And>r. q = Some r \<Longrightarrow> r \<in> A \<and> nHeight (H r) = nHeight (H p) - Period T \<and> (\<exists>j. anc H j (Some p) = Some r)"
proof -
  obtain k where k: "p \<in> A" "periods T H p = Suc k" "nHeight (H p) + 1 = int (Suc k * nat (Period T))"
    by (rule boundary_Some [OF wf x])
  note h = wf_indexD(1) [OF wf k(1)]
  have "block_at H p (Suc k * nat (Period T) - 1) = p"
  proof -
    have "nat (nHeight (H p)) = Suc k * nat (Period T) - 1" using k(3) by linarith
    then show ?thesis by (simp add: block_at_def)
  qed
  then have step: "deployment_state T H (Some p) = spec_step T H (spec_state T H p k) p"
    by (simp add: deployment_state_def k(2))
  show thesis
  proof (cases k)
    case 0
    then have "nHeight (H p) - Period T = -1" using k(3) Period_pos by simp
    then have "GetAncestor H p (nHeight (H p) - Period T) = Inr None" by (simp add: GetAncestor_def)
    then show thesis
      using that [of None] step 0 by (simp add: boundary_def deployment_state_def)
  next
    case (Suc m)
    let ?j = "nat (Period T)"
    have "nHeight (H p) + 1 = int m * Period T + 2 * Period T" using k(3) Suc by (simp add: algebra_simps)
    moreover have "0 \<le> int m * Period T" "int ?j = Period T" by simp_all
    ultimately have le: "int ?j \<le> nHeight (H p)" using Period_pos by linarith
    obtain r where r: "anc H ?j (Some p) = Some r" "r \<in> A" "nHeight (H r) = nHeight (H p) - int ?j"
      using anc_height [OF wf k(1) le] by blast
    have hr: "nHeight (H r) + 1 = int (k * nat (Period T))" using r(3) k(3) by (simp add: algebra_simps)
    have "GetAncestor H p (nHeight (H p) - Period T) = Inr (Some r)"
      using GetAncestor_eq [OF wf k(1), of "nHeight (H p) - Period T"] le r(1) Period_pos by simp
    moreover have "(nHeight (H r) + 1) mod Period T = 0" unfolding hr using Period_pos by simp
    then have "boundary H A (Some r)" using r(2) by (simp add: boundary_def)
    moreover have "nat (nHeight (H r) + 1) = k * nat (Period T)" using hr by linarith
    then have "periods T H r = k" using Period_pos by (simp add: periods_def)
    then have "deployment_state T H (Some r) = spec_state T H p k"
      using spec_state_anc [OF wf k(1) r(1) Period_pos, of k] hr by (simp add: deployment_state_def)
    ultimately show thesis using that [of "Some r"] step r Period_pos by auto
  qed
qed

text \<open>The walk back may stop at a block before the start time: all states up to there are \<open>DEFINED\<close>.\<close>

lemma early_block_defined:
  assumes wf: "wf_index H A" and ok: "block_times_ok H A"
  shows "boundary H A (Some p) \<Longrightarrow> GetMedianTimePast H p < BeginTime T \<Longrightarrow>
    deployment_state T H (Some p) = THRESHOLD_DEFINED"
proof (induction "nat (nHeight (H p))" arbitrary: p rule: less_induct)
  case less
  obtain q where q: "boundary H A q" "deployment_state T H (Some p) = spec_step T H (deployment_state T H q) p"
    "\<And>r. q = Some r \<Longrightarrow> r \<in> A \<and> nHeight (H r) = nHeight (H p) - Period T \<and> (\<exists>j. anc H j (Some p) = Some r)"
    by (rule previous_boundary [OF wf less.prems(1)]) blast
  have "deployment_state T H q = THRESHOLD_DEFINED"
  proof (cases q)
    case (Some r)
    note r = q(3) [OF Some]
    have "p \<in> A" using less.prems(1) by (simp add: boundary_def)
    then have "GetMedianTimePast H r < BeginTime T"
      using r GetMedianTimePast_ancestor [OF wf ok, of p] less.prems(2) by fastforce
    moreover have "nat (nHeight (H r)) < nat (nHeight (H p))"
      using r Period_pos wf_indexD(1) [OF wf, of r] by auto
    ultimately show ?thesis using less.hyps [of r] q(1) Some by simp
  qed (simp add: deployment_state_def)
  then show ?case using q(2) less.prems(2) begin_end by simp
qed

lemma find_known_compute:
  assumes wf: "wf_index H A" and ok: "block_times_ok H A"
  shows "boundary H A x \<Longrightarrow> coherent T H cache \<Longrightarrow>
    \<exists>y cache' w s. find_known T H x cache v = Some (Inr (y, cache', w @ v)) \<and> cache' y = Some s \<and> coherent T H cache' \<and>
      (\<forall>c rest. coherent T H c \<longrightarrow> (\<exists>c'. coherent T H c' \<and>
        compute_forward T H s (w @ rest) c = compute_forward T H (deployment_state T H x) rest c'))"
proof (induction "case x of None \<Rightarrow> 0 | Some p \<Rightarrow> Suc (nat (nHeight (H p)))" arbitrary: x v rule: less_induct)
  case less
  note coh = less.prems(2)
  have stop: ?case if "find_known T H x cache v = Some (Inr (x, cache', v))" "cache' x = Some (deployment_state T H x)"
    "coherent T H cache'" for cache'
    using that by (intro exI [of _ x] exI [of _ cache'] exI [of _ "[]"] exI [of _ "deployment_state T H x"]) auto
  show ?case
  proof (cases "cache x")
    case (Some s)
    then have "s = deployment_state T H x" using coh by (simp add: coherent_def)
    then show ?thesis using Some coh by (intro stop [of cache]) (simp_all add: find_known.simps)
  next
    case unknown: None
    show ?thesis
    proof (cases x)
      case None
      then show ?thesis using unknown coh
        by (intro stop [of "cache(x \<mapsto> THRESHOLD_DEFINED)"])
          (simp_all add: find_known.simps deployment_state_def coherent_update)
    next
      case (Some p)
      show ?thesis
      proof (cases "GetMedianTimePast H p < BeginTime T")
        case True
        then have "deployment_state T H x = THRESHOLD_DEFINED"
          using early_block_defined [OF wf ok] less.prems(1) Some by simp
        then show ?thesis using unknown coh Some True
          by (intro stop [of "cache(x \<mapsto> THRESHOLD_DEFINED)"]) (simp_all add: find_known.simps coherent_update)
      next
        case False
        have bp: "boundary H A (Some p)" using less.prems(1) Some by simp
        obtain q where q: "GetAncestor H p (nHeight (H p) - Period T) = Inr q" "boundary H A q"
          "deployment_state T H (Some p) = spec_step T H (deployment_state T H q) p"
          "\<And>r. q = Some r \<Longrightarrow> r \<in> A \<and> nHeight (H r) = nHeight (H p) - Period T \<and> (\<exists>j. anc H j (Some p) = Some r)"
          by (rule previous_boundary [OF wf bp]) blast
        have "(case q of None \<Rightarrow> 0 | Some r \<Rightarrow> Suc (nat (nHeight (H r)))) <
            (case x of None \<Rightarrow> 0 | Some p \<Rightarrow> Suc (nat (nHeight (H p))))"
          using q(4) wf_indexD(1) [OF wf] Period_pos Some by (fastforce split: option.split)
        from less.hyps [OF this q(2) coh, of "p # v"]
        obtain y cache' w s where IH: "find_known T H q cache (p # v) = Some (Inr (y, cache', w @ p # v))"
            "cache' y = Some s" "coherent T H cache'"
            "\<forall>c rest. coherent T H c \<longrightarrow> (\<exists>c'. coherent T H c' \<and>
               compute_forward T H s (w @ rest) c = compute_forward T H (deployment_state T H q) rest c')" by blast
        have find: "find_known T H x cache v = Some (Inr (y, cache', (w @ [p]) @ v))"
          using unknown Some False q(1) IH(1) by (subst find_known.simps) simp
        have nx: "next_state T H (deployment_state T H q) p = Inr (deployment_state T H x)"
        proof -
          obtain k where "p \<in> A" "nHeight (H p) + 1 = int (Suc k * nat (Period T))" by (rule boundary_Some [OF wf bp])
          then have "p \<in> A" "Period T \<le> nHeight (H p) + 1" using Period_pos by (simp_all add: algebra_simps)
          then show ?thesis using next_state_spec [OF wf] Period_pos q(3) Some by simp
        qed
        have "\<exists>c'. coherent T H c' \<and>
            compute_forward T H s ((w @ [p]) @ rest) c = compute_forward T H (deployment_state T H x) rest c'"
          if c: "coherent T H c" for c rest
        proof -
          obtain c' where "coherent T H c'"
            "compute_forward T H s (w @ p # rest) c = compute_forward T H (deployment_state T H q) (p # rest) c'"
            using IH(4) c by blast
          then show ?thesis
            using nx Some by (intro exI [of _ "c'(x \<mapsto> deployment_state T H x)"]) (simp add: coherent_update)
        qed
        then show ?thesis using find IH(2,3) by blast
      qed
    qed
  qed
qed

lemma GetStateFor_spec:
  assumes wf: "wf_index H A" and ok: "block_times_ok H A" and x: "\<And>p. x = Some p \<Longrightarrow> p \<in> A"
    and coh: "coherent T H cache"
  shows "\<exists>cache'. GetStateFor T H x cache = Some (Inr (deployment_state T H x, cache')) \<and> coherent T H cache'"
proof -
  obtain y where y: "(case x of None \<Rightarrow> Inr None | Some p \<Rightarrow> if Period T = 0 then Inl Undefined
      else GetAncestor H p (nHeight (H p) - cmod (nHeight (H p) + 1) (Period T))) = Inr y"
    "boundary H A y" "deployment_state T H x = deployment_state T H y"
  proof (cases x)
    case None
    then show thesis using that [of None] by (simp add: boundary_def)
  next
    case (Some p)
    note p = x [OF Some]
    note h = wf_indexD(1) [OF wf p]
    let ?m = "(nHeight (H p) + 1) mod Period T"
    have m: "0 \<le> ?m" "?m \<le> nHeight (H p) + 1" "cmod (nHeight (H p) + 1) (Period T) = ?m"
      using h Period_pos by (simp_all add: cmod_nonneg zmod_le_nonneg_dividend)
    show thesis
    proof (cases "?m = nHeight (H p) + 1")
      case True
      then have "periods T H p = 0" using period_div [of H p] h Period_pos by simp
      moreover have "GetAncestor H p (nHeight (H p) - ?m) = Inr None" using True by (simp add: GetAncestor_def)
      ultimately show thesis
        using that [of None] Some m(3) Period_pos by (simp add: boundary_def deployment_state_def)
    next
      case False
      then have le: "int (nat ?m) \<le> nHeight (H p)" using m by simp
      obtain q where q: "anc H (nat ?m) (Some p) = Some q" "q \<in> A" "nHeight (H q) = nHeight (H p) - int (nat ?m)"
        using anc_height [OF wf p le] by blast
      have hq: "nHeight (H q) + 1 = nHeight (H p) + 1 - ?m" using q(3) m(1) by simp
      have "(nHeight (H q) + 1) mod Period T = 0" unfolding hq by (simp only: minus_mod_eq_mult_div mod_mult_self1_is_0)
      then have b: "boundary H A (Some q)" using q(2) by (simp add: boundary_def)
      have P: "nHeight (H q) + 1 = int (periods T H p * nat (Period T))"
        using period_div [of H p] h hq m(2) by simp
      then have "nat (nHeight (H q) + 1) = periods T H p * nat (Period T)" by linarith
      then have "periods T H q = periods T H p" using Period_pos by (simp add: periods_def [of T H q])
      then have "deployment_state T H x = deployment_state T H (Some q)"
        using spec_state_anc [OF wf p q(1) Period_pos, of "periods T H p"] P Some by (simp add: deployment_state_def)
      moreover have "GetAncestor H p (nHeight (H p) - ?m) = Inr (Some q)"
        using GetAncestor_eq [OF wf p, of "nHeight (H p) - ?m"] m(1,2) False q(1) by simp
      ultimately show thesis using that [of "Some q"] b Some m(3) Period_pos by simp
    qed
  qed
  obtain z cache' w s where fk: "find_known T H y cache [] = Some (Inr (z, cache', w @ []))" "cache' z = Some s"
      "coherent T H cache'" "\<forall>c rest. coherent T H c \<longrightarrow> (\<exists>c'. coherent T H c' \<and>
         compute_forward T H s (w @ rest) c = compute_forward T H (deployment_state T H y) rest c')"
    using find_known_compute [OF wf ok y(2) coh, of "[]"] by blast
  obtain c' where "coherent T H c'" "compute_forward T H s (w @ []) cache' = compute_forward T H (deployment_state T H y) [] c'"
    using fk(3,4) by blast
  then show ?thesis using y(1,3) fk(1,2) by (intro exI [of _ c']) (simp add: GetStateFor_def)
qed

end

text \<open>The deployments of the main network are such rules.\<close>

interpretation main_rule: threshold_rule "VersionBitsConditionChecker main_params pos" for pos
  by unfold_locales (cases pos; simp add: VersionBitsConditionChecker_def main_params_def main_deployments_def)+

lemma deployment_state_final:
  assumes wf: "wf_index H A" and q: "q \<in> A" "anc H j (Some q) = Some p" and P: "0 < Period T"
    and final: "deployment_state T H (Some p) = s" "s = THRESHOLD_ACTIVE \<or> s = THRESHOLD_FAILED"
  shows "deployment_state T H (Some q) = s"
proof -
  note a = anc_Some_height [OF wf q]
  note h = wf_indexD(1) [OF wf a(1)]
  have "periods T H p * nat (Period T) \<le> nat (nHeight (H p) + 1)" by (simp add: periods_def)
  then have "int (periods T H p * nat (Period T)) \<le> nHeight (H p) + 1" using h by linarith
  then have s: "spec_state T H q (periods T H p) = s"
    using spec_state_anc [OF wf q P, of "periods T H p"] final(1) by (simp add: deployment_state_def)
  have "spec_state T H q (periods T H p + i) = s" for i
    using s final(2) by (induction i) auto
  moreover have "periods T H p \<le> periods T H q" using a(2) by (simp add: periods_def div_le_mono)
  ultimately show ?thesis by (metis deployment_state_def le_Suc_ex option.case(2))
qed

lemma version_loop_spec:
  assumes "\<And>pos. threshold_rule (VersionBitsConditionChecker params pos)"
    and "wf_index H A" "block_times_ok H A" "\<And>p. x = Some p \<Longrightarrow> p \<in> A"
  shows "(\<And>pos. coherent (VersionBitsConditionChecker params pos) H (caches pos)) \<Longrightarrow>
    \<exists>caches'. version_loop H x params ps version caches = Some (Inr (fold (\<lambda>pos version.
        if deployment_state (VersionBitsConditionChecker params pos) H x \<in> {THRESHOLD_LOCKED_IN, THRESHOLD_STARTED}
        then version OR VersionBitsMask params pos else version) ps version, caches')) \<and>
      (\<forall>pos. coherent (VersionBitsConditionChecker params pos) H (caches' pos))"
proof (induction ps arbitrary: version caches)
  case (Cons pos ps)
  obtain cache' where c: "GetStateFor (VersionBitsConditionChecker params pos) H x (caches pos) =
      Some (Inr (deployment_state (VersionBitsConditionChecker params pos) H x, cache'))"
      "coherent (VersionBitsConditionChecker params pos) H cache'"
    using threshold_rule.GetStateFor_spec [OF assms Cons.prems] by blast
  then have "coherent (VersionBitsConditionChecker params d) H ((caches(pos := cache')) d)" for d
    using Cons.prems by simp
  from Cons.IH [OF this] show ?case using c(1) by (auto simp: VersionBitsState_def simp del: fun_upd_apply)
qed auto

subsection \<open>An example\<close>

text \<open>The first blocks of the example of the theory Pow, one per minute.\<close>

lemma example_time: "p \<le> 1000 \<Longrightarrow> GetBlockTime (example_pow_heap p) = 1509937200 + 60 * int p"
proof -
  assume "p \<le> 1000"
  then have "unat (word_of_nat (1509937200 + 60 * p) :: u32) = 1509937200 + 60 * p" 
    by (simp add: unat_of_nat del: of_nat_add of_nat_mult of_nat_numeral)
  then have "int (unat (word_of_nat (1509937200 + 60 * p) :: u32)) = 1509937200 + 60 * int p" by simp
  then show ?thesis by (simp add: GetBlockTime_def example_pow_heap_def)
qed

lemma example_past_times:
  "p \<le> 1000 \<Longrightarrow> x \<in> set (past_times example_pow_heap n (Some p)) \<Longrightarrow> x \<le> 1509937200 + 60 * int p"
proof (induction n arbitrary: p)
  case (Suc n)
  then show ?case
  proof (cases "x = GetBlockTime (example_pow_heap p)")
    case False
    then have "p \<noteq> 0" "x \<in> set (past_times example_pow_heap n (Some (p - 1)))"
      using Suc.prems(2) by (cases n; auto split: if_splits)+
    then have "x \<le> 1509937200 + 60 * int (p - 1)" using Suc.IH [of "p - 1"] Suc.prems(1) by simp
    then show ?thesis by linarith
  qed (use Suc.prems(1) example_time in simp)
qed simp

lemma example_times_ok: "block_times_ok example_pow_heap {..1000}"
  unfolding block_times_ok_def
proof (intro ballI allI impI)
  fix p r
  assume p: "p \<in> {..1000 :: nat}" and "pprev (example_pow_heap p) = Some r"
  then have r: "p = Suc r" by (auto split: if_splits)
  let ?l = "past_times example_pow_heap 11 (Some r)"
  have "?l \<noteq> []" by (simp add: numeral_eq_Suc)
  then have "sort ?l ! (length ?l div 2) \<in> set (sort ?l)" by (intro nth_mem) simp
  then have "GetMedianTimePast example_pow_heap r \<le> 1509937200 + 60 * int r"
    using example_past_times [of r _ 11] p r by (simp add: GetMedianTimePast_def Let_def)
  then show "GetMedianTimePast example_pow_heap r < GetBlockTime (example_pow_heap p)"
    using example_time [of p] p r by simp
qed

lemma example_blocks_wf: "wf_index example_pow_heap {..1000}"
  by (auto simp: wf_index_def split: if_splits)

subsection \<open>The properties\<close>

text \<open>The median time past never decreases along a chain when every block is later than the median
  time of its predecessor, as the check of a header requires.\<close>

theorem GetMedianTimePast_monotone:
  assumes "wf_index H A" "block_times_ok H A" "p \<in> A" "q \<in> ancestors H p"
  shows "GetMedianTimePast H q \<le> GetMedianTimePast H p"
  using assms GetMedianTimePast_ancestor by (auto simp: ancestors_def)

theorem GetMedianTimePast_monotone_witness:
  "GetMedianTimePast example_pow_heap 3 \<le> GetMedianTimePast example_pow_heap 4"
proof -
  have "anc example_pow_heap 1 (Some 4) = Some 3" by (simp add: numeral_eq_Suc)
  then have "3 \<in> ancestors example_pow_heap 4" unfolding ancestors_def by blast
  then show ?thesis
    by (intro GetMedianTimePast_monotone [OF example_blocks_wf example_times_ok]) simp_all
qed





end
