(* ===== verification/TxCheck.thy ===== *)
theory TxCheck
  imports BlockUndo VersionBits
begin

text \<open>
  The checks of one transaction in validation.cpp: what it says by itself (\<open>CheckTransaction\<close>), its lock
  time (\<open>IsFinalTx\<close>), its relative lock times (BIP68), its signature operations, and the values that it
  takes from a view and gives back (\<open>Consensus::CheckTxInputs\<close>).

  The verdict of a check is the pair of what the function returns and of the \<open>CValidationState\<close>, without
  the debug message. The exceptional ends are those of the evaluator; the exception that \<open>GetValueOut\<close>
  throws for a value out of range is \<open>Throw out_of_range\<close>.
\<close>

subsection \<open>Verdicts\<close>

abbreviation (input) REJECT_INVALID :: nat where "REJECT_INVALID \<equiv> 0x10"
abbreviation (input) REJECT_OBSOLETE :: nat where "REJECT_OBSOLETE \<equiv> 0x11"
abbreviation (input) REJECT_NONSTANDARD :: nat where "REJECT_NONSTANDARD \<equiv> 0x40"

datatype mode_state = MODE_VALID | MODE_INVALID | MODE_ERROR

record CValidationState =
  mode :: mode_state
  nDoS :: int
  strRejectReason :: string
  chRejectCode :: nat
  corruptionPossible :: bool

definition CValidationState_init :: CValidationState where
  "CValidationState_init = \<lparr>mode = MODE_VALID, nDoS = 0, strRejectReason = '''', chRejectCode = 0, corruptionPossible = False\<rparr>"

definition DoS :: "CValidationState \<Rightarrow> int \<Rightarrow> bool \<Rightarrow> nat \<Rightarrow> string \<Rightarrow> bool \<Rightarrow> bool \<times> CValidationState" where
  "DoS state level ret code reason corruption =
     (let state = state\<lparr>chRejectCode := code, strRejectReason := reason, corruptionPossible := corruption\<rparr> in
      if mode state = MODE_ERROR then (ret, state)
      else (ret, state\<lparr>nDoS := nDoS state + level, mode := MODE_INVALID\<rparr>))"

definition Invalid :: "CValidationState \<Rightarrow> bool \<Rightarrow> nat \<Rightarrow> string \<Rightarrow> bool \<times> CValidationState" where
  "Invalid state ret code reason = DoS state 0 ret code reason False"

definition Error :: "CValidationState \<Rightarrow> string \<Rightarrow> bool \<times> CValidationState" where
  "Error state reason =
     (False, (if mode state = MODE_VALID then state\<lparr>strRejectReason := reason\<rparr> else state)\<lparr>mode := MODE_ERROR\<rparr>)"

definition state_IsValid :: "CValidationState \<Rightarrow> bool" where
  "state_IsValid state \<longleftrightarrow> mode state = MODE_VALID"

definition state_IsInvalid :: "CValidationState \<Rightarrow> int option" where
  "state_IsInvalid state = (if mode state = MODE_INVALID then Some (nDoS state) else None)"

type_synonym verdict = "cxx_exit + bool \<times> CValidationState"

text \<open>A check that comes after another: it runs when the first returned true.\<close>

definition and_then :: "verdict \<Rightarrow> (CValidationState \<Rightarrow> verdict) \<Rightarrow> verdict" where
  "and_then m k = ebind m (\<lambda>(ok, state). if ok then k state else Inr (False, state))"

lemma and_then_accepts: "and_then m k = Inr (True, st) \<longleftrightarrow> (\<exists>st'. m = Inr (True, st') \<and> k st' = Inr (True, st))"
  by (auto simp: and_then_def ebind_def split: sum.split prod.split)

lemma verdict_simps [simp]:
  "DoS state level False code reason corruption \<noteq> (True, st)" "Invalid state False code reason \<noteq> (True, st)"
  by (simp_all add: DoS_def Invalid_def Let_def)

subsection \<open>A transaction by itself\<close>

definition MAX_BLOCK_SIZE :: nat where "MAX_BLOCK_SIZE = 1000000"
definition MAX_BLOCK_SIGOPS :: nat where "MAX_BLOCK_SIGOPS = MAX_BLOCK_SIZE div 50"
definition COINBASE_MATURITY :: int where "COINBASE_MATURITY = 50"

fun CheckTransaction_values :: "CTxOut list \<Rightarrow> CAmount \<Rightarrow> CValidationState \<Rightarrow> verdict" where
  "CheckTransaction_values [] nValueOut state = Inr (True, state)"
| "CheckTransaction_values (txout # outs) nValueOut state =
     (if nValue txout < 0 then Inr (DoS state 100 False REJECT_INVALID ''bad-txns-vout-negative'' False)
      else if nValue txout > MAX_MONEY then Inr (DoS state 100 False REJECT_INVALID ''bad-txns-vout-toolarge'' False)
      else if \<not> in_int64 (nValueOut + nValue txout) then Inl Undefined
      else
        let nValueOut = nValueOut + nValue txout in
        if \<not> MoneyRange nValueOut then Inr (DoS state 100 False REJECT_INVALID ''bad-txns-txouttotal-toolarge'' False)
        else CheckTransaction_values outs nValueOut state)"

fun CheckTransaction_inputs :: "CTxIn list \<Rightarrow> COutPoint set \<Rightarrow> CValidationState \<Rightarrow> verdict" where
  "CheckTransaction_inputs [] vInOutPoints state = Inr (True, state)"
| "CheckTransaction_inputs (txin # ins) vInOutPoints state =
     (if prevout txin \<in> vInOutPoints then Inr (DoS state 100 False REJECT_INVALID ''bad-txns-inputs-duplicate'' False)
      else CheckTransaction_inputs ins (insert (prevout txin) vInOutPoints) state)"

fun CheckTransaction_prevouts :: "CTxIn list \<Rightarrow> CValidationState \<Rightarrow> verdict" where
  "CheckTransaction_prevouts [] state = Inr (True, state)"
| "CheckTransaction_prevouts (txin # ins) state =
     (if COutPoint_IsNull (prevout txin) then Inr (DoS state 10 False REJECT_INVALID ''bad-txns-prevout-null'' False)
      else CheckTransaction_prevouts ins state)"

definition CheckTransaction :: "CTransaction \<Rightarrow> CValidationState \<Rightarrow> verdict" where
  "CheckTransaction tx state =
     (if vin tx = [] then Inr (DoS state 10 False REJECT_INVALID ''bad-txns-vin-empty'' False)
      else if vout tx = [] then Inr (DoS state 10 False REJECT_INVALID ''bad-txns-vout-empty'' False)
      else if length (Serialize_CTransaction tx) > MAX_BLOCK_SIZE then
        Inr (DoS state 100 False REJECT_INVALID ''bad-txns-oversize'' False)
      else
        and_then (CheckTransaction_values (vout tx) 0 state) (\<lambda>state.
        and_then (CheckTransaction_inputs (vin tx) {} state) (\<lambda>state.
        if IsCoinBase tx then
          (if length (scriptSig (vin tx ! 0)) < 2 \<or> length (scriptSig (vin tx ! 0)) > 100 then
             Inr (DoS state 100 False REJECT_INVALID ''bad-cb-length'' False)
           else Inr (True, state))
        else CheckTransaction_prevouts (vin tx) state)))"

text \<open>\<open>IsFinalTx\<close>: the lock time is a height below the threshold and a time from it on.\<close>

definition IsFinalTx :: "CTransaction \<Rightarrow> int \<Rightarrow> int \<Rightarrow> bool" where
  "IsFinalTx tx nBlockHeight nBlockTime =
     (if nLockTime tx = 0 then True
      else if uint (nLockTime tx) < (if uint (nLockTime tx) < LOCKTIME_THRESHOLD then nBlockHeight else nBlockTime) then True
      else list_all (\<lambda>txin. nSequence txin = 0xffffffff) (vin tx))"

subsection \<open>Signature operations\<close>

text \<open>The counters are of type \<open>unsigned int\<close>.\<close>

fun add_sigops :: "(cxx_exit + nat) list \<Rightarrow> nat \<Rightarrow> cxx_exit + nat" where
  "add_sigops [] nSigOps = Inr nSigOps"
| "add_sigops (c # cs) nSigOps = ebind c (\<lambda>n. add_sigops cs ((nSigOps + n) mod 2 ^ 32))"

definition GetLegacySigOpCount :: "CTransaction \<Rightarrow> cxx_exit + nat" where
  "GetLegacySigOpCount tx =
     ebind (add_sigops (map (\<lambda>txin. GetSigOpCount (scriptSig txin) False) (vin tx)) 0)
       (add_sigops (map (\<lambda>txout. GetSigOpCount (scriptPubKey txout) False) (vout tx)))"

fun P2SH_sigops_loop ::
  "'b CCoinsView \<Rightarrow> (CCoins \<Rightarrow> u64) \<Rightarrow> CTxIn list \<Rightarrow> nat \<Rightarrow> 'b CCoinsViewCache \<Rightarrow> cxx_exit + nat \<times> 'b CCoinsViewCache" where
  "P2SH_sigops_loop V usage [] nSigOps inputs = Inr (nSigOps, inputs)"
| "P2SH_sigops_loop V usage (txin # ins) nSigOps inputs =
     (case GetOutputFor V usage inputs txin of
        (None, inputs) \<Rightarrow> Inl AssertFail
      | (Some out, inputs) \<Rightarrow>
          if IsPayToScriptHash (scriptPubKey out) then
            ebind (GetSigOpCount_P2SH (scriptPubKey out) (scriptSig txin))
              (\<lambda>n. P2SH_sigops_loop V usage ins ((nSigOps + n) mod 2 ^ 32) inputs)
          else P2SH_sigops_loop V usage ins nSigOps inputs)"

definition GetP2SHSigOpCount ::
  "'b CCoinsView \<Rightarrow> (CCoins \<Rightarrow> u64) \<Rightarrow> CTransaction \<Rightarrow> 'b CCoinsViewCache \<Rightarrow> cxx_exit + nat \<times> 'b CCoinsViewCache" where
  "GetP2SHSigOpCount V usage tx inputs =
     (if IsCoinBase tx then Inr (0, inputs) else P2SH_sigops_loop V usage (vin tx) 0 inputs)"

subsection \<open>Relative lock times\<close>

abbreviation (input) LOCKTIME_VERIFY_SEQUENCE :: int where "LOCKTIME_VERIFY_SEQUENCE \<equiv> 1"
abbreviation (input) LOCKTIME_MEDIAN_TIME_PAST :: int where "LOCKTIME_MEDIAN_TIME_PAST \<equiv> 2"
abbreviation (input) SEQUENCE_LOCKTIME_GRANULARITY :: nat where "SEQUENCE_LOCKTIME_GRANULARITY \<equiv> 9"

text \<open>
  One pass over the inputs with the heights of the outputs that they spend. The result is the pair of
  the last height and the last time at which the transaction is not final, and the heights with those
  of unlocked inputs set to 0. A missing ancestor is a null pointer that is followed.
\<close>

fun sequence_loop :: "heap \<Rightarrow> ptr \<Rightarrow> CTxIn list \<Rightarrow> int list \<Rightarrow> int \<Rightarrow> int \<Rightarrow> cxx_exit + (int \<times> int) \<times> int list" where
  "sequence_loop H block [] heights nMinHeight nMinTime = Inr ((nMinHeight, nMinTime), heights)"
| "sequence_loop H block (txin # ins) [] nMinHeight nMinTime = Inl Undefined"
| "sequence_loop H block (txin # ins) (nCoinHeight # heights) nMinHeight nMinTime =
     (let n = uint (nSequence txin) in
      if n AND SEQUENCE_LOCKTIME_DISABLE_FLAG \<noteq> 0 then
        ebind (sequence_loop H block ins heights nMinHeight nMinTime) (\<lambda>(p, hs). Inr (p, 0 # hs))
      else if n AND SEQUENCE_LOCKTIME_TYPE_FLAG \<noteq> 0 then
        ebind (GetAncestor H block (max (nCoinHeight - 1) 0)) (\<lambda>a.
          case a of
            None \<Rightarrow> Inl Undefined
          | Some p \<Rightarrow>
              let nCoinTime = GetMedianTimePast H p in
              ebind (sequence_loop H block ins heights nMinHeight
                 (max nMinTime (nCoinTime + push_bit SEQUENCE_LOCKTIME_GRANULARITY (n AND SEQUENCE_LOCKTIME_MASK) - 1)))
                (\<lambda>(p, hs). Inr (p, nCoinHeight # hs)))
      else
        ebind (sequence_loop H block ins heights (max nMinHeight (nCoinHeight + (n AND SEQUENCE_LOCKTIME_MASK) - 1)) nMinTime)
          (\<lambda>(p, hs). Inr (p, nCoinHeight # hs)))"

definition CalculateSequenceLocks :: "heap \<Rightarrow> CTransaction \<Rightarrow> int \<Rightarrow> int list \<Rightarrow> ptr \<Rightarrow> cxx_exit + (int \<times> int) \<times> int list" where
  "CalculateSequenceLocks H tx lockFlags prevHeights block =
     (if length prevHeights \<noteq> length (vin tx) then Inl AssertFail
      else
        let fEnforceBIP68 = (unsigned_of 32 (nVersion tx) \<ge> 2 \<and> lockFlags AND LOCKTIME_VERIFY_SEQUENCE \<noteq> 0) in
        if \<not> fEnforceBIP68 then Inr ((-1, -1), prevHeights)
        else sequence_loop H block (vin tx) prevHeights (-1) (-1))"

definition EvaluateSequenceLocks :: "heap \<Rightarrow> ptr \<Rightarrow> int \<times> int \<Rightarrow> cxx_exit + bool" where
  "EvaluateSequenceLocks H block lockPair =
     (case pprev (H block) of
        None \<Rightarrow> Inl AssertFail
      | Some p \<Rightarrow>
          let nBlockTime = GetMedianTimePast H p in
          if fst lockPair \<ge> nHeight (H block) \<or> snd lockPair \<ge> nBlockTime then Inr False else Inr True)"

definition SequenceLocks :: "heap \<Rightarrow> CTransaction \<Rightarrow> int \<Rightarrow> int list \<Rightarrow> ptr \<Rightarrow> cxx_exit + bool" where
  "SequenceLocks H tx lockFlags prevHeights block =
     ebind (CalculateSequenceLocks H tx lockFlags prevHeights block) (\<lambda>(lockPair, _). EvaluateSequenceLocks H block lockPair)"

subsection \<open>Values\<close>

fun CheckTxInputs_loop ::
  "'b CCoinsView \<Rightarrow> (CCoins \<Rightarrow> u64) \<Rightarrow> int \<Rightarrow> CTxIn list \<Rightarrow> CAmount \<Rightarrow> CValidationState \<Rightarrow> 'b CCoinsViewCache \<Rightarrow>
     cxx_exit + (bool \<times> CValidationState) \<times> CAmount \<times> 'b CCoinsViewCache" where
  "CheckTxInputs_loop V usage nSpendHeight [] nValueIn state inputs = Inr ((True, state), nValueIn, inputs)"
| "CheckTxInputs_loop V usage nSpendHeight (txin # ins) nValueIn state inputs =
     (case AccessCoins V usage inputs (op_hash (prevout txin)) of
        (None, inputs) \<Rightarrow> Inl AssertFail
      | (Some c, inputs) \<Rightarrow>
          if fCoinBase c \<and> nSpendHeight - c_nHeight c < COINBASE_MATURITY then
            Inr (Invalid state False REJECT_INVALID ''bad-txns-premature-spend-of-coinbase'', nValueIn, inputs)
          else
            case vget (c_vout c) (unat (op_n (prevout txin))) of
              None \<Rightarrow> Inl Undefined
            | Some out \<Rightarrow>
                if \<not> in_int64 (nValueIn + nValue out) then Inl Undefined
                else
                  let nValueIn = nValueIn + nValue out in
                  if \<not> MoneyRange (nValue out) \<or> \<not> MoneyRange nValueIn then
                    Inr (DoS state 100 False REJECT_INVALID ''bad-txns-inputvalues-outofrange'' False, nValueIn, inputs)
                  else CheckTxInputs_loop V usage nSpendHeight ins nValueIn state inputs)"

text \<open>\<open>GetValueOut\<close> as a part of another function.\<close>

definition value_exit :: "value_exn + CAmount \<Rightarrow> cxx_exit + CAmount" where
  "value_exit r = (case r of Inl value_out_of_range \<Rightarrow> Inl (Throw out_of_range) | Inl value_overflow \<Rightarrow> Inl Undefined | Inr v \<Rightarrow> Inr v)"

definition CheckTxInputs ::
  "'b CCoinsView \<Rightarrow> (CCoins \<Rightarrow> u64) \<Rightarrow> CTransaction \<Rightarrow> CValidationState \<Rightarrow> 'b CCoinsViewCache \<Rightarrow> int \<Rightarrow>
     cxx_exit + (bool \<times> CValidationState) \<times> 'b CCoinsViewCache" where
  "CheckTxInputs V usage tx state inputs nSpendHeight =
     (case HaveInputs V usage inputs tx of
        (False, inputs) \<Rightarrow> Inr (Invalid state False 0 '''', inputs)
      | (True, inputs) \<Rightarrow>
          ebind (CheckTxInputs_loop V usage nSpendHeight (vin tx) 0 state inputs) (\<lambda>((ok, state), nValueIn, inputs).
          if \<not> ok then Inr ((False, state), inputs)
          else
            ebind (value_exit (GetValueOut tx)) (\<lambda>nValueOut.
            if nValueIn < nValueOut then Inr (DoS state 100 False REJECT_INVALID ''bad-txns-in-belowout'' False, inputs)
            else
              let nTxFee = nValueIn - nValueOut in
              if nTxFee < 0 then Inr (DoS state 100 False REJECT_INVALID ''bad-txns-fee-negative'' False, inputs)
              else if \<not> MoneyRange (0 + nTxFee) then Inr (DoS state 100 False REJECT_INVALID ''bad-txns-fee-outofrange'' False, inputs)
              else Inr ((True, state), inputs))))"

subsection \<open>What the checks of a transaction accept\<close>

lemma CheckTransaction_values_accepts:
  "0 \<le> acc \<Longrightarrow> acc \<le> MAX_MONEY \<Longrightarrow> CheckTransaction_values outs acc state = Inr (True, st) \<longleftrightarrow>
     st = state \<and> (\<forall>out \<in> set outs. 0 \<le> nValue out) \<and> acc + sum_list (map nValue outs) \<le> MAX_MONEY"
proof (induction outs arbitrary: acc)
  case (Cons out outs)
  have nonneg: "0 \<le> sum_list (map nValue outs)" if "\<forall>out \<in> set outs. 0 \<le> nValue out"
    using that by (induction outs) auto
  show ?case
  proof (cases "0 \<le> nValue out \<and> acc + nValue out \<le> MAX_MONEY")
    case True
    then have "in_int64 (acc + nValue out)" "MoneyRange (acc + nValue out)" "\<not> nValue out < 0" "\<not> nValue out > MAX_MONEY"
      using Cons.prems by (auto simp: MoneyRange_def int_ranges)
    then show ?thesis using True Cons.prems Cons.IH [of "acc + nValue out"] by (auto simp: Let_def algebra_simps)
  next
    case False
    then have "CheckTransaction_values (out # outs) acc state \<noteq> Inr (True, st)"
      by (auto simp: MoneyRange_def Let_def)
    then show ?thesis using False Cons.prems nonneg by auto
  qed
qed auto

lemma CheckTransaction_inputs_accepts:
  "CheckTransaction_inputs ins S state = Inr (True, st) \<longleftrightarrow> st = state \<and> distinct (map prevout ins) \<and> prevout ` set ins \<inter> S = {}"
  by (induction ins arbitrary: S) auto

lemma CheckTransaction_prevouts_accepts:
  "CheckTransaction_prevouts ins state = Inr (True, st) \<longleftrightarrow> st = state \<and> (\<forall>txin \<in> set ins. \<not> COutPoint_IsNull (prevout txin))"
  by (induction ins) auto

lemma CheckTransaction_accepts_iff:
  "CheckTransaction tx state = Inr (True, st) \<longleftrightarrow> st = state \<and> vin tx \<noteq> [] \<and> vout tx \<noteq> [] \<and>
     length (Serialize_CTransaction tx) \<le> MAX_BLOCK_SIZE \<and>
     (\<forall>out \<in> set (vout tx). 0 \<le> nValue out) \<and> sum_list (map nValue (vout tx)) \<le> MAX_MONEY \<and>
     distinct (map prevout (vin tx)) \<and>
     (if IsCoinBase tx then 2 \<le> length (scriptSig (vin tx ! 0)) \<and> length (scriptSig (vin tx ! 0)) \<le> 100
      else \<forall>txin \<in> set (vin tx). \<not> COutPoint_IsNull (prevout txin))"
proof -
  have "(0 :: CAmount) \<le> MAX_MONEY" by (simp add: int_ranges)
  note v = CheckTransaction_values_accepts [OF order_refl this, unfolded add_0]
  show ?thesis
    by (cases "IsCoinBase tx") (auto simp: CheckTransaction_def and_then_accepts v CheckTransaction_inputs_accepts
        CheckTransaction_prevouts_accepts not_less)
qed

text \<open>The sum of two values that \<open>MoneyRange\<close> accepts is computed before it is checked, and overflows.\<close>

lemma CheckTransaction_overflow:
  "CheckTransaction_values [mk_CTxOut MAX_MONEY [], mk_CTxOut 1 []] 0 state = Inl Undefined"
  by (simp add: mk_CTxOut_def MoneyRange_def int_ranges)

lemma CheckTransaction_GetValueOut:
  "CheckTransaction tx state = Inr (True, st) \<Longrightarrow> GetValueOut tx = Inr (sum_list (map nValue (vout tx)))"
  using GetValueOut_loop_eq [of 0 "vout tx"] by (auto simp: CheckTransaction_accepts_iff GetValueOut_def int_ranges)

subsection \<open>Signature operations\<close>

lemma add_sigops_small:
  "\<forall>c \<in> set cs. \<exists>n. c = Inr n \<and> n \<le> B \<Longrightarrow> acc + length cs * B < 2 ^ 32 \<Longrightarrow>
     \<exists>n. add_sigops cs acc = Inr n \<and> n \<le> acc + length cs * B"
proof (induction cs arbitrary: acc)
  case (Cons c cs)
  obtain n where n: "c = Inr n" "n \<le> B" using Cons.prems(1) by auto
  have less: "acc + n + length cs * B < 2 ^ 32" using Cons.prems(2) n(2) by simp
  then have "(acc + n) mod 2 ^ 32 = acc + n" by simp
  moreover obtain m where "add_sigops cs (acc + n) = Inr m" "m \<le> acc + n + length cs * B"
    using Cons.IH [of "acc + n"] Cons.prems(1) less by auto
  ultimately show ?case using n by auto
qed simp

subsection \<open>Relative lock times\<close>

lemma GetMedianTimePast_nonneg: "0 \<le> GetMedianTimePast H p"
proof -
  have s: "set (past_times H k x) \<subseteq> {0..}" for k x
    by (induction H k x rule: past_times.induct) (auto simp: GetBlockTime_def)
  let ?m = "sort (past_times H 11 (Some p))"
  have "past_times H 11 (Some p) \<noteq> []" using past_times.simps(3) [of H 10 p] by simp
  then have "?m \<noteq> []" by (metis length_0_conv length_sort)
  then have "0 < length ?m" by (rule length_greater_0_conv [THEN iffD2])
  then have "length ?m div 2 < length ?m" by (intro div_less_dividend) simp_all
  then have "?m ! (length ?m div 2) \<in> set ?m" by (rule nth_mem)
  then show ?thesis using s [of 11 "Some p"] by (auto simp: GetMedianTimePast_def Let_def)
qed

text \<open>When an input with the height of the output that it spends is final for a block.\<close>

definition input_final :: "heap \<Rightarrow> ptr \<Rightarrow> CTxIn \<Rightarrow> int \<Rightarrow> bool" where
  "input_final H block txin nCoinHeight =
     (let n = uint (nSequence txin); v = n AND SEQUENCE_LOCKTIME_MASK in
      if n AND SEQUENCE_LOCKTIME_DISABLE_FLAG \<noteq> 0 then True
      else if n AND SEQUENCE_LOCKTIME_TYPE_FLAG \<noteq> 0 then
        GetMedianTimePast H (the (anc H (nat (nHeight (H block) - max (nCoinHeight - 1) 0)) (Some block))) + 512 * v
          \<le> GetMedianTimePast H (the (pprev (H block)))
      else nCoinHeight + v \<le> nHeight (H block))"

lemma sequence_loop_spec:
  assumes "wf_index H A" "block \<in> A"
  shows "length heights = length ins \<Longrightarrow> \<forall>h \<in> set heights. 0 \<le> h \<and> h \<le> nHeight (H block) \<Longrightarrow>
    \<exists>a b hs. sequence_loop H block ins heights mh mt = Inr ((a, b), hs) \<and>
      (a < nHeight (H block) \<and> b < GetMedianTimePast H (the (pprev (H block))) \<longleftrightarrow>
       mh < nHeight (H block) \<and> mt < GetMedianTimePast H (the (pprev (H block))) \<and>
       (\<forall>(txin, h) \<in> set (zip ins heights). input_final H block txin h))"
proof (induction ins arbitrary: heights mh mt)
  case (Cons txin ins)
  obtain h hs where hs: "heights = h # hs" "length hs = length ins" using Cons.prems(1) by (cases heights) auto
  have r: "0 \<le> h" "h \<le> nHeight (H block)" "\<forall>h \<in> set hs. 0 \<le> h \<and> h \<le> nHeight (H block)" using Cons.prems(2) hs by auto
  let ?n = "uint (nSequence txin)" let ?v = "?n AND SEQUENCE_LOCKTIME_MASK"
  note ih = Cons.IH [OF hs(2) r(3)]
  consider "?n AND SEQUENCE_LOCKTIME_DISABLE_FLAG \<noteq> 0"
    | "?n AND SEQUENCE_LOCKTIME_DISABLE_FLAG = 0" "?n AND SEQUENCE_LOCKTIME_TYPE_FLAG \<noteq> 0"
    | "?n AND SEQUENCE_LOCKTIME_DISABLE_FLAG = 0" "?n AND SEQUENCE_LOCKTIME_TYPE_FLAG = 0"
    by blast
  then show ?case
  proof cases
    case 1
    then have "input_final H block txin h" by (simp add: input_final_def)
    moreover obtain a b ks where "sequence_loop H block ins hs mh mt = Inr ((a, b), ks)"
       "a < nHeight (H block) \<and> b < GetMedianTimePast H (the (pprev (H block))) \<longleftrightarrow>
       mh < nHeight (H block) \<and> mt < GetMedianTimePast H (the (pprev (H block))) \<and>
       (\<forall>(txin, h) \<in> set (zip ins hs). input_final H block txin h)" using ih [of mh mt] by blast
    moreover from this 1 have "sequence_loop H block (txin # ins) heights mh mt = Inr ((a, b), 0 # ks)"
      by (simp add: hs(1) Let_def)
    ultimately show ?thesis by (auto simp: hs(1))
  next
    case 2
    let ?k = "nat (nHeight (H block) - max (h - 1) 0)"
    obtain q where q: "anc H ?k (Some block) = Some q" using anc_height [OF assms, of ?k] r(1,2) by auto
    have g: "GetAncestor H block (max (h - 1) 0) = Inr (Some q)"
      using q r(1,2) by (simp add: GetAncestor_eq [OF assms])
    define mt' where "mt' = max mt (GetMedianTimePast H q + push_bit SEQUENCE_LOCKTIME_GRANULARITY ?v - 1)"
    have f: "input_final H block txin h \<longleftrightarrow> GetMedianTimePast H q + push_bit SEQUENCE_LOCKTIME_GRANULARITY ?v \<le> GetMedianTimePast H (the (pprev (H block)))"
      using 2 q by (simp add: input_final_def push_bit_eq_mult mult.commute)
    obtain a b ks where ab: "sequence_loop H block ins hs mh mt' = Inr ((a, b), ks)"
       "a < nHeight (H block) \<and> b < GetMedianTimePast H (the (pprev (H block))) \<longleftrightarrow>
       mh < nHeight (H block) \<and> mt' < GetMedianTimePast H (the (pprev (H block))) \<and>
       (\<forall>(txin, h) \<in> set (zip ins hs). input_final H block txin h)" using ih [of mh mt'] by blast
    have "sequence_loop H block (txin # ins) heights mh mt = Inr ((a, b), h # ks)"
      using 2 g ab(1) by (simp add: hs(1) Let_def mt'_def)
    then show ?thesis using ab(2) f by (auto simp: hs(1) mt'_def)
  next
    case 3
    define mh' where "mh' = max mh (h + ?v - 1)"
    have f: "input_final H block txin h \<longleftrightarrow> h + ?v \<le> nHeight (H block)" using 3 by (simp add: input_final_def)
    obtain a b ks where ab: "sequence_loop H block ins hs mh' mt = Inr ((a, b), ks)"
       "a < nHeight (H block) \<and> b < GetMedianTimePast H (the (pprev (H block))) \<longleftrightarrow>
       mh' < nHeight (H block) \<and> mt < GetMedianTimePast H (the (pprev (H block))) \<and>
       (\<forall>(txin, h) \<in> set (zip ins hs). input_final H block txin h)" using ih [of mh' mt] by blast
    have "sequence_loop H block (txin # ins) heights mh mt = Inr ((a, b), h # ks)"
      using 3 ab(1) by (simp add: hs(1) Let_def mh'_def)
    then show ?thesis using ab(2) f by (auto simp: hs(1) mh'_def)
  qed
qed auto

definition enforces_BIP68 :: "CTransaction \<Rightarrow> int \<Rightarrow> bool" where
  "enforces_BIP68 tx lockFlags \<longleftrightarrow> unsigned_of 32 (nVersion tx) \<ge> 2 \<and> lockFlags AND LOCKTIME_VERIFY_SEQUENCE \<noteq> 0"

text \<open>C39: On a tree of blocks, with the heights of the outputs that a transaction spends, none of them above
  the block that is checked, SequenceLocks returns (it never follows a null pointer), and it accepts
  exactly when BIP68 is not enforced for the transaction or every input is final: its lock is disabled,
  or the height of its output plus the lock is at most the height of the block, or the median time past
  of the block before its output plus 512 times the lock is at most the median time past of the block's
  predecessor. Version numbers are compared as unsigned numbers.\<close>

theorem SequenceLocks_iff_inputs_final:
  assumes "wf_index H A" "block \<in> A" "nHeight (H block) > 0" "length heights = length (vin tx)"
    and "\<forall>h \<in> set heights. 0 \<le> h \<and> h \<le> nHeight (H block)"
  shows "SequenceLocks H tx lockFlags heights block =
    Inr (enforces_BIP68 tx lockFlags \<longrightarrow> (\<forall>(txin, h) \<in> set (zip (vin tx) heights). input_final H block txin h))"
proof -
  obtain q where q: "pprev (H block) = Some q"
    using wf_indexD(2) [OF assms(1,2)] assms(3) by (cases "pprev (H block)") auto
  have e: "EvaluateSequenceLocks H block (a, b) = Inr (a < nHeight (H block) \<and> b < GetMedianTimePast H (the (pprev (H block))))" for a b
    by (auto simp: EvaluateSequenceLocks_def q Let_def)
  have "-1 < nHeight (H block)" "-1 < GetMedianTimePast H (the (pprev (H block)))"
    using assms(3) GetMedianTimePast_nonneg [of H "the (pprev (H block))"] by auto
  moreover obtain a b hs where "sequence_loop H block (vin tx) heights (-1) (-1) = Inr ((a, b), hs)"
    "a < nHeight (H block) \<and> b < GetMedianTimePast H (the (pprev (H block))) \<longleftrightarrow>
       -1 < nHeight (H block) \<and> -1 < GetMedianTimePast H (the (pprev (H block))) \<and>
       (\<forall>(txin, h) \<in> set (zip (vin tx) heights). input_final H block txin h)"
    using sequence_loop_spec [OF assms(1,2,4,5), of "-1" "-1"] by blast
  ultimately show ?thesis
    using assms(4) by (cases "2 \<le> unsigned_of 32 (nVersion tx)"; cases "lockFlags AND 1 = 0")
      (simp_all add: SequenceLocks_def CalculateSequenceLocks_def enforces_BIP68_def e Let_def)
qed

definition example_locked :: "u32 \<Rightarrow> u32 \<Rightarrow> CTransaction" where
  "example_locked m n = example_tx\<lparr>nVersion := 2, vin := [mk_CTxIn COutPoint_SetNull [] m, mk_CTxIn COutPoint_SetNull [] n]\<rparr>"

theorem SequenceLocks_iff_inputs_final_witness:
  "SequenceLocks example_heap (example_locked 2 0x80000009) 1 [2, 3] 4 = Inr True \<and>
   SequenceLocks example_heap (example_locked 3 0) 1 [2, 3] 4 = Inr False"
proof -
  have b: "4 \<in> example_blocks" "nHeight (example_heap 4) = 4" by simp_all
  note locks = SequenceLocks_iff_inputs_final [OF example_heap_wf b(1), of "[2, 3]" "example_locked m n" for m n, unfolded b(2)]
  have "input_final example_heap 4 (mk_CTxIn COutPoint_SetNull [] 2) 2" "\<not> input_final example_heap 4 (mk_CTxIn COutPoint_SetNull [] 3) 2"
    "input_final example_heap 4 (mk_CTxIn COutPoint_SetNull [] 0x80000009) 3"
    by (simp_all add: input_final_def mk_CTxIn_def b(2))
  then show ?thesis using locks [of 2 "0x80000009"] locks [of 3 0]
    by (simp add: example_locked_def enforces_BIP68_def unsigned_of_def)
qed

end
