(* ===== verification/Payments.thy ===== *)
theory Payments
  imports TxCheck "HOL-Library.AList"
begin

text \<open>
  What a coinbase may pay: the subsidy (validation.cpp), the votes for the masternode that is paid in a
  block (masternode-payments.cpp, masternode-payments.h), superblocks (governance-classes.cpp), the
  outputs that the miner adds to a coinbase, and the checks of them.

  The state of sporks, of the synchronisation, of the governance triggers and of the masternode list is
  an argument. The text of errors is left out.
\<close>

subsection \<open>Subsidy\<close>

text \<open>The function looks at the height of the previous block only; its other arguments are not used.\<close>

definition GetBlockSubsidy :: "int \<Rightarrow> CAmount" where
  "GetBlockSubsidy nPrevHeight =
     (if nPrevHeight = 0 then 0
      else if nPrevHeight = 1 then 4000000000 * COIN
      else if nPrevHeight \<le> 525600 then 5707 * COIN
      else if nPrevHeight \<le> 525600 * 2 then 3805 * COIN
      else if nPrevHeight \<le> 525600 * 3 then 1902 * COIN
      else 190 * COIN)"

text \<open>Arithmetic of \<open>int64_t\<close>: leaving the range is undefined.\<close>

definition int64_op :: "int \<Rightarrow> cxx_exit + int" where
  "int64_op n = (if in_int64 n then Inr n else Inl Undefined)"

lemma int64_op_in [simp]: "in_int64 n \<Longrightarrow> int64_op n = Inr n"
  by (simp add: int64_op_def)

definition GetMasternodePayment :: "int \<Rightarrow> CAmount \<Rightarrow> cxx_exit + CAmount" where
  "GetMasternodePayment height blockValue =
     ebind (int64_op (blockValue * 15)) (\<lambda>v.
     if height > nForkHeight main_params then ebind (int64_op (blockValue * 45)) (\<lambda>v. Inr (cdiv v 100))
     else Inr (cdiv v 100))"

subsection \<open>Votes for payees\<close>

abbreviation (input) MNPAYMENTS_SIGNATURES_REQUIRED :: nat where "MNPAYMENTS_SIGNATURES_REQUIRED \<equiv> 6"

record CMasternodePayee =
  payee_scriptPubKey :: CScript
  vecVoteHashes :: "uint256 list"

definition payee_GetVoteCount :: "CMasternodePayee \<Rightarrow> nat" where
  "payee_GetVoteCount p = length (vecVoteHashes p)"

record CMasternodeBlockPayees =
  bp_nBlockHeight :: int
  vecPayees :: "CMasternodePayee list"

record CMasternodePaymentVote =
  vinMasternode :: CTxIn
  vote_nBlockHeight :: int
  vote_payee :: CScript
  vote_vchSig :: bytes

definition vote_GetHash :: "crypto \<Rightarrow> CMasternodePaymentVote \<Rightarrow> uint256" where
  "vote_GetHash C v = CHash256 C (Serialize_bytes (vote_payee v) @ ser_writedata32 (unsigned_of 32 (vote_nBlockHeight v)) @
     Serialize_COutPoint (prevout (vinMasternode v)))"

definition vote_IsVerified :: "CMasternodePaymentVote \<Rightarrow> bool" where
  "vote_IsVerified v \<longleftrightarrow> vote_vchSig v \<noteq> []"

definition vote_MarkAsNotVerified :: "CMasternodePaymentVote \<Rightarrow> CMasternodePaymentVote" where
  "vote_MarkAsNotVerified v = v\<lparr>vote_vchSig := []\<rparr>"

fun AddPayee_loop :: "CMasternodePayee list \<Rightarrow> CScript \<Rightarrow> uint256 \<Rightarrow> CMasternodePayee list" where
  "AddPayee_loop [] script hash = [\<lparr>payee_scriptPubKey = script, vecVoteHashes = [hash]\<rparr>]"
| "AddPayee_loop (p # ps) script hash =
     (if payee_scriptPubKey p = script then p\<lparr>vecVoteHashes := vecVoteHashes p @ [hash]\<rparr> # ps
      else p # AddPayee_loop ps script hash)"

definition AddPayee :: "crypto \<Rightarrow> CMasternodePaymentVote \<Rightarrow> CMasternodeBlockPayees \<Rightarrow> CMasternodeBlockPayees" where
  "AddPayee C vote bp = bp\<lparr>vecPayees := AddPayee_loop (vecPayees bp) (vote_payee vote) (vote_GetHash C vote)\<rparr>"

fun GetBestPayee_loop :: "CMasternodePayee list \<Rightarrow> int \<Rightarrow> CScript option \<Rightarrow> int \<times> CScript option" where
  "GetBestPayee_loop [] nVotes best = (nVotes, best)"
| "GetBestPayee_loop (p # ps) nVotes best =
     (if int (payee_GetVoteCount p) > nVotes
      then GetBestPayee_loop ps (int (payee_GetVoteCount p)) (Some (payee_scriptPubKey p))
      else GetBestPayee_loop ps nVotes best)"

definition GetBestPayee :: "CMasternodeBlockPayees \<Rightarrow> CScript option" where
  "GetBestPayee bp =
     (if vecPayees bp = [] then None
      else case GetBestPayee_loop (vecPayees bp) (-1) None of (nVotes, best) \<Rightarrow> if nVotes > -1 then best else None)"

definition HasPayeeWithVotes :: "CMasternodeBlockPayees \<Rightarrow> CScript \<Rightarrow> int \<Rightarrow> bool" where
  "HasPayeeWithVotes bp payeeIn nVotesReq =
     list_ex (\<lambda>p. int (payee_GetVoteCount p) \<ge> nVotesReq \<and> payee_scriptPubKey p = payeeIn) (vecPayees bp)"

definition BlockPayees_IsTransactionValid :: "CMasternodeBlockPayees \<Rightarrow> CTransaction \<Rightarrow> cxx_exit + bool" where
  "BlockPayees_IsTransactionValid bp txNew =
     ebind (value_exit (GetValueOut txNew)) (\<lambda>nValueOut.
     ebind (GetMasternodePayment (bp_nBlockHeight bp) nValueOut) (\<lambda>nMasternodePayment.
     let nMaxSignatures = fold (\<lambda>p n. if payee_GetVoteCount p \<ge> n then payee_GetVoteCount p else n) (vecPayees bp) 0 in
     if nMaxSignatures < MNPAYMENTS_SIGNATURES_REQUIRED then Inr True
     else Inr (list_ex (\<lambda>p. payee_GetVoteCount p \<ge> MNPAYMENTS_SIGNATURES_REQUIRED \<and>
        list_ex (\<lambda>txout. payee_scriptPubKey p = scriptPubKey txout \<and> nMasternodePayment = nValue txout) (vout txNew)) (vecPayees bp))))"

subsection \<open>The store of votes\<close>

record CMasternodePayments =
  mapMasternodePaymentVotes :: "(uint256 \<times> CMasternodePaymentVote) list"
  mapMasternodeBlocks :: "(int \<times> CMasternodeBlockPayees) list"
  mapMasternodesLastVote :: "(COutPoint \<times> int) list"

definition CMasternodePayments_init :: CMasternodePayments where
  "CMasternodePayments_init = \<lparr>mapMasternodePaymentVotes = [], mapMasternodeBlocks = [], mapMasternodesLastVote = []\<rparr>"

definition Payments_Clear :: "CMasternodePayments \<Rightarrow> CMasternodePayments" where
  "Payments_Clear st = st\<lparr>mapMasternodeBlocks := [], mapMasternodePaymentVotes := []\<rparr>"

definition CanVote :: "CMasternodePayments \<Rightarrow> COutPoint \<Rightarrow> int \<Rightarrow> bool \<times> CMasternodePayments" where
  "CanVote st outMasternode height =
     (if map_of (mapMasternodesLastVote st) outMasternode = Some height then (False, st)
      else (True, st\<lparr>mapMasternodesLastVote := AList.update outMasternode height (mapMasternodesLastVote st)\<rparr>))"

definition HasVerifiedPaymentVote :: "CMasternodePayments \<Rightarrow> uint256 \<Rightarrow> bool" where
  "HasVerifiedPaymentVote st hashIn =
     (case map_of (mapMasternodePaymentVotes st) hashIn of None \<Rightarrow> False | Some v \<Rightarrow> vote_IsVerified v)"

text \<open>\<open>block_known h\<close> is what \<open>GetBlockHash(blockHash, h)\<close> returns.\<close>

definition AddPaymentVote ::
  "crypto \<Rightarrow> (int \<Rightarrow> bool) \<Rightarrow> CMasternodePaymentVote \<Rightarrow> CMasternodePayments \<Rightarrow> bool \<times> CMasternodePayments" where
  "AddPaymentVote C block_known vote st =
     (if \<not> block_known (vote_nBlockHeight vote - 101) then (False, st)
      else if HasVerifiedPaymentVote st (vote_GetHash C vote) then (False, st)
      else
        let h = vote_nBlockHeight vote;
          st = st\<lparr>mapMasternodePaymentVotes := AList.update (vote_GetHash C vote) vote (mapMasternodePaymentVotes st)\<rparr>;
          blockPayees = (case map_of (mapMasternodeBlocks st) h of None \<Rightarrow> \<lparr>bp_nBlockHeight = h, vecPayees = []\<rparr> | Some bp \<Rightarrow> bp) in
        (True, st\<lparr>mapMasternodeBlocks := AList.update h (AddPayee C vote blockPayees) (mapMasternodeBlocks st)\<rparr>))"

definition GetBlockPayee :: "CMasternodePayments \<Rightarrow> int \<Rightarrow> CScript option" where
  "GetBlockPayee st height =
     (case map_of (mapMasternodeBlocks st) height of None \<Rightarrow> None | Some bp \<Rightarrow> GetBestPayee bp)"

definition Payments_IsTransactionValid :: "CMasternodePayments \<Rightarrow> CTransaction \<Rightarrow> int \<Rightarrow> cxx_exit + bool" where
  "Payments_IsTransactionValid st txNew height =
     (case map_of (mapMasternodeBlocks st) height of None \<Rightarrow> Inr True | Some bp \<Rightarrow> BlockPayees_IsTransactionValid bp txNew)"

fun CheckAndRemove_loop ::
  "int \<Rightarrow> int \<Rightarrow> (uint256 \<times> CMasternodePaymentVote) list \<Rightarrow> (int \<times> CMasternodeBlockPayees) list \<Rightarrow>
     (uint256 \<times> CMasternodePaymentVote) list \<times> (int \<times> CMasternodeBlockPayees) list" where
  "CheckAndRemove_loop height nLimit [] blocks = ([], blocks)"
| "CheckAndRemove_loop height nLimit ((hash, vote) # votes) blocks =
     (if height - vote_nBlockHeight vote > nLimit
      then CheckAndRemove_loop height nLimit votes (AList.delete (vote_nBlockHeight vote) blocks)
      else case CheckAndRemove_loop height nLimit votes blocks of (votes, blocks) \<Rightarrow> ((hash, vote) # votes, blocks))"

text \<open>The height is that of the current block, if there is one; the limit is \<open>GetStorageLimit\<close>.\<close>

definition CheckAndRemove :: "int option \<Rightarrow> int \<Rightarrow> CMasternodePayments \<Rightarrow> CMasternodePayments" where
  "CheckAndRemove current nLimit st =
     (case current of
        None \<Rightarrow> st
      | Some height \<Rightarrow>
          (case CheckAndRemove_loop height nLimit (mapMasternodePaymentVotes st) (mapMasternodeBlocks st) of
             (votes, blocks) \<Rightarrow> st\<lparr>mapMasternodePaymentVotes := votes, mapMasternodeBlocks := blocks\<rparr>))"

text \<open>
  The reception of a vote. What the handler asks the rest of the node is an environment: whether the list
  of masternodes is synchronised, whether the peer's version suffices, the current height, the answers of
  the masternode list, and the check of the signature.
\<close>

record vote_env =
  IsMasternodeListSynced :: bool
  fLiteMode :: bool
  peer_version_ok :: bool
  current_height :: "int option"
  StorageLimit :: int
  vote_IsValid :: "CMasternodePaymentVote \<Rightarrow> int \<Rightarrow> bool"
  GetMasternodeInfo :: "CTxIn \<Rightarrow> bytes option"
  vote_CheckSignature :: "bytes \<Rightarrow> CMasternodePaymentVote \<Rightarrow> int \<Rightarrow> bool"
  block_known :: "int \<Rightarrow> bool"

definition ProcessVote ::
  "crypto \<Rightarrow> vote_env \<Rightarrow> CMasternodePaymentVote \<Rightarrow> CMasternodePayments \<Rightarrow> bool \<times> CMasternodePayments" where
  "ProcessVote C E vote st =
     (if \<not> IsMasternodeListSynced E \<or> fLiteMode E \<or> \<not> peer_version_ok E then (False, st)
      else case current_height E of
        None \<Rightarrow> (False, st)
      | Some h \<Rightarrow>
          let nHash = vote_GetHash C vote in
          if map_of (mapMasternodePaymentVotes st) nHash \<noteq> None then (False, st)
          else
            let st = st\<lparr>mapMasternodePaymentVotes :=
                  AList.update nHash (vote_MarkAsNotVerified vote) (mapMasternodePaymentVotes st)\<rparr>;
              nFirstBlock = h - StorageLimit E in
            if vote_nBlockHeight vote < nFirstBlock \<or> vote_nBlockHeight vote > h + 20 then (False, st)
            else if \<not> vote_IsValid E vote h then (False, st)
            else case CanVote st (prevout (vinMasternode vote)) (vote_nBlockHeight vote) of
                (False, st) \<Rightarrow> (False, st)
              | (True, st) \<Rightarrow>
                  (case GetMasternodeInfo E (vinMasternode vote) of
                     None \<Rightarrow> (False, st)
                   | Some pubKeyMasternode \<Rightarrow>
                       if \<not> vote_CheckSignature E pubKeyMasternode vote h then (False, st)
                       else AddPaymentVote C (block_known E) vote st))"

subsection \<open>Superblocks\<close>

record CGovernancePayment =
  pay_script :: CScript
  pay_nAmount :: CAmount

text \<open>
  A trigger with its governance object, when that is found: the absolute number of yes votes for funding,
  and the cached funding flag after its update.
\<close>

record CSuperblock =
  GetBlockStart :: int
  vecPayments :: "CGovernancePayment list"
  governance_object :: "(int \<times> bool) option"

definition IsValidBlockHeight :: "Params \<Rightarrow> int \<Rightarrow> bool" where
  "IsValidBlockHeight params height \<longleftrightarrow> height \<ge> nSuperblockStartBlock params \<and> cmod height (nSuperblockCycle params) = 0"

definition GetPaymentsLimit :: "Params \<Rightarrow> int \<Rightarrow> cxx_exit + CAmount" where
  "GetPaymentsLimit params height =
     (if \<not> IsValidBlockHeight params height then Inr 0
      else
        let nSuperblockPartOfSubsidy = GetBlockSubsidy height;
          nSuperblockPartOfSubsidy =
            (if height = nForkHeight params then nSuperblockPartOfSubsidy + 100000000 * COIN else nSuperblockPartOfSubsidy) in
        int64_op (nSuperblockPartOfSubsidy * nSuperblockCycle params))"

fun PaymentsTotal_loop :: "CGovernancePayment list \<Rightarrow> CAmount \<Rightarrow> cxx_exit + CAmount" where
  "PaymentsTotal_loop [] n = Inr n"
| "PaymentsTotal_loop (p # ps) n = ebind (int64_op (n + pay_nAmount p)) (PaymentsTotal_loop ps)"

definition GetPaymentsTotalAmount :: "CSuperblock \<Rightarrow> cxx_exit + CAmount" where
  "GetPaymentsTotalAmount sb = PaymentsTotal_loop (vecPayments sb) 0"

text \<open>The search for the outputs: the next payment is looked for from the output of the last one on.\<close>

fun find_output :: "CGovernancePayment \<Rightarrow> CTxOut list \<Rightarrow> CTxOut list option" where
  "find_output p [] = None"
| "find_output p (out # outs) =
     (if pay_script p = scriptPubKey out \<and> pay_nAmount p = nValue out then Some (out # outs) else find_output p outs)"

fun match_payments :: "CGovernancePayment list \<Rightarrow> CTxOut list \<Rightarrow> bool" where
  "match_payments [] outs = True"
| "match_payments (p # ps) outs = (case find_output p outs of None \<Rightarrow> False | Some outs \<Rightarrow> match_payments ps outs)"

definition Superblock_IsValid :: "Params \<Rightarrow> CSuperblock \<Rightarrow> CTransaction \<Rightarrow> int \<Rightarrow> CAmount \<Rightarrow> cxx_exit + bool" where
  "Superblock_IsValid params sb txNew height blockReward =
     (if \<not> IsValidBlockHeight params height then Inr False
      else if int (length (vout txNew)) - int (length (vecPayments sb)) < 0 then Inr False
      else
        ebind (GetPaymentsTotalAmount sb) (\<lambda>nPaymentsTotalAmount.
        ebind (GetPaymentsLimit params height) (\<lambda>nPaymentsLimit.
        if nPaymentsTotalAmount > nPaymentsLimit then Inr False
        else
          ebind (value_exit (GetValueOut txNew)) (\<lambda>nBlockValue.
          ebind (int64_op (blockReward + nPaymentsTotalAmount)) (\<lambda>limit.
          if nBlockValue > limit then Inr False
          else Inr (match_payments (vecPayments sb) (vout txNew)))))))"

text \<open>The triggers are a list of pointers, which may be null.\<close>

fun GetBestSuperblock_loop :: "int \<Rightarrow> CSuperblock option list \<Rightarrow> int \<Rightarrow> CSuperblock option \<Rightarrow> int \<times> CSuperblock option" where
  "GetBestSuperblock_loop height [] nYesCount best = (nYesCount, best)"
| "GetBestSuperblock_loop height (t # ts) nYesCount best =
     (case t of
        None \<Rightarrow> GetBestSuperblock_loop height ts nYesCount best
      | Some sb \<Rightarrow>
          (case governance_object sb of
             None \<Rightarrow> GetBestSuperblock_loop height ts nYesCount best
           | Some (nTempYesCount, _) \<Rightarrow>
               if height \<noteq> GetBlockStart sb then GetBestSuperblock_loop height ts nYesCount best
               else if nTempYesCount > nYesCount then GetBestSuperblock_loop height ts nTempYesCount (Some sb)
               else GetBestSuperblock_loop height ts nYesCount best))"

definition GetBestSuperblock :: "Params \<Rightarrow> CSuperblock option list \<Rightarrow> int \<Rightarrow> CSuperblock option" where
  "GetBestSuperblock params triggers height =
     (if \<not> IsValidBlockHeight params height then None
      else case GetBestSuperblock_loop height triggers 0 None of (nYesCount, best) \<Rightarrow> if nYesCount > 0 then best else None)"

fun IsSuperblockTriggered_loop :: "int \<Rightarrow> CSuperblock option list \<Rightarrow> bool" where
  "IsSuperblockTriggered_loop height [] = False"
| "IsSuperblockTriggered_loop height (t # ts) =
     (case t of
        None \<Rightarrow> IsSuperblockTriggered_loop height ts
      | Some sb \<Rightarrow>
          (case governance_object sb of
             None \<Rightarrow> IsSuperblockTriggered_loop height ts
           | Some (_, funding) \<Rightarrow>
               if height \<noteq> GetBlockStart sb then IsSuperblockTriggered_loop height ts
               else if funding then True
               else IsSuperblockTriggered_loop height ts))"

definition IsSuperblockTriggered :: "Params \<Rightarrow> CSuperblock option list \<Rightarrow> int \<Rightarrow> bool" where
  "IsSuperblockTriggered params triggers height =
     (if \<not> IsValidBlockHeight params height then False else IsSuperblockTriggered_loop height triggers)"

definition SuperblockManager_IsValid ::
  "Params \<Rightarrow> CSuperblock option list \<Rightarrow> CTransaction \<Rightarrow> int \<Rightarrow> CAmount \<Rightarrow> cxx_exit + bool" where
  "SuperblockManager_IsValid params triggers txNew height blockReward =
     (case GetBestSuperblock params triggers height of
        None \<Rightarrow> Inr False
      | Some sb \<Rightarrow> Superblock_IsValid params sb txNew height blockReward)"

definition CreateSuperblock :: "Params \<Rightarrow> CSuperblock option list \<Rightarrow> CTransaction \<Rightarrow> int \<Rightarrow> CTxOut list \<Rightarrow> CTransaction \<times> CTxOut list" where
  "CreateSuperblock params triggers txNew height voutSuperblock =
     (case GetBestSuperblock params triggers height of
        None \<Rightarrow> (txNew, voutSuperblock)
      | Some sb \<Rightarrow>
          let outs = map (\<lambda>p. mk_CTxOut (pay_nAmount p) (pay_script p)) (vecPayments sb) in
          (txNew\<lparr>vout := vout txNew @ outs\<rparr>, outs))"

subsection \<open>The checks of a coinbase\<close>

datatype spork =
  SPORK_3_INSTAPAY_BLOCK_FILTERING | SPORK_8_MASTERNODE_PAYMENT_ENFORCEMENT | SPORK_9_SUPERBLOCKS_ENABLED | SPORK_13_OLD_SUPERBLOCK_FLAG

record payment_env =
  pay_params :: Params
  IsSynced :: bool
  IsSporkActive :: "spork \<Rightarrow> bool"
  triggers :: "CSuperblock option list"
  mnpayments :: CMasternodePayments
  next_in_queue :: "int \<Rightarrow> CScript option"

definition in_budget_window :: "Params \<Rightarrow> int \<Rightarrow> bool" where
  "in_budget_window params height \<longleftrightarrow> height \<ge> nBudgetPaymentsStartBlock params \<and>
     cmod height (nBudgetPaymentsCycleBlocks params) < nBudgetPaymentsWindowBlocks params"

definition IsBlockValueValid :: "payment_env \<Rightarrow> CTransaction \<Rightarrow> int \<Rightarrow> CAmount \<Rightarrow> cxx_exit + bool" where
  "IsBlockValueValid E txNew height blockReward =
     ebind (value_exit (GetValueOut txNew)) (\<lambda>nValueOut.
     let isBlockRewardValueMet = (nValueOut \<le> blockReward) in
     if height < nSuperblockStartBlock (pay_params E) then
       (if in_budget_window (pay_params E) height then
          (if IsSynced E \<and> \<not> IsSporkActive E SPORK_13_OLD_SUPERBLOCK_FLAG then Inr isBlockRewardValueMet else Inr True)
        else Inr isBlockRewardValueMet)
     else
       ebind (GetPaymentsLimit (pay_params E) height) (\<lambda>limit.
       ebind (int64_op (blockReward + limit)) (\<lambda>nSuperblockMaxValue.
       let isSuperblockMaxValueMet = (nValueOut \<le> nSuperblockMaxValue) in
       if \<not> IsSynced E then
         (if IsValidBlockHeight (pay_params E) height then Inr isSuperblockMaxValueMet else Inr isBlockRewardValueMet)
       else if IsSporkActive E SPORK_9_SUPERBLOCKS_ENABLED then
         (if IsSuperblockTriggered (pay_params E) (triggers E) height then
            SuperblockManager_IsValid (pay_params E) (triggers E) txNew height blockReward
          else Inr isBlockRewardValueMet)
       else Inr isBlockRewardValueMet)))"

definition IsBlockPayeeValid :: "payment_env \<Rightarrow> CTransaction \<Rightarrow> int \<Rightarrow> CAmount \<Rightarrow> cxx_exit + bool" where
  "IsBlockPayeeValid E txNew height blockReward =
     (if \<not> IsSynced E then Inr True
      else if height < nSuperblockStartBlock (pay_params E) then
        ebind (Payments_IsTransactionValid (mnpayments E) txNew height) (\<lambda>ok.
        if ok then Inr True
        else if in_budget_window (pay_params E) height then
          (if \<not> IsSporkActive E SPORK_13_OLD_SUPERBLOCK_FLAG then Inr False else Inr True)
        else if IsSporkActive E SPORK_8_MASTERNODE_PAYMENT_ENFORCEMENT then Inr False
        else Inr True)
      else if IsSporkActive E SPORK_9_SUPERBLOCKS_ENABLED \<and> IsSuperblockTriggered (pay_params E) (triggers E) height then
        SuperblockManager_IsValid (pay_params E) (triggers E) txNew height blockReward
      else
        ebind (Payments_IsTransactionValid (mnpayments E) txNew height) (\<lambda>ok.
        if ok then Inr True
        else if IsSporkActive E SPORK_8_MASTERNODE_PAYMENT_ENFORCEMENT then Inr False
        else Inr True))"

subsection \<open>Filling a coinbase\<close>

text \<open>
  \<open>FillBlockPayee\<close> pays the payee with most votes, or the next masternode of the queue, from the value
  of the first output.
\<close>

definition FillBlockPayee :: "payment_env \<Rightarrow> CTransaction \<Rightarrow> int \<Rightarrow> CAmount \<Rightarrow> cxx_exit + CTransaction \<times> CTxOut" where
  "FillBlockPayee E txNew height blockReward =
     (case (case GetBlockPayee (mnpayments E) height of None \<Rightarrow> next_in_queue E height | Some p \<Rightarrow> Some p) of
        None \<Rightarrow> Inr (txNew, CTxOut_SetNull)
      | Some payee \<Rightarrow>
          ebind (GetMasternodePayment height blockReward) (\<lambda>masternodePayment.
          case vout txNew of
            [] \<Rightarrow> Inl Undefined
          | out # outs \<Rightarrow>
              ebind (int64_op (nValue out - masternodePayment)) (\<lambda>v.
              let txoutMasternode = mk_CTxOut masternodePayment payee in
              Inr (txNew\<lparr>vout := (out\<lparr>nValue := v\<rparr> # outs) @ [txoutMasternode]\<rparr>, txoutMasternode))))"

text \<open>The keys of the ten payees of the block after the fork height.\<close>

definition fork_keys :: "bytes list" where
  "fork_keys = map (\<lambda>k. rev (le_bytes 33 k))
     [0x0368dea95defda809f235ac68771ba2de8c22927f5deed210a6f44249f054ff929,
      0x028a9370884fd4d57e3389d290ea77ae2fcdecaee0eff3b4ac6d2e47a79c9ef9a0,
      0x0359d08e1deb5b1a78a0c9bf23dce2c4f76e8e1f9e202b4f8243cb5a8f529d370e,
      0x0340db958302a2664c3f918e14f1f6f5b513e68a49153fa2584ac184ab33366ead,
      0x02f0bafb84f583d8893001cd2e3a878f4257b6f6fa78a9703d817d484b7c3a2400,
      0x023a18f654185de558fc1ffbd154599be0a1b493119b64adf14cbb296ef8f4d7f5,
      0x02faf4362ed799d4fabba0fe04bc14bfca3fb19cfa9947766eb81764231769665d,
      0x03988598e3684567503708d9ec6b71bf3d9a9cb24c930c084243c5a2cb05903d35,
      0x03b1f6b316e7fb39c2f1dde92c867aa6434ade166176a8dd1e76e89d9e6a87ee42,
      0x027f5499e066e144aac743838f43327c182f537261d48aff49d2663097aad15d6c]"

definition fillwallet :: "crypto \<Rightarrow> Params \<Rightarrow> CTransaction \<Rightarrow> int \<Rightarrow> CTransaction" where
  "fillwallet C params txNew height =
     (if height \<noteq> nForkHeight params then txNew
      else txNew\<lparr>vout := vout txNew @
        map (\<lambda>key. mk_CTxOut (10000000 * COIN) (0x76 # 0xa9 # 0x14 # CHash160 C key @ [0x88, 0xac])) fork_keys\<rparr>)"

definition FillBlockPayments ::
  "crypto \<Rightarrow> payment_env \<Rightarrow> CTransaction \<Rightarrow> int \<Rightarrow> CAmount \<Rightarrow> CTxOut \<Rightarrow> CTxOut list \<Rightarrow> cxx_exit + CTransaction \<times> CTxOut \<times> CTxOut list" where
  "FillBlockPayments C E txNew height blockReward txoutMasternode voutSuperblock =
     (if IsSporkActive E SPORK_9_SUPERBLOCKS_ENABLED \<and> IsSuperblockTriggered (pay_params E) (triggers E) height then
        (case CreateSuperblock (pay_params E) (triggers E) txNew height voutSuperblock of
           (txNew, voutSuperblock) \<Rightarrow> Inr (fillwallet C (pay_params E) txNew (height - 1), txoutMasternode, voutSuperblock))
      else
        ebind (FillBlockPayee E txNew height blockReward) (\<lambda>(txNew, txoutMasternode).
        Inr (fillwallet C (pay_params E) txNew (height - 1), txoutMasternode, voutSuperblock)))"

subsection \<open>The store of votes is consistent\<close>

text \<open>
  Every vote that is counted for a block is stored as a verified vote for that block and that payee, and
  is counted once.
\<close>

definition payee_ok :: "(uint256 \<times> CMasternodePaymentVote) list \<Rightarrow> int \<Rightarrow> CMasternodePayee \<Rightarrow> bool" where
  "payee_ok votes h p \<longleftrightarrow> distinct (vecVoteHashes p) \<and>
     (\<forall>k \<in> set (vecVoteHashes p). \<exists>v. map_of votes k = Some v \<and> vote_IsVerified v \<and> vote_nBlockHeight v = h \<and>
        vote_payee v = payee_scriptPubKey p)"

definition block_payees_ok :: "(uint256 \<times> CMasternodePaymentVote) list \<Rightarrow> int \<Rightarrow> CMasternodeBlockPayees \<Rightarrow> bool" where
  "block_payees_ok votes h bp \<longleftrightarrow> bp_nBlockHeight bp = h \<and> distinct (map payee_scriptPubKey (vecPayees bp)) \<and>
     (\<forall>p \<in> set (vecPayees bp). payee_ok votes h p)"

definition payments_inv :: "CMasternodePayments \<Rightarrow> bool" where
  "payments_inv st \<longleftrightarrow> distinct (map fst (mapMasternodePaymentVotes st)) \<and>
     (\<forall>h bp. map_of (mapMasternodeBlocks st) h = Some bp \<longrightarrow> block_payees_ok (mapMasternodePaymentVotes st) h bp)"

lemma payments_invD:
  "payments_inv st \<Longrightarrow> map_of (mapMasternodeBlocks st) h = Some bp \<Longrightarrow> block_payees_ok (mapMasternodePaymentVotes st) h bp"
  by (simp add: payments_inv_def)

lemma payee_ok_mono:
  "payee_ok votes h p \<Longrightarrow> (\<And>k v. map_of votes k = Some v \<Longrightarrow> vote_IsVerified v \<Longrightarrow> vote_nBlockHeight v = h \<Longrightarrow> map_of votes' k = Some v) \<Longrightarrow>
   payee_ok votes' h p"
  unfolding payee_ok_def by blast

lemma block_payees_ok_mono:
  "block_payees_ok votes h bp \<Longrightarrow> (\<And>k v. map_of votes k = Some v \<Longrightarrow> vote_IsVerified v \<Longrightarrow> vote_nBlockHeight v = h \<Longrightarrow> map_of votes' k = Some v) \<Longrightarrow>
   block_payees_ok votes' h bp"
  unfolding block_payees_ok_def using payee_ok_mono by blast

lemma AddPayee_loop_scripts:
  "set (map payee_scriptPubKey (AddPayee_loop ps script hash)) = insert script (set (map payee_scriptPubKey ps))"
  "distinct (map payee_scriptPubKey ps) \<Longrightarrow> distinct (map payee_scriptPubKey (AddPayee_loop ps script hash))"
proof -
  show s: "set (map payee_scriptPubKey (AddPayee_loop ps script hash)) = insert script (set (map payee_scriptPubKey ps))" for ps
    by (induction ps) auto
  assume "distinct (map payee_scriptPubKey ps)"
  then show "distinct (map payee_scriptPubKey (AddPayee_loop ps script hash))"
  proof (induction ps)
    case (Cons p ps)
    then show ?case using s [of ps] by auto
  qed simp
qed

lemma AddPayee_loop_ok:
  assumes "\<forall>p \<in> set ps. payee_ok votes h p" "\<forall>p \<in> set ps. hash \<notin> set (vecVoteHashes p)"
    and v: "map_of votes hash = Some v" "vote_IsVerified v" "vote_nBlockHeight v = h" "vote_payee v = script"
  shows "\<forall>p \<in> set (AddPayee_loop ps script hash). payee_ok votes h p"
  using assms(1,2)
proof (induction ps)
  case (Cons p ps)
  have "payee_ok votes h (p\<lparr>vecVoteHashes := vecVoteHashes p @ [hash]\<rparr>)" if "payee_scriptPubKey p = script"
    using Cons.prems v that by (auto simp: payee_ok_def)
  then show ?case using Cons by auto
qed (use v in \<open>simp add: payee_ok_def\<close>)

lemma verified_counted:
  assumes "payments_inv st" "map_of (mapMasternodeBlocks st) h = Some bp" "p \<in> set (vecPayees bp)" "k \<in> set (vecVoteHashes p)"
  shows "HasVerifiedPaymentVote st k"
  using payments_invD [OF assms(1,2)] assms(3,4)
  by (fastforce simp: block_payees_ok_def payee_ok_def HasVerifiedPaymentVote_def)

lemma AddPaymentVote_inv:
  assumes "payments_inv st" "vote_IsVerified vote"
  shows "payments_inv (snd (AddPaymentVote C known vote st))"
proof (cases "known (vote_nBlockHeight vote - 101) \<and> \<not> HasVerifiedPaymentVote st (vote_GetHash C vote)")
  case True
  let ?k = "vote_GetHash C vote" let ?h = "vote_nBlockHeight vote"
  let ?votes = "AList.update ?k vote (mapMasternodePaymentVotes st)"
  define bp where "bp = (case map_of (mapMasternodeBlocks st) ?h of None \<Rightarrow> \<lparr>bp_nBlockHeight = ?h, vecPayees = []\<rparr> | Some bp \<Rightarrow> bp)"
  have old: "block_payees_ok ?votes h b" if "map_of (mapMasternodeBlocks st) h = Some b" for h b
  proof (rule block_payees_ok_mono [OF payments_invD [OF assms(1) that]])
    fix k v assume "map_of (mapMasternodePaymentVotes st) k = Some v" "vote_IsVerified v"
    moreover from this have "k \<noteq> ?k" using True by (auto simp: HasVerifiedPaymentVote_def)
    ultimately show "map_of ?votes k = Some v" by (simp add: update_conv')
  qed
  have bp: "block_payees_ok ?votes ?h bp"
    using old by (cases "map_of (mapMasternodeBlocks st) ?h") (simp_all add: bp_def block_payees_ok_def)
  have "?k \<notin> set (vecVoteHashes p)" if "p \<in> set (vecPayees bp)" for p
    using verified_counted [OF assms(1), of ?h bp p ?k] True that
    by (cases "map_of (mapMasternodeBlocks st) ?h") (auto simp: bp_def)
  then have "block_payees_ok ?votes ?h (AddPayee C vote bp)"
    using bp assms(2) AddPayee_loop_ok [of "vecPayees bp" ?votes ?h ?k vote "vote_payee vote"]
      AddPayee_loop_scripts(2) [of "vecPayees bp" "vote_payee vote" ?k]
    by (simp add: block_payees_ok_def AddPayee_def update_conv')
  then show ?thesis using True old assms(1)
    by (simp add: AddPaymentVote_def Let_def bp_def [symmetric] payments_inv_def update_conv' distinct_update)
next
  case False
  then show ?thesis using assms(1) by (simp add: AddPaymentVote_def)
qed

lemma payments_inv_lastvote [simp]: "payments_inv (st\<lparr>mapMasternodesLastVote := x\<rparr>) \<longleftrightarrow> payments_inv st"
  by (simp add: payments_inv_def)

lemma CanVote_inv: "CanVote st out h = (ok, st') \<Longrightarrow> payments_inv st' \<longleftrightarrow> payments_inv st"
  by (auto simp: CanVote_def split: if_splits)

text \<open>What is relied on: a signature that verifies is not empty.\<close>

definition signature_law :: "vote_env \<Rightarrow> bool" where
  "signature_law E \<longleftrightarrow> (\<forall>key vote h. vote_CheckSignature E key vote h \<longrightarrow> vote_vchSig vote \<noteq> [])"

lemma ProcessVote_inv:
  assumes inv: "payments_inv st" and law: "signature_law E"
  shows "payments_inv (snd (ProcessVote C E vote st))"
proof (cases "\<not> IsMasternodeListSynced E \<or> fLiteMode E \<or> \<not> peer_version_ok E \<or> current_height E = None \<or>
    map_of (mapMasternodePaymentVotes st) (vote_GetHash C vote) \<noteq> None")
  case True
  then show ?thesis using inv by (auto simp: ProcessVote_def split: option.split)
next
  case False
  then obtain h where h: "current_height E = Some h" by auto
  let ?k = "vote_GetHash C vote"
  define st1 where "st1 = st\<lparr>mapMasternodePaymentVotes := AList.update ?k (vote_MarkAsNotVerified vote) (mapMasternodePaymentVotes st)\<rparr>"
  have inv1: "payments_inv st1"
  proof -
    have "block_payees_ok (mapMasternodePaymentVotes st1) h b" if "map_of (mapMasternodeBlocks st) h = Some b" for h b
      by (rule block_payees_ok_mono [OF payments_invD [OF inv that]]) (use False in \<open>auto simp: st1_def update_conv'\<close>)
    then show ?thesis using inv by (simp add: payments_inv_def st1_def distinct_update)
  qed
  obtain ok st2 where cv: "CanVote st1 (prevout (vinMasternode vote)) (vote_nBlockHeight vote) = (ok, st2)" by (rule prod.exhaust)
  have inv2: "payments_inv st2" using CanVote_inv [OF cv] inv1 by simp
  have "payments_inv (snd (AddPaymentVote C (block_known E) vote st2))" if "vote_CheckSignature E key vote h" for key
    using that law by (intro AddPaymentVote_inv [OF inv2]) (auto simp: signature_law_def vote_IsVerified_def)
  then show ?thesis using False h inv1 inv2
    by (simp add: ProcessVote_def Let_def st1_def [symmetric] cv split: bool.split option.split)
qed

lemma CheckAndRemove_loop_step:
  "CheckAndRemove_loop height lim (kv # votes) blocks =
     (if height - vote_nBlockHeight (snd kv) > lim
      then CheckAndRemove_loop height lim votes (AList.delete (vote_nBlockHeight (snd kv)) blocks)
      else (kv # fst (CheckAndRemove_loop height lim votes blocks), snd (CheckAndRemove_loop height lim votes blocks)))"
  by (cases kv) (simp split: prod.split)

lemma CheckAndRemove_loop_votes:
  "fst (CheckAndRemove_loop height lim votes blocks) = filter (\<lambda>kv. \<not> height - vote_nBlockHeight (snd kv) > lim) votes"
  by (induction votes arbitrary: blocks) (simp_all add: CheckAndRemove_loop_step del: CheckAndRemove_loop.simps(2))

lemma CheckAndRemove_loop_blocks:
  "map_of (snd (CheckAndRemove_loop height lim votes blocks)) h =
     (if \<exists>v \<in> snd ` set votes. height - vote_nBlockHeight v > lim \<and> vote_nBlockHeight v = h then None else map_of blocks h)"
  by (induction votes arbitrary: blocks) (auto simp: CheckAndRemove_loop_step delete_conv' simp del: CheckAndRemove_loop.simps(2))

lemma map_of_filter_kept:
  "map_of votes k = Some v \<Longrightarrow> P (k, v) \<Longrightarrow> map_of (filter P votes) k = Some v"
  by (induction votes) (auto split: if_splits)

lemma distinct_map_fst_filter: "distinct (map fst xs) \<Longrightarrow> distinct (map fst (filter P xs))"
  by (induction xs) auto

lemma CheckAndRemove_inv:
  assumes "payments_inv st"
  shows "payments_inv (CheckAndRemove current lim st)"
proof (cases current)
  case (Some height)
  obtain votes blocks where r: "CheckAndRemove_loop height lim (mapMasternodePaymentVotes st) (mapMasternodeBlocks st) = (votes, blocks)"
    by (rule prod.exhaust)
  have v: "votes = filter (\<lambda>kv. \<not> height - vote_nBlockHeight (snd kv) > lim) (mapMasternodePaymentVotes st)"
    using CheckAndRemove_loop_votes [of height lim "mapMasternodePaymentVotes st" "mapMasternodeBlocks st"] by (simp add: r)
  have d: "distinct (map fst (mapMasternodePaymentVotes st))" using assms by (simp add: payments_inv_def)
  have "block_payees_ok votes h bp" if b: "map_of blocks h = Some bp" for h bp
  proof (rule block_payees_ok_mono)
    let ?old = "\<exists>v \<in> snd ` set (mapMasternodePaymentVotes st). height - vote_nBlockHeight v > lim \<and> vote_nBlockHeight v = h"
    have eq: "map_of blocks h = (if ?old then None else map_of (mapMasternodeBlocks st) h)"
      using CheckAndRemove_loop_blocks [of height lim "mapMasternodePaymentVotes st" "mapMasternodeBlocks st" h] by (simp only: r snd_conv)
    then have no: "\<not> ?old" using b by (metis option.distinct(1))
    then have b': "map_of (mapMasternodeBlocks st) h = Some bp" using b unfolding eq if_not_P [OF no] by blast
    show "block_payees_ok (mapMasternodePaymentVotes st) h bp" by (rule payments_invD [OF assms b'])
    fix k v assume "map_of (mapMasternodePaymentVotes st) k = Some v" "vote_nBlockHeight v = h"
    moreover from this have "\<not> height - vote_nBlockHeight v > lim" using no map_of_SomeD [of _ k v] by force
    ultimately show "map_of votes k = Some v" by (simp add: v map_of_filter_kept)
  qed
  moreover have "distinct (map fst votes)" unfolding v by (rule distinct_map_fst_filter [OF d])
  ultimately show ?thesis by (simp add: CheckAndRemove_def Some r payments_inv_def)
qed (use assms in \<open>simp add: CheckAndRemove_def\<close>)

text \<open>The runs of the store.\<close>

inductive payments_step :: "crypto \<Rightarrow> CMasternodePayments \<Rightarrow> CMasternodePayments \<Rightarrow> bool" for C where
  receive: "signature_law E \<Longrightarrow> payments_step C st (snd (ProcessVote C E vote st))"
| own_vote: "vote_IsVerified vote \<Longrightarrow> payments_step C st (snd (AddPaymentVote C known vote st))"
| tidy: "payments_step C st (CheckAndRemove current lim st)"
| clear: "payments_step C st (Payments_Clear st)"

lemma payments_step_inv: "payments_step C st st' \<Longrightarrow> payments_inv st \<Longrightarrow> payments_inv st'"
proof (induction rule: payments_step.induct)
  case clear
  show ?case by (simp add: payments_inv_def Payments_Clear_def)
qed (simp_all add: ProcessVote_inv AddPaymentVote_inv CheckAndRemove_inv)

lemma payments_steps_inv: "(payments_step C)\<^sup>*\<^sup>* st st' \<Longrightarrow> payments_inv st \<Longrightarrow> payments_inv st'"
  by (induction rule: rtranclp_induct) (auto intro: payments_step_inv)

lemma payments_inv_init: "payments_inv CMasternodePayments_init"
  by (simp add: payments_inv_def CMasternodePayments_init_def)

lemma vote_count_bound:
  assumes inv: "payments_inv st" and bp: "map_of (mapMasternodeBlocks st) h = Some bp" "p \<in> set (vecPayees bp)"
  shows "payee_GetVoteCount p \<le>
    length (filter (\<lambda>(k, v). vote_IsVerified v \<and> vote_nBlockHeight v = h \<and> vote_payee v = payee_scriptPubKey p) (mapMasternodePaymentVotes st))"
proof -
  let ?P = "\<lambda>(k, v). vote_IsVerified v \<and> vote_nBlockHeight v = h \<and> vote_payee v = payee_scriptPubKey p"
  have ok: "payee_ok (mapMasternodePaymentVotes st) h p" using payments_invD [OF inv bp(1)] bp(2) by (simp add: block_payees_ok_def)
  have "set (vecVoteHashes p) \<subseteq> fst ` set (filter ?P (mapMasternodePaymentVotes st))"
  proof
    fix k assume "k \<in> set (vecVoteHashes p)"
    then obtain v where "map_of (mapMasternodePaymentVotes st) k = Some v" "?P (k, v)" using ok by (auto simp: payee_ok_def)
    then have "(k, v) \<in> set (filter ?P (mapMasternodePaymentVotes st))" by (auto dest: map_of_SomeD)
    then show "k \<in> fst ` set (filter ?P (mapMasternodePaymentVotes st))" by force
  qed
  then have "card (set (vecVoteHashes p)) \<le> card (set (map fst (filter ?P (mapMasternodePaymentVotes st))))"
    by (intro card_mono) simp_all
  also have "\<dots> \<le> length (filter ?P (mapMasternodePaymentVotes st))" using card_length [of "map fst (filter ?P (mapMasternodePaymentVotes st))"] by simp
  also have "card (set (vecVoteHashes p)) = payee_GetVoteCount p" using ok by (simp add: payee_ok_def distinct_card payee_GetVoteCount_def)
  finally show ?thesis .
qed

text \<open>
  The last vote of a masternode is all that is kept: after a vote for another block it may vote for the
  first block again.
\<close>

lemma CanVote_twice:
  assumes "h \<noteq> h'" "CanVote st m h = (True, st1)" "CanVote st1 m h' = (True, st2)"
  shows "fst (CanVote st2 m h)"
  using assms by (auto simp: CanVote_def update_conv' split: if_splits)

subsection \<open>What is filled in is accepted\<close>

lemma best_loop:
  "GetBestPayee_loop ps n b = (n', b') \<Longrightarrow>
     n \<le> n' \<and> (\<forall>p \<in> set ps. int (payee_GetVoteCount p) \<le> n') \<and>
     (n' = n \<and> b' = b \<or> (\<exists>p \<in> set ps. n' = int (payee_GetVoteCount p) \<and> b' = Some (payee_scriptPubKey p)))"
proof (induction ps arbitrary: n b)
  case (Cons p ps)
  show ?case
  proof (cases "int (payee_GetVoteCount p) > n")
    case True
    then have "GetBestPayee_loop ps (int (payee_GetVoteCount p)) (Some (payee_scriptPubKey p)) = (n', b')" using Cons.prems by simp
    from Cons.IH [OF this] True show ?thesis by auto
  next
    case False
    then have "GetBestPayee_loop ps n b = (n', b')" using Cons.prems by simp
    from Cons.IH [OF this] False show ?thesis by auto
  qed
qed auto

lemma GetBestPayee_max:
  assumes "vecPayees bp \<noteq> []"
  shows "\<exists>p \<in> set (vecPayees bp). GetBestPayee bp = Some (payee_scriptPubKey p) \<and>
    (\<forall>q \<in> set (vecPayees bp). payee_GetVoteCount q \<le> payee_GetVoteCount p)"
proof -
  obtain n b where r: "GetBestPayee_loop (vecPayees bp) (-1) None = (n, b)" by (rule prod.exhaust)
  have "hd (vecPayees bp) \<in> set (vecPayees bp)" using assms by simp
  then have "n > -1" using best_loop [OF r] by force
  then obtain p where "p \<in> set (vecPayees bp)" "n = int (payee_GetVoteCount p)" "b = Some (payee_scriptPubKey p)"
    using best_loop [OF r] by auto
  then show ?thesis using best_loop [OF r] assms r \<open>n > -1\<close> by (auto simp: GetBestPayee_def)
qed

lemma fold_max_votes:
  "fold (\<lambda>p n. if payee_GetVoteCount p \<ge> n then payee_GetVoteCount p else n) ps a = m \<Longrightarrow>
     m = a \<or> (\<exists>p \<in> set ps. m = payee_GetVoteCount p)"
  by (induction ps arbitrary: a) (force split: if_splits)+

lemma BlockPayees_valid:
  assumes "GetValueOut tx = Inr v" "GetMasternodePayment (bp_nBlockHeight bp) v = Inr m"
    and "vecPayees bp \<noteq> [] \<Longrightarrow> GetBestPayee bp = Some s \<Longrightarrow> \<exists>out \<in> set (vout tx). scriptPubKey out = s \<and> nValue out = m"
    and "\<And>s'. GetBestPayee bp = Some s' \<Longrightarrow> s' = s"
  shows "BlockPayees_IsTransactionValid bp tx = Inr True"
proof (cases "fold (\<lambda>p n. if payee_GetVoteCount p \<ge> n then payee_GetVoteCount p else n) (vecPayees bp) 0 < MNPAYMENTS_SIGNATURES_REQUIRED")
  case True
  then show ?thesis using assms(1,2) by (simp add: BlockPayees_IsTransactionValid_def value_exit_def Let_def)
next
  case False
  then obtain q where q: "q \<in> set (vecPayees bp)" "payee_GetVoteCount q \<ge> MNPAYMENTS_SIGNATURES_REQUIRED"
    using fold_max_votes [OF refl, of "vecPayees bp" 0] by force
  then have ne: "vecPayees bp \<noteq> []" by auto
  obtain p where p: "p \<in> set (vecPayees bp)" "GetBestPayee bp = Some (payee_scriptPubKey p)"
      "payee_GetVoteCount q \<le> payee_GetVoteCount p"
    using GetBestPayee_max [OF ne] q(1) by blast
  then obtain out where "out \<in> set (vout tx)" "scriptPubKey out = payee_scriptPubKey p" "nValue out = m"
    using assms(3) [OF ne] assms(4) by metis
  then have "list_ex (\<lambda>p. payee_GetVoteCount p \<ge> MNPAYMENTS_SIGNATURES_REQUIRED \<and>
      list_ex (\<lambda>txout. payee_scriptPubKey p = scriptPubKey txout \<and> m = nValue txout) (vout tx)) (vecPayees bp)"
    unfolding list_ex_iff using p(1,3) q(2) by (metis order_trans)
  then show ?thesis using False assms(1,2) by (simp add: BlockPayees_IsTransactionValid_def value_exit_def Let_def)
qed

lemma GetMasternodePayment_range:
  assumes "GetMasternodePayment h r = Inr m" "0 \<le> r"
  shows "0 \<le> m \<and> m \<le> r"
proof -
  have "cdiv (r * 15) 100 = r * 15 div 100" "cdiv (r * 45) 100 = r * 45 div 100" using assms(2) by (simp_all add: cdiv_nonneg)
  then have "m = r * 15 div 100 \<or> m = r * 45 div 100"
    using assms(1) by (auto simp: GetMasternodePayment_def int64_op_def split: if_splits)
  then show ?thesis using assms(2) by auto
qed

lemma PaymentsTotal_loop_sum:
  "PaymentsTotal_loop ps a = Inr t \<Longrightarrow> t = a + sum_list (map pay_nAmount ps)"
proof (induction ps arbitrary: a)
  case (Cons p ps)
  then have "PaymentsTotal_loop ps (a + pay_nAmount p) = Inr t" by (simp add: int64_op_def split: if_splits)
  from Cons.IH [OF this] show ?case by simp
qed simp

lemma find_output_here:
  assumes "out = mk_CTxOut (pay_nAmount p) (pay_script p)"
  shows "\<exists>zs. find_output p (xs @ out # ys) = Some (zs @ out # ys)"
proof (induction xs)
  case Nil
  show ?case using assms by (intro exI [of _ "[]"]) (simp add: mk_CTxOut_def)
next
  case (Cons x xs)
  show ?case
  proof (cases "pay_script p = scriptPubKey x \<and> pay_nAmount p = nValue x")
    case True
    then show ?thesis by (intro exI [of _ "x # xs"]) simp
  next
    case False
    then have "find_output p ((x # xs) @ out # ys) = find_output p (xs @ out # ys)" by auto
    then show ?thesis using Cons.IH by simp
  qed
qed

lemma match_payments_appended: "match_payments ps (xs @ map (\<lambda>p. mk_CTxOut (pay_nAmount p) (pay_script p)) ps)"
proof (induction ps arbitrary: xs)
  case (Cons p ps)
  let ?outs = "map (\<lambda>p. mk_CTxOut (pay_nAmount p) (pay_script p)) ps"
  obtain zs where f: "find_output p (xs @ mk_CTxOut (pay_nAmount p) (pay_script p) # ?outs) =
      Some (zs @ mk_CTxOut (pay_nAmount p) (pay_script p) # ?outs)"
    using find_output_here [OF refl] by blast
  have "match_payments ps ((zs @ [mk_CTxOut (pay_nAmount p) (pay_script p)]) @ ?outs)" by (rule Cons.IH)
  then show ?case using f by simp
qed simp

text \<open>Two equal payments are matched by one output, so the second is not required of a coinbase.\<close>

lemma match_payments_twice: "match_payments [p, p] [mk_CTxOut (pay_nAmount p) (pay_script p), other]"
  by (simp add: mk_CTxOut_def)

text \<open>The coinbase before it is filled, and the conditions on amounts under which nothing overflows.\<close>

definition payments_fit :: "payment_env \<Rightarrow> int \<Rightarrow> CAmount \<Rightarrow> bool" where
  "payments_fit E height blockReward \<longleftrightarrow> 0 \<le> blockReward \<and> 45 * blockReward \<le> int64_max \<and> height - 1 \<noteq> nForkHeight (pay_params E) \<and>
     payments_inv (mnpayments E) \<and>
     (\<exists>limit. GetPaymentsLimit (pay_params E) height = Inr limit \<and> 0 \<le> limit \<and> blockReward + limit \<le> int64_max \<and>
        (IsSporkActive E SPORK_9_SUPERBLOCKS_ENABLED \<and> IsSuperblockTriggered (pay_params E) (triggers E) height \<longrightarrow>
          height \<ge> nSuperblockStartBlock (pay_params E) \<and>
          (\<exists>sb total. GetBestSuperblock (pay_params E) (triggers E) height = Some sb \<and> GetPaymentsTotalAmount sb = Inr total \<and>
             total \<le> limit \<and> (\<forall>p \<in> set (vecPayments sb). 0 \<le> pay_nAmount p))))"

lemma IsSuperblockTriggered_height: "IsSuperblockTriggered params ts h \<Longrightarrow> IsValidBlockHeight params h"
  by (simp add: IsSuperblockTriggered_def split: if_splits)

lemma GetMasternodePayment_fits: "0 \<le> r \<Longrightarrow> 45 * r \<le> int64_max \<Longrightarrow> \<exists>m. GetMasternodePayment h r = Inr m"
  by (auto simp: GetMasternodePayment_def int64_op_def int_ranges)

lemma FillBlockPayee_accepted:
  assumes out: "vout tx = [out]" "nValue out = r" and r: "0 \<le> r" "45 * r \<le> int64_max" and inv: "payments_inv (mnpayments E)"
  shows "\<exists>tx' mn. FillBlockPayee E tx height r = Inr (tx', mn) \<and> GetValueOut tx' = Inr r \<and>
    Payments_IsTransactionValid (mnpayments E) tx' height = Inr True"
proof -
  have r': "r \<le> MAX_MONEY" "in_int64 r" using r by (simp_all add: int_ranges)
  obtain m where m: "GetMasternodePayment height r = Inr m" using GetMasternodePayment_fits [OF r] by blast
  note m' = GetMasternodePayment_range [OF m r(1)]
  have blocks: "bp_nBlockHeight bp = height" if "map_of (mapMasternodeBlocks (mnpayments E)) height = Some bp" for bp
    using payments_invD [OF inv that] by (simp add: block_payees_ok_def)
  show ?thesis
  proof (cases "case GetBlockPayee (mnpayments E) height of None \<Rightarrow> next_in_queue E height | Some p \<Rightarrow> Some p")
    case None
    have v: "GetValueOut tx = Inr r" using out r r' by (simp add: GetValueOut_def MoneyRange_def int_ranges)
    have "Payments_IsTransactionValid (mnpayments E) tx height = Inr True"
    proof (cases "map_of (mapMasternodeBlocks (mnpayments E)) height")
      case (Some bp)
      then have "GetBestPayee bp = None" using None by (simp add: GetBlockPayee_def split: option.splits)
      then have "vecPayees bp = []" using GetBestPayee_max [of bp] by auto
      then show ?thesis using Some BlockPayees_valid [OF v, of bp m] m blocks [OF Some] \<open>GetBestPayee bp = None\<close>
        by (simp add: Payments_IsTransactionValid_def)
    qed (simp add: Payments_IsTransactionValid_def)
    then show ?thesis using None v by (simp add: FillBlockPayee_def)
  next
    case (Some payee)
    have i: "in_int64 (r - m)" using m' r'(2) by (simp add: int_ranges)
    define tx' where "tx' = tx\<lparr>vout := [out\<lparr>nValue := r - m\<rparr>, mk_CTxOut m payee]\<rparr>"
    have f: "FillBlockPayee E tx height r = Inr (tx', mk_CTxOut m payee)"
      using Some m out i by (simp add: FillBlockPayee_def tx'_def Let_def)
    have v: "GetValueOut tx' = Inr r"
      using m' r(1) r' GetValueOut_loop_eq [of 0 "vout tx'" r] by (simp add: GetValueOut_def tx'_def mk_CTxOut_def int_ranges)
    have "Payments_IsTransactionValid (mnpayments E) tx' height = Inr True"
    proof (cases "map_of (mapMasternodeBlocks (mnpayments E)) height")
      case bp: (Some bp)
      have "BlockPayees_IsTransactionValid bp tx' = Inr True"
      proof (rule BlockPayees_valid [OF v])
        show "GetMasternodePayment (bp_nBlockHeight bp) r = Inr m" unfolding blocks [OF bp] by (rule m)
        show "\<exists>out \<in> set (vout tx'). scriptPubKey out = payee \<and> nValue out = m" by (simp add: tx'_def mk_CTxOut_def)
        show "s' = payee" if "GetBestPayee bp = Some s'" for s' using Some bp that by (simp add: GetBlockPayee_def)
      qed
      then show ?thesis using bp by (simp add: Payments_IsTransactionValid_def)
    qed (simp add: Payments_IsTransactionValid_def)
    then show ?thesis using f v by blast
  qed
qed

text \<open>C37: What FillBlockPayments makes of a coinbase that pays the block reward, for a masternode or for a
  superblock, passes IsBlockValueValid and IsBlockPayeeValid at the same height with the same votes,
  triggers and sporks, whatever these are: it pays no more than it may, and it pays the masternode with
  most votes its exact share, or every payment of the superblock. The amounts must not overflow and the
  block must not be the one after the fork height, where the miner's fillwallet adds outputs. A
  triggered superblock must be the best one and within its limit.\<close>

theorem FillBlockPayments_accepted:
  assumes "vout tx = [out]" "nValue out = blockReward" "payments_fit E height blockReward"
  shows "\<exists>tx' mn sb. FillBlockPayments C E tx height blockReward mn0 sb0 = Inr (tx', mn, sb) \<and>
    IsBlockValueValid E tx' height blockReward = Inr True \<and> IsBlockPayeeValid E tx' height blockReward = Inr True"
proof -
  have r: "0 \<le> blockReward" "45 * blockReward \<le> int64_max" "height - 1 \<noteq> nForkHeight (pay_params E)" "payments_inv (mnpayments E)"
    using assms(3) by (simp_all add: payments_fit_def)
  obtain limit where l: "GetPaymentsLimit (pay_params E) height = Inr limit" "0 \<le> limit" "blockReward + limit \<le> int64_max"
    "IsSporkActive E SPORK_9_SUPERBLOCKS_ENABLED \<and> IsSuperblockTriggered (pay_params E) (triggers E) height \<longrightarrow>
          height \<ge> nSuperblockStartBlock (pay_params E) \<and>
          (\<exists>sb total. GetBestSuperblock (pay_params E) (triggers E) height = Some sb \<and> GetPaymentsTotalAmount sb = Inr total \<and>
             total \<le> limit \<and> (\<forall>p \<in> set (vecPayments sb). 0 \<le> pay_nAmount p))"
    using assms(3) unfolding payments_fit_def by blast
  have li: "in_int64 (blockReward + limit)" using l r(1) by (simp add: int_ranges)
  show ?thesis
  proof (cases "IsSporkActive E SPORK_9_SUPERBLOCKS_ENABLED \<and> IsSuperblockTriggered (pay_params E) (triggers E) height")
    case True
    then obtain sb total where sb: "height \<ge> nSuperblockStartBlock (pay_params E)"
        "GetBestSuperblock (pay_params E) (triggers E) height = Some sb" "GetPaymentsTotalAmount sb = Inr total"
        "total \<le> limit" "\<forall>p \<in> set (vecPayments sb). 0 \<le> pay_nAmount p"
      using l(4) by blast
    define tx' where "tx' = tx\<lparr>vout := out # map (\<lambda>p. mk_CTxOut (pay_nAmount p) (pay_script p)) (vecPayments sb)\<rparr>"
    have t: "total = sum_list (map pay_nAmount (vecPayments sb))"
      using PaymentsTotal_loop_sum [of "vecPayments sb" 0 total] sb(3) by (simp add: GetPaymentsTotalAmount_def)
    then have t0: "0 \<le> total" using sb(5) by (auto intro!: sum_list_nonneg)
    have map: "map nValue (vout tx') = blockReward # map pay_nAmount (vecPayments sb)"
      using assms(2) by (simp add: tx'_def mk_CTxOut_def comp_def)
    have "\<forall>out \<in> set (vout tx'). 0 \<le> nValue out" using r(1) sb(5) assms(2) by (auto simp: tx'_def mk_CTxOut_def)
    then have v: "GetValueOut tx' = Inr (blockReward + total)"
      using GetValueOut_loop_eq [of 0 "vout tx'" "blockReward + total"] l sb(4) t
      by (simp add: GetValueOut_def map) (simp add: int_ranges)
    have h: "IsValidBlockHeight (pay_params E) height" using True IsSuperblockTriggered_height by blast
    have in64: "in_int64 (blockReward + total)" using l sb(4) r(1) t0 by (simp add: int_ranges)
    have "match_payments (vecPayments sb) ([out] @ map (\<lambda>p. mk_CTxOut (pay_nAmount p) (pay_script p)) (vecPayments sb))"
      by (rule match_payments_appended)
    then have ok: "SuperblockManager_IsValid (pay_params E) (triggers E) tx' height blockReward = Inr True"
      using sb h v l(1) in64 by (simp add: SuperblockManager_IsValid_def Superblock_IsValid_def value_exit_def tx'_def)
    have "FillBlockPayments C E tx height blockReward mn0 sb0 =
        Inr (tx', mn0, map (\<lambda>p. mk_CTxOut (pay_nAmount p) (pay_script p)) (vecPayments sb))"
      using True sb(2) r(3) assms(1) by (simp add: FillBlockPayments_def CreateSuperblock_def fillwallet_def tx'_def Let_def)
    moreover have "IsBlockValueValid E tx' height blockReward = Inr True"
      using v l(1) li sb(1,4) ok True h by (simp add: IsBlockValueValid_def value_exit_def Let_def)
    moreover have "IsBlockPayeeValid E tx' height blockReward = Inr True"
      using True ok sb(1) by (simp add: IsBlockPayeeValid_def)
    ultimately show ?thesis by blast
  next
    case False
    obtain tx' mn where f: "FillBlockPayee E tx height blockReward = Inr (tx', mn)" "GetValueOut tx' = Inr blockReward"
        "Payments_IsTransactionValid (mnpayments E) tx' height = Inr True"
      using FillBlockPayee_accepted [OF assms(1,2) r(1,2,4)] by blast
    have "FillBlockPayments C E tx height blockReward mn0 sb0 = Inr (tx', mn, sb0)"
      using False f(1) r(3) by (auto simp: FillBlockPayments_def fillwallet_def)
    moreover have "IsBlockValueValid E tx' height blockReward = Inr True"
      using f(2) l li False by (auto simp: IsBlockValueValid_def value_exit_def Let_def)
    moreover have "IsBlockPayeeValid E tx' height blockReward = Inr True"
      using False f(3) by (auto simp: IsBlockPayeeValid_def)
    ultimately show ?thesis by blast
  qed
qed

definition example_superblock :: CSuperblock where
  "example_superblock = \<lparr>GetBlockStart = 8, vecPayments = [\<lparr>pay_script = [0x51], pay_nAmount = 7\<rparr>, \<lparr>pay_script = [0x52], pay_nAmount = 5\<rparr>],
     governance_object = Some (20, True)\<rparr>"

definition example_payment_env :: payment_env where
  "example_payment_env = \<lparr>pay_params = main_params, IsSynced = True, IsSporkActive = (\<lambda>s. s = SPORK_9_SUPERBLOCKS_ENABLED),
     triggers = [None, Some example_superblock], mnpayments = CMasternodePayments_init, next_in_queue = (\<lambda>h. None)\<rparr>"

lemma example_payments_fit: "payments_fit example_payment_env 8 (5707 * COIN)"
proof -
  have v: "IsValidBlockHeight main_params 8" by (simp add: IsValidBlockHeight_def main_params_def cmod_def cdiv_def)
  have l: "GetPaymentsLimit main_params 8 = Inr (5707 * COIN)"
    by (simp add: GetPaymentsLimit_def v) (simp add: GetBlockSubsidy_def main_params_def int64_op_def int_ranges)
  have b: "GetBestSuperblock main_params [None, Some example_superblock] 8 = Some example_superblock"
    by (simp add: GetBestSuperblock_def v) (simp add: example_superblock_def)
  show ?thesis unfolding payments_fit_def
    by (intro conjI exI [of _ "5707 * COIN"])
      (simp_all add: example_payment_env_def l b payments_inv_init, simp_all add: main_params_def int_ranges example_superblock_def
        GetPaymentsTotalAmount_def int64_op_def)
qed

theorem FillBlockPayments_accepted_witness:
  "\<exists>tx' mn sb. FillBlockPayments example_crypto example_payment_env (example_tx\<lparr>vout := [mk_CTxOut (5707 * COIN) [0x51]]\<rparr>) 8 (5707 * COIN)
      CTxOut_SetNull [] = Inr (tx', mn, sb) \<and>
    IsBlockValueValid example_payment_env tx' 8 (5707 * COIN) = Inr True \<and> IsBlockPayeeValid example_payment_env tx' 8 (5707 * COIN) = Inr True"
  by (rule FillBlockPayments_accepted [OF _ _ example_payments_fit, where out = "mk_CTxOut (5707 * COIN) [0x51]"]) (simp_all add: mk_CTxOut_def)

text \<open>
  In the block after the fork height, the miner computes the masternode's share from the reward, and the
  check from the value of all outputs, which is larger by what fillwallet added.
\<close>

lemma fork_share_differs:
  "0 \<le> r \<Longrightarrow> r \<le> 10 ^ 17 \<Longrightarrow> GetMasternodePayment h r \<noteq> GetMasternodePayment h (r + 100000000 * COIN)"
proof -
  assume r: "0 \<le> r" "r \<le> 10 ^ 17"
  have "cdiv (r * 15) 100 = r * 15 div 100" "cdiv (r * 45) 100 = r * 45 div 100"
    "cdiv ((r + 100000000 * COIN) * 15) 100 = r * 15 div 100 + 15000000 * COIN" "cdiv ((r + 100000000 * COIN) * 45) 100 = r * 45 div 100 + 45000000 * COIN"
    using r(1) by (simp_all add: cdiv_nonneg algebra_simps)
  then show ?thesis using r by (auto simp: GetMasternodePayment_def int64_op_def int_ranges)
qed

text \<open>C38: In every state that the store of masternode payment votes reaches from the empty one, by receiving
  votes, adding its own, removing old votes and clearing, the entry for a block is about that block, and
  the vote count of each payee of it counts stored, verified votes for that block and that payee, each
  of them once: a vote that comes again is never counted again. A signature that verifies is not empty.\<close>

theorem votes_counted_once:
  assumes "(payments_step C)\<^sup>*\<^sup>* CMasternodePayments_init st"
    and "map_of (mapMasternodeBlocks st) h = Some bp" "p \<in> set (vecPayees bp)"
  shows "bp_nBlockHeight bp = h \<and> distinct (vecVoteHashes p) \<and>
    (\<forall>k \<in> set (vecVoteHashes p). \<exists>v. map_of (mapMasternodePaymentVotes st) k = Some v \<and> vote_IsVerified v \<and>
       vote_nBlockHeight v = h \<and> vote_payee v = payee_scriptPubKey p) \<and>
    payee_GetVoteCount p \<le> length (filter (\<lambda>(k, v). vote_IsVerified v \<and> vote_nBlockHeight v = h \<and> vote_payee v = payee_scriptPubKey p)
      (mapMasternodePaymentVotes st))"
proof -
  have inv: "payments_inv st" by (rule payments_steps_inv [OF assms(1) payments_inv_init])
  show ?thesis using payments_invD [OF inv assms(2)] assms(3) vote_count_bound [OF inv assms(2,3)]
    unfolding block_payees_ok_def payee_ok_def by blast
qed

definition example_vote :: CMasternodePaymentVote where
  "example_vote = \<lparr>vinMasternode = mk_CTxIn COutPoint_SetNull [] 0, vote_nBlockHeight = 120, vote_payee = [0x51], vote_vchSig = [1]\<rparr>"

theorem votes_counted_once_witness:
  "\<exists>(st :: CMasternodePayments) (bp :: CMasternodeBlockPayees) (p :: CMasternodePayee). map_of (mapMasternodeBlocks st) 120 = Some bp \<and> vecPayees bp = [p] \<and> payee_GetVoteCount p = 1 \<and>
     distinct (vecVoteHashes p) \<and> map_of (mapMasternodePaymentVotes st) (vote_GetHash example_crypto example_vote) = Some example_vote"
proof -
  let ?st = "snd (AddPaymentVote example_crypto (\<lambda>h. True) example_vote CMasternodePayments_init)"
  let ?p = "\<lparr>payee_scriptPubKey = [0x51], vecVoteHashes = [vote_GetHash example_crypto example_vote]\<rparr> :: CMasternodePayee"
  let ?bp = "\<lparr>bp_nBlockHeight = 120, vecPayees = [?p]\<rparr> :: CMasternodeBlockPayees"
  have step: "(payments_step example_crypto)\<^sup>*\<^sup>* CMasternodePayments_init ?st"
    by (rule r_into_rtranclp, rule payments_step.own_vote) (simp add: vote_IsVerified_def example_vote_def)
  have st: "map_of (mapMasternodeBlocks ?st) 120 = Some ?bp"
    "map_of (mapMasternodePaymentVotes ?st) (vote_GetHash example_crypto example_vote) = Some example_vote"
    by (simp_all add: AddPaymentVote_def HasVerifiedPaymentVote_def CMasternodePayments_init_def AddPayee_def Let_def) (simp_all add: example_vote_def)
  have "distinct (vecVoteHashes ?p)" using votes_counted_once [OF step st(1), of ?p] by simp
  then show ?thesis using st by (intro exI [of _ ?st] exI [of _ ?bp] exI [of _ ?p]) (simp add: payee_GetVoteCount_def)
qed

end
