(* ===== verification/BlockCheck.thy ===== *)
theory BlockCheck
  imports Payments
begin

text \<open>
  The checks of a block in validation.cpp: the block by itself (\<open>CheckBlock\<close>), its header and its
  transactions in the place where it is in the tree of blocks (\<open>ContextualCheckBlockHeader\<close>,
  \<open>ContextualCheckBlock\<close>), and the checkpoints.

  What the checks read of the node and do not change is the record \<open>node_env\<close>: the hash function X11, which
  is in a third party's code, the clocks, the checkpoints, the locked outpoints of InstaPay, and the
  payments of \<open>payment_env\<close>. What a check does apart from its verdict is a list of events.
\<close>

unbundle bit_operations_syntax

subsection \<open>Blocks\<close>

record CBlock = CBlockHeader +
  vtx :: "CTransaction list"
  txoutMasternode :: CTxOut
  voutSuperblock :: "CTxOut list"
  fChecked :: bool

definition CBlock_SetNull :: CBlock where
  "CBlock_SetNull = CBlockHeader.extend CBlockHeader_SetNull
     \<lparr>vtx = [], txoutMasternode = CTxOut_SetNull, voutSuperblock = [], fChecked = False\<rparr>"

definition CBlock_of :: "CBlockHeader \<Rightarrow> CBlock" where
  "CBlock_of header = CBlockHeader.extend header
     \<lparr>vtx = vtx CBlock_SetNull, txoutMasternode = txoutMasternode CBlock_SetNull,
      voutSuperblock = voutSuperblock CBlock_SetNull, fChecked = fChecked CBlock_SetNull\<rparr>"

definition block_header :: "CBlock \<Rightarrow> CBlockHeader" where
  "block_header block = \<lparr>hdr_nVersion = hdr_nVersion block, hdr_hashPrevBlock = hdr_hashPrevBlock block,
     hdr_hashMerkleRoot = hdr_hashMerkleRoot block, hdr_nTime = hdr_nTime block, hdr_nBits = hdr_nBits block,
     hdr_nNonce = hdr_nNonce block\<rparr>"

definition Serialize_CBlock :: "CBlock \<Rightarrow> bytes" where
  "Serialize_CBlock block = Serialize_CBlockHeader (block_header block) @ Serialize_vector Serialize_CTransaction (vtx block)"

definition Unserialize_CBlock :: "'s reader \<Rightarrow> nat \<Rightarrow> nat \<Rightarrow> nat \<Rightarrow> 's \<Rightarrow> ser_exn + CBlock \<times> 's" where
  "Unserialize_CBlock rd szTx szIn szOut s =
     ebind (Unserialize_CBlockHeader rd s) (\<lambda>(header, s).
     ebind (Unserialize_vector rd szTx (Unserialize_CTransaction rd szIn szOut) s) (\<lambda>(txs, s).
     Inr ((CBlock_of header)\<lparr>vtx := txs\<rparr>, s)))"

subsection \<open>The node\<close>

record node_env =
  HashX11 :: "bytes \<Rightarrow> uint256"
  is_main :: bool
  GetTime :: int
  GetAdjustedTime :: int
  active_height :: int
  fCheckpointsEnabled :: bool
  mapCheckpoints :: "(int \<times> uint256) list"
  GetLockedOutPointTxHash :: "COutPoint \<Rightarrow> uint256 option"
  payments :: payment_env

abbreviation env_params :: "node_env \<Rightarrow> Params" where "env_params E \<equiv> pay_params (payments E)"

datatype node_event = Relay uint256 | Reject_block uint256 int

text \<open>The members from \<open>nVersion\<close> to \<open>nNonce\<close> lie in memory as they are serialised.\<close>

definition header_GetHash :: "node_env \<Rightarrow> CBlockHeader \<Rightarrow> uint256" where
  "header_GetHash E header = HashX11 E (Serialize_CBlockHeader header)"

fun last_known :: "(uint256 \<Rightarrow> ptr option) \<Rightarrow> (int \<times> uint256) list \<Rightarrow> ptr option" where
  "last_known mapBlockIndex [] = None"
| "last_known mapBlockIndex ((height, hash) # checkpoints) =
     (case mapBlockIndex hash of Some p \<Rightarrow> Some p | None \<Rightarrow> last_known mapBlockIndex checkpoints)"

definition GetLastCheckpoint :: "(int \<times> uint256) list \<Rightarrow> (uint256 \<Rightarrow> ptr option) \<Rightarrow> ptr option" where
  "GetLastCheckpoint checkpoints mapBlockIndex = last_known mapBlockIndex (rev checkpoints)"

subsection \<open>A block by itself\<close>

definition CheckBlockHeader :: "node_env \<Rightarrow> CBlockHeader \<Rightarrow> CValidationState \<Rightarrow> bool \<Rightarrow> bool \<times> CValidationState" where
  "CheckBlockHeader E header state fCheckPOW =
     (if fCheckPOW \<and> \<not> CheckProofOfWork (active_height E) (header_GetHash E header) (hdr_nBits header) (env_params E) then
        DoS state 50 False REJECT_INVALID ''high-hash'' False
      else if uint (hdr_nTime header) > GetAdjustedTime E + 5 * 60 then
        Invalid state False REJECT_INVALID ''time-too-new''
      else (True, state))"

text \<open>The first input whose outpoint is locked by another transaction, with that transaction.\<close>

fun locked_input :: "(COutPoint \<Rightarrow> uint256 option) \<Rightarrow> uint256 \<Rightarrow> CTxIn list \<Rightarrow> uint256 option" where
  "locked_input locked txhash [] = None"
| "locked_input locked txhash (txin # ins) =
     (case locked (prevout txin) of
        Some hashLocked \<Rightarrow> if hashLocked \<noteq> txhash then Some hashLocked else locked_input locked txhash ins
      | None \<Rightarrow> locked_input locked txhash ins)"

fun locked_tx :: "crypto \<Rightarrow> (COutPoint \<Rightarrow> uint256 option) \<Rightarrow> CTransaction list \<Rightarrow> uint256 option" where
  "locked_tx C locked [] = None"
| "locked_tx C locked (tx # txs) =
     (if IsCoinBase tx then locked_tx C locked txs
      else case locked_input locked (GetHash C tx) (vin tx) of
          Some hashLocked \<Rightarrow> Some hashLocked
        | None \<Rightarrow> locked_tx C locked txs)"

fun CheckTransactions :: "CTransaction list \<Rightarrow> CValidationState \<Rightarrow> verdict" where
  "CheckTransactions [] state = Inr (True, state)"
| "CheckTransactions (tx # txs) state = and_then (CheckTransaction tx state) (CheckTransactions txs)"

text \<open>The checks of the transactions, from the size limits on.\<close>

definition CheckBlock_body :: "crypto \<Rightarrow> node_env \<Rightarrow> CBlock \<Rightarrow> CValidationState \<Rightarrow> cxx_exit + (bool \<times> CValidationState) \<times> node_event list" where
  "CheckBlock_body C E block state =
     (if vtx block = [] \<or> length (vtx block) > MAX_BLOCK_SIZE \<or> length (Serialize_CBlock block) > MAX_BLOCK_SIZE then
        Inr (DoS state 100 False REJECT_INVALID ''bad-blk-length'' False, [])
      else if vtx block = [] \<or> \<not> IsCoinBase (vtx block ! 0) then
        Inr (DoS state 100 False REJECT_INVALID ''bad-cb-missing'' False, [])
      else if list_ex IsCoinBase (drop 1 (vtx block)) then
        Inr (DoS state 100 False REJECT_INVALID ''bad-cb-multiple'' False, [])
      else
        case (if IsSporkActive (payments E) SPORK_3_INSTAPAY_BLOCK_FILTERING
              then locked_tx C (GetLockedOutPointTxHash E) (vtx block) else None) of
          Some hashLocked \<Rightarrow>
            Inr (DoS state 0 False REJECT_INVALID ''conflict-tx-lock'' False,
              [Relay hashLocked, Reject_block (header_GetHash E (block_header block)) (GetTime E)])
        | None \<Rightarrow>
            ebind (CheckTransactions (vtx block) state) (\<lambda>(ok, state).
            if \<not> ok then Inr ((False, state), [])
            else
              ebind (add_sigops (map GetLegacySigOpCount (vtx block)) 0) (\<lambda>nSigOps.
              if nSigOps > MAX_BLOCK_SIGOPS then Inr (DoS state 100 False REJECT_INVALID ''bad-blk-sigops'' False, [])
              else Inr ((True, state), []))))"

definition CheckBlock ::
  "crypto \<Rightarrow> node_env \<Rightarrow> CBlock \<Rightarrow> CValidationState \<Rightarrow> bool \<Rightarrow> bool \<Rightarrow>
     cxx_exit + (bool \<times> CValidationState) \<times> CBlock \<times> node_event list" where
  "CheckBlock C E block state fCheckPOW fCheckMerkleRoot =
     (if fChecked block then Inr ((True, state), block, [])
      else
        case CheckBlockHeader E (block_header block) state fCheckPOW of
          (False, state) \<Rightarrow> Inr ((False, state), block, [])
        | (True, state) \<Rightarrow>
            let (hashMerkleRoot2, mutated) = BlockMerkleRoot C (vtx block) in
            if fCheckMerkleRoot \<and> hdr_hashMerkleRoot block \<noteq> hashMerkleRoot2 then
              Inr (DoS state 100 False REJECT_INVALID ''bad-txnmrklroot'' True, block, [])
            else if fCheckMerkleRoot \<and> mutated then
              Inr (DoS state 100 False REJECT_INVALID ''bad-txns-duplicate'' True, block, [])
            else
              ebind (CheckBlock_body C E block state) (\<lambda>((ok, state), evs).
              Inr ((ok, state), (if ok \<and> fCheckPOW \<and> fCheckMerkleRoot then block\<lparr>fChecked := True\<rparr> else block), evs)))"

subsection \<open>A block in its place\<close>

fun majority_loop :: "heap \<Rightarrow> int \<Rightarrow> nat \<Rightarrow> nat \<Rightarrow> ptr option \<Rightarrow> nat \<Rightarrow> nat" where
  "majority_loop H minVersion nRequired 0 pstart nFound = nFound"
| "majority_loop H minVersion nRequired (Suc i) None nFound = nFound"
| "majority_loop H minVersion nRequired (Suc i) (Some p) nFound =
     (if nFound < nRequired then
        majority_loop H minVersion nRequired i (pprev (H p)) (if bi_nVersion (H p) \<ge> minVersion then nFound + 1 else nFound)
      else nFound)"

definition IsSuperMajority :: "heap \<Rightarrow> int \<Rightarrow> ptr option \<Rightarrow> nat \<Rightarrow> Params \<Rightarrow> bool" where
  "IsSuperMajority H minVersion pstart nRequired params \<longleftrightarrow>
     majority_loop H minVersion nRequired (nat (nMajorityWindow params)) pstart 0 \<ge> nRequired"

definition CheckIndexAgainstCheckpoint ::
  "heap \<Rightarrow> node_env \<Rightarrow> (uint256 \<Rightarrow> ptr option) \<Rightarrow> ptr \<Rightarrow> CValidationState \<Rightarrow> bool \<times> CValidationState" where
  "CheckIndexAgainstCheckpoint H E mapBlockIndex pindexPrev state =
     (if phashBlock (H pindexPrev) = hashGenesisBlock (env_params E) then (True, state)
      else
        let height = nHeight (H pindexPrev) + 1 in
        case GetLastCheckpoint (mapCheckpoints E) mapBlockIndex of
          Some pcheckpoint \<Rightarrow> if height < nHeight (H pcheckpoint) then DoS state 100 False 0 '''' False else (True, state)
        | None \<Rightarrow> (True, state))"

text \<open>The test of one version: a block of an older version is refused once a majority has the version.\<close>

definition outdated :: "heap \<Rightarrow> Params \<Rightarrow> CBlockHeader \<Rightarrow> ptr \<Rightarrow> int \<Rightarrow> bool" where
  "outdated H params header pindexPrev version \<longleftrightarrow> hdr_nVersion header < version \<and>
     IsSuperMajority H version (Some pindexPrev) (unsigned_of 32 (nMajorityRejectBlockOutdated params)) params"

definition ContextualCheckBlockHeader ::
  "heap \<Rightarrow> node_env \<Rightarrow> CBlockHeader \<Rightarrow> CValidationState \<Rightarrow> ptr \<Rightarrow> (pow_exit + bool \<times> CValidationState) option" where
  "ContextualCheckBlockHeader H E header state pindexPrev =
     (let height = nHeight (H pindexPrev) + 1 in
      obind (GetNextWorkRequired H (Some pindexPrev) (env_params E)) (\<lambda>nBitsNext.
      if is_main E \<and> height \<le> 68589 then Some (Inr (True, state))
      else if hdr_nBits header \<noteq> nBitsNext \<and> nHeight (H pindexPrev) \<ge> nForkHeight (env_params E) then
        Some (Inr (DoS state 100 False REJECT_INVALID ''bad-diffbits'' False))
      else if uint (hdr_nTime header) \<le> GetMedianTimePast H pindexPrev then
        Some (Inr (Invalid state False REJECT_INVALID ''time-too-old''))
      else if outdated H (env_params E) header pindexPrev 2 \<or> outdated H (env_params E) header pindexPrev 3 \<or>
          outdated H (env_params E) header pindexPrev 4 then
        Some (Inr (Invalid state False REJECT_OBSOLETE ''bad-version''))
      else Some (Inr (True, state))))"

definition ContextualCheckBlock ::
  "heap \<Rightarrow> node_env \<Rightarrow> CBlock \<Rightarrow> CValidationState \<Rightarrow> ptr option \<Rightarrow> VersionBitsCache \<Rightarrow>
     (cxx_exit + (bool \<times> CValidationState) \<times> VersionBitsCache) option" where
  "ContextualCheckBlock H E block state pindexPrev cache =
     (let height = (case pindexPrev of None \<Rightarrow> 0 | Some p \<Rightarrow> nHeight (H p) + 1) in
      obind (VersionBitsState H pindexPrev (env_params E) DEPLOYMENT_CSV cache) (\<lambda>(vbstate, cache).
      let lockTimeFlags = (if vbstate = THRESHOLD_ACTIVE then LOCKTIME_MEDIAN_TIME_PAST else 0) in
      if lockTimeFlags AND LOCKTIME_MEDIAN_TIME_PAST \<noteq> 0 \<and> pindexPrev = None then Some (Inl Undefined)
      else
        let nLockTimeCutoff =
          (if lockTimeFlags AND LOCKTIME_MEDIAN_TIME_PAST \<noteq> 0 then GetMedianTimePast H (the pindexPrev)
           else uint (hdr_nTime block)) in
        if \<not> list_all (\<lambda>tx. IsFinalTx tx height nLockTimeCutoff) (vtx block) then
          Some (Inr (DoS state 10 False REJECT_INVALID ''bad-txns-nonfinal'' False, cache))
        else if hdr_nVersion block \<ge> 2 \<and>
            IsSuperMajority H 2 pindexPrev (unsigned_of 32 (nMajorityEnforceBlockUpgrade (env_params E))) (env_params E) then
          (if vtx block = [] \<or> vin (vtx block ! 0) = [] then Some (Inl Undefined)
           else
             let expect = push_int64 [] height; sig = scriptSig (vin (vtx block ! 0) ! 0) in
             if length sig < length expect \<or> take (length expect) sig \<noteq> expect then
               Some (Inr (DoS state 100 False REJECT_INVALID ''bad-cb-height'' False, cache))
             else Some (Inr ((True, state), cache)))
        else Some (Inr ((True, state), cache))))"

subsection \<open>What the check of a block accepts\<close>

lemma locked_input_none:
  "locked_input locked txhash ins = None \<longleftrightarrow> (\<forall>txin \<in> set ins. locked (prevout txin) \<in> {None, Some txhash})"
  by (induction ins) (auto split: option.split)

lemma locked_tx_none:
  "locked_tx C locked txs = None \<longleftrightarrow>
     (\<forall>tx \<in> set txs. \<not> IsCoinBase tx \<longrightarrow> (\<forall>txin \<in> set (vin tx). locked (prevout txin) \<in> {None, Some (GetHash C tx)}))"
proof (induction txs)
  case (Cons tx txs)
  then show ?case
    using locked_input_none [of locked "GetHash C tx" "vin tx"] by (cases "locked_input locked (GetHash C tx) (vin tx)") auto
qed simp

text \<open>The transactions that \<open>CheckTransaction\<close> accepts.\<close>

definition tx_ok :: "CTransaction \<Rightarrow> bool" where
  "tx_ok tx \<longleftrightarrow> vin tx \<noteq> [] \<and> vout tx \<noteq> [] \<and> length (Serialize_CTransaction tx) \<le> MAX_BLOCK_SIZE \<and>
     (\<forall>out \<in> set (vout tx). 0 \<le> nValue out) \<and> sum_list (map nValue (vout tx)) \<le> MAX_MONEY \<and>
     distinct (map prevout (vin tx)) \<and>
     (if IsCoinBase tx then 2 \<le> length (scriptSig (vin tx ! 0)) \<and> length (scriptSig (vin tx ! 0)) \<le> 100
      else \<forall>txin \<in> set (vin tx). \<not> COutPoint_IsNull (prevout txin))"

lemma CheckTransaction_tx_ok: "CheckTransaction tx state = Inr (True, st) \<longleftrightarrow> st = state \<and> tx_ok tx"
  unfolding tx_ok_def by (rule CheckTransaction_accepts_iff)

lemma CheckTransactions_accepts:
  "CheckTransactions txs state = Inr (True, st) \<longleftrightarrow> st = state \<and> (\<forall>tx \<in> set txs. tx_ok tx)"
  by (induction txs) (auto simp: and_then_accepts CheckTransaction_tx_ok)

definition header_ok :: "node_env \<Rightarrow> CBlockHeader \<Rightarrow> bool \<Rightarrow> bool" where
  "header_ok E header fCheckPOW \<longleftrightarrow>
     (fCheckPOW \<longrightarrow> CheckProofOfWork (active_height E) (header_GetHash E header) (hdr_nBits header) (env_params E)) \<and>
     uint (hdr_nTime header) \<le> GetAdjustedTime E + 5 * 60"

lemma CheckBlockHeader_accepts: "CheckBlockHeader E header state pow = (True, st) \<longleftrightarrow> st = state \<and> header_ok E header pow"
  by (auto simp: CheckBlockHeader_def header_ok_def)

text \<open>The transactions of a block that is accepted.\<close>

definition body_ok :: "crypto \<Rightarrow> node_env \<Rightarrow> CBlock \<Rightarrow> bool" where
  "body_ok C E block \<longleftrightarrow>
     vtx block \<noteq> [] \<and> length (vtx block) \<le> MAX_BLOCK_SIZE \<and> length (Serialize_CBlock block) \<le> MAX_BLOCK_SIZE \<and>
     IsCoinBase (hd (vtx block)) \<and> (\<forall>tx \<in> set (tl (vtx block)). \<not> IsCoinBase tx) \<and>
     (IsSporkActive (payments E) SPORK_3_INSTAPAY_BLOCK_FILTERING \<longrightarrow>
        (\<forall>tx \<in> set (tl (vtx block)). \<forall>txin \<in> set (vin tx). GetLockedOutPointTxHash E (prevout txin) \<in> {None, Some (GetHash C tx)})) \<and>
     (\<forall>tx \<in> set (vtx block). tx_ok tx) \<and>
     (\<exists>n \<le> MAX_BLOCK_SIGOPS. add_sigops (map GetLegacySigOpCount (vtx block)) 0 = Inr n)"

lemma CheckBlock_body_accepts:
  "CheckBlock_body C E block state = Inr ((True, st), evs) \<longleftrightarrow> st = state \<and> evs = [] \<and> body_ok C E block"
proof (cases "vtx block")
  case Nil
  then show ?thesis by (auto simp: CheckBlock_body_def body_ok_def)
next
  case (Cons cb txs)
  define lock where "lock = (if IsSporkActive (payments E) SPORK_3_INSTAPAY_BLOCK_FILTERING
    then locked_tx C (GetLockedOutPointTxHash E) (vtx block) else None)"
  define rest where "rest = ebind (CheckTransactions (vtx block) state) (\<lambda>(ok, state).
      if \<not> ok then Inr ((False, state), [])
      else
        ebind (add_sigops (map GetLegacySigOpCount (vtx block)) 0) (\<lambda>nSigOps.
        if nSigOps > MAX_BLOCK_SIGOPS then Inr (DoS state 100 False REJECT_INVALID ''bad-blk-sigops'' False, [])
        else Inr ((True, state), [] :: node_event list)))"
  have lock: "lock = None \<longleftrightarrow> (IsSporkActive (payments E) SPORK_3_INSTAPAY_BLOCK_FILTERING \<longrightarrow>
      (\<forall>tx \<in> set (vtx block). \<not> IsCoinBase tx \<longrightarrow> (\<forall>txin \<in> set (vin tx). GetLockedOutPointTxHash E (prevout txin) \<in> {None, Some (GetHash C tx)})))"
    by (simp only: lock_def locked_tx_none split: if_splits) simp
  show ?thesis
  proof (cases "length (vtx block) \<le> MAX_BLOCK_SIZE \<and> length (Serialize_CBlock block) \<le> MAX_BLOCK_SIZE \<and> IsCoinBase cb \<and>
      \<not> list_ex IsCoinBase txs \<and> lock = None")
    case False
    then have "CheckBlock_body C E block state \<noteq> Inr ((True, st), evs)"
      unfolding CheckBlock_body_def lock_def [symmetric] rest_def [symmetric] by (auto simp: Cons split: option.split)
    moreover have "\<not> body_ok C E block" using False unfolding lock by (auto simp: body_ok_def Cons list_ex_iff)
    ultimately show ?thesis by blast
  next
    case True
    have r: "CheckBlock_body C E block state = rest"
      using True unfolding CheckBlock_body_def lock_def [symmetric] rest_def [symmetric] by (simp add: Cons)
    have b: "body_ok C E block \<longleftrightarrow> CheckTransactions (vtx block) state = Inr (True, state) \<and>
        (\<exists>n \<le> MAX_BLOCK_SIGOPS. add_sigops (map GetLegacySigOpCount (vtx block)) 0 = Inr n)"
      using True unfolding lock CheckTransactions_accepts by (auto simp: body_ok_def Cons list_ex_iff)
    show ?thesis
    proof (cases "CheckTransactions (vtx block) state")
      case (Inr v)
      obtain ok s where v: "v = (ok, s)" by (rule prod.exhaust)
      have "ok \<longrightarrow> s = state" using CheckTransactions_accepts [of "vtx block" state s] Inr v by auto
      then show ?thesis unfolding r b rest_def Inr v
        by (cases ok; cases "add_sigops (map GetLegacySigOpCount (vtx block)) 0") auto
    qed (simp add: r b rest_def)
  qed
qed

lemma CheckBlock_accepts:
  assumes "\<not> fChecked block"
  shows "CheckBlock C E block state fCheckPOW fCheckMerkleRoot = Inr ((True, st), block', evs) \<longleftrightarrow>
    st = state \<and> evs = [] \<and> block' = (if fCheckPOW \<and> fCheckMerkleRoot then block\<lparr>fChecked := True\<rparr> else block) \<and>
    header_ok E (block_header block) fCheckPOW \<and>
    (fCheckMerkleRoot \<longrightarrow> BlockMerkleRoot C (vtx block) = (hdr_hashMerkleRoot block, False)) \<and> body_ok C E block"
proof -
  obtain root mutated where m: "BlockMerkleRoot C (vtx block) = (root, mutated)" by (rule prod.exhaust)
  obtain hok st1 where h: "CheckBlockHeader E (block_header block) state fCheckPOW = (hok, st1)" by (rule prod.exhaust)
  show ?thesis
  proof (cases hok)
    case False
    then have "\<not> header_ok E (block_header block) fCheckPOW"
      using CheckBlockHeader_accepts [of E "block_header block" state fCheckPOW state] by (simp add: h)
    then show ?thesis using assms h False by (simp add: CheckBlock_def)
  next
    case True
    then have ok: "header_ok E (block_header block) fCheckPOW" "st1 = state"
      using CheckBlockHeader_accepts [of E "block_header block" state fCheckPOW st1] by (simp_all add: h)
    show ?thesis
    proof (cases "fCheckMerkleRoot \<and> (hdr_hashMerkleRoot block \<noteq> root \<or> mutated)")
      case True
      then have "\<exists>reason. CheckBlock C E block state fCheckPOW fCheckMerkleRoot = Inr (DoS st1 100 False REJECT_INVALID reason True, block, [])"
        using assms h \<open>hok\<close> m by (cases "hdr_hashMerkleRoot block = root") (auto simp: CheckBlock_def)
      moreover have "\<not> (fCheckMerkleRoot \<longrightarrow> BlockMerkleRoot C (vtx block) = (hdr_hashMerkleRoot block, False))" using True m by auto
      ultimately show ?thesis by (metis Inr_inject prod.inject verdict_simps(1))
    next
      case False
      have r: "CheckBlock C E block state fCheckPOW fCheckMerkleRoot = ebind (CheckBlock_body C E block state) (\<lambda>((ok, state), evs).
          Inr ((ok, state), (if ok \<and> fCheckPOW \<and> fCheckMerkleRoot then block\<lparr>fChecked := True\<rparr> else block), evs))"
        using assms h \<open>hok\<close> m False ok by (auto simp: CheckBlock_def Let_def)
      have "CheckBlock C E block state fCheckPOW fCheckMerkleRoot = Inr ((True, st), block', evs) \<longleftrightarrow>
          CheckBlock_body C E block state = Inr ((True, st), evs) \<and>
          block' = (if fCheckPOW \<and> fCheckMerkleRoot then block\<lparr>fChecked := True\<rparr> else block)"
        unfolding r by (cases "CheckBlock_body C E block state") auto
      then show ?thesis using False m ok by (auto simp: CheckBlock_body_accepts)
    qed
  qed
qed

subsection \<open>The hash of a block commits to its transactions\<close>

text \<open>Serialisation is injective on what the C++ types can hold.\<close>

lemma Serialize_CTransaction_inj:
  assumes "wf_CTransaction tx" "wf_CTransaction tx'" "Serialize_CTransaction tx = Serialize_CTransaction tx'"
  shows "tx = tx'"
proof -
  have "bytes_stream.parses (Unserialize_CTransaction bytes_read 1 1) (Serialize_CTransaction t) t []" if "wf_CTransaction t" for t
    by (rule bytes_stream.parses_CTransaction) (use that in auto)
  from this [OF assms(1)] this [OF assms(2)] show ?thesis using assms(3) by (auto simp: bytes_stream.parses_def)
qed

definition wf_CBlockHeader :: "CBlockHeader \<Rightarrow> bool" where
  "wf_CBlockHeader header \<longleftrightarrow> int32_min \<le> hdr_nVersion header \<and> hdr_nVersion header \<le> int32_max \<and>
     length (hdr_hashPrevBlock header) = 32 \<and> length (hdr_hashMerkleRoot header) = 32"

lemma le_bytes_inj: "m < 256 ^ k \<Longrightarrow> n < 256 ^ k \<Longrightarrow> le_bytes k m = le_bytes k n \<Longrightarrow> m = n"
  by (metis le_val_le_bytes_less)

lemma Serialize_CBlockHeader_inj:
  assumes "wf_CBlockHeader h" "wf_CBlockHeader h'" "Serialize_CBlockHeader h = Serialize_CBlockHeader h'"
  shows "h = h'"
proof -
  have w: "unsigned_of 32 n < 256 ^ 4" for n using unsigned_of_less [of 32 n] by simp
  have u: "unat m < 256 ^ 4" for m :: u32 using unsigned_less [of m] by simp
  have "length (le_bytes 4 n) = 4" for n by simp
  then have e: "le_bytes 4 (unsigned_of 32 (hdr_nVersion h)) = le_bytes 4 (unsigned_of 32 (hdr_nVersion h'))"
    "hdr_hashPrevBlock h = hdr_hashPrevBlock h'" "hdr_hashMerkleRoot h = hdr_hashMerkleRoot h'"
    "le_bytes 4 (unat (hdr_nTime h)) = le_bytes 4 (unat (hdr_nTime h'))"
    "le_bytes 4 (unat (hdr_nBits h)) = le_bytes 4 (unat (hdr_nBits h'))"
    "le_bytes 4 (unat (hdr_nNonce h)) = le_bytes 4 (unat (hdr_nNonce h'))"
    using assms by (simp_all add: Serialize_CBlockHeader_def ser_writedata32_def wf_CBlockHeader_def)
  have "signed_of 32 (unsigned_of 32 (hdr_nVersion h)) = signed_of 32 (unsigned_of 32 (hdr_nVersion h'))"
    using le_bytes_inj [OF w w e(1)] by simp
  then have "hdr_nVersion h = hdr_nVersion h'"
    using assms(1,2) signed_of_unsigned_of [of 32] by (auto simp: wf_CBlockHeader_def int_ranges)
  moreover have "hdr_nTime h = hdr_nTime h'" "hdr_nBits h = hdr_nBits h'" "hdr_nNonce h = hdr_nNonce h'"
    using le_bytes_inj [OF u u e(4)] le_bytes_inj [OF u u e(5)] le_bytes_inj [OF u u e(6)] by (simp_all add: word_unat_eq_iff)
  ultimately show ?thesis using e(2,3) by simp
qed

text \<open>The nodes of a tree are hashes, and the first node of a level is the hash of the two below it.\<close>

lemma tree_level_length:
  assumes "\<forall>m. length (CHash256 C m) = 32" "\<forall>x \<in> set xs. length x = 32"
  shows "\<forall>x \<in> set (tree_level C k xs). length x = 32"
proof (induction k)
  case (Suc k)
  show ?case
  proof
    fix x assume "x \<in> set (tree_level C (Suc k) xs)"
    then obtain j where "j < length (next_level C (tree_level C k xs))" "x = next_level C (tree_level C k xs) ! j"
      by (auto simp: in_set_conv_nth)
    then show "length x = 32" using nth_next_level [of j C "tree_level C k xs"] assms(1) by (simp add: Hash2_def)
  qed
qed (use assms(2) in simp)

lemma first_nodes_equal:
  assumes inj: "inj_on (\<lambda>(a, b). Hash2 C a b) (hashed_pairs C xs \<union> hashed_pairs C ys)"
    and up: "\<forall>k<l. 1 < length (tree_level C k xs)" "\<forall>k<m. 1 < length (tree_level C k ys)"
    and eq: "tree_level C l xs ! 0 = tree_level C m ys ! 0"
  shows "d \<le> l \<Longrightarrow> d \<le> m \<Longrightarrow> tree_level C (l - d) xs ! 0 = tree_level C (m - d) ys ! 0"
proof (induction d)
  case (Suc d)
  have l: "Suc (l - Suc d) = l - d" "1 < length (tree_level C (l - Suc d) xs)" using Suc.prems up(1) by auto
  have m: "Suc (m - Suc d) = m - d" "1 < length (tree_level C (m - Suc d) ys)" using Suc.prems up(2) by auto
  let ?X = "tree_level C (l - Suc d) xs" and ?Y = "tree_level C (m - Suc d) ys"
  have px: "(?X ! (2 * 0), ?X ! min (2 * 0 + 1) (length ?X - 1)) \<in> hashed_pairs C xs"
    unfolding hashed_pairs_def using l(2) by (intro CollectI exI [of _ "l - Suc d"] exI [of _ 0]) auto
  have py: "(?Y ! (2 * 0), ?Y ! min (2 * 0 + 1) (length ?Y - 1)) \<in> hashed_pairs C ys"
    unfolding hashed_pairs_def using m(2) by (intro CollectI exI [of _ "m - Suc d"] exI [of _ 0]) auto
  have ne: "?X \<noteq> []" "?Y \<noteq> []" using l(2) m(2) by (metis list.size(3) not_one_less_zero)+
  have "tree_level C (l - d) xs ! 0 = tree_level C (m - d) ys ! 0" using Suc by simp
  then have "Hash2 C (?X ! (2 * 0)) (?X ! min (2 * 0 + 1) (length ?X - 1)) = Hash2 C (?Y ! (2 * 0)) (?Y ! min (2 * 0 + 1) (length ?Y - 1))"
    using next_level_pair [where j = 0 and C = C and k = "l - Suc d" and xs = xs] next_level_pair [where j = 0 and C = C and k = "m - Suc d" and xs = ys] l m ne
    by (simp add: tree_level_Suc [symmetric] del: funpow.simps)
  then have "(?X ! (2 * 0), ?X ! min (2 * 0 + 1) (length ?X - 1)) = (?Y ! (2 * 0), ?Y ! min (2 * 0 + 1) (length ?Y - 1))"
    using px py by (intro inj_onD [OF inj]) auto
  then show ?case by simp
qed (use eq in simp)

text \<open>The messages that are hashed for the Merkle root of the transactions.\<close>

definition merkle_messages :: "crypto \<Rightarrow> CTransaction list \<Rightarrow> bytes set" where
  "merkle_messages C txs = Serialize_CTransaction ` set txs \<union> (\<lambda>(a, b). a @ b) ` hashed_pairs C (map (GetHash C) txs)"

lemma pair_message: "(a, b) \<in> hashed_pairs C (map (GetHash C) txs) \<Longrightarrow> a @ b \<in> merkle_messages C txs"
  unfolding merkle_messages_def by (rule UnI2) (rule image_eqI [of _ _ "(a, b)"], simp_all)

lemma tx_message: "tx \<in> set txs \<Longrightarrow> Serialize_CTransaction tx \<in> merkle_messages C txs"
  unfolding merkle_messages_def by (rule UnI1) (rule imageI)

text \<open>Two lists of transactions with the same Merkle root are the same, if none of them has the length of a
  node and its sibling.\<close>

lemma root_commits:
  assumes inj: "inj_on (CHash256 C) (merkle_messages C txs \<union> merkle_messages C txs')"
    and h32: "\<forall>m. length (CHash256 C m) = 32"
    and wf: "\<forall>tx \<in> set txs \<union> set txs'. wf_CTransaction tx \<and> length (Serialize_CTransaction tx) \<noteq> 64"
    and ne: "txs \<noteq> []" "txs' \<noteq> []"
    and root: "BlockMerkleRoot C txs = (root, False)" "BlockMerkleRoot C txs' = (root, False)"
  shows "txs = txs'"
proof -
  let ?xs = "map (GetHash C) txs" and ?ys = "map (GetHash C) txs'"
  have len: "\<forall>x \<in> set (tree_level C k (map (GetHash C) ts)). length x = 32" for k ts
    by (rule tree_level_length [OF h32]) (simp add: GetHash_def h32)
  have pair_len: "length a = 32 \<and> length b = 32" if ab: "(a, b) \<in> hashed_pairs C (map (GetHash C) ts)" for a b ts
  proof -
    obtain k j where k: "a = tree_level C k (map (GetHash C) ts) ! (2 * j)"
        "b = tree_level C k (map (GetHash C) ts) ! min (2 * j + 1) (length (tree_level C k (map (GetHash C) ts)) - 1)"
        "1 < length (tree_level C k (map (GetHash C) ts))" "2 * j < length (tree_level C k (map (GetHash C) ts))"
      using ab unfolding hashed_pairs_def by blast
    have "min (2 * j + 1) (length (tree_level C k (map (GetHash C) ts)) - 1) < length (tree_level C k (map (GetHash C) ts))"
      using k(3) by linarith
    then show ?thesis unfolding k(1,2) using len [of k ts] k(4) nth_mem by blast
  qed
  have injp: "inj_on (\<lambda>(a, b). Hash2 C a b) (hashed_pairs C ?xs \<union> hashed_pairs C ?ys)"
  proof (rule inj_onI)
    fix p q assume p: "p \<in> hashed_pairs C ?xs \<union> hashed_pairs C ?ys" "q \<in> hashed_pairs C ?xs \<union> hashed_pairs C ?ys"
      and eq: "(case p of (a, b) \<Rightarrow> Hash2 C a b) = (case q of (a, b) \<Rightarrow> Hash2 C a b)"
    obtain a b c d where pq: "p = (a, b)" "q = (c, d)" by fastforce
    have m: "a @ b \<in> merkle_messages C txs \<union> merkle_messages C txs'" "c @ d \<in> merkle_messages C txs \<union> merkle_messages C txs'"
      using p pair_message unfolding pq by blast+
    have "CHash256 C (a @ b) = CHash256 C (c @ d)" using eq unfolding pq Hash2_def by (simp only: prod.case)
    then have "a @ b = c @ d" by (rule inj_onD [OF inj _ m])
    moreover have "length a = 32" "length c = 32" using p pair_len unfolding pq by blast+
    ultimately show "p = q" by (simp add: pq)
  qed
  have level: "\<exists>l. root = tree_level C l zs ! 0 \<and> length (tree_level C l zs) = 1 \<and>
      (\<forall>k<l. 1 < length (tree_level C k zs)) \<and> \<not> equal_pair C zs (length zs)"
    if "zs \<noteq> []" "ComputeMerkleRoot C zs = (root, False)" for zs
    using MerkleComputation_correct [OF that(1), where C = C and pos = "0xffffffff" and pbranch = False] that(2)
    by (auto simp: ComputeMerkleRoot_def)
  obtain l where x: "root = tree_level C l ?xs ! 0" "length (tree_level C l ?xs) = 1" "\<forall>k<l. 1 < length (tree_level C k ?xs)"
      "\<not> equal_pair C ?xs (length ?xs)"
    using level [of ?xs] ne root by (auto simp: BlockMerkleRoot_def)
  obtain m where y: "root = tree_level C m ?ys ! 0" "length (tree_level C m ?ys) = 1" "\<forall>k<m. 1 < length (tree_level C k ?ys)"
      "\<not> equal_pair C ?ys (length ?ys)"
    using level [of ?ys] ne root by (auto simp: BlockMerkleRoot_def)
  have leaf: "x \<noteq> tree_level C (Suc k) (map (GetHash C) ts') ! 0"
    if x: "x \<in> GetHash C ` set ts" and ts: "merkle_messages C ts \<union> merkle_messages C ts' \<subseteq> merkle_messages C txs \<union> merkle_messages C txs'"
      "set ts \<subseteq> set txs \<union> set txs'" and k: "1 < length (tree_level C k (map (GetHash C) ts'))" for x k ts ts'
  proof
    assume eq: "x = tree_level C (Suc k) (map (GetHash C) ts') ! 0"
    let ?T = "tree_level C k (map (GetHash C) ts')"
    obtain tx where tx: "tx \<in> set ts" "x = CHash256 C (Serialize_CTransaction tx)" using x by (auto simp: GetHash_def)
    have T: "?T \<noteq> []" using k by auto
    have ab: "(?T ! (2 * 0), ?T ! min (2 * 0 + 1) (length ?T - 1)) \<in> hashed_pairs C (map (GetHash C) ts')"
      unfolding hashed_pairs_def using k by (intro CollectI exI [of _ k] exI [of _ 0]) auto
    let ?m = "?T ! (2 * 0) @ ?T ! min (2 * 0 + 1) (length ?T - 1)"
    have eqm: "CHash256 C (Serialize_CTransaction tx) = CHash256 C ?m"
      using eq tx(2) T next_level_pair [where j = 0 and C = C and k = k and xs = "map (GetHash C) ts'"] by (simp add: Hash2_def)
    have "Serialize_CTransaction tx \<in> merkle_messages C txs \<union> merkle_messages C txs'" "?m \<in> merkle_messages C txs \<union> merkle_messages C txs'"
      using tx_message [OF tx(1), of C] pair_message [OF ab] ts(1) by blast+
    then have "Serialize_CTransaction tx = ?m" by (rule inj_onD [OF inj eqm])
    then have "length (Serialize_CTransaction tx) = 64" using pair_len [OF ab] by simp
    then show False using wf tx(1) ts(2) by auto
  qed
  have "l = m"
  proof (rule linorder_cases [of l m])
    assume lm: "l < m"
    then have "?xs ! 0 = tree_level C (m - l) ?ys ! 0"
      using first_nodes_equal [OF injp x(3) y(3), of l] x(1) y(1) by simp
    moreover obtain k where "m - l = Suc k" "k < m" using lm by (metis Suc_diff_Suc diff_less_Suc less_Suc_eq_le less_imp_Suc_add less_le_trans not_less_eq zero_less_diff)
    ultimately show ?thesis using leaf [of "?xs ! 0" txs txs' k] y(3) ne(1) by (cases txs) auto
  next
    assume lm: "m < l"
    then have "?ys ! 0 = tree_level C (l - m) ?xs ! 0"
      using first_nodes_equal [OF injp x(3) y(3), of m] x(1) y(1) by simp
    moreover obtain k where "l - m = Suc k" "k < l" using lm by (metis Suc_diff_Suc diff_less_Suc less_Suc_eq_le less_imp_Suc_add less_le_trans not_less_eq zero_less_diff)
    ultimately show ?thesis using leaf [of "?ys ! 0" txs' txs k] x(3) ne(2) by (cases txs') auto
  qed
  then have "tree_level C l ?xs = tree_level C l ?ys" using x(1,2) y(1,2) by (auto simp: length_Suc_conv)
  then have eq: "?xs = ?ys" using same_root_same_leaves [OF injp x(4) y(4), of l] x(3) y(3) \<open>l = m\<close> by blast
  have "inj_on (GetHash C) (set txs \<union> set txs')"
  proof (rule inj_onI)
    fix t t' assume t: "t \<in> set txs \<union> set txs'" "t' \<in> set txs \<union> set txs'" "GetHash C t = GetHash C t'"
    then have "CHash256 C (Serialize_CTransaction t) = CHash256 C (Serialize_CTransaction t')" by (simp add: GetHash_def)
    then have "Serialize_CTransaction t = Serialize_CTransaction t'"
      by (rule inj_onD [OF inj]) (use t(1,2) tx_message in blast)+
    then show "t = t'" using Serialize_CTransaction_inj t(1,2) wf by blast
  qed
  then show ?thesis using inj_on_map_eq_map [of "GetHash C" txs txs'] eq by blast
qed

subsection \<open>Majorities and early blocks\<close>

text \<open>The last blocks of the window that have a version.\<close>

definition upgraded :: "heap \<Rightarrow> int \<Rightarrow> ptr option \<Rightarrow> nat \<Rightarrow> nat" where
  "upgraded H minVersion pstart window = card {i. i < window \<and> (\<exists>q. anc H i pstart = Some q \<and> bi_nVersion (H q) \<ge> minVersion)}"

lemma upgraded_None: "upgraded H v None w = 0"
proof -
  have "anc H i None = None" for i by (cases i) simp_all
  then show ?thesis by (simp add: upgraded_def)
qed

lemma upgraded_Some:
  "upgraded H v (Some p) (Suc w) = (if bi_nVersion (H p) \<ge> v then 1 else 0) + upgraded H v (pprev (H p)) w"
proof -
  let ?P = "\<lambda>x i. \<exists>q. anc H i x = Some q \<and> bi_nVersion (H q) \<ge> v"
  have set: "{i. i < Suc w \<and> ?P (Some p) i} = (if bi_nVersion (H p) \<ge> v then {0} else {}) \<union> Suc ` {i. i < w \<and> ?P (pprev (H p)) i}"
  proof (rule set_eqI)
    fix i show "i \<in> {i. i < Suc w \<and> ?P (Some p) i} \<longleftrightarrow> i \<in> (if bi_nVersion (H p) \<ge> v then {0} else {}) \<union> Suc ` {i. i < w \<and> ?P (pprev (H p)) i}"
      by (cases i) auto
  qed
  show ?thesis unfolding upgraded_def set by (subst card_Un_disjoint) (auto simp: card_image)
qed

lemma majority_loop_iff:
  "majority_loop H v n w pstart found \<ge> n \<longleftrightarrow> found + upgraded H v pstart w \<ge> n"
proof (induction H v n w pstart found rule: majority_loop.induct)
  case (3 H v n w p found)
  then show ?case by (auto simp: upgraded_Some)
qed (simp_all add: upgraded_None, simp add: upgraded_def)

lemma IsSuperMajority_iff:
  "IsSuperMajority H v pstart n params \<longleftrightarrow> n \<le> upgraded H v pstart (nat (nMajorityWindow params))"
  by (simp add: IsSuperMajority_def majority_loop_iff)

text \<open>On the main network, a header up to height 68589 is accepted whatever its target, time and version.\<close>

lemma early_header_accepted:
  assumes "is_main E" "nHeight (H p) < 68589" "GetNextWorkRequired H (Some p) (env_params E) = Some (Inr c)"
  shows "ContextualCheckBlockHeader H E header state p = Some (Inr (True, state))"
  using assms by (simp add: ContextualCheckBlockHeader_def obind_def)

lemma ContextualCheckBlockHeader_accepts:
  assumes "\<not> (is_main E \<and> nHeight (H p) < 68589)" "GetNextWorkRequired H (Some p) (env_params E) = Some (Inr c)"
  shows "ContextualCheckBlockHeader H E header state p = Some (Inr (True, st)) \<longleftrightarrow> st = state \<and>
    (nHeight (H p) \<ge> nForkHeight (env_params E) \<longrightarrow> hdr_nBits header = c) \<and> uint (hdr_nTime header) > GetMedianTimePast H p \<and>
    (\<forall>v \<in> {2, 3, 4}. hdr_nVersion header < v \<longrightarrow>
       upgraded H v (Some p) (nat (nMajorityWindow (env_params E))) < unsigned_of 32 (nMajorityRejectBlockOutdated (env_params E)))"
  using assms by (auto simp: ContextualCheckBlockHeader_def obind_def outdated_def IsSuperMajority_iff not_le)

subsection \<open>The properties\<close>

text \<open>C9: CheckBlock accepts a block that it has not accepted before exactly when: its proof of work and its
  time are right; its transactions have the Merkle root of its header, without equal siblings in the tree;
  it is not empty and not too large; the first transaction is a coinbase and no other one is; with the
  filtering of InstaPay, no outpoint is locked by another transaction; every transaction has inputs and
  outputs, values and a sum in range, no outpoint twice, and a script of 2 to 100 bytes as a coinbase and
  no null outpoint otherwise; and they have no more than 20000 signature operations. The verdict is not
  changed then, and the block is marked as checked iff both flags were given.\<close>

theorem CheckBlock_accepts_iff:
  assumes "\<not> fChecked block"
  shows "CheckBlock C E block state fCheckPOW fCheckMerkleRoot = Inr ((True, st), block', evs) \<longleftrightarrow>
    st = state \<and> evs = [] \<and> block' = (if fCheckPOW \<and> fCheckMerkleRoot then block\<lparr>fChecked := True\<rparr> else block) \<and>
    (fCheckPOW \<longrightarrow> CheckProofOfWork (active_height E) (header_GetHash E (block_header block)) (hdr_nBits block) (env_params E)) \<and>
    uint (hdr_nTime block) \<le> GetAdjustedTime E + 300 \<and>
    (fCheckMerkleRoot \<longrightarrow> BlockMerkleRoot C (vtx block) = (hdr_hashMerkleRoot block, False)) \<and>
    vtx block \<noteq> [] \<and> length (Serialize_CBlock block) \<le> 1000000 \<and>
    IsCoinBase (hd (vtx block)) \<and> (\<forall>tx \<in> set (tl (vtx block)). \<not> IsCoinBase tx) \<and>
    (IsSporkActive (payments E) SPORK_3_INSTAPAY_BLOCK_FILTERING \<longrightarrow>
       (\<forall>tx \<in> set (tl (vtx block)). \<forall>txin \<in> set (vin tx). GetLockedOutPointTxHash E (prevout txin) \<in> {None, Some (GetHash C tx)})) \<and>
    (\<forall>tx \<in> set (vtx block). vin tx \<noteq> [] \<and> vout tx \<noteq> [] \<and>
       (\<forall>out \<in> set (vout tx). 0 \<le> nValue out) \<and> sum_list (map nValue (vout tx)) \<le> MAX_MONEY \<and> distinct (map prevout (vin tx)) \<and>
       (if IsCoinBase tx then 2 \<le> length (scriptSig (vin tx ! 0)) \<and> length (scriptSig (vin tx ! 0)) \<le> 100
        else \<forall>txin \<in> set (vin tx). \<not> COutPoint_IsNull (prevout txin))) \<and>
    (\<exists>n \<le> 20000. add_sigops (map GetLegacySigOpCount (vtx block)) 0 = Inr n)"
proof -
  have part: "length (Serialize_CTransaction tx) \<le> length (Serialize_CBlock block)" if "tx \<in> set (vtx block)" for tx
    using that split_list [OF that] by (auto simp: Serialize_CBlock_def Serialize_vector_def)
  have "length txs \<le> length (concat (map Serialize_CTransaction txs))" for txs
    by (induction txs) (simp_all add: Serialize_CTransaction_def ser_writedata32_def)
  then have count: "length (vtx block) \<le> length (Serialize_CBlock block)"
    by (simp add: Serialize_CBlock_def Serialize_vector_def trans_le_add2)
  have b: "body_ok C E block \<longleftrightarrow>
    vtx block \<noteq> [] \<and> length (Serialize_CBlock block) \<le> 1000000 \<and>
    IsCoinBase (hd (vtx block)) \<and> (\<forall>tx \<in> set (tl (vtx block)). \<not> IsCoinBase tx) \<and>
    (IsSporkActive (payments E) SPORK_3_INSTAPAY_BLOCK_FILTERING \<longrightarrow>
       (\<forall>tx \<in> set (tl (vtx block)). \<forall>txin \<in> set (vin tx). GetLockedOutPointTxHash E (prevout txin) \<in> {None, Some (GetHash C tx)})) \<and>
    (\<forall>tx \<in> set (vtx block). vin tx \<noteq> [] \<and> vout tx \<noteq> [] \<and>
       (\<forall>out \<in> set (vout tx). 0 \<le> nValue out) \<and> sum_list (map nValue (vout tx)) \<le> MAX_MONEY \<and> distinct (map prevout (vin tx)) \<and>
       (if IsCoinBase tx then 2 \<le> length (scriptSig (vin tx ! 0)) \<and> length (scriptSig (vin tx ! 0)) \<le> 100
        else \<forall>txin \<in> set (vin tx). \<not> COutPoint_IsNull (prevout txin))) \<and>
    (\<exists>n \<le> 20000. add_sigops (map GetLegacySigOpCount (vtx block)) 0 = Inr n)"
    using count part unfolding body_ok_def tx_ok_def MAX_BLOCK_SIGOPS_def MAX_BLOCK_SIZE_def
    by (auto intro: order_trans)
  show ?thesis unfolding CheckBlock_accepts [OF assms] header_ok_def b by (auto simp: block_header_def)
qed

definition example_env :: node_env where
  "example_env = \<lparr>HashX11 = (\<lambda>m. m), is_main = True, GetTime = 1600000000, GetAdjustedTime = 1600000000, active_height = 7,
     fCheckpointsEnabled = True, mapCheckpoints = [], GetLockedOutPointTxHash = (\<lambda>p. None), payments = example_payment_env\<rparr>"

definition example_block :: CBlock where
  "example_block = CBlock_SetNull\<lparr>hdr_hashMerkleRoot := fst (BlockMerkleRoot prefix_crypto [example_coinbase, example_spender]),
     hdr_nTime := 1600000000, hdr_nBits := 0x1e0ffff0, hdr_nVersion := 1, hdr_hashPrevBlock := replicate 32 7,
     vtx := [example_coinbase, example_spender]\<rparr>"

lemma BlockMerkleRoot_two:
  assumes "GetHash C tx \<noteq> GetHash C tx'"
  shows "BlockMerkleRoot C [tx, tx'] = (Hash2 C (GetHash C tx) (GetHash C tx'), False)"
proof -
  let ?xs = "map (GetHash C) [tx, tx']"
  obtain l branch where l: "MerkleComputation C ?xs 0xffffffff False = (tree_level C l ?xs ! 0, equal_pair C ?xs (length ?xs), branch)"
      "length (tree_level C l ?xs) = 1" "\<forall>k<l. 1 < length (tree_level C k ?xs)"
    using MerkleComputation_correct [of ?xs, where C = C and pos = "0xffffffff" and pbranch = False] by auto
  have one: "tree_level C (Suc 0) ?xs = [Hash2 C (GetHash C tx) (GetHash C tx')]" by simp
  have "l \<noteq> 0" using l(2) by (intro notI) simp
  moreover have "\<not> 1 < l" using l(3) one by (metis One_nat_def length_Cons list.size(3) less_irrefl)
  ultimately have "l = Suc 0" by linarith
  then have root: "tree_level C l ?xs ! 0 = Hash2 C (GetHash C tx) (GetHash C tx')" by simp
  have "\<not> equal_pair C ?xs (length ?xs)"
  proof
    assume "equal_pair C ?xs (length ?xs)"
    then obtain k j where kj: "(2 * j + 2) * 2 ^ k \<le> length ?xs" "tree_level C k ?xs ! (2 * j) = tree_level C k ?xs ! (2 * j + 1)"
      unfolding equal_pair_def by blast
    have "(2 * j + 2) * 1 \<le> (2 * j + 2) * (2 :: nat) ^ k" "2 * 2 ^ k \<le> (2 * j + 2) * (2 :: nat) ^ k" by (intro mult_le_mono) simp_all
    then have "2 * j + 2 \<le> 2" "(2 :: nat) ^ k \<le> 1" using kj(1) by simp_all
    then have "j = 0" "k = 0" using self_le_power [of "2 :: nat" k] by (auto simp: le_Suc_eq)
    then show False using kj(2) assms by simp
  qed
  then show ?thesis using l(1) root by (simp add: BlockMerkleRoot_def ComputeMerkleRoot_def)
qed

lemma example_block_simps:
  "vtx example_block = [example_coinbase, example_spender]" "\<not> fChecked example_block" "hdr_nBits example_block = 0x1e0ffff0"
  "hdr_nTime example_block = 1600000000" "hdr_hashMerkleRoot example_block = fst (BlockMerkleRoot prefix_crypto [example_coinbase, example_spender])"
  "hdr_nVersion example_block = 1" "hdr_hashPrevBlock example_block = replicate 32 7"
  by (simp_all add: example_block_def CBlock_SetNull_def CBlockHeader.extend_def)

lemma example_hash_length: "length (GetHash prefix_crypto tx) = 32"
  by (simp add: GetHash_prefix)

lemma example_root: "BlockMerkleRoot prefix_crypto (vtx example_block) = (hdr_hashMerkleRoot example_block, False)"
  using BlockMerkleRoot_two [of prefix_crypto example_coinbase example_spender] example_hashes(1,2) by (auto simp: example_block_simps)

lemma example_pow: "CheckProofOfWork 7 hash 0x1e0ffff0 main_params"
proof -
  obtain t where t: "SetCompact 0x1e0ffff0 = (t, False, False)" "uval t = 0xffff0 * 2 ^ 216"
    by (simp add: SetCompact_def uval_shl(2) uval_of_u64)
  show ?thesis unfolding CheckProofOfWork_eq [OF t(1)] t(2) main_powLimit by (simp add: main_pow_params)
qed

lemma example_sigops: "add_sigops (map GetLegacySigOpCount [example_coinbase, example_spender]) 0 = Inr 0"
  by (simp add: GetLegacySigOpCount_def example_coinbase_def example_spender_def mk_CTxIn_def mk_CTxOut_def GetSigOpCount_def sigop_loop.simps
      GetOp2_def push_size_def)

lemma example_tx_sizes: "length (Serialize_CTransaction example_coinbase) = 63" "length (Serialize_CTransaction example_spender) = 61"
  by (simp_all add: Serialize_CTransaction_def example_coinbase_def example_spender_def Serialize_vector_def Serialize_CTxIn_def Serialize_CTxOut_def
      Serialize_COutPoint_def Serialize_bytes_def mk_CTxIn_def mk_CTxOut_def COutPoint_SetNull_def blob_SetNull_def example_prev_def
      ser_writedata32_def ser_writedata64_def WriteCompactSize_def ser_writedata8_def)

lemma example_root_length: "length (fst (BlockMerkleRoot prefix_crypto [example_coinbase, example_spender])) = 32"
  using BlockMerkleRoot_two [of prefix_crypto example_coinbase example_spender] example_hashes(1,2)
  by (auto simp: Hash2_def CHash256_def prefix_crypto_def)

lemma example_size: "length (Serialize_CBlock example_block) = 205"
  using example_tx_sizes example_root_length
  by (simp add: Serialize_CBlock_def Serialize_CBlockHeader_def block_header_def example_block_simps Serialize_vector_def ser_writedata32_def
      WriteCompactSize_def ser_writedata8_def)

text \<open>The messages of the example: the two transactions, which begin differently, and the pair of their hashes.\<close>

lemma hashed_pairs_two: "hashed_pairs C [a, b] \<subseteq> {(a, b)}"
proof
  fix p assume "p \<in> hashed_pairs C [a, b]"
  then obtain k j where kj: "p = (tree_level C k [a, b] ! (2 * j), tree_level C k [a, b] ! min (2 * j + 1) (length (tree_level C k [a, b]) - 1))"
      "1 < length (tree_level C k [a, b])" "2 * j < length (tree_level C k [a, b])"
    unfolding hashed_pairs_def by blast
  have "(2 :: nat) ^ k < 2" using kj(2) node_exists [where q = 1 and C = C and k = k and xs = "[a, b]"] by simp
  then have "k = 0" using self_le_power [of "2 :: nat" k] by (cases "k = 0") auto
  then show "p \<in> {(a, b)}" using kj by (cases j) simp_all
qed

definition length_crypto :: crypto where
  "length_crypto = example_crypto\<lparr>CSHA256 := \<lambda>m. take 32 (word_of_nat (length m) # m @ replicate 32 0)\<rparr>"

lemma CHash256_length_crypto: "CHash256 length_crypto m = 32 # word_of_nat (length m) # take 30 (m @ replicate 32 0)"
proof -
  have "length (take 32 (x # m @ replicate 32 (0 :: byte))) = 32" for x by simp
  moreover have "take 32 (32 # take 32 (x # m @ replicate 32 (0 :: byte)) @ replicate 32 0) = 32 # x # take 30 (m @ replicate 32 0)" for x
    by (simp add: take_Cons' take_append)
  ultimately show ?thesis by (simp add: CHash256_def length_crypto_def del: take_append)
qed

lemma example_messages_inj: "inj_on (CHash256 length_crypto) (merkle_messages length_crypto [example_coinbase, example_spender])"
proof -
  let ?h = "GetHash length_crypto"
  let ?S = "{Serialize_CTransaction example_coinbase, Serialize_CTransaction example_spender, ?h example_coinbase @ ?h example_spender}"
  have sub: "merkle_messages length_crypto [example_coinbase, example_spender] \<subseteq> ?S"
    using hashed_pairs_two [of length_crypto "?h example_coinbase" "?h example_spender"]
    by (auto simp: merkle_messages_def)
  have "length (?h tx) = 32" for tx by (simp add: GetHash_def CHash256_length_crypto)
  then have "inj_on (CHash256 length_crypto) ?S"
    using example_tx_sizes by (auto simp: inj_on_def CHash256_length_crypto)
  then show ?thesis by (rule inj_on_subset [OF _ sub])
qed

lemma example_txs_ok:
  "vin example_coinbase \<noteq> []" "vout example_coinbase = [mk_CTxOut 50 [0x51]]" "vin example_spender \<noteq> []" "vout example_spender = [mk_CTxOut 4 [0x52]]"
  "distinct (map prevout (vin example_coinbase))" "distinct (map prevout (vin example_spender))"
  "length (scriptSig (vin example_coinbase ! 0)) = 2" "\<forall>txin \<in> set (vin example_spender). \<not> COutPoint_IsNull (prevout txin)"
  by (simp_all add: example_coinbase_def example_spender_def mk_CTxIn_def COutPoint_IsNull_def example_prev_def blob_IsNull_def)

theorem CheckBlock_accepts_iff_witness:
  "CheckBlock prefix_crypto example_env example_block CValidationState_init True True =
     Inr ((True, CValidationState_init), example_block\<lparr>fChecked := True\<rparr>, [])"
proof -
  have env: "active_height example_env = 7" "env_params example_env = main_params" "GetAdjustedTime example_env = 1600000000"
    "\<not> IsSporkActive (payments example_env) SPORK_3_INSTAPAY_BLOCK_FILTERING"
    by (simp_all add: example_env_def example_payment_env_def)
  show ?thesis
    unfolding CheckBlock_accepts_iff [OF example_block_simps(2)]
    using example_root example_size example_kinds example_txs_ok example_sigops
    by (simp add: env example_pow example_block_simps mk_CTxOut_def int_ranges)
qed

text \<open>C5: The hash of a block commits to its header and to its transactions: two blocks with the same hash
  that CheckBlock accepts, with the check of the Merkle root, have the same header and the same
  transactions, whatever their numbers, unless a hash function collides on what is hashed for these
  blocks, or a transaction has 64 bytes and so could pass for an inner node of a tree.\<close>

theorem block_hash_commits:
  assumes "CheckBlock C E block state pow True = Inr ((True, st), b, evs)" "CheckBlock C E block' state' pow' True = Inr ((True, st'), b', evs')"
    and "\<not> fChecked block" "\<not> fChecked block'"
    and "header_GetHash E (block_header block) = header_GetHash E (block_header block')"
    and "wf_CBlockHeader (block_header block)" "wf_CBlockHeader (block_header block')"
    and "inj_on (HashX11 E) {Serialize_CBlockHeader (block_header block), Serialize_CBlockHeader (block_header block')}"
    and "inj_on (CHash256 C) (merkle_messages C (vtx block) \<union> merkle_messages C (vtx block'))" "\<forall>m. length (CHash256 C m) = 32"
    and "\<forall>tx \<in> set (vtx block) \<union> set (vtx block'). wf_CTransaction tx \<and> length (Serialize_CTransaction tx) \<noteq> 64"
  shows "block_header block = block_header block' \<and> vtx block = vtx block'"
proof -
  note x = assms(1) [unfolded CheckBlock_accepts [OF assms(3)]] and y = assms(2) [unfolded CheckBlock_accepts [OF assms(4)]]
  have "HashX11 E (Serialize_CBlockHeader (block_header block)) = HashX11 E (Serialize_CBlockHeader (block_header block'))"
    using assms(5) by (simp only: header_GetHash_def)
  then have "Serialize_CBlockHeader (block_header block) = Serialize_CBlockHeader (block_header block')"
    by (rule inj_onD [OF assms(8)]) simp_all
  then have h: "block_header block = block_header block'" by (rule Serialize_CBlockHeader_inj [OF assms(6,7)])
  have "hdr_hashMerkleRoot block = hdr_hashMerkleRoot (block_header block)" "hdr_hashMerkleRoot block' = hdr_hashMerkleRoot (block_header block')"
    by (simp_all add: block_header_def)
  then have root: "hdr_hashMerkleRoot block = hdr_hashMerkleRoot block'" using h by simp
  have ne: "vtx block \<noteq> []" "vtx block' \<noteq> []" using x y unfolding body_ok_def by blast+
  have r: "BlockMerkleRoot C (vtx block) = (hdr_hashMerkleRoot block, False)" "BlockMerkleRoot C (vtx block') = (hdr_hashMerkleRoot block, False)"
    using x y root by simp_all
  show ?thesis using h root_commits [OF assms(9,10,11) ne r] by blast
qed

definition example_other :: "CTxOut \<Rightarrow> CBlock" where
  "example_other out = example_block\<lparr>hdr_hashMerkleRoot := fst (BlockMerkleRoot length_crypto [example_coinbase, example_spender]), txoutMasternode := out\<rparr>"

theorem block_hash_commits_witness:
  "block_header (example_other CTxOut_SetNull) = block_header (example_other (mk_CTxOut 1 [])) \<and>
   vtx (example_other CTxOut_SetNull) = vtx (example_other (mk_CTxOut 1 []))"
proof -
  let ?C = "length_crypto" and ?s = "CValidationState_init"
  let ?a = "example_other CTxOut_SetNull" and ?b = "example_other (mk_CTxOut 1 [])"
  have env: "active_height example_env = 7" "env_params example_env = main_params" "GetAdjustedTime example_env = 1600000000"
    "\<not> IsSporkActive (payments example_env) SPORK_3_INSTAPAY_BLOCK_FILTERING"
    by (simp_all add: example_env_def example_payment_env_def)
  have hashes: "GetHash ?C example_coinbase \<noteq> GetHash ?C example_spender"
    using example_tx_sizes by (simp add: GetHash_def CHash256_length_crypto)
  have root: "BlockMerkleRoot ?C [example_coinbase, example_spender] = (hdr_hashMerkleRoot ?a, False)" "length (hdr_hashMerkleRoot ?a) = 32"
    using BlockMerkleRoot_two [OF hashes] by (simp_all add: Hash2_def CHash256_length_crypto example_other_def)
  have size: "length (Serialize_CBlock ?a) = 205"
    using example_tx_sizes root(2)
    by (simp add: Serialize_CBlock_def Serialize_CBlockHeader_def block_header_def example_block_simps Serialize_vector_def ser_writedata32_def
        WriteCompactSize_def ser_writedata8_def example_other_def)
  have same: "vtx ?a = [example_coinbase, example_spender]" "vtx ?b = vtx ?a" "block_header ?b = block_header ?a" "\<not> fChecked ?a" "\<not> fChecked ?b"
    "Serialize_CBlock ?b = Serialize_CBlock ?a" "hdr_hashMerkleRoot ?b = hdr_hashMerkleRoot ?a"
    by (simp_all add: block_header_def example_block_simps Serialize_CBlock_def example_other_def)
  have ok: "body_ok ?C example_env ?a"
    using size example_kinds example_txs_ok example_sigops example_tx_sizes
    by (simp add: body_ok_def env same mk_CTxOut_def int_ranges tx_ok_def MAX_BLOCK_SIZE_def MAX_BLOCK_SIGOPS_def)
  have hok: "header_ok example_env (block_header ?a) True" by (simp add: header_ok_def env example_pow example_block_simps block_header_def example_other_def)
  have c1: "CheckBlock ?C example_env ?a ?s True True = Inr ((True, ?s), ?a\<lparr>fChecked := True\<rparr>, [])"
    unfolding CheckBlock_accepts [OF same(4)] same using ok hok root(1) by simp
  have c2: "CheckBlock ?C example_env ?b ?s True True = Inr ((True, ?s), ?b\<lparr>fChecked := True\<rparr>, [])"
    unfolding CheckBlock_accepts [OF same(5)] same using ok hok root(1) by (simp add: body_ok_def same)
  have wf: "wf_CBlockHeader (block_header ?a)"
    using root(2) by (simp add: wf_CBlockHeader_def block_header_def example_block_simps int_ranges example_other_def)
  have txs: "\<forall>tx \<in> set (vtx ?a) \<union> set (vtx ?b). wf_CTransaction tx \<and> length (Serialize_CTransaction tx) \<noteq> 64"
    unfolding same(2) same(1) using example_tx_sizes
    by (auto simp: wf_CTransaction_def example_coinbase_def example_spender_def wf_CTxIn_def wf_CTxOut_def
      wf_COutPoint_def mk_CTxIn_def mk_CTxOut_def COutPoint_SetNull_def blob_SetNull_def example_prev_def int_ranges)
  have inj: "inj_on (CHash256 ?C) (merkle_messages ?C (vtx ?a) \<union> merkle_messages ?C (vtx ?b))"
    unfolding same(2) same(1) Un_absorb by (rule example_messages_inj)
  have "length (CHash256 ?C m) = 32" for m by (auto simp: CHash256_length_crypto)
  then show ?thesis
    by (intro block_hash_commits [OF c1 c2 same(4,5) _ _ _ _ inj _ txs]) (simp_all add: same(3) wf)
qed

end
