(* ===== verification/Supply.thy ===== *)
theory Supply
  imports BlockCheck
begin

text \<open>
  The supply: the sum of the values of all unspent outputs of a map of coins, and what the operations of
  a block do to it.
\<close>

subsection \<open>The value of coins\<close>

definition out_value :: "CTxOut \<Rightarrow> CAmount" where
  "out_value out = (if CTxOut_IsNull out then 0 else nValue out)"

definition coins_value :: "CCoins \<Rightarrow> CAmount" where
  "coins_value c = sum_list (map out_value (c_vout c))"

fun entry_value :: "CCoins option \<Rightarrow> CAmount" where
  "entry_value None = 0"
| "entry_value (Some c) = coins_value c"

definition coin_supply :: "coins_map \<Rightarrow> CAmount" where
  "coin_supply A = (\<Sum>k \<in> dom A. entry_value (A k))"

lemma coin_supply_superset: "finite S \<Longrightarrow> dom A \<subseteq> S \<Longrightarrow> coin_supply A = (\<Sum>k \<in> S. entry_value (A k))"
  unfolding coin_supply_def by (rule sum.mono_neutral_left) (auto simp: domIff)

lemma coin_supply_update: "finite (dom A) \<Longrightarrow> coin_supply (A(k := x)) = coin_supply A - entry_value (A k) + entry_value x"
proof -
  assume fin: "finite (dom A)"
  let ?S = "insert k (dom A)"
  have "coin_supply (A(k := x)) = (\<Sum>j \<in> ?S. entry_value ((A(k := x)) j))"
    using fin by (intro coin_supply_superset) auto
  also have "\<dots> = entry_value x + (\<Sum>j \<in> ?S - {k}. entry_value (A j))"
    using fin by (simp add: sum.remove [of ?S k])
  also have "(\<Sum>j \<in> ?S - {k}. entry_value (A j)) = (\<Sum>j \<in> ?S. entry_value (A j)) - entry_value (A k)"
    using fin by (simp add: sum.remove [of ?S k "\<lambda>j. entry_value (A j)"])
  also have "(\<Sum>j \<in> ?S. entry_value (A j)) = coin_supply A"
    using fin by (intro coin_supply_superset [symmetric]) auto
  finally show ?thesis by linarith
qed

lemma sum_nulls: "\<forall>out \<in> set outs. CTxOut_IsNull out \<Longrightarrow> sum_list (map out_value outs) = 0"
  by (induction outs) (auto simp: out_value_def)

lemma entry_value_pruned [simp]: "entry_value (unpruned c) = coins_value c"
  using sum_nulls [of "c_vout c"] by (cases "IsPruned c") (simp_all add: unpruned_def coins_value_def IsPruned_def list_all_iff)

lemma coins_value_Cleanup [simp]: "coins_value (Cleanup c) = coins_value c"
proof -
  obtain ns where ns: "c_vout c = Cleanup_loop (c_vout c) @ ns" "\<forall>out \<in> set ns. CTxOut_IsNull out"
    using Cleanup_loop_props [of "c_vout c"] unfolding list_all_iff by metis
  have "sum_list (map out_value (c_vout c)) = sum_list (map out_value (Cleanup_loop (c_vout c) @ ns))"
    by (rule arg_cong [OF ns(1)])
  then show ?thesis using sum_nulls [OF ns(2)] by (simp add: coins_value_def Cleanup_def)
qed

lemma sum_list_update_int: "i < length xs \<Longrightarrow> sum_list (map f (xs[i := x])) = sum_list (map f xs) - f (xs ! i) + (f x :: int)"
  by (induction xs arbitrary: i) (auto split: nat.split)

lemma coins_value_Spend:
  "IsAvailable c n \<Longrightarrow> coins_value (snd (Spend c n)) = coins_value c - nValue (c_vout c ! n)"
  by (simp add: Spend_available) (simp add: coins_value_def sum_list_update_int IsAvailable_def out_value_def CTxOut_SetNull_def CTxOut_IsNull_def)

lemma coins_value_CCoins_of:
  "\<forall>out \<in> set (vout tx). 0 \<le> nValue out \<Longrightarrow> coins_value (CCoins_of tx height) \<le> sum_list (map nValue (vout tx))"
proof -
  assume nonneg: "\<forall>out \<in> set (vout tx). 0 \<le> nValue out"
  let ?f = "\<lambda>out. if IsUnspendable (scriptPubKey out) then CTxOut_SetNull else out"
  have "coins_value (CCoins_of tx height) = sum_list (map (out_value \<circ> ?f) (vout tx))"
    by (simp add: CCoins_of_def FromTx_def ClearUnspendable_def) (simp add: coins_value_def)
  also have "\<dots> \<le> sum_list (map nValue (vout tx))"
    using nonneg by (intro sum_list_mono) (auto simp: out_value_def CTxOut_SetNull_def CTxOut_IsNull_def)
  finally show ?thesis .
qed

subsection \<open>Spending inputs\<close>

definition available_in :: "coins_map \<Rightarrow> CTxIn \<Rightarrow> bool" where
  "available_in A txin \<longleftrightarrow> (\<exists>c. A (op_hash (prevout txin)) = Some c \<and> IsAvailable c (unat (op_n (prevout txin))))"

definition spent_value :: "coins_map \<Rightarrow> CTxIn \<Rightarrow> CAmount" where
  "spent_value A txin = nValue (c_vout (the (A (op_hash (prevout txin)))) ! unat (op_n (prevout txin)))"

text \<open>Spending an output takes no other output away and changes none.\<close>

lemma Spend_keeps:
  assumes "IsAvailable c n" "IsAvailable (snd (Spend c n)) i"
  shows "IsAvailable c i \<and> c_vout (snd (Spend c n)) ! i = c_vout c ! i"
proof -
  let ?outs = "(c_vout c)[n := CTxOut_SetNull]"
  have v: "c_vout (snd (Spend c n)) = Cleanup_loop ?outs" by (simp add: Spend_available [OF assms(1)] Cleanup_def)
  have i: "i < length (Cleanup_loop ?outs)" "\<not> CTxOut_IsNull (Cleanup_loop ?outs ! i)"
    using assms(2) by (simp_all add: IsAvailable_def v)
  have "Cleanup_loop ?outs ! i = ?outs ! i" "i < length (c_vout c)"
    using nth_Cleanup_loop(1) [OF i(1)] i(1) length_Cleanup_loop [of ?outs] by auto
  moreover from this i(2) have "i \<noteq> n" by (auto simp: CTxOut_IsNull_def CTxOut_SetNull_def)
  ultimately show ?thesis using i(2) by (simp add: IsAvailable_def v)
qed

lemma available_after_spend:
  assumes "A h = Some c" "IsAvailable c n" "available_in (A(h := unpruned (snd (Spend c n)))) txin"
  shows "available_in A txin \<and> spent_value (A(h := unpruned (snd (Spend c n)))) txin = spent_value A txin"
proof (cases "op_hash (prevout txin) = h")
  case True
  then have "IsAvailable (snd (Spend c n)) (unat (op_n (prevout txin)))" "\<not> IsPruned (snd (Spend c n))"
    using assms(3) by (auto simp: available_in_def unpruned_def split: if_splits)
  then show ?thesis using Spend_keeps [OF assms(2)] assms(1) True by (auto simp: available_in_def spent_value_def unpruned_def)
qed (use assms(3) in \<open>auto simp: available_in_def spent_value_def\<close>)

context coins_view
begin

lemma spend_one:
  assumes inv: "cache_inv amap vinv s"
    and sp: "modifying usage (spend_input n) (ModifyCoins V usage s h) = (Some undo, s1)"
  shows "cache_inv amap vinv s1 \<and> amap (base s1) = amap (base s) \<and>
    (\<exists>c. cache_abs amap s h = Some c \<and> IsAvailable c n \<and> cache_abs amap s1 = (cache_abs amap s)(h := unpruned (snd (Spend c n))))"
proof -
  obtain c where c: "cleaned c" "unpruned c = cache_abs amap s h" "Some undo = fst (spend_input n c)" "cache_inv amap vinv s1"
      "cache_abs amap s1 = (cache_abs amap s)(h := unpruned (Cleanup (snd (spend_input n c))))" "amap (base s1) = amap (base s)"
    using modifying_ModifyCoins [OF inv sp] by blast
  then have av: "IsAvailable c n" using spend_input_available(2) [of c n] by fastforce
  then have "\<not> IsPruned c" by (auto simp: IsAvailable_def IsPruned_def list_all_length)
  then have some: "cache_abs amap s h = Some c" using c(2) by simp
  have "Cleanup (snd (spend_input n c)) = snd (Spend c n)"
    using spend_input_available(1) [OF av] by (simp add: Spend_available [OF av])
  then show ?thesis using c(4-6) av some by simp
qed

lemma UpdateCoins_inputs_value:
  "cache_inv amap vinv s \<Longrightarrow> finite (dom (cache_abs amap s)) \<Longrightarrow> UpdateCoins_inputs V usage ins s = Some (undos, s1) \<Longrightarrow>
     cache_inv amap vinv s1 \<and> amap (base s1) = amap (base s) \<and> finite (dom (cache_abs amap s1)) \<and>
     (\<forall>k. cache_abs amap s k = None \<longrightarrow> cache_abs amap s1 k = None) \<and>
     (\<forall>txin. available_in (cache_abs amap s1) txin \<longrightarrow> available_in (cache_abs amap s) txin) \<and>
     (\<forall>txin \<in> set ins. available_in (cache_abs amap s) txin) \<and>
     coin_supply (cache_abs amap s1) = coin_supply (cache_abs amap s) - sum_list (map (spent_value (cache_abs amap s)) ins)"
proof (induction ins arbitrary: s undos)
  case (Cons txin ins)
  let ?h = "op_hash (prevout txin)" let ?n = "unat (op_n (prevout txin))" let ?A = "cache_abs amap s"
  obtain undo s0 us where u: "modifying usage (spend_input ?n) (ModifyCoins V usage s ?h) = (Some undo, s0)"
      "UpdateCoins_inputs V usage ins s0 = Some (us, s1)"
    using Cons.prems(3) by (auto split: option.splits prod.splits)
  obtain c where c: "cache_inv amap vinv s0" "amap (base s0) = amap (base s)" "?A ?h = Some c" "IsAvailable c ?n"
      "cache_abs amap s0 = ?A(?h := unpruned (snd (Spend c ?n)))"
    using spend_one [OF Cons.prems(1) u(1)] by blast
  have fin: "finite (dom (cache_abs amap s0))"
    using Cons.prems(2) finite_subset [of "dom (cache_abs amap s0)" "insert ?h (dom ?A)"] by (auto simp: c(5) split: if_splits)
  note ih = Cons.IH [OF c(1) fin u(2)]
  have keep: "available_in ?A t \<and> spent_value (cache_abs amap s0) t = spent_value ?A t"
    if "available_in (cache_abs amap s0) t" for t
    using available_after_spend [of ?A ?h c ?n t] c(3,4) that unfolding c(5) by blast
  have here: "available_in ?A txin" "spent_value ?A txin = nValue (c_vout c ! ?n)"
    using c(3,4) by (auto simp: available_in_def spent_value_def)
  have "coin_supply (cache_abs amap s0) = coin_supply ?A - spent_value ?A txin"
    using coin_supply_update [OF Cons.prems(2)] c(3) by (simp add: c(5) coins_value_Spend [OF c(4)] here(2))
  moreover have "sum_list (map (spent_value (cache_abs amap s0)) ins) = sum_list (map (spent_value ?A) ins)"
    using ih keep by (intro arg_cong [of _ _ sum_list] map_cong) auto
  moreover have "cache_abs amap s0 k = None" if "?A k = None" for k using that c(3) by (auto simp: c(5))
  ultimately show ?case using ih keep here c(2) by simp
qed simp

end

subsection \<open>The checks of values\<close>

context coins_view
begin

lemma HaveInputs_loop_spec:
  "cache_inv amap vinv s \<Longrightarrow> HaveInputs_loop V usage ins s = (ok, s') \<Longrightarrow>
     cache_inv amap vinv s' \<and> cache_abs amap s' = cache_abs amap s \<and> cache_best best s' = cache_best best s \<and> amap (base s') = amap (base s) \<and>
     (ok \<longleftrightarrow> (\<forall>txin \<in> set ins. available_in (cache_abs amap s) txin))"
proof (induction ins arbitrary: s)
  case (Cons txin ins)
  obtain r s1 where a: "AccessCoins V usage s (op_hash (prevout txin)) = (r, s1)" by (rule prod.exhaust)
  note sp = AccessCoins_spec [OF Cons.prems(1) a] and b = AccessCoins_base [OF Cons.prems(1) a]
  have av: "available_in (cache_abs amap s) txin \<longleftrightarrow> (\<exists>c. r = Some c \<and> IsAvailable c (unat (op_n (prevout txin))))"
  proof (cases r)
    case (Some c)
    then have "cache_abs amap s (op_hash (prevout txin)) = unpruned c" using sp by simp
    moreover have "\<not> IsPruned c" if "IsAvailable c i" for i using that by (auto simp: IsAvailable_def IsPruned_def list_all_length)
    ultimately show ?thesis using Some by (auto simp: available_in_def unpruned_def)
  qed (use sp in \<open>auto simp: available_in_def\<close>)
  show ?case
  proof (cases "\<exists>c. r = Some c \<and> IsAvailable c (unat (op_n (prevout txin)))")
    case True
    then have "HaveInputs_loop V usage ins s1 = (ok, s')" using Cons.prems(2) a by auto
    then show ?thesis using Cons.IH [of s1] sp b av True by simp
  next
    case False
    then have "ok = False" "s' = s1" using Cons.prems(2) a by (auto split: option.splits)
    then show ?thesis using sp b av False by simp
  qed
qed simp

lemma CheckTxInputs_loop_spec:
  "cache_inv amap vinv s \<Longrightarrow> \<forall>txin \<in> set ins. available_in (cache_abs amap s) txin \<Longrightarrow>
   CheckTxInputs_loop V usage h ins acc state s = Inr ((ok, state'), v, s') \<Longrightarrow>
     cache_inv amap vinv s' \<and> cache_abs amap s' = cache_abs amap s \<and> cache_best best s' = cache_best best s \<and> amap (base s') = amap (base s) \<and>
     (ok \<longrightarrow> state' = state \<and> v = acc + sum_list (map (spent_value (cache_abs amap s)) ins) \<and>
       (\<forall>txin \<in> set ins. MoneyRange (spent_value (cache_abs amap s) txin) \<and>
          (fCoinBase (the (cache_abs amap s (op_hash (prevout txin)))) \<longrightarrow>
             COINBASE_MATURITY \<le> h - c_nHeight (the (cache_abs amap s (op_hash (prevout txin)))))))"
proof (induction ins arbitrary: s acc)
  case (Cons txin ins)
  let ?n = "unat (op_n (prevout txin))"
  obtain r s1 where a: "AccessCoins V usage s (op_hash (prevout txin)) = (r, s1)" by (rule prod.exhaust)
  note sp = AccessCoins_spec [OF Cons.prems(1) a] and b = AccessCoins_base [OF Cons.prems(1) a]
  obtain c where c: "cache_abs amap s (op_hash (prevout txin)) = Some c" "IsAvailable c ?n"
    using Cons.prems(2) by (auto simp: available_in_def)
  then have r: "r = Some c" using sp by (cases r) (auto simp: unpruned_def split: if_splits)
  have n: "?n < length (c_vout c)" using c(2) by (simp add: IsAvailable_def)
  have sv: "spent_value (cache_abs amap s) txin = nValue (c_vout c ! ?n)" using c(1) by (simp add: spent_value_def)
  show ?case
  proof (cases "(fCoinBase c \<and> h - c_nHeight c < COINBASE_MATURITY) \<or> \<not> in_int64 (acc + nValue (c_vout c ! ?n)) \<or>
      \<not> MoneyRange (nValue (c_vout c ! ?n)) \<or> \<not> MoneyRange (acc + nValue (c_vout c ! ?n))")
    case True
    then have "\<not> ok \<and> s' = s1" using Cons.prems(3) a r n by (auto simp: Let_def Invalid_def DoS_def split: if_splits)
    then show ?thesis using sp b by simp
  next
    case False
    then have rec: "CheckTxInputs_loop V usage h ins (acc + nValue (c_vout c ! ?n)) state s1 = Inr ((ok, state'), v, s')"
      using Cons.prems(3) a r n by (auto simp: Let_def)
    have "\<forall>txin \<in> set ins. available_in (cache_abs amap s1) txin" using Cons.prems(2) sp by simp
    from Cons.IH [OF _ this rec] show ?thesis using sp b False sv c(1) by auto
  qed
qed simp

lemma CheckTxInputs_spec:
  assumes inv: "cache_inv amap vinv s" and nc: "\<not> IsCoinBase tx"
    and ch: "CheckTxInputs V usage tx state s h = Inr ((ok, state'), s')"
  shows "cache_inv amap vinv s' \<and> cache_abs amap s' = cache_abs amap s \<and> cache_best best s' = cache_best best s \<and> amap (base s') = amap (base s) \<and>
    (ok \<longrightarrow> state' = state \<and> (\<forall>txin \<in> set (vin tx). available_in (cache_abs amap s) txin) \<and>
      (\<forall>txin \<in> set (vin tx). MoneyRange (spent_value (cache_abs amap s) txin) \<and>
          (fCoinBase (the (cache_abs amap s (op_hash (prevout txin)))) \<longrightarrow>
             COINBASE_MATURITY \<le> h - c_nHeight (the (cache_abs amap s (op_hash (prevout txin)))))) \<and>
      (\<forall>out \<in> set (vout tx). 0 \<le> nValue out) \<and> GetValueOut tx = Inr (sum_list (map nValue (vout tx))) \<and>
      sum_list (map nValue (vout tx)) \<le> sum_list (map (spent_value (cache_abs amap s)) (vin tx)))"
proof -
  obtain hs s1 where hv: "HaveInputs_loop V usage (vin tx) s = (hs, s1)" by (rule prod.exhaust)
  note h1 = HaveInputs_loop_spec [OF inv hv]
  show ?thesis
  proof (cases hs)
    case False
    then have "\<not> ok \<and> s' = s1" using ch hv nc by (auto simp: CheckTxInputs_def HaveInputs_def Invalid_def DoS_def Let_def split: if_splits)
    then show ?thesis using h1 by simp
  next
    case True
    have hi: "HaveInputs V usage s tx = (True, s1)" using hv True nc by (simp add: HaveInputs_def)
    obtain ok2 st2 v s2 where lp: "CheckTxInputs_loop V usage h (vin tx) 0 state s1 = Inr ((ok2, st2), v, s2)"
      using ch hi by (auto simp: CheckTxInputs_def ebind_def split: sum.splits)
    have av: "\<forall>txin \<in> set (vin tx). available_in (cache_abs amap s1) txin" using h1 True by simp
    note l = CheckTxInputs_loop_spec [OF _ av lp]
    show ?thesis
    proof (cases ok2)
      case False
      then have "\<not> ok \<and> s' = s2" using ch hi lp by (simp add: CheckTxInputs_def)
      then show ?thesis using h1 l by simp
    next
      case ok2: True
      obtain vo where vo: "value_exit (GetValueOut tx) = Inr vo" using ch hi lp ok2
        by (auto simp: CheckTxInputs_def ebind_def split: sum.splits)
      then have go: "GetValueOut tx = Inr vo" by (auto simp: value_exit_def split: sum.splits value_exn.splits)
      have "s' = s2" "ok \<longrightarrow> state' = st2 \<and> vo \<le> v"
        using ch hi lp ok2 vo by (auto simp: CheckTxInputs_def Let_def DoS_def split: if_splits)
      moreover have "vo = sum_list (map nValue (vout tx)) \<and> (\<forall>out \<in> set (vout tx). 0 \<le> nValue out)"
        using GetValueOut_loop_eq [of 0 "vout tx" vo] go by (simp add: GetValueOut_def int_ranges)
      ultimately show ?thesis using h1 l go True ok2 av by simp
    qed
  qed
qed

end

end
