(* ===== verification/ConnectBlock.thy ===== *)
theory ConnectBlock
  imports Supply BlockCheck
begin

text \<open>
  \<open>ConnectBlock\<close> of validation.cpp, with \<open>CheckInputs\<close>, the checks of scripts, and the position of undo data.

  The flags of the node and what the writes to its databases and files answer are the record \<open>connect_env\<close>;
  what is written is a list of events. The queue of script checks answers with the conjunction of the
  checks, as theory CheckQueue shows; the cache of signatures, which does not change an answer, the
  callbacks and the measurement of times are left out.
\<close>

unbundle bit_operations_syntax

subsection \<open>Script checks\<close>

abbreviation (input) MANDATORY_SCRIPT_VERIFY_FLAGS :: u32 where "MANDATORY_SCRIPT_VERIFY_FLAGS \<equiv> SCRIPT_VERIFY_P2SH"

definition STANDARD_SCRIPT_VERIFY_FLAGS :: u32 where
  "STANDARD_SCRIPT_VERIFY_FLAGS = MANDATORY_SCRIPT_VERIFY_FLAGS OR SCRIPT_VERIFY_DERSIG OR SCRIPT_VERIFY_STRICTENC OR
     SCRIPT_VERIFY_MINIMALDATA OR SCRIPT_VERIFY_NULLDUMMY OR SCRIPT_VERIFY_DISCOURAGE_UPGRADABLE_NOPS OR
     SCRIPT_VERIFY_CLEANSTACK OR SCRIPT_VERIFY_CHECKLOCKTIMEVERIFY OR SCRIPT_VERIFY_CHECKSEQUENCEVERIFY OR SCRIPT_VERIFY_LOW_S"

definition STANDARD_NOT_MANDATORY_VERIFY_FLAGS :: u32 where
  "STANDARD_NOT_MANDATORY_VERIFY_FLAGS = STANDARD_SCRIPT_VERIFY_FLAGS AND NOT MANDATORY_SCRIPT_VERIFY_FLAGS"

record CScriptCheck =
  sc_scriptPubKey :: CScript
  sc_ptxTo :: CTransaction
  sc_nIn :: nat
  sc_nFlags :: u32
  sc_cacheStore :: bool

definition mk_CScriptCheck :: "CCoins \<Rightarrow> CTransaction \<Rightarrow> nat \<Rightarrow> u32 \<Rightarrow> bool \<Rightarrow> cxx_exit + CScriptCheck" where
  "mk_CScriptCheck txFrom txTo n checkFlags cacheStore =
     (case vget (c_vout txFrom) (unat (op_n (prevout (vin txTo ! n)))) of
        None \<Rightarrow> Inl Undefined
      | Some out \<Rightarrow> Inr \<lparr>sc_scriptPubKey = scriptPubKey out, sc_ptxTo = txTo, sc_nIn = n, sc_nFlags = checkFlags, sc_cacheStore = cacheStore\<rparr>)"

text \<open>The error of a check that fails; \<open>None\<close> when it succeeds.\<close>

definition CScriptCheck_call :: "crypto \<Rightarrow> CScriptCheck \<Rightarrow> cxx_exit + ScriptError option" where
  "CScriptCheck_call C chk =
     (case VerifyScript C (scriptSig (vin (sc_ptxTo chk) ! sc_nIn chk)) (sc_scriptPubKey chk) (sc_nFlags chk)
        (TransactionSignatureChecker C (sc_ptxTo chk, sc_nIn chk)) of
        Inr u \<Rightarrow> Inr None
      | Inl (Err e) \<Rightarrow> Inr (Some e)
      | Inl e \<Rightarrow> Inl e)"

text \<open>The queue, from the checks that were added: whether all of them succeed.\<close>

fun run_checks :: "crypto \<Rightarrow> CScriptCheck list \<Rightarrow> cxx_exit + bool" where
  "run_checks C [] = Inr True"
| "run_checks C (chk # checks) =
     ebind (CScriptCheck_call C chk) (\<lambda>err. ebind (run_checks C checks) (\<lambda>ok. Inr (err = None \<and> ok)))"

definition GetSpendHeight ::
  "'b CCoinsView \<Rightarrow> heap \<Rightarrow> (uint256 \<Rightarrow> ptr option) \<Rightarrow> 'b CCoinsViewCache \<Rightarrow> cxx_exit + int \<times> 'b CCoinsViewCache" where
  "GetSpendHeight V H mapBlockIndex inputs =
     (case Cache_GetBestBlock V inputs of
        (best, inputs) \<Rightarrow>
          (case mapBlockIndex best of
             None \<Rightarrow> Inl Undefined
           | Some pindexPrev \<Rightarrow> Inr (nHeight (H pindexPrev) + 1, inputs)))"

text \<open>
  The loop over the inputs, from the input with number \<open>i\<close> on. The flag \<open>pv\<close> says whether the caller gave
  a vector for the checks; then they are put there, otherwise they are made at once.
\<close>

fun check_scripts ::
  "'b CCoinsView \<Rightarrow> (CCoins \<Rightarrow> u64) \<Rightarrow> crypto \<Rightarrow> CTransaction \<Rightarrow> u32 \<Rightarrow> bool \<Rightarrow> bool \<Rightarrow> nat \<Rightarrow> CTxIn list \<Rightarrow> CScriptCheck list \<Rightarrow>
     CValidationState \<Rightarrow> 'b CCoinsViewCache \<Rightarrow> cxx_exit + (bool \<times> CValidationState) \<times> CScriptCheck list \<times> 'b CCoinsViewCache" where
  "check_scripts V usage C tx fl cacheStore pv i [] vChecks state inputs = Inr ((True, state), vChecks, inputs)"
| "check_scripts V usage C tx fl cacheStore pv i (txin # ins) vChecks state inputs =
     (case AccessCoins V usage inputs (op_hash (prevout txin)) of
        (None, inputs) \<Rightarrow> Inl AssertFail
      | (Some c, inputs) \<Rightarrow>
          ebind (mk_CScriptCheck c tx i fl cacheStore) (\<lambda>chk.
          if pv then check_scripts V usage C tx fl cacheStore pv (i + 1) ins (vChecks @ [chk]) state inputs
          else
            ebind (CScriptCheck_call C chk) (\<lambda>err.
            case err of
              None \<Rightarrow> check_scripts V usage C tx fl cacheStore pv (i + 1) ins vChecks state inputs
            | Some e \<Rightarrow>
                ebind
                  (if fl AND STANDARD_NOT_MANDATORY_VERIFY_FLAGS \<noteq> 0 then
                     ebind (mk_CScriptCheck c tx i (fl AND NOT STANDARD_NOT_MANDATORY_VERIFY_FLAGS) cacheStore) (CScriptCheck_call C)
                   else Inr (Some e)) (\<lambda>err2.
                if err2 = None then
                  Inr (Invalid state False REJECT_NONSTANDARD (''non-mandatory-script-verify-flag ('' @ ScriptErrorString e @ '')''), vChecks, inputs)
                else
                  Inr (DoS state 100 False REJECT_INVALID (''mandatory-script-verify-flag-failed ('' @ ScriptErrorString e @ '')'') False, vChecks, inputs)))))"

definition CheckInputs ::
  "'b CCoinsView \<Rightarrow> (CCoins \<Rightarrow> u64) \<Rightarrow> crypto \<Rightarrow> heap \<Rightarrow> (uint256 \<Rightarrow> ptr option) \<Rightarrow> CTransaction \<Rightarrow> CValidationState \<Rightarrow>
     'b CCoinsViewCache \<Rightarrow> bool \<Rightarrow> u32 \<Rightarrow> bool \<Rightarrow> bool \<Rightarrow> cxx_exit + (bool \<times> CValidationState) \<times> CScriptCheck list \<times> 'b CCoinsViewCache" where
  "CheckInputs V usage C H mapBlockIndex tx state inputs fScriptChecks fl cacheStore pv =
     (if \<not> IsCoinBase tx then
        ebind (GetSpendHeight V H mapBlockIndex inputs) (\<lambda>(nSpendHeight, inputs).
        ebind (CheckTxInputs V usage tx state inputs nSpendHeight) (\<lambda>((ok, state), inputs).
        if \<not> ok then Inr ((False, state), [], inputs)
        else if fScriptChecks then check_scripts V usage C tx fl cacheStore pv 0 (vin tx) [] state inputs
        else Inr ((True, state), [], inputs)))
      else Inr ((True, state), [], inputs))"

subsection \<open>Entries for the indexes\<close>

record CSpentIndexValue =
  si_txid :: uint256
  si_inputIndex :: nat
  si_blockHeight :: int
  si_satoshis :: CAmount
  si_addressType :: nat
  si_addressHash :: uint160

record connect_entries =
  ce_addressIndex :: "(CAddressIndexKey \<times> CAmount) list"
  ce_addressUnspentIndex :: "(CAddressUnspentKey \<times> CAddressUnspentValue) list"
  ce_spentIndex :: "((uint256 \<times> u32) \<times> CSpentIndexValue) list"

definition no_connect_entries :: connect_entries where
  "no_connect_entries = \<lparr>ce_addressIndex = [], ce_addressUnspentIndex = [], ce_spentIndex = []\<rparr>"

definition spend_entries :: "bool \<Rightarrow> bool \<Rightarrow> int \<Rightarrow> nat \<Rightarrow> uint256 \<Rightarrow> nat \<Rightarrow> CTxIn \<Rightarrow> CTxOut \<Rightarrow> connect_entries \<Rightarrow> connect_entries" where
  "spend_entries fAddressIndex fSpentIndex height i txhash j input out e =
     (let (addressType, hashBytes) = (case script_address (scriptPubKey out) of Some a \<Rightarrow> a | None \<Rightarrow> (0, blob_SetNull 20));
        e = (if fAddressIndex \<and> addressType > 0 then
               e\<lparr>ce_addressIndex := ce_addressIndex e @
                   [(\<lparr>ai_type = addressType, ai_hashBytes = hashBytes, ai_blockHeight = height, ai_txindex = i, ai_txhash = txhash,
                      ai_index = j, ai_spending = True\<rparr>, nValue out * -1)],
                 ce_addressUnspentIndex := ce_addressUnspentIndex e @
                   [(\<lparr>au_type = addressType, au_hashBytes = hashBytes, au_txhash = op_hash (prevout input), au_index = unat (op_n (prevout input))\<rparr>,
                     CAddressUnspentValue_init)]\<rparr>
             else e) in
      if fSpentIndex then
        e\<lparr>ce_spentIndex := ce_spentIndex e @
            [((op_hash (prevout input), op_n (prevout input)),
              \<lparr>si_txid = txhash, si_inputIndex = j, si_blockHeight = height, si_satoshis = nValue out, si_addressType = addressType,
               si_addressHash = hashBytes\<rparr>)]\<rparr>
      else e)"

fun index_inputs ::
  "'b CCoinsView \<Rightarrow> (CCoins \<Rightarrow> u64) \<Rightarrow> bool \<Rightarrow> bool \<Rightarrow> int \<Rightarrow> nat \<Rightarrow> uint256 \<Rightarrow> nat \<Rightarrow> CTxIn list \<Rightarrow> connect_entries \<Rightarrow> 'b CCoinsViewCache \<Rightarrow>
     cxx_exit + connect_entries \<times> 'b CCoinsViewCache" where
  "index_inputs V usage fAddressIndex fSpentIndex height i txhash j [] e view = Inr (e, view)"
| "index_inputs V usage fAddressIndex fSpentIndex height i txhash j (input # ins) e view =
     (case GetOutputFor V usage view input of
        (None, view) \<Rightarrow> Inl AssertFail
      | (Some out, view) \<Rightarrow>
          index_inputs V usage fAddressIndex fSpentIndex height i txhash (j + 1) ins
            (spend_entries fAddressIndex fSpentIndex height i txhash j input out e) view)"

fun index_outputs :: "int \<Rightarrow> nat \<Rightarrow> uint256 \<Rightarrow> nat \<Rightarrow> CTxOut list \<Rightarrow> connect_entries \<Rightarrow> connect_entries" where
  "index_outputs height i txhash k [] e = e"
| "index_outputs height i txhash k (out # outs) e =
     index_outputs height i txhash (k + 1) outs
       (case script_address (scriptPubKey out) of
          None \<Rightarrow> e
        | Some (addressType, hashBytes) \<Rightarrow>
            e\<lparr>ce_addressIndex := ce_addressIndex e @
                [(\<lparr>ai_type = addressType, ai_hashBytes = hashBytes, ai_blockHeight = height, ai_txindex = i, ai_txhash = txhash,
                   ai_index = k, ai_spending = False\<rparr>, nValue out)],
              ce_addressUnspentIndex := ce_addressUnspentIndex e @
                [(\<lparr>au_type = addressType, au_hashBytes = hashBytes, au_txhash = txhash, au_index = k\<rparr>,
                  \<lparr>au_satoshis = nValue out, au_script = scriptPubKey out, au_blockHeight = height\<rparr>)]\<rparr>)"

subsection \<open>Undo data\<close>

abbreviation (input) UNDOFILE_CHUNK_SIZE :: u32 where "UNDOFILE_CHUNK_SIZE \<equiv> 0x100000"

text \<open>
  The position of undo data. The sizes of the undo files are the list \<open>undoSizes\<close>; the flag \<open>space\<close> is the
  answer of \<open>CheckDiskSpace\<close>. The allocation of the file is left out.
\<close>

definition FindUndoPos :: "bool \<Rightarrow> CValidationState \<Rightarrow> int \<Rightarrow> u32 list \<Rightarrow> nat \<Rightarrow> cxx_exit + (bool \<times> CValidationState) \<times> (int \<times> u32) \<times> u32 list" where
  "FindUndoPos space state file undoSizes nAddSize =
     (if \<not> (0 \<le> file \<and> nat file < length undoSizes) then Inl Undefined
      else
        let pos = undoSizes ! nat file; nNewSize = pos + word_of_nat nAddSize; undoSizes = undoSizes[nat file := nNewSize];
          nOldChunks = (pos + UNDOFILE_CHUNK_SIZE - 1) div UNDOFILE_CHUNK_SIZE;
          nNewChunks = (nNewSize + UNDOFILE_CHUNK_SIZE - 1) div UNDOFILE_CHUNK_SIZE in
        if nNewChunks > nOldChunks \<and> \<not> space then Inr (Error state ''out of disk space'', (file, pos), undoSizes)
        else Inr ((True, state), (file, pos), undoSizes))"

definition Serialize_CBlockUndo :: "ec_parser \<Rightarrow> CBlockUndo \<Rightarrow> bytes" where
  "Serialize_CBlockUndo ec undo = Serialize_vector (Serialize_vector (Serialize_CTxInUndo ec)) undo"

subsection \<open>The transactions of the block\<close>

text \<open>
  The arguments that do not change in the loop: the node and its tree of blocks, the flags of the node,
  and the local flags of \<open>ConnectBlock\<close>.
\<close>

record connect_env =
  ce_fAddressIndex :: bool
  ce_fSpentIndex :: bool
  ce_fTxIndex :: bool
  ce_fTimestampIndex :: bool
  nScriptCheckThreads :: nat
  disk_space :: bool

record connect_flags =
  fScriptChecks :: bool
  fStrictPayToScriptHash :: bool
  script_flags :: u32
  lock_time_flags :: int
  just_check :: bool

record 'b connect_state =
  cs_view :: "'b CCoinsViewCache"
  cs_nFees :: CAmount
  cs_nSigOps :: nat
  cs_checks :: "CScriptCheck list"
  cs_undo :: CBlockUndo
  cs_entries :: connect_entries
  cs_vPos :: "(uint256 \<times> (int \<times> u32) \<times> u32) list"
  cs_nTxOffset :: u32

fun prev_heights ::
  "'b CCoinsView \<Rightarrow> (CCoins \<Rightarrow> u64) \<Rightarrow> CTxIn list \<Rightarrow> 'b CCoinsViewCache \<Rightarrow> cxx_exit + int list \<times> 'b CCoinsViewCache" where
  "prev_heights V usage [] view = Inr ([], view)"
| "prev_heights V usage (txin # ins) view =
     (case AccessCoins V usage view (op_hash (prevout txin)) of
        (None, view) \<Rightarrow> Inl Undefined
      | (Some c, view) \<Rightarrow> ebind (prev_heights V usage ins view) (\<lambda>(hs, view). Inr (c_nHeight c # hs, view)))"

text \<open>The part for a transaction that is no coinbase.\<close>

definition connect_inputs ::
  "'b CCoinsView \<Rightarrow> (CCoins \<Rightarrow> u64) \<Rightarrow> crypto \<Rightarrow> connect_env \<Rightarrow> connect_flags \<Rightarrow> heap \<Rightarrow> (uint256 \<Rightarrow> ptr option) \<Rightarrow> ptr \<Rightarrow> nat \<Rightarrow>
     CTransaction \<Rightarrow> CValidationState \<Rightarrow> 'b connect_state \<Rightarrow> cxx_exit + (bool \<times> CValidationState) \<times> 'b connect_state" where
  "connect_inputs V usage C N F H mapBlockIndex pindex i tx state s =
     (case HaveInputs V usage (cs_view s) tx of
        (False, view) \<Rightarrow> Inr (DoS state 100 False REJECT_INVALID ''bad-txns-inputs-missingorspent'' False, s\<lparr>cs_view := view\<rparr>)
      | (True, view) \<Rightarrow>
          ebind (prev_heights V usage (vin tx) view) (\<lambda>(prevheights, view).
          ebind (SequenceLocks H tx (lock_time_flags F) prevheights pindex) (\<lambda>final.
          if \<not> final then Inr (DoS state 100 False REJECT_INVALID ''bad-txns-nonfinal'' False, s\<lparr>cs_view := view\<rparr>)
          else
            ebind
              (if ce_fAddressIndex N \<or> ce_fSpentIndex N then
                 index_inputs V usage (ce_fAddressIndex N) (ce_fSpentIndex N) (nHeight (H pindex)) i (GetHash C tx) 0 (vin tx) (cs_entries s) view
               else Inr (cs_entries s, view)) (\<lambda>(entries, view).
            ebind (if fStrictPayToScriptHash F then GetP2SHSigOpCount V usage tx view else Inr (0, view)) (\<lambda>(n, view).
            let nSigOps = (cs_nSigOps s + n) mod 2 ^ 32; s = s\<lparr>cs_view := view, cs_entries := entries, cs_nSigOps := nSigOps\<rparr> in
            if fStrictPayToScriptHash F \<and> nSigOps > MAX_BLOCK_SIGOPS then
              Inr (DoS state 100 False REJECT_INVALID ''bad-blk-sigops'' False, s)
            else
              case GetValueIn V usage view tx of
                (None, view) \<Rightarrow> Inl Undefined
              | (Some nValueIn, view) \<Rightarrow>
                  ebind (value_exit (GetValueOut tx)) (\<lambda>nValueOut.
                  ebind (int64_op (nValueIn - nValueOut)) (\<lambda>fee.
                  ebind (int64_op (cs_nFees s + fee)) (\<lambda>nFees.
                  ebind (CheckInputs V usage C H mapBlockIndex tx state view (fScriptChecks F) (script_flags F) (just_check F)
                     (nScriptCheckThreads N \<noteq> 0)) (\<lambda>((ok, state), vChecks, view).
                  let s = s\<lparr>cs_view := view, cs_nFees := nFees\<rparr> in
                  if \<not> ok then Inr ((False, state), s)
                  else
                    Inr ((True, state),
                      if fScriptChecks F \<and> nScriptCheckThreads N \<noteq> 0 then s\<lparr>cs_checks := cs_checks s @ vChecks\<rparr> else s))))))))))"

fun connect_loop ::
  "'b CCoinsView \<Rightarrow> (CCoins \<Rightarrow> u64) \<Rightarrow> crypto \<Rightarrow> connect_env \<Rightarrow> connect_flags \<Rightarrow> heap \<Rightarrow> (uint256 \<Rightarrow> ptr option) \<Rightarrow> ptr \<Rightarrow> nat \<Rightarrow>
     CTransaction list \<Rightarrow> CValidationState \<Rightarrow> 'b connect_state \<Rightarrow> cxx_exit + (bool \<times> CValidationState) \<times> 'b connect_state" where
  "connect_loop V usage C N F H mapBlockIndex pindex i [] state s = Inr ((True, state), s)"
| "connect_loop V usage C N F H mapBlockIndex pindex i (tx # txs) state s =
     ebind (GetLegacySigOpCount tx) (\<lambda>n.
     let s = s\<lparr>cs_nSigOps := (cs_nSigOps s + n) mod 2 ^ 32\<rparr> in
     if cs_nSigOps s > MAX_BLOCK_SIGOPS then Inr (DoS state 100 False REJECT_INVALID ''bad-blk-sigops'' False, s)
     else
       ebind (if \<not> IsCoinBase tx then connect_inputs V usage C N F H mapBlockIndex pindex i tx state s else Inr ((True, state), s))
         (\<lambda>((ok, state), s).
       if \<not> ok then Inr ((False, state), s)
       else
         let s = (if ce_fAddressIndex N then
             s\<lparr>cs_entries := index_outputs (nHeight (H pindex)) i (GetHash C tx) 0 (vout tx) (cs_entries s)\<rparr> else s) in
         case UpdateCoins V usage C tx (cs_view s) (nHeight (H pindex)) of
           None \<Rightarrow> Inl AssertFail
         | Some (txundo, view) \<Rightarrow>
             connect_loop V usage C N F H mapBlockIndex pindex (i + 1) txs state
               (s\<lparr>cs_view := view, cs_undo := (if i > 0 then cs_undo s @ [txundo] else cs_undo s),
                  cs_vPos := cs_vPos s @ [(GetHash C tx, GetBlockPos (H pindex), cs_nTxOffset s)],
                  cs_nTxOffset := cs_nTxOffset s + word_of_nat (length (Serialize_CTransaction tx))\<rparr>)))"

subsection \<open>Undo files\<close>

text \<open>
  What is written for a block: the start bytes of messages and the size of the data, then the data and its
  checksum. The position that is kept is that of the data, behind the header of eight bytes.
\<close>

definition undo_header :: "bytes \<Rightarrow> bytes \<Rightarrow> bytes" where
  "undo_header messageStart blockundo = messageStart @ ser_writedata32 (length blockundo)"

definition undo_checksum :: "crypto \<Rightarrow> uint256 \<Rightarrow> bytes \<Rightarrow> uint256" where
  "undo_checksum C hashBlock blockundo = CHash256 C (hashBlock @ blockundo)"

definition undo_record :: "ec_parser \<Rightarrow> crypto \<Rightarrow> bytes \<Rightarrow> uint256 \<Rightarrow> CBlockUndo \<Rightarrow> bytes" where
  "undo_record ec C messageStart hashBlock blockundo =
     undo_header messageStart (Serialize_CBlockUndo ec blockundo) @ Serialize_CBlockUndo ec blockundo @
     undo_checksum C hashBlock (Serialize_CBlockUndo ec blockundo)"

subsection \<open>Connecting a block\<close>

text \<open>
  What is written to the databases and files, and what else a caller sees: an answer \<open>False\<close> of \<open>write_ok\<close>
  is a write that fails.
\<close>

datatype chain_event =
    Node_event node_event
  | Write_undo int u32 bytes
  | Write_TxIndex "(uint256 \<times> (int \<times> u32) \<times> u32) list"
  | Write_AddressIndex "(CAddressIndexKey \<times> CAmount) list"
  | Update_AddressUnspentIndex "(CAddressUnspentKey \<times> CAddressUnspentValue) list"
  | Update_SpentIndex "((uint256 \<times> u32) \<times> CSpentIndexValue) list"
  | Write_TimestampIndex u32 uint256
  | Dirty_index ptr
  | Abort_node string

record disk_env =
  write_ok :: "chain_event \<Rightarrow> bool"
  ec_parse :: ec_parser
  messageStart :: bytes

record 'b connect_result =
  cr_view :: "'b CCoinsViewCache"
  cr_block :: CBlock
  cr_heap :: heap
  cr_cache :: VersionBitsCache
  cr_undoSizes :: "u32 list"
  cr_events :: "chain_event list"

definition block_hash_of :: "heap \<Rightarrow> ptr \<Rightarrow> cxx_exit + uint256" where
  "block_hash_of H p = (if phashBlock (H p) = [] then Inl Undefined else Inr (phashBlock (H p)))"

text \<open>Whether the scripts are checked: not below the last checkpoint that is known, on its chain.\<close>

definition script_checks_needed :: "node_env \<Rightarrow> heap \<Rightarrow> (uint256 \<Rightarrow> ptr option) \<Rightarrow> ptr \<Rightarrow> cxx_exit + bool" where
  "script_checks_needed E H mapBlockIndex pindex =
     (if fCheckpointsEnabled E then
        case GetLastCheckpoint (mapCheckpoints E) mapBlockIndex of
          None \<Rightarrow> Inr True
        | Some pindexLastCheckpoint \<Rightarrow>
            ebind (GetAncestor H pindexLastCheckpoint (nHeight (H pindex))) (\<lambda>a. Inr (a \<noteq> Some pindex))
      else Inr True)"

definition enforce_BIP30 :: "Params \<Rightarrow> heap \<Rightarrow> ptr \<Rightarrow> ptr \<Rightarrow> cxx_exit + bool" where
  "enforce_BIP30 params H pindex prev =
     (let fEnforceBIP30 = (phashBlock (H pindex) = [] \<or>
        \<not> (nHeight (H pindex) = 91842 \<and>
             phashBlock (H pindex) = le_bytes 32 0x00000000000a4d0a398161ffc163c503763b1f4360639393e0e4c8e300e0caec \<or>
           nHeight (H pindex) = 91880 \<and>
             phashBlock (H pindex) = le_bytes 32 0x00000000000743f190a18c5577a3c2d2a1f610ae9601ac046a38084ccb7cd721)) in
      ebind (GetAncestor H prev (BIP34Height params)) (\<lambda>pindexBIP34height.
      if \<not> fEnforceBIP30 then Inr False
      else
        case pindexBIP34height of
          None \<Rightarrow> Inr True
        | Some p \<Rightarrow> ebind (block_hash_of H p) (\<lambda>h. Inr (h \<noteq> BIP34Hash params))))"

definition connect_rules ::
  "Params \<Rightarrow> heap \<Rightarrow> CBlock \<Rightarrow> ptr \<Rightarrow> ptr \<Rightarrow> VersionBitsCache \<Rightarrow> (cxx_exit + (bool \<times> u32 \<times> int) \<times> VersionBitsCache) option" where
  "connect_rules params H block pindex prev cache =
     (let fStrict = (GetBlockTime (H pindex) \<ge> 1333238400);
        majority = (\<lambda>v. hdr_nVersion block \<ge> v \<and>
          IsSuperMajority H v (Some prev) (unsigned_of 32 (nMajorityEnforceBlockUpgrade params)) params);
        fl = (if fStrict then SCRIPT_VERIFY_P2SH else 0);
        fl = (if majority 3 then fl OR SCRIPT_VERIFY_DERSIG else fl);
        fl = (if majority 4 then fl OR SCRIPT_VERIFY_CHECKLOCKTIMEVERIFY else fl) in
      obind (VersionBitsState H (Some prev) params DEPLOYMENT_CSV cache) (\<lambda>(vbstate, cache).
      if vbstate = THRESHOLD_ACTIVE then
        Some (Inr ((fStrict, fl OR SCRIPT_VERIFY_CHECKSEQUENCEVERIFY, LOCKTIME_VERIFY_SEQUENCE), cache))
      else Some (Inr ((fStrict, fl, 0), cache))))"

definition connect_reward :: "Params \<Rightarrow> heap \<Rightarrow> ptr \<Rightarrow> CAmount \<Rightarrow> cxx_exit + CAmount" where
  "connect_reward params H prev nFees =
     ebind (int64_op (nFees + GetBlockSubsidy (nHeight (H prev)))) (\<lambda>blockReward.
     if nHeight (H prev) = nForkHeight params then int64_op (blockReward + 100000000 * COIN) else Inr blockReward)"

text \<open>The writes after the checks, one after the other; the first one that fails aborts the node.\<close>

fun run_writes ::
  "disk_env \<Rightarrow> (chain_event \<times> string) list \<Rightarrow> CValidationState \<Rightarrow> 'b connect_result \<Rightarrow> (bool \<times> CValidationState) \<times> 'b connect_result" where
  "run_writes D [] state r = ((True, state), r)"
| "run_writes D ((ev, msg) # writes) state r =
     (if write_ok D ev then run_writes D writes state (r\<lparr>cr_events := cr_events r @ [ev]\<rparr>)
      else (Error state msg, r\<lparr>cr_events := cr_events r @ [ev, Abort_node msg]\<rparr>))"

definition index_writes :: "connect_env \<Rightarrow> 'b connect_state \<Rightarrow> (chain_event \<times> string) list" where
  "index_writes N s =
     (if ce_fTxIndex N then [(Write_TxIndex (cs_vPos s), ''Failed to write transaction index'')] else []) @
     (if ce_fAddressIndex N then
        [(Write_AddressIndex (ce_addressIndex (cs_entries s)), ''Failed to write address index''),
         (Update_AddressUnspentIndex (ce_addressUnspentIndex (cs_entries s)), ''Failed to write address unspent index'')] else []) @
     (if ce_fSpentIndex N then [(Update_SpentIndex (ce_spentIndex (cs_entries s)), ''Failed to write transaction index'')] else [])"

definition write_undo ::
  "crypto \<Rightarrow> connect_env \<Rightarrow> disk_env \<Rightarrow> ptr \<Rightarrow> ptr \<Rightarrow> CBlockUndo \<Rightarrow> CValidationState \<Rightarrow> 'b connect_result \<Rightarrow>
     cxx_exit + (bool \<times> CValidationState) \<times> 'b connect_result" where
  "write_undo C N D pindex prev blockundo state r =
     (let bi = cr_heap r pindex; missing = (fst (GetUndoPos bi) = -1) in
      ebind (if missing then Inr True else ebind (IsValid bi BLOCK_VALID_SCRIPTS) (\<lambda>v. Inr (\<not> v))) (\<lambda>needed.
      if \<not> needed then Inr ((True, state), r)
      else
        ebind
          (if missing then
             ebind (FindUndoPos (disk_space N) state (nFile bi) (cr_undoSizes r) (length (Serialize_CBlockUndo (ec_parse D) blockundo) + 40))
               (\<lambda>((ok, state), (file, pos), undoSizes).
             let r = r\<lparr>cr_undoSizes := undoSizes\<rparr> in
             if \<not> ok then Inr ((False, state), r)
             else
               ebind (block_hash_of (cr_heap r) prev) (\<lambda>h.
               case run_writes D [(Write_undo file pos (undo_record (ec_parse D) C (messageStart D) h blockundo), ''Failed to write undo data'')] state r of
                 ((ok, state), r) \<Rightarrow>
                   if \<not> ok then Inr ((False, state), r)
                   else
                     Inr ((True, state),
                       r\<lparr>cr_heap := (cr_heap r)(pindex := (cr_heap r pindex)\<lparr>nUndoPos := pos + 8, nStatus := nStatus bi OR BLOCK_HAVE_UNDO\<rparr>)\<rparr>)))
           else Inr ((True, state), r)) (\<lambda>((ok, state), r).
        if \<not> ok then Inr ((False, state), r)
        else
          ebind (RaiseValidity (cr_heap r pindex) BLOCK_VALID_SCRIPTS) (\<lambda>(_, bi).
          Inr ((True, state), r\<lparr>cr_heap := (cr_heap r)(pindex := bi), cr_events := cr_events r @ [Dirty_index pindex]\<rparr>)))))"

text \<open>From the payments of the coinbase on.\<close>

definition connect_finish ::
  "crypto \<Rightarrow> node_env \<Rightarrow> connect_env \<Rightarrow> disk_env \<Rightarrow> CBlock \<Rightarrow> bool \<Rightarrow> ptr \<Rightarrow> ptr \<Rightarrow> CValidationState \<Rightarrow> 'b connect_state \<Rightarrow> 'b connect_result \<Rightarrow>
     cxx_exit + (bool \<times> CValidationState) \<times> 'b connect_result" where
  "connect_finish C E N D block fJustCheck pindex prev state s r =
     (let H = cr_heap r; height = nHeight (H pindex) in
      ebind (connect_reward (env_params E) H prev (cs_nFees s)) (\<lambda>blockReward.
      ebind (IsBlockValueValid (payments E) (vtx block ! 0) height blockReward) (\<lambda>ok.
      if \<not> ok then Inr (DoS state 0 False REJECT_INVALID ''bad-cb-amount'' False, r)
      else
        ebind (IsBlockPayeeValid (payments E) (vtx block ! 0) height blockReward) (\<lambda>ok.
        if \<not> ok then
          Inr (DoS state 0 False REJECT_INVALID ''bad-cb-payee'' False,
            r\<lparr>cr_events := cr_events r @ [Node_event (Reject_block (header_GetHash E (block_header block)) (GetTime E))]\<rparr>)
        else
          ebind (run_checks C (cs_checks s)) (\<lambda>ok.
          if \<not> ok then Inr (DoS state 100 False 0 '''' False, r)
          else if fJustCheck then Inr ((True, state), r)
          else
            ebind (write_undo C N D pindex prev (cs_undo s) state r) (\<lambda>((ok, state), r).
            if \<not> ok then Inr ((False, state), r)
            else
              case run_writes D (index_writes N s) state r of
                ((ok, state), r) \<Rightarrow>
                  if \<not> ok then Inr ((False, state), r)
                  else
                    ebind (block_hash_of (cr_heap r) pindex) (\<lambda>h.
                    case run_writes D
                        (if ce_fTimestampIndex N then
                           [(Write_TimestampIndex (nTime (cr_heap r pindex)) h, ''Failed to write timestamp index'')] else []) state r of
                      ((ok, state), r) \<Rightarrow>
                        if \<not> ok then Inr ((False, state), r)
                        else Inr ((True, state), r\<lparr>cr_view := SetBestBlock (cr_view r) h\<rparr>))))))))"

definition connect_body ::
  "'b CCoinsView \<Rightarrow> (CCoins \<Rightarrow> u64) \<Rightarrow> crypto \<Rightarrow> node_env \<Rightarrow> connect_env \<Rightarrow> disk_env \<Rightarrow> (uint256 \<Rightarrow> ptr option) \<Rightarrow> CBlock \<Rightarrow>
     bool \<Rightarrow> ptr \<Rightarrow> ptr \<Rightarrow> connect_flags \<Rightarrow> CValidationState \<Rightarrow> 'b connect_state \<Rightarrow> 'b connect_result \<Rightarrow>
     cxx_exit + (bool \<times> CValidationState) \<times> 'b connect_result" where
  "connect_body V usage C E N D mapBlockIndex block fJustCheck pindex prev F state s r =
     ebind (connect_loop V usage C N F (cr_heap r) mapBlockIndex pindex 0 (vtx block) state s) (\<lambda>((ok, state), s).
     let r = r\<lparr>cr_view := cs_view s\<rparr> in
     if \<not> ok then Inr ((False, state), r)
     else connect_finish C E N D block fJustCheck pindex prev state s r)"

text \<open>
  For a block without transactions, which only the flag \<open>fChecked\<close> lets pass the check, the reservation
  for the undo data asks for a length that is too great; the exception \<open>out_of_range\<close> stands for it.
\<close>

definition ConnectBlock ::
  "'b CCoinsView \<Rightarrow> (CCoins \<Rightarrow> u64) \<Rightarrow> crypto \<Rightarrow> node_env \<Rightarrow> connect_env \<Rightarrow> disk_env \<Rightarrow> (uint256 \<Rightarrow> ptr option) \<Rightarrow> CBlock \<Rightarrow>
     CValidationState \<Rightarrow> ptr \<Rightarrow> heap \<Rightarrow> 'b CCoinsViewCache \<Rightarrow> VersionBitsCache \<Rightarrow> u32 list \<Rightarrow> bool \<Rightarrow>
     (cxx_exit + (bool \<times> CValidationState) \<times> 'b connect_result) option" where
  "ConnectBlock V usage C E N D mapBlockIndex block state pindex H view cache undoSizes fJustCheck =
     obind (Some (CheckBlock C E block state (\<not> fJustCheck) (\<not> fJustCheck))) (\<lambda>((ok, state), block, evs).
     let r = \<lparr>cr_view = view, cr_block = block, cr_heap = H, cr_cache = cache, cr_undoSizes = undoSizes, cr_events = map Node_event evs\<rparr> in
     if \<not> ok then Some (Inr ((False, state), r))
     else
       obind (Some (case pprev (H pindex) of None \<Rightarrow> Inr (blob_SetNull 32) | Some p \<Rightarrow> block_hash_of H p)) (\<lambda>hashPrevBlock.
       case Cache_GetBestBlock V view of
         (best, view) \<Rightarrow>
           if hashPrevBlock \<noteq> best then Some (Inl AssertFail)
           else if header_GetHash E (block_header block) = hashGenesisBlock (env_params E) then
             (if fJustCheck then Some (Inr ((True, state), r\<lparr>cr_view := view\<rparr>))
              else obind (Some (block_hash_of H pindex)) (\<lambda>h. Some (Inr ((True, state), r\<lparr>cr_view := SetBestBlock view h\<rparr>))))
           else
             obind (Some (script_checks_needed E H mapBlockIndex pindex)) (\<lambda>fScriptChecks.
             case pprev (H pindex) of
               None \<Rightarrow> Some (Inl Undefined)
             | Some prev \<Rightarrow>
                 obind (Some (enforce_BIP30 (env_params E) H pindex prev)) (\<lambda>fEnforceBIP30.
                 case (if fEnforceBIP30 then overwrites V usage C (vtx block) view else (False, view)) of
                   (True, view) \<Rightarrow> Some (Inr (DoS state 100 False REJECT_INVALID ''bad-txns-BIP30'' False, r\<lparr>cr_view := view\<rparr>))
                 | (False, view) \<Rightarrow>
                     obind (connect_rules (env_params E) H block pindex prev cache) (\<lambda>((fStrict, fl, lockFlags), cache).
                     if vtx block = [] then Some (Inl (Throw out_of_range))
                     else
                     let F = \<lparr>fScriptChecks = fScriptChecks, fStrictPayToScriptHash = fStrict, script_flags = fl,
                           lock_time_flags = lockFlags, just_check = fJustCheck\<rparr>;
                       s = \<lparr>cs_view = view, cs_nFees = 0, cs_nSigOps = 0, cs_checks = [], cs_undo = [], cs_entries = no_connect_entries,
                           cs_vPos = [], cs_nTxOffset = word_of_nat (GetSizeOfCompactSize (length (vtx block)))\<rparr> in
                     Some (connect_body V usage C E N D mapBlockIndex block fJustCheck pindex prev F state s (r\<lparr>cr_cache := cache\<rparr>)))))))"

subsection \<open>What is found when the routine goes on\<close>

lemma DoS_rejects [simp]: "DoS state n False code reason corr \<noteq> (True, state')" "(True, state') \<noteq> DoS state n False code reason corr"
  by (auto simp: DoS_def Let_def)

lemma Invalid_rejects [simp]: "Invalid state False code reason \<noteq> (True, state')" "(True, state') \<noteq> Invalid state False code reason"
  by (auto simp: Invalid_def)

text \<open>What comes before the checks of the scripts of a transaction, for an outcome that goes on to them.\<close>

definition inputs_read ::
  "'b CCoinsView \<Rightarrow> (CCoins \<Rightarrow> u64) \<Rightarrow> crypto \<Rightarrow> connect_env \<Rightarrow> connect_flags \<Rightarrow> heap \<Rightarrow> ptr \<Rightarrow> nat \<Rightarrow> CTransaction \<Rightarrow> 'b connect_state \<Rightarrow>
     connect_entries \<Rightarrow> nat \<Rightarrow> CAmount \<Rightarrow> 'b CCoinsViewCache \<Rightarrow> bool" where
  "inputs_read V usage C N F H pindex i tx s e sigops fees v5 \<longleftrightarrow>
     (\<exists>v1 hs v2 v3 n v4 vi vo. HaveInputs V usage (cs_view s) tx = (True, v1) \<and> prev_heights V usage (vin tx) v1 = Inr (hs, v2) \<and>
        SequenceLocks H tx (lock_time_flags F) hs pindex = Inr True \<and>
        (if ce_fAddressIndex N \<or> ce_fSpentIndex N then
           index_inputs V usage (ce_fAddressIndex N) (ce_fSpentIndex N) (nHeight (H pindex)) i (GetHash C tx) 0 (vin tx) (cs_entries s) v2
         else Inr (cs_entries s, v2)) = Inr (e, v3) \<and>
        (if fStrictPayToScriptHash F then GetP2SHSigOpCount V usage tx v3 else Inr (0, v3)) = Inr (n, v4) \<and>
        sigops = (cs_nSigOps s + n) mod 2 ^ 32 \<and> \<not> (fStrictPayToScriptHash F \<and> sigops > MAX_BLOCK_SIGOPS) \<and>
        GetValueIn V usage v4 tx = (Some vi, v5) \<and> value_exit (GetValueOut tx) = Inr vo \<and>
        in_int64 (vi - vo) \<and> fees = cs_nFees s + (vi - vo) \<and> in_int64 fees)"

lemma inputs_read_same [simp]:
  "inputs_read V usage C (N\<lparr>nScriptCheckThreads := n\<rparr>) F H pindex i tx s = inputs_read V usage C N F H pindex i tx s"
  "inputs_read V usage C N F H pindex i tx (s\<lparr>cs_checks := q\<rparr>) = inputs_read V usage C N F H pindex i tx s"
  by (intro ext; simp add: inputs_read_def)+

lemma connect_inputs_accepts:
  "connect_inputs V usage C N F H m pindex i tx state s = Inr ((True, state'), s') \<longleftrightarrow>
     (\<exists>e sigops fees v5 chks v6. inputs_read V usage C N F H pindex i tx s e sigops fees v5 \<and>
        CheckInputs V usage C H m tx state v5 (fScriptChecks F) (script_flags F) (just_check F) (nScriptCheckThreads N \<noteq> 0) =
          Inr ((True, state'), chks, v6) \<and>
        s' = s\<lparr>cs_view := v6, cs_nFees := fees, cs_nSigOps := sigops, cs_entries := e,
               cs_checks := (if fScriptChecks F \<and> nScriptCheckThreads N \<noteq> 0 then cs_checks s @ chks else cs_checks s)\<rparr>)"
  (is "?lhs \<longleftrightarrow> ?rhs")
proof
  assume ci: ?lhs
  obtain v1 where v1: "HaveInputs V usage (cs_view s) tx = (True, v1)"
    using ci by (auto simp: connect_inputs_def split: prod.splits bool.splits)
  obtain hs v2 where v2: "prev_heights V usage (vin tx) v1 = Inr (hs, v2)"
    using ci v1 by (auto simp: connect_inputs_def ebind_eq_Inr)
  have lock: "SequenceLocks H tx (lock_time_flags F) hs pindex = Inr True"
    using ci v1 v2 by (auto simp: connect_inputs_def ebind_eq_Inr split: if_splits)
  obtain e v3 where v3: "(if ce_fAddressIndex N \<or> ce_fSpentIndex N then
        index_inputs V usage (ce_fAddressIndex N) (ce_fSpentIndex N) (nHeight (H pindex)) i (GetHash C tx) 0 (vin tx) (cs_entries s) v2
      else Inr (cs_entries s, v2)) = Inr (e, v3)"
    using ci v1 v2 by (auto simp: connect_inputs_def ebind_eq_Inr split: if_splits)
  obtain n v4 where v4: "(if fStrictPayToScriptHash F then GetP2SHSigOpCount V usage tx v3 else Inr (0, v3)) = Inr (n, v4)"
    using ci v1 v2 v3 by (auto simp: connect_inputs_def ebind_eq_Inr split: if_splits)
  have ops: "\<not> (fStrictPayToScriptHash F \<and> (cs_nSigOps s + n) mod 2 ^ 32 > MAX_BLOCK_SIGOPS)"
    using ci v1 v2 lock v3 v4 by (auto simp: connect_inputs_def Let_def)
  obtain vi v5 where v5: "GetValueIn V usage v4 tx = (Some vi, v5)"
    using ci v1 v2 v3 v4 by (auto simp: connect_inputs_def ebind_eq_Inr Let_def split: if_splits prod.splits option.splits)
  obtain vo chks v6 where v6: "value_exit (GetValueOut tx) = Inr vo" "in_int64 (vi - vo)" "in_int64 (cs_nFees s + (vi - vo))"
      "CheckInputs V usage C H m tx state v5 (fScriptChecks F) (script_flags F) (just_check F) (nScriptCheckThreads N \<noteq> 0) =
        Inr ((True, state'), chks, v6)"
    using ci v1 v2 v3 v4 v5 by (auto simp: connect_inputs_def ebind_eq_Inr Let_def int64_op_def split: if_splits)
  have "s' = s\<lparr>cs_view := v6, cs_nFees := cs_nFees s + (vi - vo), cs_nSigOps := (cs_nSigOps s + n) mod 2 ^ 32, cs_entries := e,
      cs_checks := (if fScriptChecks F \<and> nScriptCheckThreads N \<noteq> 0 then cs_checks s @ chks else cs_checks s)\<rparr>"
    using ci v1 v2 lock v3 v4 ops v5 v6 by (auto simp: connect_inputs_def Let_def)
  moreover have "inputs_read V usage C N F H pindex i tx s e ((cs_nSigOps s + n) mod 2 ^ 32) (cs_nFees s + (vi - vo)) v5"
    unfolding inputs_read_def using v1 v2 lock v3 v4 ops v5 v6 by blast
  ultimately show ?rhs using v6(4) by blast
next
  assume ?rhs
  then obtain e sigops fees v5 chks v6 where r: "inputs_read V usage C N F H pindex i tx s e sigops fees v5"
      "CheckInputs V usage C H m tx state v5 (fScriptChecks F) (script_flags F) (just_check F) (nScriptCheckThreads N \<noteq> 0) =
          Inr ((True, state'), chks, v6)"
      "s' = s\<lparr>cs_view := v6, cs_nFees := fees, cs_nSigOps := sigops, cs_entries := e,
               cs_checks := (if fScriptChecks F \<and> nScriptCheckThreads N \<noteq> 0 then cs_checks s @ chks else cs_checks s)\<rparr>"
    by blast
  from r(1) show ?lhs unfolding inputs_read_def
    by (elim exE conjE) (use r(2,3) in \<open>auto simp: connect_inputs_def Let_def\<close>)
qed

definition tx_connected ::
  "crypto \<Rightarrow> connect_env \<Rightarrow> heap \<Rightarrow> ptr \<Rightarrow> nat \<Rightarrow> CTransaction \<Rightarrow> CTxUndo \<Rightarrow> 'b CCoinsViewCache \<Rightarrow> 'b connect_state \<Rightarrow> 'b connect_state" where
  "tx_connected C N H pindex i tx undo view s =
     (let s = (if ce_fAddressIndex N then
         s\<lparr>cs_entries := index_outputs (nHeight (H pindex)) i (GetHash C tx) 0 (vout tx) (cs_entries s)\<rparr> else s) in
      s\<lparr>cs_view := view, cs_undo := (if i > 0 then cs_undo s @ [undo] else cs_undo s),
        cs_vPos := cs_vPos s @ [(GetHash C tx, GetBlockPos (H pindex), cs_nTxOffset s)],
        cs_nTxOffset := cs_nTxOffset s + word_of_nat (length (Serialize_CTransaction tx))\<rparr>)"

lemma tx_connected_simps [simp]:
  "cs_view (tx_connected C N H pindex i tx undo view s) = view" "cs_nFees (tx_connected C N H pindex i tx undo view s) = cs_nFees s"
  "cs_checks (tx_connected C N H pindex i tx undo view s) = cs_checks s"
  "tx_connected C (N\<lparr>nScriptCheckThreads := n\<rparr>) H pindex i tx undo view s = tx_connected C N H pindex i tx undo view s"
  "tx_connected C N H pindex i tx undo view (s\<lparr>cs_checks := q\<rparr>) = (tx_connected C N H pindex i tx undo view s)\<lparr>cs_checks := q\<rparr>"
  by (simp_all add: tx_connected_def Let_def)

text \<open>One round of the loop that goes on.\<close>

definition tx_accepted ::
  "'b CCoinsView \<Rightarrow> (CCoins \<Rightarrow> u64) \<Rightarrow> crypto \<Rightarrow> connect_env \<Rightarrow> connect_flags \<Rightarrow> heap \<Rightarrow> (uint256 \<Rightarrow> ptr option) \<Rightarrow> ptr \<Rightarrow> nat \<Rightarrow>
     CTransaction \<Rightarrow> CValidationState \<Rightarrow> 'b connect_state \<Rightarrow> CValidationState \<Rightarrow> 'b connect_state \<Rightarrow> bool" where
  "tx_accepted V usage C N F H m pindex i tx state s state2 s2 \<longleftrightarrow>
     (\<exists>n. GetLegacySigOpCount tx = Inr n \<and> \<not> (cs_nSigOps s + n) mod 2 ^ 32 > MAX_BLOCK_SIGOPS \<and>
        (if IsCoinBase tx then state2 = state \<and> s2 = s\<lparr>cs_nSigOps := (cs_nSigOps s + n) mod 2 ^ 32\<rparr>
         else connect_inputs V usage C N F H m pindex i tx state (s\<lparr>cs_nSigOps := (cs_nSigOps s + n) mod 2 ^ 32\<rparr>) = Inr ((True, state2), s2)))"

lemma connect_loop_Cons:
  "connect_loop V usage C N F H m pindex i (tx # txs) state s = Inr ((True, state'), s') \<longleftrightarrow>
     (\<exists>state2 s2 undo view. tx_accepted V usage C N F H m pindex i tx state s state2 s2 \<and>
        UpdateCoins V usage C tx (cs_view s2) (nHeight (H pindex)) = Some (undo, view) \<and>
        connect_loop V usage C N F H m pindex (i + 1) txs state2 (tx_connected C N H pindex i tx undo view s2) = Inr ((True, state'), s'))"
proof -
  define sn where "sn n = s\<lparr>cs_nSigOps := (cs_nSigOps s + n) mod 2 ^ 32\<rparr>" for n
  define head where "head n = (if \<not> IsCoinBase tx then connect_inputs V usage C N F H m pindex i tx state (sn n) else Inr ((True, state), sn n))" for n
  define go where "go state2 s2 = (case UpdateCoins V usage C tx (cs_view s2) (nHeight (H pindex)) of None \<Rightarrow> Inl AssertFail
      | Some (undo, view) \<Rightarrow> connect_loop V usage C N F H m pindex (i + 1) txs state2 (tx_connected C N H pindex i tx undo view s2))" for state2 s2
  have loop: "connect_loop V usage C N F H m pindex i (tx # txs) state s = ebind (GetLegacySigOpCount tx) (\<lambda>n.
      if cs_nSigOps (sn n) > MAX_BLOCK_SIGOPS then Inr (DoS state 100 False REJECT_INVALID ''bad-blk-sigops'' False, sn n)
      else ebind (head n) (\<lambda>((ok, state), s). if \<not> ok then Inr ((False, state), s) else go state s))"
    by (simp add: sn_def head_def go_def tx_connected_def Let_def if_distrib [of cs_view] cong: if_cong option.case_cong)
  have acc: "tx_accepted V usage C N F H m pindex i tx state s state2 s2 \<longleftrightarrow>
      (\<exists>n. GetLegacySigOpCount tx = Inr n \<and> \<not> cs_nSigOps (sn n) > MAX_BLOCK_SIGOPS \<and> head n = Inr ((True, state2), s2))" for state2 s2
    unfolding tx_accepted_def head_def sn_def by (cases "IsCoinBase tx") auto
  have "go state2 s2 = Inr ((True, state'), s') \<longleftrightarrow> (\<exists>undo view. UpdateCoins V usage C tx (cs_view s2) (nHeight (H pindex)) = Some (undo, view) \<and>
        connect_loop V usage C N F H m pindex (i + 1) txs state2 (tx_connected C N H pindex i tx undo view s2) = Inr ((True, state'), s'))" for state2 s2
    by (auto simp: go_def split: option.splits)
  moreover have "connect_loop V usage C N F H m pindex i (tx # txs) state s = Inr ((True, state'), s') \<longleftrightarrow>
      (\<exists>n state2 s2. GetLegacySigOpCount tx = Inr n \<and> \<not> cs_nSigOps (sn n) > MAX_BLOCK_SIGOPS \<and> head n = Inr ((True, state2), s2) \<and>
        go state2 s2 = Inr ((True, state'), s'))"
    unfolding loop by (auto simp: ebind_eq_Inr split: if_splits)
  ultimately show ?thesis unfolding acc by blast
qed

subsection \<open>The end of the routine\<close>

lemma run_writes_keeps:
  "run_writes D ws state r = ((ok, state'), r') \<Longrightarrow> cr_view r' = cr_view r \<and> cr_heap r' = cr_heap r \<and> (ok \<longrightarrow> state' = state)"
  by (induction ws arbitrary: r) (auto simp: Error_def split: if_splits)

lemma FindUndoPos_accepts: "FindUndoPos space state file sizes n = Inr ((True, state'), x) \<Longrightarrow> state' = state"
  by (auto simp: FindUndoPos_def Let_def Error_def split: if_splits)

lemma RaiseValidity_keeps: "RaiseValidity b n = Inr (x, b') \<Longrightarrow> phashBlock b' = phashBlock b"
  by (auto simp: RaiseValidity_def split: if_splits)

lemma write_undo_keeps:
  assumes w: "write_undo C N D pindex prev undo state r = Inr ((True, state'), r')"
  shows "cr_view r' = cr_view r \<and> phashBlock (cr_heap r' p) = phashBlock (cr_heap r p) \<and> state' = state"
proof -
  let ?bi = "cr_heap r pindex"
  define missing where "missing = (fst (GetUndoPos ?bi) = -1)"
  define written where "written = (if missing then
     ebind (FindUndoPos (disk_space N) state (nFile ?bi) (cr_undoSizes r) (length (Serialize_CBlockUndo (ec_parse D) undo) + 40))
       (\<lambda>((ok, state), (file, pos), undoSizes).
     let r = r\<lparr>cr_undoSizes := undoSizes\<rparr> in
     if \<not> ok then Inr ((False, state), r)
     else
       ebind (block_hash_of (cr_heap r) prev) (\<lambda>h.
       case run_writes D [(Write_undo file pos (undo_record (ec_parse D) C (messageStart D) h undo), ''Failed to write undo data'')] state r of
         ((ok, state), r) \<Rightarrow>
           if \<not> ok then Inr ((False, state), r)
           else
             Inr ((True, state),
               r\<lparr>cr_heap := (cr_heap r)(pindex := (cr_heap r pindex)\<lparr>nUndoPos := pos + 8, nStatus := nStatus ?bi OR BLOCK_HAVE_UNDO\<rparr>)\<rparr>)))
   else Inr ((True, state), r))"
  obtain needed where n: "(if missing then Inr True else ebind (IsValid ?bi BLOCK_VALID_SCRIPTS) (\<lambda>v. Inr (\<not> v))) = Inr needed"
    using w unfolding write_undo_def Let_def missing_def [symmetric] by (auto simp only: ebind_eq_Inr)
  note step = w [unfolded write_undo_def Let_def missing_def [symmetric] n ebind_simps, folded written_def [unfolded Let_def]]
  show ?thesis
  proof (cases needed)
    case False
    then show ?thesis using step by simp
  next
    case True
    have after: "\<exists>x bi. RaiseValidity (cr_heap r1 pindex) BLOCK_VALID_SCRIPTS = Inr (x, bi) \<and> state' = st1 \<and>
        cr_view r' = cr_view r1 \<and> cr_heap r' = (cr_heap r1)(pindex := bi)" if "written = Inr ((True, st1), r1)" for st1 r1
      using step True that by (auto simp: ebind_eq_Inr)
    obtain st1 r1 where w1: "written = Inr ((True, st1), r1)"
      using step True by (auto simp: ebind_eq_Inr split: if_splits)
    have "cr_view r1 = cr_view r \<and> phashBlock (cr_heap r1 p) = phashBlock (cr_heap r p) \<and> st1 = state" for p
      using w1 by (auto simp: written_def ebind_eq_Inr Let_def Error_def split: if_splits dest: FindUndoPos_accepts)
    then show ?thesis using after [OF w1] RaiseValidity_keeps by fastforce
  qed
qed

lemma connect_finish_accepts:
  assumes "connect_finish C E N D block fJustCheck pindex prev state s r = Inr ((True, state'), r')"
  shows "state' = state \<and> run_checks C (cs_checks s) = Inr True \<and>
    (\<exists>reward. connect_reward (env_params E) (cr_heap r) prev (cs_nFees s) = Inr reward \<and>
       IsBlockValueValid (payments E) (vtx block ! 0) (nHeight (cr_heap r pindex)) reward = Inr True \<and>
       IsBlockPayeeValid (payments E) (vtx block ! 0) (nHeight (cr_heap r pindex)) reward = Inr True) \<and>
    (if fJustCheck then r' = r
     else block_hash_of (cr_heap r) pindex \<noteq> Inl Undefined \<and> cr_view r' = SetBestBlock (cr_view r) (phashBlock (cr_heap r pindex)))"
proof -
  let ?h = "nHeight (cr_heap r pindex)" let ?tx = "vtx block ! 0"
  obtain reward where r1: "connect_reward (env_params E) (cr_heap r) prev (cs_nFees s) = Inr reward"
    using assms by (auto simp: connect_finish_def ebind_eq_Inr Let_def)
  have r2: "IsBlockValueValid (payments E) ?tx ?h reward = Inr True"
    using assms r1 by (auto simp: connect_finish_def ebind_eq_Inr Let_def split: if_splits)
  have r3: "IsBlockPayeeValid (payments E) ?tx ?h reward = Inr True"
    using assms r1 r2 by (auto simp: connect_finish_def ebind_eq_Inr Let_def split: if_splits)
  have r4: "run_checks C (cs_checks s) = Inr True"
    using assms r1 r2 r3 by (auto simp: connect_finish_def ebind_eq_Inr Let_def split: if_splits)
  show ?thesis
  proof (cases fJustCheck)
    case True
    then show ?thesis using assms r1 r2 r3 r4 by (simp add: connect_finish_def Let_def)
  next
    case False
    obtain st1 r5 where w: "write_undo C N D pindex prev (cs_undo s) state r = Inr ((True, st1), r5)"
      using assms r1 r2 r3 r4 False by (auto simp: connect_finish_def ebind_eq_Inr Let_def split: if_splits)
    obtain st2 r6 where i: "run_writes D (index_writes N s) st1 r5 = ((True, st2), r6)"
      using assms r1 r2 r3 r4 False w by (auto simp: connect_finish_def ebind_eq_Inr Let_def split: if_splits prod.splits)
    obtain h where h: "block_hash_of (cr_heap r6) pindex = Inr h"
      using assms r1 r2 r3 r4 False w i by (auto simp: connect_finish_def ebind_eq_Inr Let_def split: if_splits prod.splits)
    define ws where "ws = (if ce_fTimestampIndex N then
        [(Write_TimestampIndex (nTime (cr_heap r6 pindex)) h, ''Failed to write timestamp index'')] else [])"
    obtain ok7 st7 r7 where t: "run_writes D ws st2 r6 = ((ok7, st7), r7)" by (metis prod.exhaust)
    have e: "ok7 \<and> st7 = state' \<and> r' = r7\<lparr>cr_view := SetBestBlock (cr_view r7) h\<rparr>"
      using assms r1 r2 r3 r4 False w i h t [unfolded ws_def] by (cases ok7) (simp_all add: connect_finish_def Let_def)
    note k = write_undo_keeps [OF w, of pindex] run_writes_keeps [OF i] run_writes_keeps [OF t]
    have "h = phashBlock (cr_heap r pindex)" "phashBlock (cr_heap r pindex) \<noteq> []"
      using h k by (auto simp: block_hash_of_def split: if_splits)
    then show ?thesis using r1 r2 r3 r4 False e k by (simp add: block_hash_of_def)
  qed
qed

text \<open>What the routine has found when it accepts a block that was not checked before.\<close>

lemma connect_reward_eq:
  "connect_reward params H prev nFees = Inr reward \<Longrightarrow>
     reward = nFees + GetBlockSubsidy (nHeight (H prev)) + (if nHeight (H prev) = nForkHeight params then 100000000 * COIN else 0)"
  by (auto simp: connect_reward_def ebind_eq_Inr int64_op_def split: if_splits)

lemma obind_eq_Inr: "obind m k = Some (Inr y) \<longleftrightarrow> (\<exists>x. m = Some (Inr x) \<and> k x = Some (Inr y))"
  by (auto simp: obind_def split: option.split sum.split)

lemma ConnectBlock_accepts:
  assumes con: "ConnectBlock V usage C E N D m block state pindex H view cache sizes fJustCheck = Some (Inr ((True, state'), r'))"
    and new: "\<not> fChecked block" and prev: "pprev (H pindex) = Some p"
  obtains best view1 where "Cache_GetBestBlock V view = (best, view1)" "block_hash_of H p = Inr best" "body_ok C E block"
      "header_GetHash E (block_header block) = hashGenesisBlock (env_params E)"
      "cr_view r' = (if fJustCheck then view1 else SetBestBlock view1 (phashBlock (H pindex)))"
  | best view1 enforce view2 F s1 r s block' where "Cache_GetBestBlock V view = (best, view1)" "block_hash_of H p = Inr best" "body_ok C E block"
      "enforce_BIP30 (env_params E) H pindex p = Inr enforce"
      "(if enforce then overwrites V usage C (vtx block) view1 else (False, view1)) = (False, view2)"
      "cs_view s1 = view2" "cs_nFees s1 = 0"
      "connect_loop V usage C N F H m pindex 0 (vtx block) state s1 = Inr ((True, state'), s)"
      "cr_view r = cs_view s" "cr_heap r = H" "vtx block' = vtx block"
      "connect_finish C E N D block' fJustCheck pindex p state' s r = Inr ((True, state'), r')"
proof -
  obtain st1 block' evs where c: "CheckBlock C E block state (\<not> fJustCheck) (\<not> fJustCheck) = Inr ((True, st1), block', evs)"
    using con by (auto simp: ConnectBlock_def obind_eq_Inr Let_def split: if_splits)
  note ok = c [unfolded CheckBlock_accepts [OF new]]
  obtain best view1 where g: "Cache_GetBestBlock V view = (best, view1)" by (rule prod.exhaust)
  have h: "block_hash_of H p = Inr best"
    using con c prev g by (auto simp: ConnectBlock_def obind_eq_Inr Let_def split: if_splits)
  have hdr: "block_header block' = block_header block" "vtx block' = vtx block" using ok by (auto simp: block_header_def)
  show thesis
  proof (cases "header_GetHash E (block_header block) = hashGenesisBlock (env_params E)")
    case True
    then have "cr_view r' = (if fJustCheck then view1 else SetBestBlock view1 (phashBlock (H pindex)))"
      using con c prev g h hdr by (auto simp: ConnectBlock_def obind_eq_Inr Let_def block_hash_of_def split: if_splits)
    then show thesis using that(1) g h ok True by blast
  next
    case False
    obtain scripts where s: "script_checks_needed E H m pindex = Inr scripts"
      using con c prev g h hdr False by (auto simp: ConnectBlock_def obind_eq_Inr Let_def split: if_splits)
    obtain enforce where e: "enforce_BIP30 (env_params E) H pindex p = Inr enforce"
      using con c prev g h hdr False s by (auto simp: ConnectBlock_def obind_eq_Inr Let_def split: if_splits)
    obtain ow view2 where ow: "(if enforce then overwrites V usage C (vtx block') view1 else (False, view1)) = (ow, view2)"
      by (rule prod.exhaust)
    have "\<not> ow"
      using con c prev g h hdr False s e ow by (cases ow) (auto simp: ConnectBlock_def obind_eq_Inr Let_def)
    then have o: "(if enforce then overwrites V usage C (vtx block) view1 else (False, view1)) = (False, view2)" using ow unfolding hdr(2) by simp
    obtain fStrict fl lockFlags cache1 where ru: "connect_rules (env_params E) H block' pindex p cache = Some (Inr ((fStrict, fl, lockFlags), cache1))"
      using con c prev g h hdr False s e ow \<open>\<not> ow\<close> by (auto simp: ConnectBlock_def obind_eq_Inr Let_def split: if_splits)
    have ne: "vtx block \<noteq> []" using ok by (simp add: body_ok_def)
    define F where "F = \<lparr>fScriptChecks = scripts, fStrictPayToScriptHash = fStrict, script_flags = fl,
       lock_time_flags = lockFlags, just_check = fJustCheck\<rparr>"
    define s1 where "s1 = \<lparr>cs_view = view2, cs_nFees = 0, cs_nSigOps = 0, cs_checks = [], cs_undo = [], cs_entries = no_connect_entries,
       cs_vPos = [], cs_nTxOffset = word_of_nat (GetSizeOfCompactSize (length (vtx block)))\<rparr>"
    define r0 where "r0 = \<lparr>cr_view = view, cr_block = block', cr_heap = H, cr_cache = cache1, cr_undoSizes = sizes, cr_events = map Node_event evs\<rparr>"
    have rest: "connect_body V usage C E N D m block' fJustCheck pindex p F st1 s1 r0 = Inr ((True, state'), r')"
      using con c prev g h hdr False s e ow \<open>\<not> ow\<close> ru ne by (simp add: ConnectBlock_def obind_def F_def s1_def r0_def Let_def)
    obtain st2 s where l: "connect_loop V usage C N F H m pindex 0 (vtx block) st1 s1 = Inr ((True, st2), s)"
      using rest by (auto simp: connect_body_def ebind_eq_Inr hdr(2) r0_def Let_def split: if_splits)
    define r where "r = r0\<lparr>cr_view := cs_view s\<rparr>"
    have f: "connect_finish C E N D block' fJustCheck pindex p st2 s r = Inr ((True, state'), r')"
      using rest l by (simp add: connect_body_def hdr(2) r_def r0_def)
    have st: "st1 = state" "state' = st2" using ok connect_finish_accepts [OF f] by simp_all
    show thesis
      by (rule that(2) [OF g h _ e o _ _ l [unfolded st(1), folded st(2)] _ _ hdr(2) f [folded st(2)]])
        (use ok in \<open>simp_all add: s1_def r_def r0_def\<close>)
  qed
qed

end
