(* ===== verification/ConnectSupply.thy ===== *)
theory ConnectSupply
  imports ConnectBlock
begin

text \<open>
  Connecting a block creates no money: the supply of theory Supply, for the coins that the view stands for
  before and after \<open>ConnectBlock\<close>.
\<close>

unbundle bit_operations_syntax

subsection \<open>What only reads\<close>

definition same_coins :: "('b \<Rightarrow> coins_map) \<Rightarrow> ('b \<Rightarrow> bool) \<Rightarrow> 'b CCoinsViewCache \<Rightarrow> 'b CCoinsViewCache \<Rightarrow> bool" where
  "same_coins amap vinv s s' \<longleftrightarrow> (cache_inv amap vinv s \<longrightarrow>
     cache_inv amap vinv s' \<and> cache_abs amap s' = cache_abs amap s \<and> amap (base s') = amap (base s))"

lemma same_coins_refl [simp]: "same_coins amap vinv s s"
  by (simp add: same_coins_def)

lemma same_coins_trans [trans]: "same_coins amap vinv s s1 \<Longrightarrow> same_coins amap vinv s1 s2 \<Longrightarrow> same_coins amap vinv s s2"
  by (simp add: same_coins_def)

lemma same_coinsD:
  "same_coins amap vinv s s' \<Longrightarrow> cache_inv amap vinv s \<Longrightarrow>
     cache_inv amap vinv s' \<and> cache_abs amap s' = cache_abs amap s \<and> amap (base s') = amap (base s)"
  by (simp add: same_coins_def)

context coins_view
begin

lemma AccessCoins_same: "AccessCoins V usage s k = (r, s') \<Longrightarrow> same_coins amap vinv s s'"
  using AccessCoins_spec AccessCoins_base unfolding same_coins_def by blast

lemma GetOutputFor_same: "GetOutputFor V usage s txin = (r, s') \<Longrightarrow> same_coins amap vinv s s'"
  by (auto simp: GetOutputFor_def split: prod.splits option.splits if_splits dest: AccessCoins_same)

lemma HaveInputs_loop_same: "HaveInputs_loop V usage ins s = (r, s') \<Longrightarrow> same_coins amap vinv s s'"
  by (induction ins arbitrary: s)
    (auto split: prod.splits option.splits if_splits dest: AccessCoins_same intro: same_coins_trans)

lemma HaveInputs_same: "HaveInputs V usage s tx = (r, s') \<Longrightarrow> same_coins amap vinv s s'"
  by (auto simp: HaveInputs_def split: if_splits dest: HaveInputs_loop_same)

lemma prev_heights_same: "prev_heights V usage ins s = Inr (hs, s') \<Longrightarrow> same_coins amap vinv s s'"
  by (induction ins arbitrary: s hs)
    (auto simp: ebind_eq_Inr split: prod.splits option.splits dest: AccessCoins_same intro: same_coins_trans)

lemma index_inputs_same: "index_inputs V usage fA fS height i h j ins e s = Inr (e', s') \<Longrightarrow> same_coins amap vinv s s'"
  by (induction ins arbitrary: s e j)
    (auto split: prod.splits option.splits dest: GetOutputFor_same intro: same_coins_trans)

lemma P2SH_sigops_loop_same: "P2SH_sigops_loop V usage ins n s = Inr (n', s') \<Longrightarrow> same_coins amap vinv s s'"
  by (induction ins arbitrary: s n)
    (auto simp: ebind_eq_Inr split: prod.splits option.splits if_splits dest: GetOutputFor_same intro: same_coins_trans)

lemma GetP2SHSigOpCount_same: "GetP2SHSigOpCount V usage tx s = Inr (n, s') \<Longrightarrow> same_coins amap vinv s s'"
  by (auto simp: GetP2SHSigOpCount_def split: if_splits dest: P2SH_sigops_loop_same)

lemma GetBestBlock_same: "Cache_GetBestBlock V s = (h, s') \<Longrightarrow> same_coins amap vinv s s'"
proof -
  assume g: "Cache_GetBestBlock V s = (h, s')"
  then have "amap (base s') = amap (base s)" if "cache_inv amap vinv s"
    using get_best [of "base s"] that by (auto simp: Cache_GetBestBlock_def cache_inv_def split: if_splits prod.splits)
  then show ?thesis using Cache_GetBestBlock_spec [OF _ g] by (simp add: same_coins_def)
qed

lemma GetSpendHeight_same: "GetSpendHeight V H m s = Inr (h, s') \<Longrightarrow> same_coins amap vinv s s'"
  by (auto simp: GetSpendHeight_def split: prod.splits option.splits dest: GetBestBlock_same)

lemma GetValueIn_loop_spec:
  "GetValueIn_loop V usage ins acc s = (r, s') \<Longrightarrow> same_coins amap vinv s s' \<and>
     (\<forall>v. cache_inv amap vinv s \<and> r = Some v \<longrightarrow> v = acc + sum_list (map (spent_value (cache_abs amap s)) ins))"
proof (induction ins arbitrary: s acc)
  case (Cons txin ins)
  obtain ro s1 where g: "GetOutputFor V usage s txin = (ro, s1)" by (rule prod.exhaust)
  note same = GetOutputFor_same [OF g]
  show ?case
  proof (cases "\<exists>out. ro = Some out \<and> in_int64 (acc + nValue out)")
    case False
    then have "r = None" "s' = s1" using Cons.prems g by (auto split: option.splits if_splits)
    then show ?thesis using same by simp
  next
    case True
    then obtain out where o: "ro = Some out" "GetValueIn_loop V usage ins (acc + nValue out) s1 = (r, s')"
      using Cons.prems g by auto
    have "nValue out = spent_value (cache_abs amap s) txin" if inv: "cache_inv amap vinv s"
    proof -
      obtain c where a: "AccessCoins V usage s (op_hash (prevout txin)) = (Some c, s1)"
          "IsAvailable c (unat (op_n (prevout txin)))" "out = c_vout c ! unat (op_n (prevout txin))"
        using g o(1) by (auto simp: GetOutputFor_def split: prod.splits option.splits if_splits)
      have "\<not> IsPruned c" using a(2) by (auto simp: IsAvailable_def IsPruned_def list_all_length)
      then have "cache_abs amap s (op_hash (prevout txin)) = Some c" using AccessCoins_spec [OF inv a(1)] by simp
      then show ?thesis using a(3) by (simp add: spent_value_def)
    qed
    then show ?thesis using Cons.IH [OF o(2)] same same_coins_trans [OF same] same_coinsD [OF same] by auto
  qed
qed auto

lemma check_scripts_same:
  "check_scripts V usage C tx fl cs pv i ins chks state s = Inr ((ok, state'), chks', s') \<Longrightarrow>
     same_coins amap vinv s s' \<and> (ok \<longrightarrow> state' = state)"
proof (induction ins arbitrary: i chks s)
  case (Cons txin ins)
  obtain r s1 where a: "AccessCoins V usage s (op_hash (prevout txin)) = (r, s1)" by (rule prod.exhaust)
  note same = AccessCoins_same [OF a]
  show ?case
  proof (cases "\<exists>chks i. check_scripts V usage C tx fl cs pv i ins chks state s1 = Inr ((ok, state'), chks', s')")
    case True
    then show ?thesis using Cons.IH same_coins_trans [OF same] by blast
  next
    case False
    then have "s' = s1 \<and> \<not> ok" using Cons.prems a
      by (auto simp: ebind_eq_Inr split: option.splits if_splits)
    then show ?thesis using same by simp
  qed
qed simp

lemma CheckInputs_spec:
  assumes ci: "CheckInputs V usage C H m tx state s scripts fl cs pv = Inr ((ok, state'), chks, s')" and nc: "\<not> IsCoinBase tx"
    and inv: "cache_inv amap vinv s"
  shows "same_coins amap vinv s s' \<and>
    (ok \<longrightarrow> state' = state \<and> (\<forall>out \<in> set (vout tx). 0 \<le> nValue out) \<and> GetValueOut tx = Inr (sum_list (map nValue (vout tx))) \<and>
      (\<forall>txin \<in> set (vin tx). available_in (cache_abs amap s) txin))"
proof -
  obtain h s1 where g: "GetSpendHeight V H m s = Inr (h, s1)"
    using ci nc by (auto simp: CheckInputs_def ebind_eq_Inr)
  note same1 = GetSpendHeight_same [OF g] and s1 = same_coinsD [OF GetSpendHeight_same [OF g] inv]
  obtain ok2 st2 s2 where t: "CheckTxInputs V usage tx state s1 h = Inr ((ok2, st2), s2)"
    using ci nc g by (auto simp: CheckInputs_def ebind_eq_Inr)
  note tx = CheckTxInputs_spec [OF conjunct1 [OF s1] nc t]
  then have same2: "same_coins amap vinv s s2" using s1 by (simp add: same_coins_def)
  show ?thesis
  proof (cases "ok2 \<and> scripts")
    case True
    then have "check_scripts V usage C tx fl cs pv 0 (vin tx) [] st2 s2 = Inr ((ok, state'), chks, s')"
      using ci nc g t by (simp add: CheckInputs_def)
    note c = check_scripts_same [OF this]
    then show ?thesis using tx s1 True same_coins_trans [OF same2] by auto
  next
    case False
    then have "s' = s2 \<and> ok = ok2 \<and> state' = st2" using ci nc g t by (auto simp: CheckInputs_def split: if_splits)
    then show ?thesis using tx s1 same2 by auto
  qed
qed

end

subsection \<open>The supply in the loop\<close>

context coins_view
begin

lemma connect_inputs_spec:
  assumes ci: "connect_inputs V usage C N F H m pindex i tx state s = Inr ((True, state'), s')" and nc: "\<not> IsCoinBase tx"
    and inv: "cache_inv amap vinv (cs_view s)"
  shows "state' = state \<and> same_coins amap vinv (cs_view s) (cs_view s') \<and> (\<forall>out \<in> set (vout tx). 0 \<le> nValue out) \<and>
    cs_nFees s' = cs_nFees s + sum_list (map (spent_value (cache_abs amap (cs_view s))) (vin tx)) - sum_list (map nValue (vout tx))"
proof -
  obtain e sigops fees v5 chks v6 where r: "inputs_read V usage C N F H pindex i tx s e sigops fees v5"
      "CheckInputs V usage C H m tx state v5 (fScriptChecks F) (script_flags F) (just_check F) (nScriptCheckThreads N \<noteq> 0) =
        Inr ((True, state'), chks, v6)" "cs_view s' = v6" "cs_nFees s' = fees"
    using ci unfolding connect_inputs_accepts by auto
  obtain v1 hs v2 v3 n v4 vi vo where d: "HaveInputs V usage (cs_view s) tx = (True, v1)" "prev_heights V usage (vin tx) v1 = Inr (hs, v2)"
      "(if ce_fAddressIndex N \<or> ce_fSpentIndex N then
         index_inputs V usage (ce_fAddressIndex N) (ce_fSpentIndex N) (nHeight (H pindex)) i (GetHash C tx) 0 (vin tx) (cs_entries s) v2
       else Inr (cs_entries s, v2)) = Inr (e, v3)"
      "(if fStrictPayToScriptHash F then GetP2SHSigOpCount V usage tx v3 else Inr (0, v3)) = Inr (n, v4)"
      "GetValueIn V usage v4 tx = (Some vi, v5)" "value_exit (GetValueOut tx) = Inr vo" "fees = cs_nFees s + (vi - vo)"
    using r(1) unfolding inputs_read_def by blast
  have same1: "same_coins amap vinv (cs_view s) v1" by (rule HaveInputs_same [OF d(1)])
  have same2: "same_coins amap vinv v1 v2" by (rule prev_heights_same [OF d(2)])
  have same3: "same_coins amap vinv v2 v3" using d(3) by (auto split: if_splits dest: index_inputs_same)
  have same4: "same_coins amap vinv v3 v4" using d(4) by (auto split: if_splits dest: GetP2SHSigOpCount_same)
  have same: "same_coins amap vinv (cs_view s) v4" using same1 same2 same3 same4 same_coins_trans by blast
  note s4 = same_coinsD [OF same inv]
  have g: "GetValueIn_loop V usage (vin tx) 0 v4 = (Some vi, v5)" using d(5) nc by (simp add: GetValueIn_def)
  note gs = GetValueIn_loop_spec [OF g]
  have s5: "cache_inv amap vinv v5" using gs s4 by (simp add: same_coins_def)
  note c = CheckInputs_spec [OF r(2) nc s5]
  have "vo = sum_list (map nValue (vout tx))" using c d(6) by (simp add: value_exit_def)
  moreover have "vi = sum_list (map (spent_value (cache_abs amap (cs_view s))) (vin tx))" using gs s4 by auto
  moreover have "same_coins amap vinv (cs_view s) v6" using same gs c same_coins_trans by blast
  ultimately show ?thesis using c r(3,4) d(7) by simp
qed

text \<open>The coins of a transaction come and its inputs go.\<close>

lemma UpdateCoins_value:
  assumes inv: "cache_inv amap vinv s" and fin: "finite (dom (cache_abs amap s))"
    and up: "UpdateCoins V usage C tx s height = Some (undos, s1)"
    and new: "cache_abs amap s (GetHash C tx) = None" "amap (base s) (GetHash C tx) = None"
    and outs: "\<forall>out \<in> set (vout tx). 0 \<le> nValue out"
  shows "cache_inv amap vinv s1 \<and> amap (base s1) = amap (base s) \<and> finite (dom (cache_abs amap s1)) \<and>
    (\<forall>k. cache_abs amap s k = None \<and> k \<noteq> GetHash C tx \<longrightarrow> cache_abs amap s1 k = None) \<and>
    coin_supply (cache_abs amap s1) \<le> coin_supply (cache_abs amap s) + sum_list (map nValue (vout tx)) -
      (if IsCoinBase tx then 0 else sum_list (map (spent_value (cache_abs amap s)) (vin tx)))"
proof -
  let ?h = "GetHash C tx" let ?K = "CCoins_of tx height"
  obtain s0 where s0: "amap (base s0) = amap (base s)" "finite (dom (cache_abs amap s0))"
      "\<forall>k. cache_abs amap s k = None \<longrightarrow> cache_abs amap s0 k = None"
      "coin_supply (cache_abs amap s0) = coin_supply (cache_abs amap s) -
        (if IsCoinBase tx then 0 else sum_list (map (spent_value (cache_abs amap s)) (vin tx)))"
      "cache_inv amap vinv s1" "cache_abs amap s1 = (cache_abs amap s0)(?h := unpruned ?K)" "amap (base s1) = amap (base s0)"
  proof (cases "IsCoinBase tx")
    case True
    obtain r s' where m: "modifying usage (\<lambda>c. ((), FromTx c tx height)) (ModifyCoins V usage s ?h) = (r, s')" by (rule prod.exhaust)
    have "s1 = s'" using up True m by (auto simp: UpdateCoins_def)
    then show thesis using that [of s] modifying_ModifyCoins [OF inv m] fin True by (auto simp: FromTx_eq)
  next
    case False
    obtain s0 where ins: "UpdateCoins_inputs V usage (vin tx) s = Some (undos, s0)"
        and s1: "s1 = snd (modifying usage (\<lambda>c. ((), FromTx c tx height)) (ModifyNewCoins s0 ?h))"
      using up False by (auto simp: UpdateCoins_def split: option.splits)
    note sp = UpdateCoins_inputs_value [OF inv fin ins]
    obtain r s' where m: "modifying usage (\<lambda>c. ((), FromTx c tx height)) (ModifyNewCoins s0 ?h) = (r, s')" by (rule prod.exhaust)
    have b: "cache_inv amap vinv s0" "amap (base s0) ?h = None" using sp new(2) by simp_all
    have "s1 = s'" using s1 m by simp
    then show thesis using that [of s0] sp modifying_ModifyNewCoins [OF b(1) m b(2)] False by (simp add: FromTx_eq)
  qed
  have "cache_abs amap s0 ?h = None" using s0(3) new(1) by blast
  then have "coin_supply (cache_abs amap s1) = coin_supply (cache_abs amap s0) + coins_value ?K"
    using coin_supply_update [OF s0(2), of ?h "unpruned ?K"] by (simp add: s0(6))
  moreover have "finite (dom (cache_abs amap s1))"
    using s0(2) finite_subset [of "dom (cache_abs amap s1)" "insert ?h (dom (cache_abs amap s0))"] by (auto simp: s0(6) split: if_splits)
  ultimately show ?thesis using s0 coins_value_CCoins_of [OF outs, of height] by auto
qed

lemma connect_loop_spec:
  assumes "connect_loop V usage C N F H m pindex i txs state s = Inr ((True, state'), s')"
    and "cache_inv amap vinv (cs_view s)" "finite (dom (cache_abs amap (cs_view s)))" "distinct (map (GetHash C) txs)"
    and "\<forall>tx \<in> set txs. cache_abs amap (cs_view s) (GetHash C tx) = None \<and> amap (base (cs_view s)) (GetHash C tx) = None"
    and "\<forall>tx \<in> set txs. IsCoinBase tx \<longrightarrow> (\<forall>out \<in> set (vout tx). 0 \<le> nValue out)"
  shows "state' = state \<and> cache_inv amap vinv (cs_view s') \<and>
    coin_supply (cache_abs amap (cs_view s')) + cs_nFees s' \<le> coin_supply (cache_abs amap (cs_view s)) + cs_nFees s +
      sum_list (map (\<lambda>tx. if IsCoinBase tx then sum_list (map nValue (vout tx)) else 0) txs)"
  using assms
proof (induction txs arbitrary: i s)
  case (Cons tx txs)
  obtain st2 s2 u v where st: "tx_accepted V usage C N F H m pindex i tx state s st2 s2"
      "UpdateCoins V usage C tx (cs_view s2) (nHeight (H pindex)) = Some (u, v)"
      "connect_loop V usage C N F H m pindex (i + 1) txs st2 (tx_connected C N H pindex i tx u v s2) = Inr ((True, state'), s')"
    using Cons.prems(1) unfolding connect_loop_Cons by blast
  define s4 where "s4 = tx_connected C N H pindex i tx u v s2"
  have s4: "cs_view s4 = v" "cs_nFees s4 = cs_nFees s2" "connect_loop V usage C N F H m pindex (i + 1) txs st2 s4 = Inr ((True, state'), s')"
    using st(3) by (simp_all add: s4_def)
  let ?in = "if IsCoinBase tx then 0 else sum_list (map (spent_value (cache_abs amap (cs_view s))) (vin tx))"
  have c2: "st2 = state \<and> same_coins amap vinv (cs_view s) (cs_view s2) \<and> (\<forall>out \<in> set (vout tx). 0 \<le> nValue out) \<and>
      cs_nFees s2 = cs_nFees s + ?in - (if IsCoinBase tx then 0 else sum_list (map nValue (vout tx)))"
  proof (cases "IsCoinBase tx")
    case True
    then show ?thesis using st(1) Cons.prems(6) by (auto simp: tx_accepted_def)
  next
    case False
    then obtain k where ci: "connect_inputs V usage C N F H m pindex i tx state (s\<lparr>cs_nSigOps := k\<rparr>) = Inr ((True, st2), s2)"
      using st(1) by (auto simp: tx_accepted_def)
    have "cache_inv amap vinv (cs_view (s\<lparr>cs_nSigOps := k\<rparr>))" using Cons.prems(2) by simp
    from connect_inputs_spec [OF ci False this] show ?thesis using False by simp
  qed
  have view3: "cache_inv amap vinv (cs_view s2)" "cache_abs amap (cs_view s2) = cache_abs amap (cs_view s)"
      "amap (base (cs_view s2)) = amap (base (cs_view s))"
    using c2 Cons.prems(2) by (simp_all add: same_coins_def)
  have fin: "finite (dom (cache_abs amap (cs_view s2)))" using Cons.prems(3) by (simp add: view3)
  have new: "cache_abs amap (cs_view s2) (GetHash C tx) = None" "amap (base (cs_view s2)) (GetHash C tx) = None"
    using Cons.prems(5) by (simp_all add: view3)
  note up = UpdateCoins_value [OF view3(1) fin st(2) new, unfolded view3(2,3)]
  have outs: "\<forall>out \<in> set (vout tx). 0 \<le> nValue out" using c2 by blast
  have fresh: "\<forall>t \<in> set txs. cache_abs amap (cs_view s4) (GetHash C t) = None \<and> amap (base (cs_view s4)) (GetHash C t) = None"
  proof
    fix t assume "t \<in> set txs"
    moreover have "GetHash C tx \<notin> GetHash C ` set txs" using Cons.prems(4) by simp
    ultimately have "GetHash C t \<noteq> GetHash C tx" by (metis imageI)
    then show "cache_abs amap (cs_view s4) (GetHash C t) = None \<and> amap (base (cs_view s4)) (GetHash C t) = None"
      using up [OF outs] Cons.prems(5) \<open>t \<in> set txs\<close> by (simp add: s4(1))
  qed
  have s4': "cache_inv amap vinv (cs_view s4)" "finite (dom (cache_abs amap (cs_view s4)))" using up [OF outs] by (simp_all add: s4(1))
  have st2: "st2 = state" using c2 by blast
  have ih: "state' = state \<and> cache_inv amap vinv (cs_view s') \<and>
    coin_supply (cache_abs amap (cs_view s')) + cs_nFees s' \<le> coin_supply (cache_abs amap (cs_view s4)) + cs_nFees s4 +
      sum_list (map (\<lambda>tx. if IsCoinBase tx then sum_list (map nValue (vout tx)) else 0) txs)"
    by (rule Cons.IH [OF s4(3) [unfolded st2] s4' _ fresh]) (use Cons.prems(4,6) in simp_all)
  show ?case using ih up [OF outs] c2 s4(1,2) by (cases "IsCoinBase tx") simp_all
qed simp

end

subsection \<open>The value of the coinbase\<close>

text \<open>What a superblock may pay on top of the reward.\<close>

definition superblock_allowance :: "Params \<Rightarrow> int \<Rightarrow> CAmount" where
  "superblock_allowance params height = (case GetPaymentsLimit params height of Inr limit \<Rightarrow> max 0 limit | Inl e \<Rightarrow> 0)"

text \<open>
  Below the first superblock, in the window of budgets, a node that is not synchronised, and one for which
  the old superblock flag is on, take any value.
\<close>

definition value_is_checked :: "payment_env \<Rightarrow> int \<Rightarrow> bool" where
  "value_is_checked P height \<longleftrightarrow> height \<ge> nSuperblockStartBlock (pay_params P) \<or> \<not> in_budget_window (pay_params P) height \<or>
     IsSynced P \<and> \<not> IsSporkActive P SPORK_13_OLD_SUPERBLOCK_FLAG"

lemma value_exit_GetValueOut: "value_exit (GetValueOut tx) = Inr v \<Longrightarrow> v = sum_list (map nValue (vout tx))"
proof -
  assume "value_exit (GetValueOut tx) = Inr v"
  then have "GetValueOut tx = Inr v" by (auto simp: value_exit_def split: sum.splits value_exn.splits)
  then show ?thesis using GetValueOut_loop_eq [of 0 "vout tx" v] by (simp add: GetValueOut_def int_ranges)
qed

lemma SuperblockManager_bound:
  assumes "SuperblockManager_IsValid params trigs tx height reward = Inr True"
  shows "sum_list (map nValue (vout tx)) \<le> reward + superblock_allowance params height"
proof -
  obtain sb where "Superblock_IsValid params sb tx height reward = Inr True"
    using assms by (auto simp: SuperblockManager_IsValid_def split: option.splits)
  then obtain a limit v where "GetPaymentsLimit params height = Inr limit" "a \<le> limit" "value_exit (GetValueOut tx) = Inr v" "v \<le> reward + a"
    by (auto simp: Superblock_IsValid_def ebind_eq_Inr int64_op_def not_less split: if_splits)
  then show ?thesis using value_exit_GetValueOut [of tx v] by (simp add: superblock_allowance_def)
qed

lemma IsBlockValueValid_bound:
  assumes ok: "IsBlockValueValid P tx height reward = Inr True" and ch: "value_is_checked P height"
  shows "sum_list (map nValue (vout tx)) \<le> reward + superblock_allowance (pay_params P) height"
proof -
  obtain v where v: "value_exit (GetValueOut tx) = Inr v" using ok by (auto simp: IsBlockValueValid_def ebind_eq_Inr)
  have pos: "0 \<le> superblock_allowance (pay_params P) height" by (simp add: superblock_allowance_def split: sum.split)
  consider (reward) "v \<le> reward" | (super) limit where "GetPaymentsLimit (pay_params P) height = Inr limit" "v \<le> reward + limit"
    | (trigger) "SuperblockManager_IsValid (pay_params P) (triggers P) tx height reward = Inr True"
    using ok ch v by (auto simp: IsBlockValueValid_def value_is_checked_def ebind_eq_Inr Let_def int64_op_def split: if_splits)
  then show ?thesis
  proof cases
    case reward
    then show ?thesis using value_exit_GetValueOut [OF v] pos by simp
  next
    case super
    then show ?thesis using value_exit_GetValueOut [OF v] by (simp add: superblock_allowance_def)
  next
    case trigger
    then show ?thesis by (rule SuperblockManager_bound)
  qed
qed

subsection \<open>Properties\<close>

text \<open>C1: A block that ConnectBlock accepts over the tip creates no more than it may: the sum of the values of
  all unspent outputs, as the view has them afterwards, is at most the sum before plus the subsidy of the block,
  the premium of the block after the fork, and what a superblock at this height may pay. The block is one
  that was not checked before, whose transactions have distinct hashes; where the check of BIP30 is not
  enforced, none of them is in the coins already; and the height is not one at which the node takes any
  value for the coinbase (below the first superblock, in a window of budgets, without the data to judge).\<close>

theorem ConnectBlock_no_inflation:
  assumes tip: "cache_inv (db_map ec) (db_inv ec) tip" "finite (dom (cache_abs (db_map ec) tip))"
    and block: "\<not> fChecked block" "distinct (map (GetHash C) (vtx block))" "pprev (H pindex) = Some p"
    and bip30: "enforce_BIP30 (env_params E) H pindex p = Inr False \<Longrightarrow>
      \<forall>tx \<in> set (vtx block). cache_abs (db_map ec) tip (GetHash C tx) = None"
    and checked: "value_is_checked (payments E) (nHeight (H pindex))"
    and connect: "ConnectBlock (tip_view ec usage) usage C E N D m block state pindex H (CCoinsViewCache_init tip) cache sizes fJustCheck =
      Some (Inr ((True, state'), r))"
  shows "coin_supply (cache_abs (cache_abs (db_map ec)) (cr_view r)) \<le> coin_supply (cache_abs (db_map ec) tip) +
      GetBlockSubsidy (nHeight (H p)) + (if nHeight (H p) = nForkHeight (env_params E) then 100000000 * COIN else 0) +
      superblock_allowance (env_params E) (nHeight (H pindex))"
proof -
  let ?V = "tip_view ec usage" let ?M = "cache_abs (db_map ec)" let ?I = "cache_inv (db_map ec) (db_inv ec)"
  have init: "cache_inv ?M ?I (CCoinsViewCache_init tip)" "cache_abs ?M (CCoinsViewCache_init tip) = ?M tip"
      "?M (base (CCoinsViewCache_init tip)) = ?M tip"
    using tip(1) by (simp_all add: cache_inv_def [of ?M] cache_abs_def [of ?M] CCoinsViewCache_init_def)
  have pos: "0 \<le> GetBlockSubsidy (nHeight (H p))" "0 \<le> superblock_allowance (env_params E) (nHeight (H pindex))"
    by (simp_all add: GetBlockSubsidy_def superblock_allowance_def split: sum.split)
  show ?thesis
  proof (rule ConnectBlock_accepts [OF connect block(1,3)], goal_cases)
    case (1 best view1)
    then have "cache_abs ?M (cr_view r) = ?M tip"
      using coins_tip.GetBestBlock_same [OF 1(1)] init by (simp add: same_coins_def SetBestBlock_map)
    then show ?thesis using pos by simp
  next
    case (2 best view1 enforce view2 F s1 r0 s block')
    have v1: "cache_inv ?M ?I view1" "cache_abs ?M view1 = ?M tip" "?M (base view1) = ?M tip"
      using coins_tip.GetBestBlock_same [OF 2(1)] init by (simp_all add: same_coins_def)
    have v2: "cache_inv ?M ?I view2 \<and> cache_abs ?M view2 = ?M tip \<and> ?M (base view2) = ?M tip \<and>
        (\<forall>tx \<in> set (vtx block). ?M tip (GetHash C tx) = None)"
    proof (cases enforce)
      case True
      then have "overwrites ?V usage C (vtx block) view1 = (False, view2)" using 2(5) by simp
      from coins_tip.overwrites_False [OF v1(1) this] show ?thesis using v1 by simp
    next
      case False
      then show ?thesis using 2(4,5) v1 bip30 by simp
    qed
    have body: "\<forall>tx \<in> set (vtx block). IsCoinBase tx \<longrightarrow> (\<forall>out \<in> set (vout tx). 0 \<le> nValue out)"
      using 2(3) by (simp add: body_ok_def tx_ok_def)
    have l: "coin_supply (cache_abs ?M (cs_view s)) + cs_nFees s \<le> coin_supply (cache_abs ?M (cs_view s1)) + cs_nFees s1 +
        sum_list (map (\<lambda>tx. if IsCoinBase tx then sum_list (map nValue (vout tx)) else 0) (vtx block))"
      using coins_tip.connect_loop_spec [OF 2(8)] v2 tip(2) block(2) body by (simp add: 2(6))
    obtain cb txs where vtx: "vtx block = cb # txs" "IsCoinBase cb" "\<forall>tx \<in> set txs. \<not> IsCoinBase tx"
      using 2(3) by (cases "vtx block") (auto simp: body_ok_def)
    have "sum_list (map (\<lambda>tx. if IsCoinBase tx then sum_list (map nValue (vout tx)) else 0) txs) = 0"
      using vtx(3) by (induction txs) simp_all
    then have l2: "coin_supply (cache_abs ?M (cs_view s)) + cs_nFees s \<le> coin_supply (?M tip) + sum_list (map nValue (vout cb))"
      using l v2 by (simp add: vtx 2(6,7))
    obtain reward where rw: "connect_reward (env_params E) H p (cs_nFees s) = Inr reward"
        "IsBlockValueValid (payments E) cb (nHeight (H pindex)) reward = Inr True"
        "if fJustCheck then r = r0 else cr_view r = SetBestBlock (cr_view r0) (phashBlock (H pindex))"
      using connect_finish_accepts [OF 2(12)] by (auto simp: 2(10,11) vtx(1) split: if_splits)
    have "cache_abs ?M (cr_view r) = cache_abs ?M (cs_view s)" using rw(3) 2(9) by (auto simp: SetBestBlock_map split: if_splits)
    then show ?thesis using l2 IsBlockValueValid_bound [OF rw(2) checked] connect_reward_eq [OF rw(1)] by simp
  qed
qed

text \<open>
  An example: a chain of 60 blocks, whose last one the example of theory BlockCheck follows, over the tip
  of theory BlockUndo, with a queue of checks.
\<close>

definition example_chain :: heap where
  "example_chain n = CBlockIndex_SetNull\<lparr>phashBlock := (if n = 60 then replicate 32 1 else blob_SetNull 32), nHeight := int n,
     pprev := (if n = 0 then None else Some (n - 1)), nTime := 1600000000\<rparr>"

definition example_index :: "uint256 \<Rightarrow> ptr option" where
  "example_index h = (if h = blob_SetNull 32 then Some 59 else None)"

definition example_connect_env :: connect_env where
  "example_connect_env = \<lparr>ce_fAddressIndex = False, ce_fSpentIndex = False, ce_fTxIndex = True, ce_fTimestampIndex = True,
     nScriptCheckThreads = 2, disk_space = True\<rparr>"

definition example_disk :: disk_env where
  "example_disk = \<lparr>write_ok = (\<lambda>ev. True), ec_parse = example_ec, messageStart = [1, 2, 3, 4]\<rparr>"

abbreviation (input) example_view :: "CDBWrapper CCoinsViewCache CCoinsView" where
  "example_view \<equiv> tip_view example_ec (\<lambda>_. 0)"

text \<open>The views of the example: over the tip, with no best block of their own.\<close>

definition example_on_tip :: "CDBWrapper CCoinsViewCache CCoinsViewCache \<Rightarrow> bool" where
  "example_on_tip v \<longleftrightarrow> base v = example_tip \<and> cache_hashBlock v = blob_SetNull 32 \<and>
     (case map_of (cacheCoins v) example_prev of None \<Rightarrow> True | Some e \<Rightarrow> coins e = example_coins)"

lemma null_best [simp]: "blob_IsNull (blob_SetNull 32)"
  by (simp add: blob_IsNull_def blob_SetNull_def list_all_length)

lemma example_best: "example_on_tip v \<Longrightarrow> Cache_GetBestBlock example_view v = (blob_SetNull 32, v)"
  by (cases v) (simp add: Cache_GetBestBlock_def example_on_tip_def example_tip_def CCoinsViewCache_init_def CCoinsViewCache_view_def
      CCoinsViewDB_view_def CCoinsViewDB_GetBestBlock_def DB_Read_def example_db_def)

lemma example_access:
  assumes "example_on_tip v"
  shows "\<exists>v'. AccessCoins example_view (\<lambda>_. 0) v example_prev = (Some example_coins, v') \<and> example_on_tip v'"
proof (cases "map_of (cacheCoins v) example_prev")
  case (Some e)
  then show ?thesis using assms by (auto simp: AccessCoins_def FetchCoins_def example_on_tip_def)
next
  case None
  obtain b h m u where v: "v = \<lparr>base = b, cache_hashBlock = h, cacheCoins = m, cachedCoinsUsage = u\<rparr>" by (cases v)
  have "b = example_tip" "h = blob_SetNull 32" "map_of m example_prev = None"
    using assms None by (simp_all add: v example_on_tip_def)
  then show ?thesis
    using example_tip_get [of example_ec example_prev]
    by (simp add: v AccessCoins_def FetchCoins_def Let_def update_conv' example_on_tip_def)
qed

lemma example_input: "op_hash (prevout (vin example_spender ! 0)) = example_prev" "vin example_spender = [mk_CTxIn \<lparr>op_hash = example_prev, op_n = 0\<rparr> [] 0]"
  "prevout (mk_CTxIn p sc n) = p" "scriptSig (mk_CTxIn p sc n) = sc"
  by (simp_all add: example_spender_def mk_CTxIn_def)

lemma example_available: "IsAvailable example_coins 0" "c_vout example_coins = [mk_CTxOut 5000000000 [0x51]]" "c_nHeight example_coins = 7"
  "fCoinBase example_coins"
  by (simp_all add: IsAvailable_def example_coins_def mk_CTxOut_def CTxOut_IsNull_def)

lemma example_scripts: "IsPayToScriptHash [0x51] = False" "CScriptCheck_call prefix_crypto \<lparr>sc_scriptPubKey = [0x51], sc_ptxTo = example_spender, sc_nIn = 0,
     sc_nFlags = SCRIPT_VERIFY_P2SH, sc_cacheStore = False\<rparr> = Inr None"
  by code_simp+

lemma example_loop_input:
  assumes v: "example_on_tip (cs_view s)" and fees: "cs_nFees s = 0" and sig: "cs_nSigOps s \<le> 20000"
  defines "F \<equiv> \<lparr>fScriptChecks = True, fStrictPayToScriptHash = True, script_flags = SCRIPT_VERIFY_P2SH, lock_time_flags = 0, just_check = False\<rparr>"
  shows "\<exists>s'. connect_inputs example_view (\<lambda>_. 0) prefix_crypto example_connect_env F example_chain example_index 60 1 example_spender
      CValidationState_init s = Inr ((True, CValidationState_init), s') \<and> example_on_tip (cs_view s') \<and> cs_nFees s' = 4999999996 \<and>
      cs_checks s' = cs_checks s @ [\<lparr>sc_scriptPubKey = [0x51], sc_ptxTo = example_spender, sc_nIn = 0, sc_nFlags = SCRIPT_VERIFY_P2SH, sc_cacheStore = False\<rparr>]"
proof -
  let ?V = example_view let ?u = "\<lambda>_ :: CCoins. 0 :: u64" let ?tx = example_spender
  obtain v1 where a1: "AccessCoins ?V ?u (cs_view s) example_prev = (Some example_coins, v1)" "example_on_tip v1" using example_access [OF v] by blast
  obtain v2 where a2: "AccessCoins ?V ?u v1 example_prev = (Some example_coins, v2)" "example_on_tip v2" using example_access [OF a1(2)] by blast
  obtain v3 where a3: "AccessCoins ?V ?u v2 example_prev = (Some example_coins, v3)" "example_on_tip v3" using example_access [OF a2(2)] by blast
  obtain v4 where a4: "AccessCoins ?V ?u v3 example_prev = (Some example_coins, v4)" "example_on_tip v4" using example_access [OF a3(2)] by blast
  obtain v5 where a5: "AccessCoins ?V ?u v4 example_prev = (Some example_coins, v5)" "example_on_tip v5" using example_access [OF a4(2)] by blast
  obtain v6 where a6: "AccessCoins ?V ?u v5 example_prev = (Some example_coins, v6)" "example_on_tip v6" using example_access [OF a5(2)] by blast
  obtain v7 where a7: "AccessCoins ?V ?u v6 example_prev = (Some example_coins, v7)" "example_on_tip v7" using example_access [OF a6(2)] by blast
  note in0 = example_kinds(2) example_input example_available example_scripts(1)
  have s1: "HaveInputs ?V ?u (cs_view s) ?tx = (True, v1)" using a1(1) by (simp add: HaveInputs_def in0)
  have s2: "prev_heights ?V ?u (vin ?tx) v1 = Inr ([7], v2)" using a2(1) by (simp add: in0)
  have h: "pprev (example_chain 60) = Some 59" "nHeight (example_chain 59) = 59" "nHeight (example_chain 60) = 60" by (simp_all add: example_chain_def)
  have s3: "SequenceLocks example_chain ?tx 0 [7] 60 = Inr True"
    using GetMedianTimePast_nonneg [of example_chain 59]
    by (simp add: SequenceLocks_def CalculateSequenceLocks_def EvaluateSequenceLocks_def h Let_def in0(3))
  have s4: "GetP2SHSigOpCount ?V ?u ?tx v2 = Inr (0, v3)" using a3(1) by (simp add: GetP2SHSigOpCount_def GetOutputFor_def in0 mk_CTxOut_def)
  have s5: "GetValueIn ?V ?u v3 ?tx = (Some 5000000000, v4)"
    using a4(1) by (simp add: GetValueIn_def GetOutputFor_def in0) (simp add: mk_CTxOut_def int_ranges)
  have out: "GetValueOut ?tx = Inr 4" by (simp add: GetValueOut_def example_spender_def mk_CTxOut_def int_ranges MoneyRange_def)
  have hi: "HaveInputs ?V ?u v4 ?tx = (True, v5)" using a5(1) by (simp add: HaveInputs_def in0)
  have ct: "CheckTxInputs ?V ?u ?tx CValidationState_init v4 60 = Inr ((True, CValidationState_init), v6)"
    using a6(1) hi out by (simp add: CheckTxInputs_def in0 Let_def value_exit_def COINBASE_MATURITY_def) (simp add: mk_CTxOut_def int_ranges MoneyRange_def vget_def)
  have sh: "GetSpendHeight ?V example_chain example_index v4 = Inr (60, v4)"
    using example_best [OF a4(2)] by (simp add: GetSpendHeight_def example_index_def h)
  have ci: "CheckInputs ?V ?u prefix_crypto example_chain example_index ?tx CValidationState_init v4 True SCRIPT_VERIFY_P2SH False True =
      Inr ((True, CValidationState_init), [\<lparr>sc_scriptPubKey = [0x51], sc_ptxTo = ?tx, sc_nIn = 0, sc_nFlags = SCRIPT_VERIFY_P2SH, sc_cacheStore = False\<rparr>], v7)"
    using a7(1) by (simp add: CheckInputs_def in0(1) sh ct) (simp add: in0 mk_CScriptCheck_def vget_def mk_CTxOut_def)
  have e: "ce_fAddressIndex example_connect_env = False" "ce_fSpentIndex example_connect_env = False" "nScriptCheckThreads example_connect_env = 2"
    by (simp_all add: example_connect_env_def)
  show ?thesis
    using s1 s2 s3 s4 s5 out ci a7(2) sig fees
    by (simp add: connect_inputs_def F_def e Let_def value_exit_def int_ranges MAX_BLOCK_SIGOPS_def MAX_BLOCK_SIZE_def)
qed

lemma example_update_coinbase:
  "\<exists>v. UpdateCoins example_view (\<lambda>_. 0) prefix_crypto example_coinbase (CCoinsViewCache_init example_tip) 60 = Some ([], v) \<and> example_on_tip v"
proof -
  obtain r1 where h: "GetHash prefix_crypto example_coinbase = 1 # r1" using example_hashes by blast
  show ?thesis
    using example_kinds(1)
    by (simp add: UpdateCoins_def modifying_def ModifyCoins_def CCoinsViewCache_init_def example_tip_get h example_hashes(3) Let_def
        CCoinsModifier_coins_def CCoinsModifier_assign_def CCoinsModifier_destroy_def example_on_tip_def)
qed

lemma example_update_spender:
  assumes "example_on_tip v"
  shows "\<exists>undo v'. UpdateCoins example_view (\<lambda>_. 0) prefix_crypto example_spender v 60 = Some (undo, v')"
proof -
  have "UpdateCoins_inputs example_view (\<lambda>_. 0) (vin example_spender) v \<noteq> None"
    using assms example_tip_get [of example_ec example_prev]
    by (auto simp: example_input(2,3) modifying_def ModifyCoins_def example_on_tip_def Let_def update_conv'
        CCoinsModifier_coins_def spend_input_def example_coins_def mk_CTxOut_def CTxOut_IsNull_def split: prod.split option.splits)
  then show ?thesis using example_kinds(2) by (auto simp: UpdateCoins_def)
qed

lemma example_loop:
  defines "F \<equiv> \<lparr>fScriptChecks = True, fStrictPayToScriptHash = True, script_flags = SCRIPT_VERIFY_P2SH, lock_time_flags = 0, just_check = False\<rparr>"
  assumes s: "cs_view s = CCoinsViewCache_init example_tip" "cs_nFees s = 0" "cs_nSigOps s = 0" "cs_checks s = []" "cs_undo s = []"
  shows "\<exists>s'. connect_loop example_view (\<lambda>_. 0) prefix_crypto example_connect_env F example_chain example_index 60 0 [example_coinbase, example_spender]
      CValidationState_init s = Inr ((True, CValidationState_init), s') \<and> cs_nFees s' = 4999999996 \<and> run_checks prefix_crypto (cs_checks s') = Inr True"
proof -
  let ?loop = "connect_loop example_view (\<lambda>_. 0) prefix_crypto example_connect_env F example_chain example_index 60"
  obtain v1 where v1: "UpdateCoins example_view (\<lambda>_. 0) prefix_crypto example_coinbase (CCoinsViewCache_init example_tip) 60 = Some ([], v1)" "example_on_tip v1"
    using example_update_coinbase by blast
  have ops: "GetLegacySigOpCount example_coinbase = Inr 0" "GetLegacySigOpCount example_spender = Inr 0"
    by (simp_all add: GetLegacySigOpCount_def example_coinbase_def example_spender_def mk_CTxIn_def mk_CTxOut_def GetSigOpCount_def sigop_loop.simps
      GetOp2_def push_size_def)
  have e: "ce_fAddressIndex example_connect_env = False" "nHeight (example_chain 60) = 60"
    by (simp_all add: example_connect_env_def example_chain_def)
  define s1 where "s1 = s\<lparr>cs_nSigOps := 0, cs_view := v1, cs_undo := [], cs_vPos := cs_vPos s @ [(GetHash prefix_crypto example_coinbase, GetBlockPos (example_chain 60), cs_nTxOffset s)],
     cs_nTxOffset := cs_nTxOffset s + word_of_nat (length (Serialize_CTransaction example_coinbase))\<rparr>"
  have first: "?loop 0 (example_coinbase # txs) CValidationState_init s = ?loop 1 txs CValidationState_init s1" for txs
    using v1 s example_kinds(1) by (simp add: ops e s1_def Let_def MAX_BLOCK_SIGOPS_def MAX_BLOCK_SIZE_def)
  have s1: "cs_view s1 = v1" "cs_nFees s1 = 0" "cs_nSigOps s1 = 0" "cs_checks s1 = []" using s by (simp_all add: s1_def)
  obtain s2 where s2: "connect_inputs example_view (\<lambda>_. 0) prefix_crypto example_connect_env F example_chain example_index 60 1 example_spender
      CValidationState_init s1 = Inr ((True, CValidationState_init), s2)" "example_on_tip (cs_view s2)" "cs_nFees s2 = 4999999996"
      "cs_checks s2 = [\<lparr>sc_scriptPubKey = [0x51], sc_ptxTo = example_spender, sc_nIn = 0, sc_nFlags = SCRIPT_VERIFY_P2SH, sc_cacheStore = False\<rparr>]"
    using example_loop_input [of s1] v1(2) s1 unfolding F_def by auto
  obtain undo v3 where v3: "UpdateCoins example_view (\<lambda>_. 0) prefix_crypto example_spender (cs_view s2) 60 = Some (undo, v3)"
    using example_update_spender [OF s2(2)] by blast
  have same: "s1\<lparr>cs_nSigOps := 0\<rparr> = s1" using s1(3) by (cases s1) simp
  have "?loop 1 [example_spender] CValidationState_init s1 = Inr ((True, CValidationState_init),
      s2\<lparr>cs_view := v3, cs_undo := cs_undo s2 @ [undo], cs_vPos := cs_vPos s2 @ [(GetHash prefix_crypto example_spender, GetBlockPos (example_chain 60), cs_nTxOffset s2)],
         cs_nTxOffset := cs_nTxOffset s2 + word_of_nat (length (Serialize_CTransaction example_spender))\<rparr>)"
    using s2(1) v3 example_kinds(2) by (simp add: ops e s1(3) same Let_def MAX_BLOCK_SIGOPS_def MAX_BLOCK_SIZE_def)
  then show ?thesis using first [of "[example_spender]"] s2(3,4) example_scripts(2) by simp
qed

lemma example_rules: "\<exists>cache. connect_rules main_params example_chain (example_block\<lparr>fChecked := True\<rparr>) 60 59 VersionBitsCache_Clear =
    Some (Inr ((True, SCRIPT_VERIFY_P2SH, 0), cache))"
proof -
  have "cmod (nHeight (example_chain 59) + 1) (Period (VersionBitsConditionChecker main_params DEPLOYMENT_CSV)) = 60"
    "Period (VersionBitsConditionChecker main_params DEPLOYMENT_CSV) \<noteq> 0"
    by (simp_all add: example_chain_def VersionBitsConditionChecker_def main_params_def cmod_def cdiv_def)
  then have "\<exists>cache. VersionBitsState example_chain (Some 59) main_params DEPLOYMENT_CSV VersionBitsCache_Clear = Some (Inr (THRESHOLD_DEFINED, cache))"
    by (simp add: VersionBitsState_def GetStateFor_def GetAncestor_def VersionBitsCache_Clear_def find_known.simps) (simp add: example_chain_def)
  then show ?thesis by (auto simp: connect_rules_def obind_def example_block_simps GetBlockTime_def example_chain_def Let_def)
qed

lemma example_BIP30: "enforce_BIP30 main_params example_chain 60 59 = Inr True"
proof -
  have "GetAncestor_loop example_chain 1 n (int n) = Inr 1" if "1 \<le> n" for n
    using that
  proof (induction n)
    case (Suc n)
    show ?case
    proof (cases "n = 0")
      case True
      then show ?thesis by (simp add: GetAncestor_loop.simps)
    next
      case False
      have "\<not> follow_skip (example_chain (Suc n)) (int (Suc n)) 1" by (simp add: follow_skip_def example_chain_def CBlockIndex_SetNull_def)
      moreover have "pprev (example_chain (Suc n)) = Some n" by (simp add: example_chain_def)
      ultimately show ?thesis using Suc False by (subst GetAncestor_loop.simps) simp
    qed
  qed simp
  from this [of 59] have "GetAncestor example_chain 59 1 = Inr (Some 1)" by (simp add: GetAncestor_def example_chain_def)
  moreover have "BIP34Hash main_params \<noteq> blob_SetNull 32"
  proof
    assume "BIP34Hash main_params = blob_SetNull 32"
    then have "hd (BIP34Hash main_params) = 0" by (simp add: blob_SetNull_def)
    then show False using le_bytes_numeral [of "num.Bit0 (num.Bit0 (num.Bit0 (num.Bit0 (num.Bit0 num.One))))"] by (simp add: main_params_def)
  qed
  moreover have "block_hash_of example_chain (Suc 0) = Inr (blob_SetNull 32)" "BIP34Height main_params = 1"
    "nHeight (example_chain 60) = 60"
    by (simp_all add: block_hash_of_def example_chain_def blob_SetNull_def main_params_def)
  ultimately show ?thesis by (simp add: enforce_BIP30_def Let_def)
qed

lemma example_finish:
  assumes "cs_nFees s = 4999999996" "run_checks prefix_crypto (cs_checks s) = Inr True" "cr_heap r = example_chain" "cr_undoSizes r = [0]"
  shows "\<exists>r'. connect_finish prefix_crypto example_env example_connect_env example_disk (example_block\<lparr>fChecked := True\<rparr>) False 60 59
      CValidationState_init s r = Inr ((True, CValidationState_init), r')"
proof -
  have c: "nHeight (example_chain 60) = 60" "nHeight (example_chain 59) = 59" "phashBlock (example_chain n) \<noteq> []" "GetUndoPos (example_chain n) = (-1, 0)"
    "nFile (example_chain n) = 0" "nStatus (example_chain n) = 0" for n
    by (simp_all add: example_chain_def blob_SetNull_def GetUndoPos_def CBlockIndex_SetNull_def)
  have e: "env_params example_env = main_params" "write_ok example_disk ev" "disk_space example_connect_env" for ev
    by (simp_all add: example_env_def example_payment_env_def example_disk_def example_connect_env_def)
  have rw: "connect_reward main_params example_chain 59 (cs_nFees s) = Inr (4999999996 + 5707 * 100000000)"
    using assms(1) by (simp add: connect_reward_def c GetBlockSubsidy_def main_params_def int_ranges)
  have out: "GetValueOut example_coinbase = Inr 50"
    by (simp add: GetValueOut_def example_coinbase_def mk_CTxOut_def int_ranges MoneyRange_def)
  have li: "GetPaymentsLimit main_params 60 = Inr (5707 * 100000000)"
    by (simp add: GetPaymentsLimit_def IsValidBlockHeight_def main_params_def cmod_def cdiv_def GetBlockSubsidy_def int_ranges)
  have tr: "IsSuperblockTriggered (pay_params (payments example_env)) (triggers (payments example_env)) 60 = False"
    by (simp add: IsSuperblockTriggered_def example_env_def example_payment_env_def example_superblock_def)
  have st: "nSuperblockStartBlock (pay_params (payments example_env)) = 1" "IsSynced (payments example_env)"
    "IsSporkActive (payments example_env) SPORK_9_SUPERBLOCKS_ENABLED" "mnpayments (payments example_env) = CMasternodePayments_init"
    by (simp_all add: example_env_def example_payment_env_def main_params_def)
  have va: "IsBlockValueValid (payments example_env) example_coinbase 60 (4999999996 + 5707 * 100000000) = Inr True"
    using li out tr st e(1) by (simp add: IsBlockValueValid_def value_exit_def Let_def int_ranges)
  have pa: "IsBlockPayeeValid (payments example_env) example_coinbase 60 (4999999996 + 5707 * 100000000) = Inr True"
    using tr st by (simp add: IsBlockPayeeValid_def Payments_IsTransactionValid_def CMasternodePayments_init_def)
  have fu: "FindUndoPos True CValidationState_init 0 [0] n = Inr ((True, CValidationState_init), (0, 0), [word_of_nat n])" for n
    by (simp add: FindUndoPos_def Let_def)
  have v: "vtx example_block ! 0 = example_coinbase" by (simp add: example_block_simps)
  obtain r1 where w: "write_undo prefix_crypto example_connect_env example_disk 60 59 (cs_undo s) CValidationState_init r = Inr ((True, CValidationState_init), r1)"
      "phashBlock (cr_heap r1 60) \<noteq> []"
    using assms(3,4) by (simp add: write_undo_def Let_def c e fu block_hash_of_def RaiseValidity_def)
  have ws: "\<exists>r'. run_writes example_disk ws state r = ((True, state), r') \<and> cr_heap r' = cr_heap r" for ws state r
  proof (induction ws arbitrary: r)
    case (Cons a ws)
    show ?case using Cons.IH [of "r\<lparr>cr_events := cr_events r @ [fst a]\<rparr>"] by (cases a) (simp add: e(2))
  qed simp
  obtain r2 where r2: "run_writes example_disk (index_writes example_connect_env s) CValidationState_init r1 = ((True, CValidationState_init), r2)"
      "cr_heap r2 = cr_heap r1" using ws by blast
  obtain r3 where r3: "run_writes example_disk (if ce_fTimestampIndex example_connect_env then
        [(Write_TimestampIndex (nTime (cr_heap r2 60)) (phashBlock (cr_heap r1 60)), ''Failed to write timestamp index'')] else [])
      CValidationState_init r2 = ((True, CValidationState_init), r3)" using ws by blast
  show ?thesis
    using rw va pa assms(2,3) w r2 r3 by (simp add: connect_finish_def Let_def e(1) c(1) v block_hash_of_def)
qed

lemma example_connects:
  "\<exists>r. ConnectBlock example_view (\<lambda>_. 0) prefix_crypto example_env example_connect_env example_disk example_index example_block
      CValidationState_init 60 example_chain (CCoinsViewCache_init example_tip) VersionBitsCache_Clear [0] False =
    Some (Inr ((True, CValidationState_init), r))"
proof -
  let ?block = "example_block\<lparr>fChecked := True\<rparr>"
  have env: "active_height example_env = 7" "env_params example_env = main_params" "GetAdjustedTime example_env = 1600000000"
    "\<not> IsSporkActive (payments example_env) SPORK_3_INSTAPAY_BLOCK_FILTERING" "mapCheckpoints example_env = []"
    by (simp_all add: example_env_def example_payment_env_def)
  have ck: "CheckBlock prefix_crypto example_env example_block CValidationState_init True True = Inr ((True, CValidationState_init), ?block, [])"
    unfolding CheckBlock_accepts [OF example_block_simps(2)]
    using example_root example_size example_kinds example_txs_ok example_sigops example_pow example_tx_sizes
    by (simp add: env header_ok_def block_header_def body_ok_def tx_ok_def example_block_simps mk_CTxOut_def int_ranges MAX_BLOCK_SIZE_def
        MAX_BLOCK_SIGOPS_def)
  have c: "pprev (example_chain 60) = Some 59" "block_hash_of example_chain 59 = Inr (blob_SetNull 32)"
    by (simp_all add: example_chain_def block_hash_of_def blob_SetNull_def)
  have best: "Cache_GetBestBlock example_view (CCoinsViewCache_init example_tip) = (blob_SetNull 32, CCoinsViewCache_init example_tip)"
    by (rule example_best) (simp add: example_on_tip_def CCoinsViewCache_init_def)
  have gen: "header_GetHash example_env (block_header ?block) \<noteq> hashGenesisBlock main_params"
  proof
    assume g: "header_GetHash example_env (block_header ?block) = hashGenesisBlock main_params"
    have "length (header_GetHash example_env (block_header ?block)) = 80"
      using example_root_length
      by (simp add: header_GetHash_def example_env_def Serialize_CBlockHeader_def block_header_def example_block_simps ser_writedata32_def)
    then show False unfolding g by (simp add: main_params_def)
  qed
  have sc: "script_checks_needed example_env example_chain example_index 60 = Inr True"
    by (simp add: script_checks_needed_def env GetLastCheckpoint_def)
  obtain cache where ru: "connect_rules main_params example_chain ?block 60 59 VersionBitsCache_Clear = Some (Inr ((True, SCRIPT_VERIFY_P2SH, 0), cache))"
    using example_rules by blast
  have vt: "vtx example_block = [example_coinbase, example_spender]" by (simp add: example_block_simps)
  define s0 where "s0 = \<lparr>cs_view = CCoinsViewCache_init example_tip, cs_nFees = 0, cs_nSigOps = 0, cs_checks = [], cs_undo = [],
     cs_entries = no_connect_entries, cs_vPos = [], cs_nTxOffset = word_of_nat (GetSizeOfCompactSize (length [example_coinbase, example_spender]))\<rparr>"
  define r0 where "r0 s = \<lparr>cr_view = cs_view s, cr_block = ?block, cr_heap = example_chain, cr_cache = cache, cr_undoSizes = [0], cr_events = []\<rparr>"
    for s :: "CDBWrapper CCoinsViewCache connect_state"
  obtain s where s: "connect_loop example_view (\<lambda>_. 0) prefix_crypto example_connect_env
      \<lparr>fScriptChecks = True, fStrictPayToScriptHash = True, script_flags = SCRIPT_VERIFY_P2SH, lock_time_flags = 0, just_check = False\<rparr>
      example_chain example_index 60 0 [example_coinbase, example_spender] CValidationState_init s0 = Inr ((True, CValidationState_init), s)"
      "cs_nFees s = 4999999996" "run_checks prefix_crypto (cs_checks s) = Inr True"
    using example_loop [of s0] by (auto simp: s0_def)
  obtain r where r: "connect_finish prefix_crypto example_env example_connect_env example_disk ?block False 60 59
      CValidationState_init s (r0 s) = Inr ((True, CValidationState_init), r)"
    using example_finish [OF s(2,3), of "r0 s"] by (auto simp: r0_def)
  have "ConnectBlock example_view (\<lambda>_. 0) prefix_crypto example_env example_connect_env example_disk example_index example_block
      CValidationState_init 60 example_chain (CCoinsViewCache_init example_tip) VersionBitsCache_Clear [0] False =
    Some (Inr ((True, CValidationState_init), r))"
    using ck c best gen sc ru example_overwrites [of example_ec] s(1) [unfolded s0_def] r [unfolded r0_def]
    by (simp add: ConnectBlock_def connect_body_def obind_def env(2) example_BIP30 vt Let_def del: connect_loop.simps overwrites.simps)
  then show ?thesis by blast
qed

theorem ConnectBlock_no_inflation_witness:
  "\<exists>r. ConnectBlock example_view (\<lambda>_. 0) prefix_crypto example_env example_connect_env example_disk example_index example_block
      CValidationState_init 60 example_chain (CCoinsViewCache_init example_tip) VersionBitsCache_Clear [0] False =
      Some (Inr ((True, CValidationState_init), r)) \<and>
    coin_supply (cache_abs (cache_abs (db_map example_ec)) (cr_view r)) \<le> 50 * COIN + 5707 * COIN + 5707 * COIN"
proof -
  obtain r where r: "ConnectBlock example_view (\<lambda>_. 0) prefix_crypto example_env example_connect_env example_disk example_index example_block
      CValidationState_init 60 example_chain (CCoinsViewCache_init example_tip) VersionBitsCache_Clear [0] False =
      Some (Inr ((True, CValidationState_init), r))"
    using example_connects by blast
  have env: "env_params example_env = main_params" "pay_params (payments example_env) = main_params"
    by (simp_all add: example_env_def example_payment_env_def)
  have h: "pprev (example_chain 60) = Some 59" "value_is_checked (payments example_env) (nHeight (example_chain 60))"
    by (simp_all add: example_chain_def value_is_checked_def env) (simp add: main_params_def)
  have d: "distinct (map (GetHash prefix_crypto) (vtx example_block))" using example_hashes(1,2) by (auto simp: example_block_simps)
  have fin: "finite (dom (cache_abs (db_map example_ec) example_tip))" by (simp add: example_tip_inv)
  have sup: "coin_supply (cache_abs (db_map example_ec) example_tip) = 50 * COIN"
    by (simp add: example_tip_inv coin_supply_def coins_value_def example_available(2) out_value_def mk_CTxOut_def CTxOut_IsNull_def)
  have li: "superblock_allowance main_params 60 = 5707 * COIN"
    by (simp add: superblock_allowance_def GetPaymentsLimit_def IsValidBlockHeight_def main_params_def cmod_def cdiv_def GetBlockSubsidy_def int_ranges)
  have "enforce_BIP30 (env_params example_env) example_chain 60 59 = Inr False \<Longrightarrow>
      \<forall>tx \<in> set (vtx example_block). cache_abs (db_map example_ec) example_tip (GetHash prefix_crypto tx) = None"
    by (simp add: env example_BIP30)
  from ConnectBlock_no_inflation [OF example_tip_inv(1) fin example_block_simps(2) d h(1) this h(2) r] show ?thesis
    using r li by (auto simp: sup env example_chain_def GetBlockSubsidy_def main_params_def)
qed

end
