(* ===== verification/ConnectThreads.thy ===== *)
theory ConnectThreads
  imports ConnectBlock
begin

text \<open>
  The threads that check scripts change no verdict: a block is connected with the queue of checks exactly
  when it is connected with the checks made on the spot.
\<close>

subsection \<open>With and without threads\<close>

lemma run_checks_Cons: "run_checks C (chk # checks) = Inr True \<longleftrightarrow> CScriptCheck_call C chk = Inr None \<and> run_checks C checks = Inr True"
  by (auto simp: ebind_eq_Inr)

lemma run_checks_append: "run_checks C (as @ bs) = Inr True \<longleftrightarrow> run_checks C as = Inr True \<and> run_checks C bs = Inr True"
  by (induction as) (simp_all add: run_checks_Cons del: run_checks.simps(2))

lemma check_scripts_acc:
  "check_scripts V usage C tx fl cs True i ins chks state s = Inr (b, chks', s') \<longleftrightarrow>
     (\<exists>new. check_scripts V usage C tx fl cs True i ins [] state s = Inr (b, new, s') \<and> chks' = chks @ new)"
proof (induction ins arbitrary: i chks s chks')
  case (Cons txin ins)
  obtain r s1 where a: "AccessCoins V usage s (op_hash (prevout txin)) = (r, s1)" by (rule prod.exhaust)
  show ?case
  proof (cases "\<exists>c chk. r = Some c \<and> mk_CScriptCheck c tx i fl cs = Inr chk")
    case False
    then show ?thesis using a by (cases r) (auto simp: ebind_eq_Inr)
  next
    case True
    then obtain c chk where c: "r = Some c" "mk_CScriptCheck c tx i fl cs = Inr chk" by blast
    have step: "check_scripts V usage C tx fl cs True i (txin # ins) chks state s =
        check_scripts V usage C tx fl cs True (i + 1) ins (chks @ [chk]) state s1" for chks
      using a c by simp
    show ?thesis unfolding step using Cons.IH [of "i + 1" "chks @ [chk]" s1 chks'] Cons.IH [of "i + 1" "[] @ [chk]" s1]
      by auto
  qed
qed auto

lemma check_scripts_queue:
  "check_scripts V usage C tx fl cs False i ins chks state s = Inr ((True, state'), chks', s') \<longleftrightarrow> chks' = chks \<and>
     (\<exists>new. check_scripts V usage C tx fl cs True i ins [] state s = Inr ((True, state'), new, s') \<and> run_checks C new = Inr True)"
proof (induction ins arbitrary: i s)
  case (Cons txin ins)
  obtain r s1 where a: "AccessCoins V usage s (op_hash (prevout txin)) = (r, s1)" by (rule prod.exhaust)
  show ?case
  proof (cases "\<exists>c chk. r = Some c \<and> mk_CScriptCheck c tx i fl cs = Inr chk")
    case False
    then show ?thesis using a by (cases r) (auto simp: ebind_eq_Inr)
  next
    case True
    then obtain c chk where c: "r = Some c" "mk_CScriptCheck c tx i fl cs = Inr chk" by blast
    have queue: "check_scripts V usage C tx fl cs True i (txin # ins) [] state s =
        check_scripts V usage C tx fl cs True (i + 1) ins [chk] state s1"
      using a c by simp
    have inline: "check_scripts V usage C tx fl cs False i (txin # ins) chks state s = Inr ((True, state'), chks', s') \<longleftrightarrow>
        CScriptCheck_call C chk = Inr None \<and>
        check_scripts V usage C tx fl cs False (i + 1) ins chks state s1 = Inr ((True, state'), chks', s')"
      using a c by (auto simp: ebind_eq_Inr split: option.splits if_splits)
    have acc: "check_scripts V usage C tx fl cs True (i + 1) ins [chk] state s1 = Inr ((True, state'), new, s') \<longleftrightarrow>
        (\<exists>more. check_scripts V usage C tx fl cs True (i + 1) ins [] state s1 = Inr ((True, state'), more, s') \<and> new = chk # more)" for new
      using check_scripts_acc [where chks = "[chk]"] by simp
    show ?thesis unfolding inline queue acc Cons.IH using run_checks_Cons [of C chk] by blast
  qed
qed auto

lemma CheckInputs_queue:
  "CheckInputs V usage C H m tx state s scripts fl cs False = Inr ((True, state'), chks, s') \<longleftrightarrow> chks = [] \<and>
     (\<exists>new. CheckInputs V usage C H m tx state s scripts fl cs True = Inr ((True, state'), new, s') \<and> run_checks C new = Inr True)"
proof (cases "IsCoinBase tx")
  case False
  show ?thesis
  proof (cases "\<exists>h s1 state1 s2. GetSpendHeight V H m s = Inr (h, s1) \<and> CheckTxInputs V usage tx state s1 h = Inr ((True, state1), s2)")
    case True
    then obtain h s1 state1 s2 where t: "GetSpendHeight V H m s = Inr (h, s1)" "CheckTxInputs V usage tx state s1 h = Inr ((True, state1), s2)"
      by blast
    show ?thesis
    proof (cases scripts)
      case True
      then show ?thesis using False t check_scripts_queue [of V usage C tx fl cs 0 "vin tx" "[]" state1 s2 state' chks s']
        by (simp add: CheckInputs_def)
    qed (use False t in \<open>auto simp: CheckInputs_def\<close>)
  qed (use False in \<open>fastforce simp: CheckInputs_def ebind_eq_Inr split: if_splits\<close>)
qed (auto simp: CheckInputs_def)

lemma connect_inputs_queue:
  assumes n: "n \<noteq> 0"
  shows "connect_inputs V usage C (N\<lparr>nScriptCheckThreads := 0\<rparr>) F H m pindex i tx state s = Inr ((True, state'), s') \<longleftrightarrow>
    cs_checks s' = cs_checks s \<and>
    (\<exists>new. connect_inputs V usage C (N\<lparr>nScriptCheckThreads := n\<rparr>) F H m pindex i tx state (s\<lparr>cs_checks := q\<rparr>) =
        Inr ((True, state'), s'\<lparr>cs_checks := q @ new\<rparr>) \<and> run_checks C new = Inr True)"
proof -
  let ?read = "inputs_read V usage C N F H pindex i tx s"
  let ?check = "\<lambda>v5. CheckInputs V usage C H m tx state v5 (fScriptChecks F) (script_flags F) (just_check F)"
  have noscript: "chks = []" if "\<not> fScriptChecks F" "?check v5 True = Inr (b, chks, v)" for b chks v v5
    using that by (auto simp: CheckInputs_def ebind_eq_Inr split: if_splits)
  have inline: "connect_inputs V usage C (N\<lparr>nScriptCheckThreads := 0\<rparr>) F H m pindex i tx state s = Inr ((True, state'), s') \<longleftrightarrow>
      (\<exists>e sigops fees v5 new v6. ?read e sigops fees v5 \<and> ?check v5 True = Inr ((True, state'), new, v6) \<and> run_checks C new = Inr True \<and>
        s' = s\<lparr>cs_view := v6, cs_nFees := fees, cs_nSigOps := sigops, cs_entries := e, cs_checks := cs_checks s\<rparr>)"
    unfolding connect_inputs_accepts by (simp add: CheckInputs_queue) blast
  have queue: "connect_inputs V usage C (N\<lparr>nScriptCheckThreads := n\<rparr>) F H m pindex i tx state (s\<lparr>cs_checks := q\<rparr>) = Inr ((True, state'), s1) \<longleftrightarrow>
      (\<exists>e sigops fees v5 new v6. ?read e sigops fees v5 \<and> ?check v5 True = Inr ((True, state'), new, v6) \<and>
        s1 = s\<lparr>cs_view := v6, cs_nFees := fees, cs_nSigOps := sigops, cs_entries := e, cs_checks := q @ new\<rparr>)" for s1
    unfolding connect_inputs_accepts inputs_read_same
  proof (intro ex_cong1 conj_cong refl)
    fix e sigops fees v5 new v6
    assume "?read e sigops fees v5" "?check v5 True = Inr ((True, state'), new, v6)"
    then have "(if fScriptChecks F then q @ new else q) = q @ new" using noscript [of v5] n by auto
    then show "(s1 = s\<lparr>cs_checks := q, cs_view := v6, cs_nFees := fees, cs_nSigOps := sigops, cs_entries := e,
          cs_checks := (if fScriptChecks F \<and> nScriptCheckThreads (N\<lparr>nScriptCheckThreads := n\<rparr>) \<noteq> 0 then cs_checks (s\<lparr>cs_checks := q\<rparr>) @ new
             else cs_checks (s\<lparr>cs_checks := q\<rparr>))\<rparr>) =
        (s1 = s\<lparr>cs_view := v6, cs_nFees := fees, cs_nSigOps := sigops, cs_entries := e, cs_checks := q @ new\<rparr>)"
      using n by (cases "fScriptChecks F") simp_all
  qed (use n in simp_all)
  show ?thesis
  proof
    assume "connect_inputs V usage C (N\<lparr>nScriptCheckThreads := 0\<rparr>) F H m pindex i tx state s = Inr ((True, state'), s')"
    then obtain e sigops fees v5 new v6 where r: "?read e sigops fees v5" "?check v5 True = Inr ((True, state'), new, v6)" "run_checks C new = Inr True"
        "s' = s\<lparr>cs_view := v6, cs_nFees := fees, cs_nSigOps := sigops, cs_entries := e, cs_checks := cs_checks s\<rparr>"
      unfolding inline by blast
    have "s'\<lparr>cs_checks := q @ new\<rparr> = s\<lparr>cs_view := v6, cs_nFees := fees, cs_nSigOps := sigops, cs_entries := e, cs_checks := q @ new\<rparr>"
      unfolding r(4) by simp
    then have "connect_inputs V usage C (N\<lparr>nScriptCheckThreads := n\<rparr>) F H m pindex i tx state (s\<lparr>cs_checks := q\<rparr>) =
        Inr ((True, state'), s'\<lparr>cs_checks := q @ new\<rparr>)"
      unfolding queue using r(1,2) by blast
    moreover have "cs_checks s' = cs_checks s" unfolding r(4) by simp
    ultimately show "cs_checks s' = cs_checks s \<and>
      (\<exists>new. connect_inputs V usage C (N\<lparr>nScriptCheckThreads := n\<rparr>) F H m pindex i tx state (s\<lparr>cs_checks := q\<rparr>) =
        Inr ((True, state'), s'\<lparr>cs_checks := q @ new\<rparr>) \<and> run_checks C new = Inr True)"
      using r(3) by blast
  next
    assume "cs_checks s' = cs_checks s \<and>
      (\<exists>new. connect_inputs V usage C (N\<lparr>nScriptCheckThreads := n\<rparr>) F H m pindex i tx state (s\<lparr>cs_checks := q\<rparr>) =
        Inr ((True, state'), s'\<lparr>cs_checks := q @ new\<rparr>) \<and> run_checks C new = Inr True)"
    then obtain a e sigops fees v5 new v6 where r: "cs_checks s' = cs_checks s" "run_checks C a = Inr True"
        "?read e sigops fees v5" "?check v5 True = Inr ((True, state'), new, v6)"
        "s'\<lparr>cs_checks := q @ a\<rparr> = s\<lparr>cs_view := v6, cs_nFees := fees, cs_nSigOps := sigops, cs_entries := e, cs_checks := q @ new\<rparr>"
      unfolding queue by blast
    note parts = arg_cong [OF r(5), of cs_checks] arg_cong [OF r(5), of "\<lambda>u. u\<lparr>cs_checks := cs_checks s\<rparr>"]
    have "a = new" using parts(1) by simp
    moreover have "s' = s\<lparr>cs_view := v6, cs_nFees := fees, cs_nSigOps := sigops, cs_entries := e, cs_checks := cs_checks s\<rparr>"
      using parts(2) unfolding r(1) [symmetric] by simp
    ultimately show "connect_inputs V usage C (N\<lparr>nScriptCheckThreads := 0\<rparr>) F H m pindex i tx state s = Inr ((True, state'), s')"
      unfolding inline using r(2-4) by blast
  qed
qed

lemma tx_accepted_appends: "tx_accepted V usage C N F H m pindex i tx state s state2 s2 \<Longrightarrow> \<exists>more. cs_checks s2 = cs_checks s @ more"
  by (auto simp: tx_accepted_def connect_inputs_accepts split: if_splits)

lemma connect_loop_appends:
  "connect_loop V usage C N F H m pindex i txs state s = Inr ((True, state'), s') \<Longrightarrow> \<exists>more. cs_checks s' = cs_checks s @ more"
proof (induction txs arbitrary: i state s)
  case (Cons tx txs)
  obtain state2 s2 undo view where r: "tx_accepted V usage C N F H m pindex i tx state s state2 s2"
      "connect_loop V usage C N F H m pindex (i + 1) txs state2 (tx_connected C N H pindex i tx undo view s2) = Inr ((True, state'), s')"
    using Cons.prems unfolding connect_loop_Cons by blast
  show ?case using Cons.IH [OF r(2)] tx_accepted_appends [OF r(1)] by auto
qed simp

lemma tx_accepted_queue:
  assumes n: "n \<noteq> 0"
  shows "tx_accepted V usage C (N\<lparr>nScriptCheckThreads := 0\<rparr>) F H m pindex i tx state s state2 s2 \<longleftrightarrow> cs_checks s2 = cs_checks s \<and>
    (\<exists>new. tx_accepted V usage C (N\<lparr>nScriptCheckThreads := n\<rparr>) F H m pindex i tx state (s\<lparr>cs_checks := q\<rparr>) state2 (s2\<lparr>cs_checks := q @ new\<rparr>) \<and>
      run_checks C new = Inr True)"
proof (cases "IsCoinBase tx")
  case False
  have comm: "(s\<lparr>cs_checks := q\<rparr>)\<lparr>cs_nSigOps := k\<rparr> = (s\<lparr>cs_nSigOps := k\<rparr>)\<lparr>cs_checks := q\<rparr>" for k by simp
  show ?thesis
    using connect_inputs_queue [OF n, of V usage C N F H m pindex i tx state _ state2 s2 q] False unfolding tx_accepted_def comm by auto
next
  case True
  have same: "s2\<lparr>cs_checks := q @ new\<rparr> = s\<lparr>cs_checks := q, cs_nSigOps := k\<rparr> \<and> cs_checks s2 = cs_checks s \<longleftrightarrow>
      new = [] \<and> s2 = s\<lparr>cs_nSigOps := k\<rparr>" for new k
    by (cases s; cases s2) auto
  show ?thesis
  proof
    assume "tx_accepted V usage C (N\<lparr>nScriptCheckThreads := 0\<rparr>) F H m pindex i tx state s state2 s2"
    then obtain k where k: "GetLegacySigOpCount tx = Inr k" "\<not> (cs_nSigOps s + k) mod 2 ^ 32 > MAX_BLOCK_SIGOPS" "state2 = state"
        "s2 = s\<lparr>cs_nSigOps := (cs_nSigOps s + k) mod 2 ^ 32\<rparr>"
      using True unfolding tx_accepted_def by auto
    then show "cs_checks s2 = cs_checks s \<and>
      (\<exists>new. tx_accepted V usage C (N\<lparr>nScriptCheckThreads := n\<rparr>) F H m pindex i tx state (s\<lparr>cs_checks := q\<rparr>) state2 (s2\<lparr>cs_checks := q @ new\<rparr>) \<and>
        run_checks C new = Inr True)"
      using True unfolding tx_accepted_def by (intro conjI exI [of _ "[]"]) auto
  next
    assume "cs_checks s2 = cs_checks s \<and>
      (\<exists>new. tx_accepted V usage C (N\<lparr>nScriptCheckThreads := n\<rparr>) F H m pindex i tx state (s\<lparr>cs_checks := q\<rparr>) state2 (s2\<lparr>cs_checks := q @ new\<rparr>) \<and>
        run_checks C new = Inr True)"
    then obtain k new where k: "cs_checks s2 = cs_checks s" "GetLegacySigOpCount tx = Inr k" "\<not> (cs_nSigOps s + k) mod 2 ^ 32 > MAX_BLOCK_SIGOPS"
        "state2 = state" "s2\<lparr>cs_checks := q @ new\<rparr> = s\<lparr>cs_checks := q, cs_nSigOps := (cs_nSigOps s + k) mod 2 ^ 32\<rparr>"
      using True unfolding tx_accepted_def by auto
    then have "s2 = s\<lparr>cs_nSigOps := (cs_nSigOps s + k) mod 2 ^ 32\<rparr>" using same by blast
    then show "tx_accepted V usage C (N\<lparr>nScriptCheckThreads := 0\<rparr>) F H m pindex i tx state s state2 s2"
      using k(2-4) True unfolding tx_accepted_def by auto
  qed
qed

lemma connect_loop_queue:
  assumes n: "n \<noteq> 0"
  shows "connect_loop V usage C (N\<lparr>nScriptCheckThreads := 0\<rparr>) F H m pindex i txs state s = Inr ((True, state'), s') \<longleftrightarrow>
    cs_checks s' = cs_checks s \<and>
    (\<exists>new. connect_loop V usage C (N\<lparr>nScriptCheckThreads := n\<rparr>) F H m pindex i txs state (s\<lparr>cs_checks := q\<rparr>) =
        Inr ((True, state'), s'\<lparr>cs_checks := q @ new\<rparr>) \<and> run_checks C new = Inr True)"
proof (induction txs arbitrary: i state s q)
  case Nil
  have "s' = s \<longleftrightarrow> cs_checks s' = cs_checks s \<and> (\<exists>new. s\<lparr>cs_checks := q\<rparr> = s'\<lparr>cs_checks := q @ new\<rparr> \<and> run_checks C new = Inr True)"
    by (cases s; cases s') auto
  then show ?case by auto
next
  case (Cons tx txs)
  let ?a0 = "tx_accepted V usage C (N\<lparr>nScriptCheckThreads := 0\<rparr>) F H m pindex i tx state"
  let ?an = "tx_accepted V usage C (N\<lparr>nScriptCheckThreads := n\<rparr>) F H m pindex i tx state"
  let ?l0 = "\<lambda>i. connect_loop V usage C (N\<lparr>nScriptCheckThreads := 0\<rparr>) F H m pindex i txs"
  let ?ln = "\<lambda>i. connect_loop V usage C (N\<lparr>nScriptCheckThreads := n\<rparr>) F H m pindex i txs"
  let ?up = "\<lambda>s. UpdateCoins V usage C tx (cs_view s) (nHeight (H pindex))"
  let ?next = "tx_connected C N H pindex i tx"
  show ?case
  proof
    assume "connect_loop V usage C (N\<lparr>nScriptCheckThreads := 0\<rparr>) F H m pindex i (tx # txs) state s = Inr ((True, state'), s')"
    then obtain state2 s2 u v where r: "?a0 s state2 s2" "?up s2 = Some (u, v)" "?l0 (i + 1) state2 (?next u v s2) = Inr ((True, state'), s')"
      unfolding connect_loop_Cons tx_connected_simps by blast
    obtain new1 where n1: "cs_checks s2 = cs_checks s" "?an (s\<lparr>cs_checks := q\<rparr>) state2 (s2\<lparr>cs_checks := q @ new1\<rparr>)" "run_checks C new1 = Inr True"
      using r(1) unfolding tx_accepted_queue [OF n, of _ _ _ _ _ _ _ _ _ _ _ _ _ _ q] by blast
    obtain new2 where n2: "cs_checks s' = cs_checks (?next u v s2)" "run_checks C new2 = Inr True"
        "?ln (i + 1) state2 ((?next u v s2)\<lparr>cs_checks := q @ new1\<rparr>) = Inr ((True, state'), s'\<lparr>cs_checks := (q @ new1) @ new2\<rparr>)"
      using r(3) unfolding Cons.IH [of "i + 1" state2 "?next u v s2" "q @ new1"] by blast
    have up: "?up (s2\<lparr>cs_checks := q @ new1\<rparr>) = Some (u, v)" using r(2) by simp
    have "connect_loop V usage C (N\<lparr>nScriptCheckThreads := n\<rparr>) F H m pindex i (tx # txs) state (s\<lparr>cs_checks := q\<rparr>) =
        Inr ((True, state'), s'\<lparr>cs_checks := q @ new1 @ new2\<rparr>)"
      unfolding connect_loop_Cons by (intro exI conjI, rule n1(2), rule up, use n2(3) in simp)
    then show "cs_checks s' = cs_checks s \<and>
      (\<exists>new. connect_loop V usage C (N\<lparr>nScriptCheckThreads := n\<rparr>) F H m pindex i (tx # txs) state (s\<lparr>cs_checks := q\<rparr>) =
        Inr ((True, state'), s'\<lparr>cs_checks := q @ new\<rparr>) \<and> run_checks C new = Inr True)"
      using n1(1,3) n2(1,2) run_checks_append [of C new1 new2] by auto
  next
    assume "cs_checks s' = cs_checks s \<and>
      (\<exists>new. connect_loop V usage C (N\<lparr>nScriptCheckThreads := n\<rparr>) F H m pindex i (tx # txs) state (s\<lparr>cs_checks := q\<rparr>) =
        Inr ((True, state'), s'\<lparr>cs_checks := q @ new\<rparr>) \<and> run_checks C new = Inr True)"
    then obtain new state2 sn u v where r: "cs_checks s' = cs_checks s" "run_checks C new = Inr True" "?an (s\<lparr>cs_checks := q\<rparr>) state2 sn"
        "?up sn = Some (u, v)" "?ln (i + 1) state2 (?next u v sn) = Inr ((True, state'), s'\<lparr>cs_checks := q @ new\<rparr>)"
      unfolding connect_loop_Cons tx_connected_simps by blast
    obtain new1 where n1: "cs_checks sn = q @ new1" using tx_accepted_appends [OF r(3)] by auto
    obtain new2 where n2: "new = new1 @ new2" using connect_loop_appends [OF r(5)] n1 by auto
    have ok: "run_checks C new1 = Inr True" "run_checks C new2 = Inr True" using r(2) run_checks_append [of C new1 new2] n2 by simp_all
    define s2 where "s2 = sn\<lparr>cs_checks := cs_checks s\<rparr>"
    have sn: "sn = s2\<lparr>cs_checks := q @ new1\<rparr>" "cs_checks s2 = cs_checks s" using n1 by (simp_all add: s2_def)
    have a0: "?a0 s state2 s2" unfolding tx_accepted_queue [OF n, of _ _ _ _ _ _ _ _ _ _ _ _ _ _ q] using r(3) sn ok(1) by auto
    have "?ln (i + 1) state2 ((?next u v s2)\<lparr>cs_checks := q @ new1\<rparr>) = Inr ((True, state'), s'\<lparr>cs_checks := (q @ new1) @ new2\<rparr>)"
      using r(5) by (simp add: sn(1) n2)
    then have "?l0 (i + 1) state2 (?next u v s2) = Inr ((True, state'), s')"
      unfolding Cons.IH [of "i + 1" state2 "?next u v s2" "q @ new1"] using r(1) sn(2) ok(2) by auto
    moreover have "?up s2 = Some (u, v)" using r(4) by (simp add: sn(1))
    ultimately show "connect_loop V usage C (N\<lparr>nScriptCheckThreads := 0\<rparr>) F H m pindex i (tx # txs) state s = Inr ((True, state'), s')"
      unfolding connect_loop_Cons tx_connected_simps using a0 by blast
  qed
qed

lemma connect_finish_queue:
  assumes "run_checks C (cs_checks s) = Inr True" "run_checks C q = Inr True"
  shows "connect_finish C E (N\<lparr>nScriptCheckThreads := n\<rparr>) D block fJustCheck pindex prev state s r =
    connect_finish C E N D block fJustCheck pindex prev state (s\<lparr>cs_checks := q\<rparr>) r"
proof -
  have N: "disk_space (N\<lparr>nScriptCheckThreads := n\<rparr>) = disk_space N" "ce_fTxIndex (N\<lparr>nScriptCheckThreads := n\<rparr>) = ce_fTxIndex N"
    "ce_fAddressIndex (N\<lparr>nScriptCheckThreads := n\<rparr>) = ce_fAddressIndex N" "ce_fSpentIndex (N\<lparr>nScriptCheckThreads := n\<rparr>) = ce_fSpentIndex N"
    "ce_fTimestampIndex (N\<lparr>nScriptCheckThreads := n\<rparr>) = ce_fTimestampIndex N" by simp_all
  have s: "run_checks C (cs_checks (s\<lparr>cs_checks := q\<rparr>)) = run_checks C (cs_checks s)" "cs_nFees (s\<lparr>cs_checks := q\<rparr>) = cs_nFees s"
    "cs_undo (s\<lparr>cs_checks := q\<rparr>) = cs_undo s" "cs_vPos (s\<lparr>cs_checks := q\<rparr>) = cs_vPos s" "cs_entries (s\<lparr>cs_checks := q\<rparr>) = cs_entries s"
    using assms by simp_all
  show ?thesis unfolding connect_finish_def write_undo_def index_writes_def N s by (rule refl)
qed

lemma connect_body_queue:
  assumes "cs_checks s = []"
  shows "connect_body V usage C E (N\<lparr>nScriptCheckThreads := n\<rparr>) D m block fJustCheck pindex prev F state s r = Inr ((True, state'), r') \<longleftrightarrow>
    connect_body V usage C E (N\<lparr>nScriptCheckThreads := 0\<rparr>) D m block fJustCheck pindex prev F state s r = Inr ((True, state'), r')"
proof (cases "n = 0")
  case False
  let ?loop = "\<lambda>n. connect_loop V usage C (N\<lparr>nScriptCheckThreads := n\<rparr>) F (cr_heap r) m pindex 0 (vtx block) state"
  let ?fin = "\<lambda>n. connect_finish C E (N\<lparr>nScriptCheckThreads := n\<rparr>) D block fJustCheck pindex prev"
  have s: "s\<lparr>cs_checks := []\<rparr> = s" using assms by simp
  note q = connect_loop_queue [OF False, of V usage C N F "cr_heap r" m pindex 0 "vtx block" state s _ _ "[]", unfolded s]
  have body: "connect_body V usage C E (N\<lparr>nScriptCheckThreads := n\<rparr>) D m block fJustCheck pindex prev F state s r = Inr ((True, state'), r') \<longleftrightarrow>
      (\<exists>state2 s2. ?loop n s = Inr ((True, state2), s2) \<and> ?fin n state2 s2 (r\<lparr>cr_view := cs_view s2\<rparr>) = Inr ((True, state'), r'))" for n
    by (auto simp: connect_body_def ebind_eq_Inr Let_def split: if_splits)
  show ?thesis
    unfolding body
  proof
    assume "\<exists>state2 s2. ?loop n s = Inr ((True, state2), s2) \<and> ?fin n state2 s2 (r\<lparr>cr_view := cs_view s2\<rparr>) = Inr ((True, state'), r')"
    then obtain state2 s2 where r: "?loop n s = Inr ((True, state2), s2)" "?fin n state2 s2 (r\<lparr>cr_view := cs_view s2\<rparr>) = Inr ((True, state'), r')" by blast
    have ok: "run_checks C (cs_checks s2) = Inr True" using connect_finish_accepts [OF r(2)] by blast
    have "?loop 0 s = Inr ((True, state2), s2\<lparr>cs_checks := []\<rparr>)"
      unfolding q using r(1) ok assms by (auto intro!: exI [of _ "cs_checks s2"])
    moreover have "?fin 0 state2 (s2\<lparr>cs_checks := []\<rparr>) (r\<lparr>cr_view := cs_view (s2\<lparr>cs_checks := []\<rparr>)\<rparr>) = Inr ((True, state'), r')"
      using r(2) connect_finish_queue [where n = n and N = N and s = s2 and q = "[]"] ok
        connect_finish_queue [where n = 0 and N = N and s = "s2\<lparr>cs_checks := []\<rparr>" and q = "[]"] by simp
    ultimately show "\<exists>state2 s2. ?loop 0 s = Inr ((True, state2), s2) \<and> ?fin 0 state2 s2 (r\<lparr>cr_view := cs_view s2\<rparr>) = Inr ((True, state'), r')" by blast
  next
    assume "\<exists>state2 s2. ?loop 0 s = Inr ((True, state2), s2) \<and> ?fin 0 state2 s2 (r\<lparr>cr_view := cs_view s2\<rparr>) = Inr ((True, state'), r')"
    then obtain state2 s2 new where r: "cs_checks s2 = []" "?loop n s = Inr ((True, state2), s2\<lparr>cs_checks := new\<rparr>)" "run_checks C new = Inr True"
        "?fin 0 state2 s2 (r\<lparr>cr_view := cs_view s2\<rparr>) = Inr ((True, state'), r')"
      unfolding q using assms by auto
    have "?fin n state2 (s2\<lparr>cs_checks := new\<rparr>) (r\<lparr>cr_view := cs_view (s2\<lparr>cs_checks := new\<rparr>)\<rparr>) = Inr ((True, state'), r')"
      using r connect_finish_queue [where n = 0 and N = N and s = s2 and q = new]
        connect_finish_queue [where n = n and N = N and s = "s2\<lparr>cs_checks := new\<rparr>" and q = new] by simp
    then show "\<exists>state2 s2. ?loop n s = Inr ((True, state2), s2) \<and> ?fin n state2 s2 (r\<lparr>cr_view := cs_view s2\<rparr>) = Inr ((True, state'), r')"
      using r(2) by blast
  qed
qed simp

text \<open>Two computations have the same outcome of interest when their branches have it.\<close>

lemma same_outcome:
  "(\<And>x. f x = Some (Inr y) \<longleftrightarrow> g x = Some (Inr y)) \<Longrightarrow> obind a f = Some (Inr y) \<longleftrightarrow> obind a g = Some (Inr y)"
  "(z1 = z \<longleftrightarrow> z2 = z) \<Longrightarrow> (w1 = z \<longleftrightarrow> w2 = z) \<Longrightarrow> (if c then z1 else w1) = z \<longleftrightarrow> (if c then z2 else w2) = z"
  "(\<And>a b. h a b = z \<longleftrightarrow> k a b = z) \<Longrightarrow> (case p of (a, b) \<Rightarrow> h a b) = z \<longleftrightarrow> (case p of (a, b) \<Rightarrow> k a b) = z"
  "(z1 = z \<longleftrightarrow> z2 = z) \<Longrightarrow> (\<And>x. u x = z \<longleftrightarrow> v x = z) \<Longrightarrow>
     (case q of None \<Rightarrow> z1 | Some x \<Rightarrow> u x) = z \<longleftrightarrow> (case q of None \<Rightarrow> z2 | Some x \<Rightarrow> v x) = z"
  "(z1 = z \<longleftrightarrow> z2 = z) \<Longrightarrow> (w1 = z \<longleftrightarrow> w2 = z) \<Longrightarrow> (case c of True \<Rightarrow> z1 | False \<Rightarrow> w1) = z \<longleftrightarrow> (case c of True \<Rightarrow> z2 | False \<Rightarrow> w2) = z"
  "(\<And>a b. h' a b e = z \<longleftrightarrow> k' a b e = z) \<Longrightarrow> (case p of (a, b) \<Rightarrow> h' a b) e = z \<longleftrightarrow> (case p of (a, b) \<Rightarrow> k' a b) e = z"
  by (simp_all add: obind_eq_Inr split: prod.split option.split bool.split)

text \<open>C7: The number of script-checking threads does not matter: ConnectBlock accepts a block with a queue
  of n threads exactly when it accepts it with none, and then with the same state, view, index entries,
  undo data and writes.\<close>

theorem ConnectBlock_threads:
  "ConnectBlock V usage C E (N\<lparr>nScriptCheckThreads := n\<rparr>) D m block state pindex H view cache sizes fJustCheck = Some (Inr ((True, state'), r)) \<longleftrightarrow>
   ConnectBlock V usage C E (N\<lparr>nScriptCheckThreads := 0\<rparr>) D m block state pindex H view cache sizes fJustCheck = Some (Inr ((True, state'), r))"
  unfolding ConnectBlock_def Let_def
  by (intro same_outcome refl) (simp add: connect_body_queue [where n = n])

end
