(* ===== verification/Spec2Isabelle.thy ===== *)
theory Spec2Isabelle
  imports Verify CheckQueue ConnectSupply ConnectThreads
begin

text \<open>
  A verification development for the Pura/OIOCoin node (2018/Jiaozi-new/src), a C++ cryptocurrency
  node of the Bitcoin and Dash family.

  The program. A node keeps a chain of blocks of transactions. A transaction spends outputs of
  earlier transactions: each input carries a script that is run before the script of the output that
  it spends, and the spend is valid when the stack that results has a true top. Transactions are
  hashed and sent in a wire format, their values are 64-bit amounts, and blocks are accepted when
  their hash, as a number, is below a target. The development follows the consensus core of the node
  from the bytes up.

  The theories, in the order they build on each other:

  \<^item> Prelude: machine types, C++ division, vector accesses, little-endian bytes.
  \<^item> Opcodes: the opcodes, limits and error codes of script/script.h, script/script_error.h.
  \<^item> ScriptNum: the class CScriptNum of script/script.h, numbers on the stack.
  \<^item> Script: the class CScript of script/script.h and script/script.cpp. A script is its bytes, an
    iterator is the suffix it points at.
  \<^item> SigEncoding: the encoding checks of script/interpreter.cpp, and the record crypto of the
    cryptographic primitives, which are parameters.
  \<^item> Interpreter: EvalScript with all its cases, and VerifyScript. A result is a stack, a script
    error, an exception, a failed assertion or undefined behaviour, so that the absence of the last
    three is a theorem. The stack is a list whose head is the top.
  \<^item> EvalSafety: each case keeps the limits and ends as foreseen. The locale sig_checker is the
    interface of the evaluator to a signature checker.
  \<^item> Serialize: the wire format of serialize.h and the stream CDataStream of streams.h. The locale
    byte_stream is what a reader relies on; a plain byte string and CDataStream provide it.
  \<^item> Transaction: primitives/transaction.h, amount.h. The locale sort_order is what sorting and
    ordered maps rely on; the comparators of outpoints and of BIP69 provide it.
  \<^item> PubKey: the container CPubKey of pubkey.h.
  \<^item> SigHash: SignatureHash and TransactionSignatureChecker of script/interpreter.cpp, with the
    original algorithm, which the tests keep, as the reference. It interprets sig_checker.
  \<^item> Verify: what EvalScript and VerifyScript compute.
  \<^item> Uint256, UintBits: the big integers of arith_uint256.h and arith_uint256.cpp as lists of limbs, with
    their values: arithmetic, then shifts, division and the compact format of targets.
  \<^item> Chain: block headers (primitives/block.h), the block index and its chains (chain.h, chain.cpp). A
    pointer is an address in a heap of entries; wf_index says that the heap holds a tree.
  \<^item> ConsensusParams: the parameters of consensus/params.h with the values of the main network.
  \<^item> Pow: pow.cpp, the required target of a block, the check of its hash, and its work.
  \<^item> VersionBits: versionbits.cpp, the states of deployments with their cache. The locale threshold_rule
    is what the algorithm relies on in a deployment; the deployments of the main network provide it.
  \<^item> Merkle: consensus/merkle.cpp, with the tree level by level as its reference.
  \<^item> Coins: the unspent outputs of transactions and the cache of them, coins.h and coins.cpp. The locale
    coins_view is what every view of coins promises: a map from transactions to their unspent outputs.
    The empty view, the database and a cache on a view provide it.
  \<^item> Compressor: the stored form of coins and of undo data, compressor.h, compressor.cpp, undo.h.
  \<^item> CoinsDB: the key-value wrapper dbwrapper.h, the coins database txdb.cpp, and the cache on it as a
    refinement of the map.
  \<^item> BlockUndo: UpdateCoins, ApplyTxInUndo and DisconnectBlock of validation.cpp: what a block does to
    the coins, the undo data that it leaves, and that disconnecting with it restores the coins.
  \<^item> TxCheck: the checks of one transaction (validation.cpp, consensus/validation.h): by itself, its lock
    times, its signature operations, and the values that it spends.
  \<^item> Payments: what a coinbase may pay: the subsidy, the votes for the masternode of a block, superblocks,
    the outputs that a miner adds and the checks of them (masternode-payments.cpp, governance-classes.cpp).
  \<^item> BlockCheck: blocks (primitives/block.h) and their checks in validation.cpp: CheckBlock by itself, and the
    header and the transactions in their place in the tree of blocks, with the checkpoints.
  \<^item> ConnectBlock: ConnectBlock of validation.cpp, with CheckInputs, the rules in force, the reward, the
    entries of the indexes and the undo data. Files and databases are answers and a list of writes.
  \<^item> Supply, ConnectSupply: the sum of the values of all unspent outputs, and that a block which is
    connected raises it by no more than the subsidy and the superblock. They rest on coins_view.
  \<^item> ConnectThreads: a block is connected with a queue of script checks exactly when it is without.
  \<^item> CheckQueue: the queue of verifications of checkqueue.h as a step relation over the places of its
    threads: what Wait returns and that it returns, for every interleaving.

  Conventions. Exceptions, assertions and undefined behaviour are values of sum types. A loop is a
  recursive function with a termination proof; a loop that ends only where its input does (ReadVarInt)
  or that follows pointers is a partial function to option, and the theorems show that it returns. Integers
  are int or nat where the code cannot leave its range or where the wrap-around is written out, and
  words where bits matter. Sizes of C++ objects in memory are parameters.

  Not modelled: libsecp256k1, the hash functions (parameters of the record crypto), files, sockets, the
  threads other than those of the queue of script checks, the user interface, and the parts of the node
  that act on global state (the memory pool, the choice of the active chain and the other parts of
  validation, the network, the wallet). Floating-point priorities and printing are left out.
\<close>

end
